(* ===== verification/Go_Prelude.thy ===== *)
theory Go_Prelude
  imports Main "HOL-Library.Multiset" "HOL-Library.Product_Lexorder" "HOL-Library.Sublist"
begin

text \<open>
  Shared vocabulary of the development: the types that stand for the engine's basic Go types,
  the list loops that occur all over the code (a first-seen deduplication over a \<open>seen\<close> map,
  a stable descending sort) with the facts every client needs, and the collections of
  simplification rules the component theories extend.

  Go's \<open>int\<close> and \<open>time.Time\<close>/\<open>time.Duration\<close> are modelled by \<^typ>\<open>int\<close>; a Go string is its bytes,
  a \<^typ>\<open>string\<close> (list of 8-bit characters), so \<open>len\<close> is \<^const>\<open>length\<close>.
\<close>

named_theorems inv_intros \<open>preservation lemmas of the component invariants\<close>
named_theorems page_simps \<open>unfolding rules of the page-range arithmetic\<close>
named_theorems seen_simps \<open>facts about first-seen deduplication\<close>

type_synonym section_id = string
type_synonym document_id = string
type_synonym go_time = int
type_synonym go_duration = int

subsection \<open>Generic list facts\<close>

lemma map_filter_fundef_cong [fundef_cong]:
  "xs = ys \<Longrightarrow> (\<And>x. x \<in> set ys \<Longrightarrow> f x = g x) \<Longrightarrow> List.map_filter f xs = List.map_filter g ys"
  by (simp add: List.map_filter_def cong: filter_cong)

lemma set_map_filter: "set (List.map_filter f xs) = {y. \<exists>x \<in> set xs. f x = Some y}"
  by (induction xs) (auto simp: List.map_filter_simps split: option.splits)

lemma Max_image_mono:
  assumes "finite A" "A \<noteq> {}" "\<And>x. x \<in> A \<Longrightarrow> f x \<le> g x"
  shows "Max (f ` A) \<le> Max (g ` A)"
proof (rule Max.boundedI)
  fix y assume "y \<in> f ` A"
  then obtain x where "x \<in> A" "y = f x" by blast
  moreover from \<open>x \<in> A\<close> assms(1) have "g x \<le> Max (g ` A)" by simp
  ultimately show "y \<le> Max (g ` A)" using assms(3) by (blast intro: order_trans)
qed (use assms in auto)

lemma fold_concat_fold: "fold f (concat xss) st = fold (fold f) xss st"
  by (induction xss arbitrary: st) auto

lemma fold_append_concat: "fold (\<lambda>x out. out @ g x) xs out = out @ concat (map g xs)"
  by (induction xs arbitrary: out) auto

lemma fold_add_sum_list: "fold (\<lambda>x n. n + h x) xs n = n + sum_list (map h xs)" for n :: int
  by (induction xs arbitrary: n) auto

subsection \<open>First-seen deduplication\<close>

text \<open>
  The loop \<open>for _, x := range xs { if seen[key(x)] { continue }; seen[key(x)] = true; out = append(out, x) }\<close>.
  The \<open>seen\<close> map is the list of keys met so far.
\<close>

fun dedup_by :: "('a \<Rightarrow> 'k) \<Rightarrow> 'k list \<Rightarrow> 'a list \<Rightarrow> 'a list" where
  "dedup_by key seen [] = []"
| "dedup_by key seen (x # xs) =
     (if key x \<in> set seen then dedup_by key seen xs
      else x # dedup_by key (key x # seen) xs)"

lemma dedup_by_keys [seen_simps]:
  "key ` set (dedup_by key seen xs) = key ` set xs - set seen"
  by (induction key seen xs rule: dedup_by.induct) auto

lemma dedup_by_subset: "set (dedup_by key seen xs) \<subseteq> set xs"
  by (induction key seen xs rule: dedup_by.induct) auto

lemma dedup_by_distinct [seen_simps]:
  "distinct (map key (dedup_by key seen xs))"
proof (induction key seen xs rule: dedup_by.induct)
  case (2 key seen x xs)
  moreover have "key x \<notin> key ` set (dedup_by key (key x # seen) xs)"
    by (simp add: dedup_by_keys)
  ultimately show ?case by simp
qed simp

lemma dedup_by_subseq: "subseq (dedup_by key seen xs) xs"
  by (induction key seen xs rule: dedup_by.induct) auto

lemma dedup_by_id_set [seen_simps]: "set (dedup_by id [] xs) = set xs"
  using dedup_by_keys [of id "[]" xs] by simp

lemma dedup_by_id_distinct [seen_simps]: "distinct (dedup_by id seen xs)"
  using dedup_by_distinct [of id seen xs] by simp

lemma dedup_by_fresh: "distinct (map key xs) \<Longrightarrow> key ` set xs \<inter> set seen = {} \<Longrightarrow> dedup_by key seen xs = xs"
  by (induction key seen xs rule: dedup_by.induct) auto

lemma length_dedup_by_le: "length (dedup_by key seen xs) \<le> length xs"
  by (induction key seen xs rule: dedup_by.induct) auto

subsection \<open>Stable sorting, best first\<close>

text \<open>\<open>sort.SliceStable(xs, func(i, j) bool { return xs[i].P > xs[j].P })\<close>.\<close>

definition sort_desc :: "('a \<Rightarrow> 'b::{linorder, ordered_ab_group_add}) \<Rightarrow> 'a list \<Rightarrow> 'a list" where
  "sort_desc f xs = sort_key (\<lambda>x. - f x) xs"

lemma mset_sort_desc [simp]: "mset (sort_desc f xs) = mset xs"
  by (simp add: sort_desc_def)

lemma set_sort_desc [simp]: "set (sort_desc f xs) = set xs"
  by (simp add: sort_desc_def)

lemma length_sort_desc [simp]: "length (sort_desc f xs) = length xs"
  by (simp add: sort_desc_def)

lemma sort_desc_Nil [simp]: "sort_desc f [] = []"
  by (simp add: sort_desc_def)

lemma sort_desc_eq_Nil [simp]: "sort_desc f xs = [] \<longleftrightarrow> xs = []"
  by (metis length_0_conv length_sort_desc)

lemma sorted_sort_desc: "sorted_wrt (\<lambda>x y. f y \<le> f x) (sort_desc f xs)"
proof -
  have "sorted (map (\<lambda>x. - f x) (sort_desc f xs))"
    by (simp add: sort_desc_def)
  then show ?thesis
    by (simp add: sorted_map)
qed

lemma sort_desc_stable:
  "filter (\<lambda>x. f x = k) (sort_desc f xs) = filter (\<lambda>x. f x = k) xs"
proof -
  have "sorted (map (\<lambda>x. - f x) (filter (\<lambda>x. f x = k) xs))"
    by (induction xs) auto
  then have "sort_key (\<lambda>x. - f x) (filter (\<lambda>x. f x = k) xs) = filter (\<lambda>x. f x = k) xs"
    by (rule sort_key_id_if_sorted)
  then show ?thesis
    by (simp add: sort_desc_def filter_sort)
qed

lemma distinct_map_sort_desc [simp]: "distinct (map g (sort_desc f xs)) = distinct (map g xs)"
  by (metis mset_map mset_sort_desc mset_eq_imp_distinct_iff)

lemma sort_desc_head_max:
  assumes "sort_desc f xs = y # ys" and "x \<in> set xs"
  shows "f x \<le> f y"
proof -
  have "sorted_wrt (\<lambda>x y. f y \<le> f x) (y # ys)"
    using sorted_sort_desc [of f xs] assms(1) by simp
  moreover have "x \<in> set (y # ys)"
    using assms set_sort_desc [of f xs] by simp
  ultimately show ?thesis by auto
qed


subsection \<open>Sorting by a comparison\<close>

text \<open>
  \<open>sort.SliceStable\<close> with a comparison function: each element is inserted from the right past the
  elements it is less than, which is what the library does on up to twenty elements. For a
  comparison that orders by a key every stable sort gives this result, the one of \<open>sort_key\<close>.
  The sorted part is kept reversed.
\<close>

fun insert_back :: "('a \<Rightarrow> 'a \<Rightarrow> bool) \<Rightarrow> 'a \<Rightarrow> 'a list \<Rightarrow> 'a list" where
  "insert_back lt x [] = [x]"
| "insert_back lt x (y # ys) = (if lt x y then y # insert_back lt x ys else x # y # ys)"

definition stable_sort :: "('a \<Rightarrow> 'a \<Rightarrow> bool) \<Rightarrow> 'a list \<Rightarrow> 'a list" where
  "stable_sort lt xs = rev (fold (insert_back lt) xs [])"

lemma mset_insert_back [simp]: "mset (insert_back lt x ys) = add_mset x (mset ys)"
  by (induction ys) auto

lemma mset_fold_insert_back: "mset (fold (insert_back lt) xs ys) = mset xs + mset ys"
  by (induction xs arbitrary: ys) auto

lemma set_insert_back [simp]: "set (insert_back lt x ys) = insert x (set ys)"
  by (induction ys) auto

lemma mset_stable_sort [simp]: "mset (stable_sort lt xs) = mset xs"
  by (simp add: stable_sort_def mset_fold_insert_back)

lemma mset_map_stable_sort: "mset (map f (stable_sort lt xs)) = mset (map f xs)"
  by simp

lemma set_stable_sort [simp]: "set (stable_sort lt xs) = set xs"
  by (rule mset_eq_setD) simp

lemma length_stable_sort [simp]: "length (stable_sort lt xs) = length xs"
  by (rule mset_eq_length) simp

lemma distinct_map_stable_sort [simp]: "distinct (map f (stable_sort lt xs)) = distinct (map f xs)"
  by (metis mset_map mset_stable_sort mset_eq_imp_distinct_iff)

lemma insert_back_key:
  assumes "\<forall>y \<in> set ys. lt x y \<longleftrightarrow> f x < f y" "sorted (map f (rev ys))"
  shows "sorted (map f (rev (insert_back lt x ys)))
    \<and> filter (\<lambda>z. k = f z) (rev (insert_back lt x ys)) = filter (\<lambda>z. k = f z) (rev ys @ [x])"
  using assms
proof (induction ys)
  case (Cons y ys)
  have le: "\<forall>z \<in> set ys. f z \<le> f y" and ys: "sorted (map f (rev ys))"
    using Cons.prems(2) by (auto simp: sorted_append)
  show ?case
  proof (cases "lt x y")
    case True
    then have xy: "f x < f y" using Cons.prems(1) by simp
    have in_le: "\<forall>z \<in> set (insert_back lt x ys). f z \<le> f y"
      using le xy by simp
    have IH1: "sorted (map f (rev (insert_back lt x ys)))"
      and IH2: "filter (\<lambda>z. k = f z) (rev (insert_back lt x ys)) = filter (\<lambda>z. k = f z) (rev ys @ [x])"
      using Cons.IH Cons.prems(1) ys by auto
    have "sorted (map f (rev (insert_back lt x (y # ys))))"
      using True IH1 in_le by (simp add: sorted_append)
    moreover have "filter (\<lambda>z. k = f z) (rev (insert_back lt x (y # ys)))
        = filter (\<lambda>z. k = f z) (rev (insert_back lt x ys)) @ filter (\<lambda>z. k = f z) [y]"
      using True by simp
    then have "filter (\<lambda>z. k = f z) (rev (insert_back lt x (y # ys))) = filter (\<lambda>z. k = f z) (rev (y # ys) @ [x])"
      unfolding IH2 using xy by (cases "k = f x"; cases "k = f y") simp_all
    ultimately show ?thesis by blast
  next
    case False
    then have yx: "f y \<le> f x" using Cons.prems(1) by simp
    then have "\<forall>z \<in> set ys. f z \<le> f x" using le order_trans by blast
    with False le ys yx show ?thesis by (simp add: sorted_append)
  qed
qed simp

lemma stable_sort_key:
  assumes "\<forall>x \<in> set xs. \<forall>y \<in> set xs. lt x y \<longleftrightarrow> f x < f y"
  shows "stable_sort lt xs = sort_key f xs"
proof -
  have step: "sorted (map f (rev (fold (insert_back lt) ys acc)))
      \<and> (\<forall>k. filter (\<lambda>z. k = f z) (rev (fold (insert_back lt) ys acc)) = filter (\<lambda>z. k = f z) (rev acc @ ys))"
    if "set ys \<union> set acc \<subseteq> set xs" "sorted (map f (rev acc))" for ys acc
    using that
  proof (induction ys arbitrary: acc)
    case (Cons y ys)
    have key: "\<forall>z \<in> set acc. lt y z \<longleftrightarrow> f y < f z" using assms Cons.prems(1) by auto
    have sub: "set ys \<union> set (insert_back lt y acc) \<subseteq> set xs"
      using Cons.prems(1) by simp
    have srt: "sorted (map f (rev (insert_back lt y acc)))"
      using insert_back_key [where f = f and x = y and ys = acc and lt = lt] key Cons.prems(2) by blast
    have fil: "filter (\<lambda>z. k = f z) (rev (insert_back lt y acc)) = filter (\<lambda>z. k = f z) (rev acc @ [y])" for k
      using insert_back_key [where f = f and x = y and ys = acc and lt = lt and k = k] key Cons.prems(2) by blast
    show ?case using Cons.IH [OF sub srt] fil by simp
  qed auto
  have "sort_key f xs = stable_sort lt xs"
    using step [of xs "[]"] by (intro properties_for_sort_key) (auto simp: stable_sort_def mset_fold_insert_back)
  then show ?thesis by simp
qed


text \<open>What a strict weak order gives: no element is less than one before it.\<close>

definition weak_order_on :: "'a set \<Rightarrow> ('a \<Rightarrow> 'a \<Rightarrow> bool) \<Rightarrow> bool" where
  "weak_order_on S lt \<longleftrightarrow> (\<forall>x \<in> S. \<forall>y \<in> S. lt x y \<longrightarrow> \<not> lt y x)
     \<and> (\<forall>x \<in> S. \<forall>y \<in> S. \<forall>z \<in> S. \<not> lt y x \<longrightarrow> \<not> lt z y \<longrightarrow> \<not> lt z x)"

lemma weak_order_onD:
  "weak_order_on S lt \<Longrightarrow> x \<in> S \<Longrightarrow> y \<in> S \<Longrightarrow> lt x y \<Longrightarrow> \<not> lt y x"
  "weak_order_on S lt \<Longrightarrow> x \<in> S \<Longrightarrow> y \<in> S \<Longrightarrow> z \<in> S \<Longrightarrow> \<not> lt y x \<Longrightarrow> \<not> lt z y \<Longrightarrow> \<not> lt z x"
  unfolding weak_order_on_def by blast+

lemma insert_back_sorted:
  assumes "weak_order_on S lt" "insert x (set ys) \<subseteq> S" "sorted_wrt (\<lambda>a b. \<not> lt a b) ys"
  shows "sorted_wrt (\<lambda>a b. \<not> lt a b) (insert_back lt x ys)"
  using assms(2,3)
proof (induction ys)
  case (Cons y ys)
  have yS: "y \<in> S" "x \<in> S" "set ys \<subseteq> S" using Cons.prems(1) by auto
  show ?case
  proof (cases "lt x y")
    case True
    then have yx: "\<not> lt y x" using weak_order_onD(1) [OF assms(1)] yS by simp
    have "sorted_wrt (\<lambda>a b. \<not> lt a b) (insert_back lt x ys)"
      using Cons.IH Cons.prems yS by simp
    with True yx Cons.prems(2) show ?thesis by simp
  next
    case False
    have "\<not> lt x z" if "z \<in> set ys" for z
    proof -
      have "\<not> lt y z" "z \<in> S" using that Cons.prems yS by auto
      then show ?thesis using weak_order_onD(2) [OF assms(1), of z y x] False yS by simp
    qed
    with False Cons.prems(2) show ?thesis by simp
  qed
qed simp

lemma stable_sort_sorted:
  assumes "weak_order_on (set xs) lt"
  shows "sorted_wrt (\<lambda>a b. \<not> lt b a) (stable_sort lt xs)"
proof -
  have "sorted_wrt (\<lambda>a b. \<not> lt a b) (fold (insert_back lt) ys acc)"
    if "set ys \<union> set acc \<subseteq> set xs" "sorted_wrt (\<lambda>a b. \<not> lt a b) acc" for ys acc
    using that
  proof (induction ys arbitrary: acc)
    case (Cons y ys)
    have "sorted_wrt (\<lambda>a b. \<not> lt a b) (insert_back lt y acc)"
      using Cons.prems by (intro insert_back_sorted [OF assms]) auto
    with Cons show ?case by simp
  qed simp
  from this [of xs "[]"] show ?thesis
    by (simp add: stable_sort_def sorted_wrt_rev)
qed

subsection \<open>Concurrent calls\<close>

text \<open>
  Goroutines that each write their own slot and then meet at a wait are run one after the other, in
  any order: a schedule gives, for their number, the order in which they are served.
\<close>

definition schedule :: "(nat \<Rightarrow> nat list) \<Rightarrow> bool" where
  "schedule sched \<longleftrightarrow> (\<forall>n. distinct (sched n) \<and> set (sched n) = {0..<n})"

definition in_order :: "nat \<Rightarrow> nat list" where
  "in_order n = [0..<n]"

lemma schedule_in_order: "schedule in_order"
  by (simp add: schedule_def in_order_def)

end
