(* ===== verification/Cache_LRU.thy ===== *)
theory Cache_LRU
  imports Go_Prelude "HOL-Library.While_Combinator"
begin

text \<open>
  The in-memory LRU of \<open>pkg/cache/cache.go\<close>: a map from keys to list elements next to a recency
  list (front = most recent), with a TTL per entry and hit/miss/eviction counters. Elements have an
  identity (their number), so that the agreement between the map and the list is an invariant to be
  proved and not a consequence of the representation. Every method runs under the cache's mutex, so
  it is one atomic step. The clock is an argument.

  Below the operations: the invariant, an abstract recency list with the cache's promise written
  as plain list operations, the simulation lemmas, and the interface \<open>ttl_cache\<close> that the
  cache's clients (the replay store, the retrieval cache) are verified against.
\<close>

subsection \<open>State and operations\<close>

record 'v entry =
  ekey :: string
  evalue :: 'v
  expires_at :: go_time

record 'v lru =
  max_entries :: int
  items :: "string \<Rightarrow> nat option"
  recency :: "(nat \<times> 'v entry) list"
  next_element :: nat
  hits :: int
  misses :: int
  evictions :: int

record cache_stats =
  st_hits :: int
  st_misses :: int
  st_evictions :: int
  st_entries :: int
  st_max_entries :: int

definition new_lru :: "int \<Rightarrow> 'v lru" where
  "new_lru n = \<lparr>max_entries = (if n \<le> 0 then 1024 else n), items = Map.empty, recency = [],
     next_element = 0, hits = 0, misses = 0, evictions = 0\<rparr>"

definition remove_element :: "nat \<Rightarrow> 'v lru \<Rightarrow> 'v lru" where
  "remove_element el c =
     (case map_of (recency c) el of
        None \<Rightarrow> c
      | Some e \<Rightarrow> c\<lparr>recency := filter (\<lambda>(a, _). a \<noteq> el) (recency c),
                    items := (items c)(ekey e := None),
                    evictions := evictions c + 1\<rparr>)"

definition evict_oldest :: "'v lru \<Rightarrow> 'v lru" where
  "evict_oldest c = (if recency c = [] then c else remove_element (fst (last (recency c))) c)"

definition move_to_front :: "nat \<Rightarrow> 'v lru \<Rightarrow> 'v lru" where
  "move_to_front el c =
     (case map_of (recency c) el of
        None \<Rightarrow> c
      | Some e \<Rightarrow> c\<lparr>recency := (el, e) # filter (\<lambda>(a, _). a \<noteq> el) (recency c)\<rparr>)"

definition lru_get :: "go_time \<Rightarrow> string \<Rightarrow> 'v lru \<Rightarrow> 'v option \<times> 'v lru" where
  "lru_get now k c =
     (case items c k of
        None \<Rightarrow> (None, c\<lparr>misses := misses c + 1\<rparr>)
      | Some el \<Rightarrow>
          (case map_of (recency c) el of
             None \<Rightarrow> (None, c)
           | Some e \<Rightarrow>
               if expires_at e < now
               then let c' = remove_element el c in (None, c'\<lparr>misses := misses c' + 1\<rparr>)
               else let c' = move_to_front el c in (Some (evalue e), c'\<lparr>hits := hits c' + 1\<rparr>)))"

text \<open>
  \<open>for c.order.Len() >= c.maxEntries { c.evictOldest() }\<close>: a cache with no room and nothing to
  evict would spin, so the loop's result is an option.
\<close>

definition evict_to_fit :: "'v lru \<Rightarrow> 'v lru option" where
  "evict_to_fit c = while_option (\<lambda>c. max_entries c \<le> int (length (recency c))) evict_oldest c"

definition lru_set :: "go_time \<Rightarrow> string \<Rightarrow> 'v \<Rightarrow> go_duration \<Rightarrow> 'v lru \<Rightarrow> 'v lru option" where
  "lru_set now k v ttl c =
     (case items c k of
        Some el \<Rightarrow>
          let c' = move_to_front el c in
          Some (c'\<lparr>recency := map (\<lambda>(a, e). if a = el then (a, e\<lparr>evalue := v, expires_at := now + ttl\<rparr>)
                                            else (a, e)) (recency c')\<rparr>)
      | None \<Rightarrow>
          map_option (\<lambda>c'. c'\<lparr>recency := (next_element c', \<lparr>ekey = k, evalue = v, expires_at = now + ttl\<rparr>)
                                         # recency c',
                              items := (items c')(k \<mapsto> next_element c'),
                              next_element := Suc (next_element c')\<rparr>)
            (evict_to_fit c))"

definition lru_delete :: "string \<Rightarrow> 'v lru \<Rightarrow> 'v lru" where
  "lru_delete k c = (case items c k of None \<Rightarrow> c | Some el \<Rightarrow> remove_element el c)"

definition lru_len :: "'v lru \<Rightarrow> int" where
  "lru_len c = int (length (recency c))"

definition lru_clear :: "'v lru \<Rightarrow> 'v lru" where
  "lru_clear c = c\<lparr>items := Map.empty, recency := []\<rparr>"

definition lru_stats :: "'v lru \<Rightarrow> cache_stats" where
  "lru_stats c = \<lparr>st_hits = hits c, st_misses = misses c, st_evictions = evictions c,
     st_entries = int (length (recency c)), st_max_entries = max_entries c\<rparr>"

subsection \<open>Invariant\<close>

text \<open>
  The map and the list describe the same entries, no key and no element occurs twice, the list
  never exceeds the capacity, and element numbers not yet handed out are unused.
\<close>

definition index_ok :: "'v lru \<Rightarrow> bool" where
  "index_ok c \<longleftrightarrow>
     distinct (map fst (recency c)) \<and>
     distinct (map (\<lambda>(a, e). ekey e) (recency c)) \<and>
     (\<forall>k a. items c k = Some a \<longleftrightarrow> (\<exists>e. (a, e) \<in> set (recency c) \<and> ekey e = k)) \<and>
     (\<forall>(a, e) \<in> set (recency c). a < next_element c)"

definition lru_inv :: "'v lru \<Rightarrow> bool" where
  "lru_inv c \<longleftrightarrow> 0 < max_entries c \<and> int (length (recency c)) \<le> max_entries c \<and> index_ok c"

lemma index_okI:
  assumes "distinct (map fst (recency c))" "distinct (map (\<lambda>(a, e). ekey e) (recency c))"
    and "\<And>k a. items c k = Some a \<longleftrightarrow> (\<exists>e. (a, e) \<in> set (recency c) \<and> ekey e = k)"
    and "\<And>a e. (a, e) \<in> set (recency c) \<Longrightarrow> a < next_element c"
  shows "index_ok c"
  using assms by (auto simp: index_ok_def)

lemma index_okD:
  assumes "index_ok c"
  shows "distinct (map fst (recency c))" "distinct (map (\<lambda>(a, e). ekey e) (recency c))"
    and "items c k = Some a \<longleftrightarrow> (\<exists>e. (a, e) \<in> set (recency c) \<and> ekey e = k)"
    and "(a, e) \<in> set (recency c) \<Longrightarrow> a < next_element c"
  using assms by (auto simp: index_ok_def)

lemma recency_lookup: "index_ok c \<Longrightarrow> (a, e) \<in> set (recency c) \<Longrightarrow> map_of (recency c) a = Some e"
  by (simp add: index_okD(1))

lemma items_SomeE:
  assumes "index_ok c" "items c k = Some a"
  obtains e where "(a, e) \<in> set (recency c)" "ekey e = k" "map_of (recency c) a = Some e"
  using assms index_okD(3) recency_lookup by metis

lemma items_NoneD: "index_ok c \<Longrightarrow> items c k = None \<Longrightarrow> (a, e) \<in> set (recency c) \<Longrightarrow> ekey e \<noteq> k"
  by (metis index_okD(3) option.distinct(1))

subsection \<open>The abstract recency list\<close>

text \<open>
  What the cache promises: a list of (key, value, expiry), most recent first. A lookup moves the
  entry to the front or drops it when it has expired; a store puts the entry in front and, for a
  new key, keeps only as many of the older entries as leave it room: the least recently used go.
\<close>

type_synonym 'v recency_list = "(string \<times> 'v \<times> go_time) list"

definition abs_lru :: "'v lru \<Rightarrow> 'v recency_list" where
  "abs_lru c = map (\<lambda>(a, e). (ekey e, evalue e, expires_at e)) (recency c)"

definition spec_remove :: "string \<Rightarrow> 'v recency_list \<Rightarrow> 'v recency_list" where
  "spec_remove k l = filter (\<lambda>(k', _). k' \<noteq> k) l"

definition spec_get :: "go_time \<Rightarrow> string \<Rightarrow> 'v recency_list \<Rightarrow> 'v option \<times> 'v recency_list" where
  "spec_get now k l =
     (case map_of l k of
        None \<Rightarrow> (None, l)
      | Some (v, x) \<Rightarrow> if x < now then (None, spec_remove k l)
                       else (Some v, (k, v, x) # spec_remove k l))"

definition spec_set :: "int \<Rightarrow> go_time \<Rightarrow> string \<Rightarrow> 'v \<Rightarrow> go_duration \<Rightarrow> 'v recency_list \<Rightarrow> 'v recency_list" where
  "spec_set cap now k v ttl l =
     (k, v, now + ttl) #
       (case map_of l k of
          Some _ \<Rightarrow> spec_remove k l
        | None \<Rightarrow> take (nat cap - 1) l)"

subsection \<open>Simulation lemmas\<close>

lemma keys_abs: "map fst (abs_lru c) = map (\<lambda>(a, e). ekey e) (recency c)"
  by (simp add: abs_lru_def case_prod_beta comp_def)

lemma length_abs [simp]: "length (abs_lru c) = length (recency c)"
  by (simp add: abs_lru_def)

lemma map_of_abs_Some:
  assumes "index_ok c" "(a, e) \<in> set (recency c)"
  shows "map_of (abs_lru c) (ekey e) = Some (evalue e, expires_at e)"
proof (rule map_of_is_SomeI)
  show "distinct (map fst (abs_lru c))"
    using assms(1) by (simp add: keys_abs index_okD(2))
  show "(ekey e, evalue e, expires_at e) \<in> set (abs_lru c)"
    using assms(2) by (force simp: abs_lru_def)
qed

lemma map_of_abs_None: "index_ok c \<Longrightarrow> items c k = None \<Longrightarrow> map_of (abs_lru c) k = None"
  by (force simp: map_of_eq_None_iff abs_lru_def dest: items_NoneD)

lemma abs_filter:
  assumes ok: "index_ok c" and el: "(a, e) \<in> set (recency c)"
  shows "map (\<lambda>(a, e). (ekey e, evalue e, expires_at e)) (filter (\<lambda>(a', _). a' \<noteq> a) (recency c))
         = spec_remove (ekey e) (abs_lru c)"
proof -
  have "a' \<noteq> a \<longleftrightarrow> ekey e' \<noteq> ekey e" if "(a', e') \<in> set (recency c)" for a' e'
    using that el ok by (metis index_okD(3) option.inject recency_lookup)
  then have "filter (\<lambda>(a', _). a' \<noteq> a) (recency c)
      = filter (\<lambda>(_, e'). ekey e' \<noteq> ekey e) (recency c)"
    by (intro filter_cong) auto
  then show ?thesis
    by (simp add: spec_remove_def abs_lru_def filter_map comp_def case_prod_unfold)
qed

lemma remove_element_eq:
  assumes "index_ok c" "(a, e) \<in> set (recency c)"
  shows "remove_element a c =
    c\<lparr>recency := filter (\<lambda>(a', _). a' \<noteq> a) (recency c), items := (items c)(ekey e := None),
      evictions := evictions c + 1\<rparr>"
  using recency_lookup [OF assms] by (simp add: remove_element_def)

lemma abs_remove_element:
  assumes "index_ok c" "(a, e) \<in> set (recency c)"
  shows "abs_lru (remove_element a c) = spec_remove (ekey e) (abs_lru c)"
  using remove_element_eq [OF assms] abs_filter [OF assms] by (simp add: abs_lru_def)

lemma distinct_map_filterI: "distinct (map f xs) \<Longrightarrow> distinct (map f (filter P xs))"
  by (induction xs) auto

lemma key_el_unique:
  assumes "index_ok c" "(a, e) \<in> set (recency c)" "(a', e') \<in> set (recency c)"
  shows "ekey e' = ekey e \<longleftrightarrow> a' = a"
  using assms by (metis index_okD(3) option.inject recency_lookup)

lemma index_ok_remove_element [inv_intros]:
  assumes ok: "index_ok c"
  shows "index_ok (remove_element a c)"
proof (cases "map_of (recency c) a")
  case None
  with ok show ?thesis by (simp add: remove_element_def)
next
  case (Some e)
  then have el: "(a, e) \<in> set (recency c)"
    by (rule map_of_SomeD)
  show ?thesis
    unfolding remove_element_eq [OF ok el]
  proof (rule index_okI, goal_cases)
    case 1 show ?case using index_okD(1) [OF ok] by (simp add: distinct_map_filterI)
  next
    case 2 show ?case using index_okD(2) [OF ok] by (simp add: distinct_map_filterI)
  next
    case (3 k b)
    show ?case
      using key_el_unique [OF ok el] index_okD(3) [OF ok, of k b] el by auto
  next
    case (4 b e')
    then have "(b, e') \<in> set (recency c)" by simp
    then show ?case using index_okD(4) [OF ok, of b e'] by simp
  qed
qed

lemma move_to_front_eq:
  assumes "index_ok c" "(a, e) \<in> set (recency c)"
  shows "move_to_front a c = c\<lparr>recency := (a, e) # filter (\<lambda>(a', _). a' \<noteq> a) (recency c)\<rparr>"
  using recency_lookup [OF assms] by (simp add: move_to_front_def)

lemma set_move_to_front:
  assumes "index_ok c" "(a, e) \<in> set (recency c)"
  shows "set (recency (move_to_front a c)) = set (recency c)"
proof -
  have same: "e' = e" if "(a, e') \<in> set (recency c)" for e'
    using that recency_lookup [OF assms(1) that] recency_lookup [OF assms] by simp
  have "(b, e') \<in> insert (a, e) {x \<in> set (recency c). fst x \<noteq> a} \<longleftrightarrow> (b, e') \<in> set (recency c)" for b e'
    using assms(2) same [of e'] by (cases "b = a") auto
  then have "insert (a, e) {x \<in> set (recency c). fst x \<noteq> a} = set (recency c)"
    by (intro set_eqI) (simp only: split_paired_all)
  then show ?thesis
    by (simp add: move_to_front_eq [OF assms] case_prod_unfold)
qed

lemma length_move_to_front:
  assumes "index_ok c" "(a, e) \<in> set (recency c)"
  shows "length (recency (move_to_front a c)) = length (recency c)"
proof -
  have "distinct (recency (move_to_front a c))" "distinct (recency c)"
    using index_okD(1) [OF assms(1)]
    by (auto simp: move_to_front_eq [OF assms] distinct_map)
  then show ?thesis
    by (metis set_move_to_front [OF assms] distinct_card)
qed

lemma index_ok_move_to_front [inv_intros]:
  assumes ok: "index_ok c" and el: "(a, e) \<in> set (recency c)"
  shows "index_ok (move_to_front a c)"
proof (rule index_okI, goal_cases)
  case 1
  show ?case using index_okD(1) [OF ok]
    by (auto simp: move_to_front_eq [OF ok el] distinct_map_filterI)
next
  case 2
  have "ekey e \<notin> (\<lambda>(a, e). ekey e) ` set (filter (\<lambda>(a', _). a' \<noteq> a) (recency c))"
    using key_el_unique [OF ok el] by fastforce
  then show ?case using index_okD(2) [OF ok]
    by (simp add: move_to_front_eq [OF ok el] distinct_map_filterI)
next
  case (3 k b)
  show ?case
    using index_okD(3) [OF ok] set_move_to_front [OF ok el]
    by (simp add: move_to_front_eq [OF ok el])
next
  case (4 b e')
  then have "(b, e') \<in> set (recency c)"
    using set_move_to_front [OF ok el] by simp
  then show ?case
    using index_okD(4) [OF ok, of b e'] by (simp add: move_to_front_eq [OF ok el])
qed

lemma abs_move_to_front:
  assumes "index_ok c" "(a, e) \<in> set (recency c)"
  shows "abs_lru (move_to_front a c) =
    (ekey e, evalue e, expires_at e) # spec_remove (ekey e) (abs_lru c)"
  using abs_filter [OF assms] by (simp add: move_to_front_eq [OF assms] abs_lru_def)

subsection \<open>The simulation, operation by operation\<close>

lemma lru_invD: "lru_inv c \<Longrightarrow> index_ok c" "lru_inv c \<Longrightarrow> 0 < max_entries c"
  "lru_inv c \<Longrightarrow> int (length (recency c)) \<le> max_entries c"
  by (auto simp: lru_inv_def)

text \<open>Counters and the element supply are irrelevant to the invariant and the abstraction.\<close>

lemma counters_irrelevant [simp]:
  "index_ok (c\<lparr>hits := h\<rparr>) = index_ok c" "index_ok (c\<lparr>misses := m\<rparr>) = index_ok c"
  "abs_lru (c\<lparr>hits := h\<rparr>) = abs_lru c" "abs_lru (c\<lparr>misses := m\<rparr>) = abs_lru c"
  "lru_inv (c\<lparr>hits := h\<rparr>) = lru_inv c" "lru_inv (c\<lparr>misses := m\<rparr>) = lru_inv c"
  by (auto simp: index_ok_def abs_lru_def lru_inv_def)

lemma max_entries_frame [simp]:
  "max_entries (remove_element a c) = max_entries c" "max_entries (move_to_front a c) = max_entries c"
  "max_entries (evict_oldest c) = max_entries c"
  by (auto simp: remove_element_def move_to_front_def evict_oldest_def split: option.splits)

lemma length_remove_element_le: "length (recency (remove_element a c)) \<le> length (recency c)"
  by (auto simp: remove_element_def split: option.splits)

lemma lru_inv_remove_element [inv_intros]: "lru_inv c \<Longrightarrow> lru_inv (remove_element a c)"
  using length_remove_element_le [of a c] by (auto simp: lru_inv_def inv_intros)

lemma lru_inv_move_to_front [inv_intros]:
  "lru_inv c \<Longrightarrow> (a, e) \<in> set (recency c) \<Longrightarrow> lru_inv (move_to_front a c)"
  using length_move_to_front [of c a e] by (auto simp: lru_inv_def inv_intros)

lemma lru_inv_get [inv_intros]:
  assumes "lru_inv c"
  shows "lru_inv (snd (lru_get now k c))"
proof (cases "items c k")
  case None
  with assms show ?thesis by (simp add: lru_get_def)
next
  case (Some a)
  then obtain e where "(a, e) \<in> set (recency c)" "map_of (recency c) a = Some e"
    using items_SomeE [OF lru_invD(1) [OF assms]] by metis
  with Some assms show ?thesis
    by (simp add: lru_get_def Let_def inv_intros)
qed

lemma lru_get_simulates:
  assumes "lru_inv c"
  shows "spec_get now k (abs_lru c) = (fst (lru_get now k c), abs_lru (snd (lru_get now k c)))"
proof (cases "items c k")
  case None
  with assms show ?thesis
    by (simp add: lru_get_def spec_get_def map_of_abs_None lru_invD)
next
  case (Some a)
  then obtain e where e: "(a, e) \<in> set (recency c)" "map_of (recency c) a = Some e" "ekey e = k"
    using items_SomeE [OF lru_invD(1) [OF assms]] by metis
  note ok = lru_invD(1) [OF assms]
  show ?thesis
    using Some e map_of_abs_Some [OF ok e(1)] abs_remove_element [OF ok e(1)]
      abs_move_to_front [OF ok e(1)]
    by (simp add: lru_get_def spec_get_def Let_def)
qed

lemma lru_delete_simulates:
  assumes "lru_inv c"
  shows "lru_inv (lru_delete k c)" "abs_lru (lru_delete k c) = spec_remove k (abs_lru c)"
proof -
  note ok = lru_invD(1) [OF assms]
  show "lru_inv (lru_delete k c)"
    using assms by (simp add: lru_delete_def inv_intros split: option.splits)
  show "abs_lru (lru_delete k c) = spec_remove k (abs_lru c)"
  proof (cases "items c k")
    case None
    then have "k \<notin> fst ` set (abs_lru c)"
      using map_of_abs_None [OF ok None] by (simp add: map_of_eq_None_iff)
    then show ?thesis
      using None by (force simp: lru_delete_def spec_remove_def intro!: filter_True [symmetric])
  next
    case (Some a)
    then obtain e where "(a, e) \<in> set (recency c)" "ekey e = k"
      using items_SomeE [OF ok] by metis
    with Some abs_remove_element [OF ok] show ?thesis
      by (auto simp: lru_delete_def)
  qed
qed

lemma evict_oldest_abs:
  assumes ok: "index_ok c" and ne: "recency c \<noteq> []"
  shows "abs_lru (evict_oldest c) = butlast (abs_lru c)" "index_ok (evict_oldest c)"
proof -
  obtain a e where last: "last (recency c) = (a, e)" by force
  with ne have split: "recency c = butlast (recency c) @ [(a, e)]"
    by (metis append_butlast_last_id)
  then have el: "(a, e) \<in> set (recency c)"
    by (metis in_set_conv_decomp)
  have "distinct (map fst (butlast (recency c) @ [(a, e)]))"
    using index_okD(1) [OF ok] split by metis
  then have "filter (\<lambda>(a', _). a' \<noteq> a) (butlast (recency c)) = butlast (recency c)"
    by (intro filter_True) force
  then have "filter (\<lambda>(a', _). a' \<noteq> a) (recency c) = butlast (recency c)"
    by (subst split) simp
  then show "abs_lru (evict_oldest c) = butlast (abs_lru c)"
    using ne last by (simp add: evict_oldest_def remove_element_eq [OF ok el] abs_lru_def map_butlast)
  show "index_ok (evict_oldest c)"
    using ok by (simp add: evict_oldest_def inv_intros)
qed

lemma evict_to_fit_Some:
  assumes "index_ok c" "0 < max_entries c"
  shows "\<exists>c'. evict_to_fit c = Some c' \<and> index_ok c' \<and> max_entries c' = max_entries c
    \<and> next_element c' = next_element c
    \<and> abs_lru c' = take (nat (max_entries c) - 1) (abs_lru c)
    \<and> (\<forall>k. items c k = None \<longrightarrow> items c' k = None)"
  using assms
proof (induction "length (recency c)" arbitrary: c)
  case 0
  then show ?case by (simp add: evict_to_fit_def while_option_unfold abs_lru_def)
next
  case (Suc n)
  show ?case
  proof (cases "max_entries c \<le> int (length (recency c))")
    case False
    then have "length (abs_lru c) \<le> nat (max_entries c) - 1" by simp
    with False Suc.prems show ?thesis
      by (simp add: evict_to_fit_def while_option_unfold)
  next
    case True
    have ne: "recency c \<noteq> []" using Suc.hyps(2) by auto
    note step = evict_oldest_abs [OF Suc.prems(1) ne]
    have len: "length (recency (evict_oldest c)) = n"
      using Suc.hyps(2) step(1) by (metis length_abs length_butlast diff_Suc_1)
    have frame: "next_element (evict_oldest c) = next_element c"
      "\<And>k. items c k = None \<Longrightarrow> items (evict_oldest c) k = None"
      by (auto simp: evict_oldest_def remove_element_def split: option.splits)
    have "take (nat (max_entries c) - 1) (butlast (abs_lru c)) = take (nat (max_entries c) - 1) (abs_lru c)"
      using True Suc.prems(2) by (simp add: butlast_conv_take min_def)
    with Suc.hyps(1) [of "evict_oldest c"] len step Suc.prems True frame show ?thesis
      by (auto simp: evict_to_fit_def while_option_unfold [of _ _ c])
  qed
qed

lemma lru_set_Some_items:
  assumes "lru_inv c" "items c k = Some a"
  shows "\<exists>c'. lru_set now k v ttl c = Some c' \<and> lru_inv c'
    \<and> abs_lru c' = (k, v, now + ttl) # spec_remove k (abs_lru c)"
proof -
  note ok = lru_invD(1) [OF assms(1)]
  obtain e where e: "(a, e) \<in> set (recency c)" "ekey e = k"
    using items_SomeE [OF ok assms(2)] by metis
  let ?upd = "\<lambda>(b, e'). if b = a then (b, e'\<lparr>evalue := v, expires_at := now + ttl\<rparr>) else (b, e')"
  let ?old = "filter (\<lambda>(b, _). b \<noteq> a) (recency c)"
  have rest: "map ?upd ?old = ?old"
    by (rule map_idI) (auto split: prod.splits)
  define c' where "c' = c\<lparr>recency := (a, e\<lparr>evalue := v, expires_at := now + ttl\<rparr>) # ?old\<rparr>"
  have set: "lru_set now k v ttl c = Some c'"
    using assms(2) rest by (simp add: lru_set_def Let_def move_to_front_eq [OF ok e(1)] c'_def)
  note front = lru_inv_move_to_front [OF assms(1) e(1)]
  have shape: "map fst (recency c') = map fst (recency (move_to_front a c))"
    "map (\<lambda>(a, e). ekey e) (recency c') = map (\<lambda>(a, e). ekey e) (recency (move_to_front a c))"
    by (auto simp: c'_def move_to_front_eq [OF ok e(1)])
  have "lru_inv c'"
  proof -
    have "index_ok c'"
    proof (rule index_okI, goal_cases)
      case 1 show ?case using index_okD(1) [OF lru_invD(1) [OF front]] shape by simp
    next
      case 2 show ?case using index_okD(2) [OF lru_invD(1) [OF front]] shape by simp
    next
      case (3 j b)
      have "items c j = Some a \<longleftrightarrow> j = k"
        using index_okD(3) [OF ok, of j a] e recency_lookup [OF ok]
        by (metis option.inject)
      then show ?case
        using index_okD(3) [OF ok, of j b] e(2) by (cases "b = a") (auto simp: c'_def)
    next
      case (4 b e')
      then show ?case
        using e(1) index_okD(4) [OF ok, of b] by (auto simp: c'_def dest: index_okD(4) [OF ok])
    qed
    moreover have "length (recency c') = length (recency c)"
      using length_move_to_front [OF ok e(1)] shape(1) by (metis length_map)
    ultimately show ?thesis using assms(1) by (simp add: lru_inv_def c'_def)
  qed
  moreover have "abs_lru c' = (k, v, now + ttl) # spec_remove k (abs_lru c)"
    using abs_filter [OF ok e(1)] e(2) by (simp add: c'_def abs_lru_def)
  ultimately show ?thesis using set by blast
qed

lemma lru_set_None_items:
  assumes "lru_inv c" "items c k = None"
  shows "\<exists>c'. lru_set now k v ttl c = Some c' \<and> lru_inv c'
    \<and> abs_lru c' = (k, v, now + ttl) # take (nat (max_entries c) - 1) (abs_lru c)"
proof -
  obtain d where d: "evict_to_fit c = Some d" "index_ok d" "max_entries d = max_entries c"
    "abs_lru d = take (nat (max_entries c) - 1) (abs_lru c)" "items d k = None"
    using evict_to_fit_Some [OF lru_invD(1,2) [OF assms(1)]] assms(2) by blast
  let ?e = "\<lparr>ekey = k, evalue = v, expires_at = now + ttl\<rparr>"
  define c' where "c' = d\<lparr>recency := (next_element d, ?e) # recency d,
    items := (items d)(k \<mapsto> next_element d), next_element := Suc (next_element d)\<rparr>"
  have "index_ok c'"
  proof (rule index_okI, goal_cases)
    case 1 show ?case using index_okD(1,4) [OF d(2)] by (fastforce simp: c'_def)
  next
    case 2 show ?case using index_okD(2) [OF d(2)] items_NoneD [OF d(2,5)] by (fastforce simp: c'_def)
  next
    case (3 j b)
    then show ?case
      using index_okD(3) [OF d(2), of j b] items_NoneD [OF d(2,5)] by (auto simp: c'_def)
  next
    case (4 b e')
    then show ?case using index_okD(4) [OF d(2), of b e'] by (auto simp: c'_def)
  qed
  moreover have "int (length (recency c')) \<le> max_entries c'"
  proof -
    have "length (recency d) \<le> nat (max_entries c) - 1"
      using d(4) by (metis length_abs length_take min.cobounded2)
    then show ?thesis using d(3) lru_invD(2) [OF assms(1)] by (simp add: c'_def)
  qed
  ultimately have "lru_inv c'"
    using d(3) lru_invD(2) [OF assms(1)] by (simp add: lru_inv_def c'_def)
  moreover have "lru_set now k v ttl c = Some c'"
    using assms(2) d(1) by (simp add: lru_set_def c'_def)
  moreover have "abs_lru c' = (k, v, now + ttl) # take (nat (max_entries c) - 1) (abs_lru c)"
    using d(4) by (simp add: c'_def abs_lru_def)
  ultimately show ?thesis by blast
qed

lemma lru_set_simulates:
  assumes "lru_inv c"
  shows "\<exists>c'. lru_set now k v ttl c = Some c' \<and> lru_inv c'
    \<and> abs_lru c' = spec_set (max_entries c) now k v ttl (abs_lru c)"
proof (cases "items c k")
  case None
  with lru_set_None_items [OF assms None] map_of_abs_None [OF lru_invD(1) [OF assms] None]
  show ?thesis by (simp add: spec_set_def)
next
  case (Some a)
  then obtain e where "(a, e) \<in> set (recency c)" "ekey e = k"
    using items_SomeE [OF lru_invD(1) [OF assms]] by metis
  with map_of_abs_Some [OF lru_invD(1) [OF assms]] lru_set_Some_items [OF assms Some]
  show ?thesis by (fastforce simp: spec_set_def)
qed

lemma max_entries_set: "lru_set now k v ttl c = Some c' \<Longrightarrow> max_entries c' = max_entries c"
proof -
  have "evict_to_fit c = Some d \<Longrightarrow> max_entries d = max_entries c" for d
    unfolding evict_to_fit_def
    by (rule while_option_rule [where P = "\<lambda>d. max_entries d = max_entries c"]) auto
  then show "lru_set now k v ttl c = Some c' \<Longrightarrow> max_entries c' = max_entries c"
    by (auto simp: lru_set_def Let_def split: option.splits)
qed

subsection \<open>The interface the clients rely on\<close>

text \<open>
  A client (the replay store, the retrieval cache, the planner) uses \<open>Get\<close> and \<open>Set\<close> only, and
  relies on this much: neither breaks the cache, a store always returns, a hit is an unexpired
  binding, a lookup never adds or changes a binding, and a store binds its own key and may drop
  others. \<open>view\<close> is the bindings the cache holds.
\<close>

locale ttl_cache =
  fixes get :: "go_time \<Rightarrow> string \<Rightarrow> 'c \<Rightarrow> 'v option \<times> 'c"
    and put :: "go_time \<Rightarrow> string \<Rightarrow> 'v \<Rightarrow> go_duration \<Rightarrow> 'c \<Rightarrow> 'c option"
    and ok :: "'c \<Rightarrow> bool"
    and view :: "'c \<Rightarrow> string \<Rightarrow> ('v \<times> go_time) option"
  assumes get_ok: "ok c \<Longrightarrow> ok (snd (get now k c))"
    and put_ok: "ok c \<Longrightarrow> \<exists>c'. put now k v ttl c = Some c' \<and> ok c'"
    and get_iff: "ok c \<Longrightarrow> fst (get now k c) = Some v \<longleftrightarrow> (\<exists>x. view c k = Some (v, x) \<and> now \<le> x)"
    and get_view: "ok c \<Longrightarrow> view (snd (get now k c)) \<subseteq>\<^sub>m view c"
    and get_keeps: "ok c \<Longrightarrow> fst (get now k c) = Some v \<Longrightarrow> view (snd (get now k c)) = view c"
    and put_view: "ok c \<Longrightarrow> put now k v ttl c = Some c' \<Longrightarrow> view c' \<subseteq>\<^sub>m (view c)(k \<mapsto> (v, now + ttl))"
    and put_binds: "ok c \<Longrightarrow> put now k v ttl c = Some c' \<Longrightarrow> view c' k = Some (v, now + ttl)"
begin

text \<open>A property of every (key, value) the cache holds survives both operations.\<close>

definition all_held :: "(string \<Rightarrow> 'v \<Rightarrow> bool) \<Rightarrow> 'c \<Rightarrow> bool" where
  "all_held P c \<longleftrightarrow> (\<forall>k v x. view c k = Some (v, x) \<longrightarrow> P k v)"

lemma all_held_get: "ok c \<Longrightarrow> all_held P c \<Longrightarrow> all_held P (snd (get now k c))"
  unfolding all_held_def by (metis domI get_view map_le_def)

lemma all_held_put:
  assumes "ok c" "all_held P c" "P k v" "put now k v ttl c = Some c'"
  shows "all_held P c'"
  unfolding all_held_def
proof (intro allI impI)
  fix j w x
  assume "view c' j = Some (w, x)"
  then have "((view c)(k \<mapsto> (v, now + ttl))) j = Some (w, x)"
    using put_view [OF assms(1,4)] by (force simp: map_le_def)
  with assms(2,3) show "P j w"
    by (auto simp: all_held_def split: if_splits)
qed

lemma hit_held: "ok c \<Longrightarrow> all_held P c \<Longrightarrow> fst (get now k c) = Some v \<Longrightarrow> P k v"
  by (auto simp: all_held_def get_iff)

lemma get_after_put:
  assumes "ok c" "put now k v ttl c = Some c'" "later \<le> now + ttl"
  shows "fst (get later k c') = Some v"
  using assms put_ok [OF assms(1), of now k v ttl] put_binds [OF assms(1,2)] by (auto simp: get_iff)

lemma miss_after_expiry:
  assumes "ok c" "put now k v ttl c = Some c'" "now + ttl < later"
  shows "fst (get later k c') = None"
proof -
  have "ok c'" using assms put_ok [OF assms(1), of now k v ttl] by auto
  then have "fst (get later k c') \<noteq> Some w" for w
    using put_binds [OF assms(1,2)] assms(3) by (auto simp: get_iff)
  then show ?thesis by (cases "fst (get later k c')") auto
qed

end

definition lru_view :: "'v lru \<Rightarrow> string \<Rightarrow> ('v \<times> go_time) option" where
  "lru_view c = map_of (abs_lru c)"

lemma map_of_spec_remove: "map_of (spec_remove k l) = (map_of l)(k := None)"
  by (induction l) (auto simp: spec_remove_def)

lemma map_of_take_le:
  assumes "distinct (map fst l)"
  shows "map_of (take n l) \<subseteq>\<^sub>m map_of l"
proof -
  have "distinct (map fst (take n l))"
    using assms by (simp add: take_map [symmetric])
  then show ?thesis
    using assms by (auto simp: map_le_def dom_map_of_conv_image_fst dest: in_set_takeD)
qed

lemma distinct_keys_abs: "index_ok c \<Longrightarrow> distinct (map fst (abs_lru c))"
  by (simp add: keys_abs index_okD(2))

lemma spec_get_view:
  shows "map_of (snd (spec_get now k l)) \<subseteq>\<^sub>m map_of l"
    and "fst (spec_get now k l) = Some v \<Longrightarrow> map_of (snd (spec_get now k l)) = map_of l"
    and "fst (spec_get now k l) = Some v \<longleftrightarrow> (\<exists>x. map_of l k = Some (v, x) \<and> now \<le> x)"
  by (auto simp: spec_get_def map_of_spec_remove map_le_def split: option.splits if_splits)

lemma lru_view_get:
  assumes "lru_inv c"
  shows "fst (lru_get now k c) = Some v \<longleftrightarrow> (\<exists>x. lru_view c k = Some (v, x) \<and> now \<le> x)"
    and "lru_view (snd (lru_get now k c)) \<subseteq>\<^sub>m lru_view c"
    and "fst (lru_get now k c) = Some v \<Longrightarrow> lru_view (snd (lru_get now k c)) = lru_view c"
  using spec_get_view [of now k "abs_lru c"] lru_get_simulates [OF assms, of now k]
  by (auto simp: lru_view_def)

lemma lru_view_set:
  assumes "lru_inv c" "lru_set now k v ttl c = Some c'"
  shows "lru_view c' \<subseteq>\<^sub>m (lru_view c)(k \<mapsto> (v, now + ttl))" "lru_view c' k = Some (v, now + ttl)"
proof -
  have abs: "abs_lru c' = spec_set (max_entries c) now k v ttl (abs_lru c)"
    using lru_set_simulates [OF assms(1), of now k v ttl] assms(2) by auto
  note take = map_of_take_le [OF distinct_keys_abs [OF lru_invD(1) [OF assms(1)]]]
  show "lru_view c' k = Some (v, now + ttl)"
    by (simp add: lru_view_def abs spec_set_def)
  show "lru_view c' \<subseteq>\<^sub>m (lru_view c)(k \<mapsto> (v, now + ttl))"
    using take [of "nat (max_entries c) - 1"]
    by (auto simp: lru_view_def abs spec_set_def map_of_spec_remove map_le_def split: option.splits)
qed

interpretation lru: ttl_cache lru_get lru_set lru_inv lru_view
proof (unfold_locales, goal_cases)
  case 1 then show ?case by (rule lru_inv_get)
next
  case (2 c now k v ttl)
  then show ?case using lru_set_simulates [of c now k v ttl] by blast
next
  case 3 then show ?case by (rule lru_view_get(1))
next
  case 4 then show ?case by (rule lru_view_get(2))
next
  case 5 then show ?case by (rule lru_view_get(3))
next
  case 6 then show ?case by (rule lru_view_set(1))
next
  case 7 then show ?case by (rule lru_view_set(2))
qed

subsection \<open>Properties\<close>

text \<open>
  Looking a key up does to the cache's recency list exactly what its contract says: an
  unexpired entry is returned and becomes the most recent, an expired one is dropped and reported
  as missing, a missing key changes nothing; and the cache stays well formed.
\<close>

theorem lru_get_refines:
  assumes "lru_inv c"
  shows "spec_get now k (abs_lru c) = (fst (lru_get now k c), abs_lru (snd (lru_get now k c)))
    \<and> lru_inv (snd (lru_get now k c))"
  using assms lru_get_simulates lru_inv_get by blast

text \<open>
  C19. A store always returns (the eviction loop stops), leaves the cache well formed and within its
  capacity, and acts on the recency list as its contract says: the entry goes in front with expiry
  \<open>now + ttl\<close>, and for a new key the least recently used entries beyond the capacity are dropped.
\<close>

theorem lru_set_refines:
  assumes "lru_inv c"
  shows "\<exists>c'. lru_set now k v ttl c = Some c' \<and> lru_inv c'
    \<and> abs_lru c' = spec_set (max_entries c) now k v ttl (abs_lru c)
    \<and> lru_len c' \<le> max_entries c"
proof -
  obtain c' where c': "lru_set now k v ttl c = Some c'" "lru_inv c'"
    "abs_lru c' = spec_set (max_entries c) now k v ttl (abs_lru c)"
    using lru_set_simulates [OF assms] by blast
  with max_entries_set [OF c'(1)] lru_invD(3) [OF c'(2)] show ?thesis
    by (auto simp: lru_len_def)
qed

text \<open>
  A value stored for a key is what the next lookup of that key returns, up to and including
  the instant it expires, and after that instant the lookup reports a miss.
\<close>

theorem lru_set_then_get:
  assumes "lru_inv c" "lru_set now k v ttl c = Some c'"
  shows "fst (lru_get later k c') = (if later \<le> now + ttl then Some v else None)"
  using lru.get_after_put [OF assms] lru.miss_after_expiry [OF assms] by auto

lemma lru_inv_new: "lru_inv (new_lru n)"
  by (auto simp: lru_inv_def new_lru_def index_ok_def)

text \<open>Witnesses: a cache of capacity two that has seen three stores.\<close>

definition sample_lru :: "string lru" where
  "sample_lru = the (lru_set 2 ''b'' ''B'' 10 (the (lru_set 1 ''a'' ''A'' 10 (new_lru 2))))"

lemma sample_lru_inv: "lru_inv sample_lru"
proof -
  obtain c1 where c1: "lru_set 1 ''a'' ''A'' 10 (new_lru 2) = Some c1" "lru_inv c1"
    using lru_set_simulates [OF lru_inv_new [of 2], of 1 "''a''" "''A''" 10] by blast
  obtain c2 where "lru_set 2 ''b'' ''B'' 10 c1 = Some c2" "lru_inv c2"
    using lru_set_simulates [OF c1(2), of 2 "''b''" "''B''" 10] by blast
  with c1 show ?thesis by (simp add: sample_lru_def)
qed

lemma lru_get_refines_witness:
  "lru_inv sample_lru \<and> lru_inv (snd (lru_get 5 ''a'' sample_lru))"
  using sample_lru_inv lru_get_refines [OF sample_lru_inv, of 5 "''a''"] by simp

lemma lru_set_refines_witness:
  "\<exists>c'. lru_set 3 ''c'' ''C'' 10 sample_lru = Some c' \<and> lru_inv c'"
  using lru_set_refines [OF sample_lru_inv, of 3 "''c''" "''C''" 10] by blast

lemma lru_set_then_get_witness:
  "\<exists>c'. lru_set 3 ''c'' ''C'' 10 sample_lru = Some c' \<and> fst (lru_get 13 ''c'' c') = Some ''C''
     \<and> fst (lru_get 14 ''c'' c') = None"
proof -
  obtain c' where c': "lru_set 3 ''c'' ''C'' 10 sample_lru = Some c'"
    using lru_set_simulates [OF sample_lru_inv, of 3 "''c''" "''C''" 10] by blast
  then show ?thesis
    using lru_set_then_get [OF sample_lru_inv c', of 13] lru_set_then_get [OF sample_lru_inv c', of 14]
    by simp
qed

end
