(* ===== verification/Tree_Model.thy ===== *)
theory Tree_Model
  imports Go_Prelude
begin

text \<open>
  The core data model of \<open>pkg/tree/tree.go\<close> and the compaction of \<open>pkg/tree/compact.go\<close>: the
  section tree, its traversal, lookup by ID, the flattened view strategies put into a prompt, and
  the reduced copy of a tree for small context windows.

  A section is its scalar fields and its children. The tree never stores a nil child pointer, so
  the children are sections; only the root may be nil.
\<close>

subsection \<open>Data\<close>

record summary_axes =
  topics :: "string list"
  entities :: "string list"
  numbers :: "string list"
  one_line :: string

record section_data =
  sid :: section_id
  parent_id :: section_id
  ordinal :: int
  title :: string
  summary :: string
  axes :: "summary_axes option"
  content_ref :: string
  token_count :: int
  page_start :: int
  page_end :: int
  candidate_questions :: "string list"
  metadata :: "string \<Rightarrow> string option"

datatype doc_section = Section (data: section_data) (children: "doc_section list")

record tree =
  doc_id :: document_id
  tree_title :: string
  tree_root :: "doc_section option"
  created_at :: go_time
  updated_at :: go_time

record section_view =
  sv_id :: section_id
  sv_parent :: section_id
  sv_depth :: int
  sv_title :: string
  sv_summary :: string
  sv_children :: "section_id list"
  sv_tokens :: int
  sv_page_start :: int
  sv_page_end :: int
  sv_questions :: "string list"
  sv_axes :: "summary_axes option"

record tree_view =
  view_doc_id :: document_id
  view_title :: string
  view_sections :: "section_view list"

abbreviation sec_id :: "doc_section \<Rightarrow> section_id" where
  "sec_id s \<equiv> sid (data s)"

definition is_leaf :: "doc_section \<Rightarrow> bool" where
  "is_leaf s = (length (children s) = 0)"

subsection \<open>Traversal and lookup\<close>

text \<open>
  \<open>Walk\<close>: the visitor runs on the section, and the children are visited only when it returned true.
  The closure's captured variables are the state \<open>st\<close>.
\<close>

fun walk :: "(doc_section \<Rightarrow> 's \<Rightarrow> bool \<times> 's) \<Rightarrow> doc_section \<Rightarrow> 's \<Rightarrow> 's" where
  "walk visit (Section d cs) st =
     (case visit (Section d cs) st of
        (go_on, st') \<Rightarrow> if go_on then fold (walk visit) cs st' else st')"

definition walk_root :: "(doc_section \<Rightarrow> 's \<Rightarrow> bool \<times> 's) \<Rightarrow> doc_section option \<Rightarrow> 's \<Rightarrow> 's" where
  "walk_root visit r st = (case r of None \<Rightarrow> st | Some s \<Rightarrow> walk visit s st)"

definition find_by_id :: "tree \<Rightarrow> section_id \<Rightarrow> doc_section option" where
  "find_by_id t i =
     walk_root (\<lambda>s out. if sec_id s = i then (False, Some s) else (True, out)) (tree_root t) None"

fun view_walk :: "int \<Rightarrow> doc_section \<Rightarrow> section_view list \<Rightarrow> section_view list" where
  "view_walk depth (Section d cs) out =
     fold (view_walk (depth + 1)) cs
       (out @ [\<lparr>sv_id = sid d, sv_parent = parent_id d, sv_depth = depth, sv_title = title d,
                sv_summary = summary d, sv_children = map sec_id cs, sv_tokens = token_count d,
                sv_page_start = page_start d, sv_page_end = page_end d,
                sv_questions = candidate_questions d, sv_axes = axes d\<rparr>])"

definition build_view :: "tree \<Rightarrow> tree_view" where
  "build_view t = \<lparr>view_doc_id = doc_id t, view_title = tree_title t,
     view_sections = (case tree_root t of None \<Rightarrow> [] | Some s \<Rightarrow> view_walk 0 s [])\<rparr>"

definition section_count :: "tree \<Rightarrow> int" where
  "section_count t = walk_root (\<lambda>_ n. (True, n + 1)) (tree_root t) 0"

definition total_tokens :: "tree \<Rightarrow> int" where
  "total_tokens t = walk_root (\<lambda>s n. (True, n + token_count (data s))) (tree_root t) 0"

subsection \<open>Compaction\<close>

record compact_opts =
  min_tokens :: int
  merge_single_child :: bool
  max_depth :: int

text \<open>The total a flattened node absorbs: its own tokens and those of every descendant.\<close>

definition absorbed_tokens :: "doc_section \<Rightarrow> int" where
  "absorbed_tokens s =
     fold (walk (\<lambda>desc n. (True, n + token_count (data desc)))) (children s) (token_count (data s))"

text \<open>
  The copies keep the ID, parent, ordinal, title, summary, content reference, token count and
  metadata; the other fields take their zero value, as they do in the code's struct literals.
\<close>

definition copy_data :: "section_data \<Rightarrow> int \<Rightarrow> section_data" where
  "copy_data d tokens = \<lparr>sid = sid d, parent_id = parent_id d, ordinal = ordinal d, title = title d,
     summary = summary d, axes = None, content_ref = content_ref d, token_count = tokens,
     page_start = 0, page_end = 0, candidate_questions = [], metadata = metadata d\<rparr>"

fun compact_section :: "compact_opts \<Rightarrow> int \<Rightarrow> doc_section \<Rightarrow> doc_section option" where
  "compact_section opts depth (Section d cs) =
     (if max_depth opts > 0 \<and> cs \<noteq> [] \<and> depth + 1 \<ge> max_depth opts
      then Some (Section (copy_data d (absorbed_tokens (Section d cs))) [])
      else
        let kept = List.map_filter (compact_section opts (depth + 1)) cs in
        if kept = [] \<and> cs = [] \<and> token_count d < min_tokens opts \<and> sid d \<noteq> [] then None
        else Some (Section (copy_data d (token_count d)) kept))"

fun merge_single_children :: "doc_section \<Rightarrow> doc_section" where
  "merge_single_children (Section d cs) =
     (case map merge_single_children cs of
        [c] \<Rightarrow> Section \<lparr>sid = sec_id c, parent_id = parent_id d, ordinal = ordinal d,
                  title = title d @ '' > '' @ title (data c), summary = summary (data c), axes = None,
                  content_ref = content_ref (data c),
                  token_count = token_count (data c) + (if token_count d > 0 then token_count d else 0),
                  page_start = 0, page_end = 0, candidate_questions = [],
                  metadata = metadata (data c)\<rparr> (children c)
      | cs' \<Rightarrow> Section d cs')"

definition default_opts :: "compact_opts \<Rightarrow> compact_opts" where
  "default_opts opts = (if min_tokens opts = 0 then opts\<lparr>min_tokens := 50\<rparr> else opts)"

text \<open>When everything is pruned, a shell of the root with its ID and title stays.\<close>

definition compact_root :: "compact_opts \<Rightarrow> doc_section \<Rightarrow> doc_section" where
  "compact_root opts r =
     (case compact_section opts 0 r of
        Some s \<Rightarrow> s
      | None \<Rightarrow> Section \<lparr>sid = sec_id r, parent_id = [], ordinal = 0, title = title (data r),
          summary = [], axes = None, content_ref = [], token_count = 0, page_start = 0,
          page_end = 0, candidate_questions = [], metadata = Map.empty\<rparr> [])"

definition compact :: "tree \<Rightarrow> compact_opts \<Rightarrow> tree" where
  "compact t opts =
     (case tree_root t of
        None \<Rightarrow> t
      | Some r \<Rightarrow>
          let new_root = compact_root (default_opts opts) r;
              new_root = (if merge_single_child opts then merge_single_children new_root else new_root)
          in \<lparr>doc_id = doc_id t, tree_title = tree_title t, tree_root = Some new_root,
              created_at = created_at t, updated_at = updated_at t\<rparr>)"

subsection \<open>Traversal facts\<close>

text \<open>The sections of a subtree in depth-first pre-order.\<close>

fun preorder :: "doc_section \<Rightarrow> doc_section list" where
  "preorder (Section d cs) = Section d cs # concat (map preorder cs)"

definition tree_sections :: "tree \<Rightarrow> doc_section list" where
  "tree_sections t = (case tree_root t of None \<Rightarrow> [] | Some r \<Rightarrow> preorder r)"

lemma walk_all:
  assumes "\<And>s st. fst (visit s st)"
  shows "walk visit s st = fold (\<lambda>s st. snd (visit s st)) (preorder s) st"
proof (induction s arbitrary: st)
  case (Section d cs)
  have "fold (walk visit) cs st' = fold (\<lambda>s st. snd (visit s st)) (concat (map preorder cs)) st'" for st'
    using Section by (induction cs arbitrary: st') auto
  then show ?case
    using assms [of "Section d cs" st] by (cases "visit (Section d cs) st") simp
qed

lemma walk_root_all:
  assumes "\<And>s st. fst (visit s st)"
  shows "walk_root visit (tree_root t) st = fold (\<lambda>s st. snd (visit s st)) (tree_sections t) st"
  using walk_all [of visit, OF assms]
  by (simp add: walk_root_def tree_sections_def split: option.splits)

lemma section_count_eq: "section_count t = int (length (tree_sections t))"
  using fold_add_sum_list [of "\<lambda>_. 1" "tree_sections t" 0]
  by (simp add: section_count_def walk_root_all sum_list_triv)

lemma total_tokens_eq: "total_tokens t = sum_list (map (\<lambda>s. token_count (data s)) (tree_sections t))"
  by (simp add: total_tokens_def walk_root_all fold_add_sum_list)

text \<open>
  The matches of an ID that a walk reports: sections with the ID in document order, leaving out
  those below another match, because a visitor that returns false only prunes its own subtree.
\<close>

fun matches :: "section_id \<Rightarrow> doc_section \<Rightarrow> doc_section list" where
  "matches i (Section d cs) = (if sid d = i then [Section d cs] else concat (map (matches i) cs))"

lemma find_walk:
  "walk (\<lambda>s out. if sec_id s = i then (False, Some s) else (True, out)) s out =
     (if matches i s = [] then out else Some (last (matches i s)))"
proof (induction s arbitrary: out)
  case (Section d cs)
  let ?w = "walk (\<lambda>s out. if sec_id s = i then (False, Some s) else (True, out))"
  have "fold ?w cs out = (if concat (map (matches i) cs) = [] then out
      else Some (last (concat (map (matches i) cs))))" for out
    using Section by (induction cs arbitrary: out) auto
  then show ?case by simp
qed

lemma set_matches: "x \<in> set (matches i s) \<Longrightarrow> x \<in> set (preorder s) \<and> sec_id x = i"
  by (induction s) (auto split: if_splits)

lemma matches_Nil: "matches i s = [] \<longleftrightarrow> (\<forall>x \<in> set (preorder s). sec_id x \<noteq> i)"
  by (induction s) auto

lemma set_preorder_self: "s \<in> set (preorder s)"
  by (cases s) simp

lemma find_by_id_Some:
  "find_by_id t i = Some s \<Longrightarrow> s \<in> set (tree_sections t) \<and> sec_id s = i"
  by (cases "tree_root t")
    (auto simp: find_by_id_def walk_root_def find_walk tree_sections_def split: if_splits
      dest: set_matches last_in_set)

lemma find_by_id_None: "find_by_id t i = None \<longleftrightarrow> i \<notin> sec_id ` set (tree_sections t)"
  by (cases "tree_root t")
    (auto simp: find_by_id_def walk_root_def find_walk tree_sections_def matches_Nil)

subsection \<open>The view\<close>

fun flat_view :: "int \<Rightarrow> doc_section \<Rightarrow> section_view list" where
  "flat_view depth (Section d cs) =
     \<lparr>sv_id = sid d, sv_parent = parent_id d, sv_depth = depth, sv_title = title d,
      sv_summary = summary d, sv_children = map sec_id cs, sv_tokens = token_count d,
      sv_page_start = page_start d, sv_page_end = page_end d,
      sv_questions = candidate_questions d, sv_axes = axes d\<rparr> # concat (map (flat_view (depth + 1)) cs)"

lemma view_walk_eq: "view_walk depth s out = out @ flat_view depth s"
proof (induction s arbitrary: depth out)
  case (Section d cs)
  have "fold (view_walk (depth + 1)) cs out = out @ concat (map (flat_view (depth + 1)) cs)" for out
    using Section by (induction cs arbitrary: out) auto
  then show ?case by simp
qed

lemma flat_view_preorder:
  "map (\<lambda>v. (sv_id v, sv_tokens v, sv_children v, sv_page_start v, sv_page_end v)) (flat_view depth s) =
   map (\<lambda>x. (sec_id x, token_count (data x), map sec_id (children x), page_start (data x), page_end (data x)))
     (preorder s)"
proof (induction s arbitrary: depth)
  case (Section d cs)
  then show ?case by (simp add: map_concat comp_def cong: map_cong)
qed

lemma view_sections_preorder:
  "map (\<lambda>v. (sv_id v, sv_tokens v, sv_children v, sv_page_start v, sv_page_end v)) (view_sections (build_view t)) =
   map (\<lambda>x. (sec_id x, token_count (data x), map sec_id (children x), page_start (data x), page_end (data x)))
     (tree_sections t)"
  by (simp add: build_view_def tree_sections_def view_walk_eq flat_view_preorder split: option.splits)

lemma view_ids: "map sv_id (view_sections (build_view t)) = map sec_id (tree_sections t)"
  using arg_cong [OF view_sections_preorder [of t], of "map fst"] by (simp add: comp_def)

subsection \<open>Compaction facts\<close>

fun height :: "doc_section \<Rightarrow> int" where
  "height (Section d cs) = (if cs = [] then 0 else 1 + Max (set (map height cs)))"

definition sum_tokens :: "doc_section \<Rightarrow> int" where
  "sum_tokens s = sum_list (map (\<lambda>x. token_count (data x)) (preorder s))"

lemma sum_tokens_Section: "sum_tokens (Section d cs) = token_count d + sum_list (map sum_tokens cs)"
  by (simp add: sum_tokens_def) (induction cs; simp add: sum_tokens_def)

lemma absorbed_tokens_eq: "absorbed_tokens (Section d cs) = sum_tokens (Section d cs)"
proof -
  have "fold (walk (\<lambda>desc n. (True, n + token_count (data desc)))) cs n = n + sum_list (map sum_tokens cs)" for n
    by (induction cs arbitrary: n) (auto simp: walk_all fold_add_sum_list sum_tokens_def)
  then show ?thesis by (simp add: absorbed_tokens_def sum_tokens_Section)
qed

lemma height_nonneg: "0 \<le> height s"
proof (induction s)
  case (Section d cs)
  show ?case
  proof (cases "cs = []")
    case False
    have "0 \<le> Max (height ` set cs)"
      by (rule order_trans [of _ "height (hd cs)"]) (use Section False in simp_all)
    with False show ?thesis by simp
  qed simp
qed

lemma height_le: "(\<And>c. c \<in> set cs \<Longrightarrow> height c \<le> h) \<Longrightarrow> 0 \<le> h \<Longrightarrow> height (Section d cs) \<le> 1 + h"
  by simp

lemma compact_height:
  assumes "compact_section opts depth s = Some s'" "0 < max_depth opts" "depth < max_depth opts"
  shows "height s' + depth < max_depth opts"
  using assms
proof (induction s arbitrary: depth s')
  case (Section d cs)
  show ?case
  proof (cases "cs \<noteq> [] \<and> depth + 1 \<ge> max_depth opts")
    case True
    with Section.prems show ?thesis by auto
  next
    case False
    let ?kept = "List.map_filter (compact_section opts (depth + 1)) cs"
    from False Section.prems obtain d' where s': "s' = Section d' ?kept"
      by (auto simp: Let_def split: if_splits)
    have "height c + (depth + 1) < max_depth opts" if "c \<in> set ?kept" for c
      using that False Section.IH Section.prems by (fastforce simp: set_map_filter)
    then have "height c \<le> max_depth opts - depth - 2" if "c \<in> set ?kept" for c
      using that by fastforce
    moreover have "?kept = [] \<or> 0 \<le> max_depth opts - depth - 2"
      using calculation [of "hd ?kept"] height_nonneg [of "hd ?kept"] by (cases "?kept = []") auto
    ultimately show ?thesis
      using height_le [of ?kept "max_depth opts - depth - 2" d'] s' Section.prems(3) by auto
  qed
qed

lemma compact_section_shape:
  assumes "compact_section opts depth (Section d cs) = Some s'"
  obtains d' kept where "s' = Section d' kept" "sid d' = sid d"
    "set kept \<subseteq> {c'. \<exists>c \<in> set cs. compact_section opts (depth + 1) c = Some c'}"
  using assms by (auto simp: Let_def copy_data_def set_map_filter split: if_splits)

definition id_set :: "doc_section \<Rightarrow> section_id set" where
  "id_set s = sec_id ` set (preorder s)"

lemma id_set_Section: "id_set (Section d cs) = insert (sid d) (\<Union>c \<in> set cs. id_set c)"
  by (auto simp: id_set_def)

lemma compact_ids: "compact_section opts depth s = Some s' \<Longrightarrow> id_set s' \<subseteq> id_set s"
proof (induction s arbitrary: depth s')
  case (Section d cs)
  from Section.prems obtain d' kept where s': "s' = Section d' kept" "sid d' = sid d"
    and kept: "set kept \<subseteq> {c'. \<exists>c \<in> set cs. compact_section opts (depth + 1) c = Some c'}"
    by (rule compact_section_shape)
  have "id_set c' \<subseteq> (\<Union>c \<in> set cs. id_set c)" if "c' \<in> set kept" for c'
  proof -
    from that kept obtain c where "c \<in> set cs" "compact_section opts (depth + 1) c = Some c'" by auto
    then show ?thesis using Section.IH by fastforce
  qed
  then have "(\<Union>c' \<in> set kept. id_set c') \<subseteq> (\<Union>c \<in> set cs. id_set c)" by (rule UN_least)
  with s' show ?case by (simp only: id_set_Section) (simp add: le_supI2 subset_insertI2)
qed

text \<open>Only leaves are pruned, so a tree whose leaves all reach the threshold keeps every token.\<close>

definition leaves_reach :: "int \<Rightarrow> doc_section \<Rightarrow> bool" where
  "leaves_reach m s \<longleftrightarrow> (\<forall>x \<in> set (preorder s). children x = [] \<longrightarrow> m \<le> token_count (data x))"

lemma leaves_reach_Section:
  "leaves_reach m (Section d cs) \<longleftrightarrow> (cs = [] \<longrightarrow> m \<le> token_count d) \<and> (\<forall>c \<in> set cs. leaves_reach m c)"
  by (auto simp: leaves_reach_def)

lemma compact_keeps_tokens:
  "leaves_reach (min_tokens opts) s \<Longrightarrow>
   \<exists>s'. compact_section opts depth s = Some s' \<and> sum_tokens s' = sum_tokens s"
proof (induction s arbitrary: depth)
  case (Section d cs)
  show ?case
  proof (cases "0 < max_depth opts \<and> cs \<noteq> [] \<and> depth + 1 \<ge> max_depth opts")
    case True
    then show ?thesis
      by (simp only: compact_section.simps if_True absorbed_tokens_eq) (simp add: copy_data_def sum_tokens_def)
  next
    case False
    have "\<forall>c \<in> set cs. \<exists>c'. compact_section opts (depth + 1) c = Some c' \<and> sum_tokens c' = sum_tokens c"
      using Section by (simp add: leaves_reach_Section)
    then have "sum_list (map sum_tokens (List.map_filter (compact_section opts (depth + 1)) cs))
        = sum_list (map sum_tokens cs)"
      by (induction cs) (auto simp: List.map_filter_simps)
    with False Section.prems show ?thesis
      by (auto simp: Let_def sum_tokens_Section copy_data_def leaves_reach_Section)
  qed
qed

definition counts_ok :: "doc_section \<Rightarrow> bool" where
  "counts_ok s \<longleftrightarrow> (\<forall>x \<in> set (preorder s). 0 \<le> token_count (data x))"

lemma counts_ok_Section: "counts_ok (Section d cs) \<longleftrightarrow> 0 \<le> token_count d \<and> (\<forall>c \<in> set cs. counts_ok c)"
  by (auto simp: counts_ok_def)

lemma sum_tokens_nonneg: "counts_ok s \<Longrightarrow> 0 \<le> sum_tokens s"
  by (auto simp: counts_ok_def sum_tokens_def intro!: sum_list_nonneg)

lemma compact_counts_ok:
  "counts_ok s \<Longrightarrow> compact_section opts depth s = Some s' \<Longrightarrow> counts_ok s'"
proof (induction s arbitrary: depth s')
  case (Section d cs)
  show ?case
  proof (cases "0 < max_depth opts \<and> cs \<noteq> [] \<and> depth + 1 \<ge> max_depth opts")
    case True
    then have "compact_section opts depth (Section d cs)
        = Some (Section (copy_data d (sum_tokens (Section d cs))) [])"
      by (simp only: compact_section.simps absorbed_tokens_eq) simp
    with Section.prems have "s' = Section (copy_data d (sum_tokens (Section d cs))) []" by simp
    with sum_tokens_nonneg [OF Section.prems(1)] show ?thesis
      by (simp add: copy_data_def counts_ok_Section)
  next
    case False
    have "counts_ok c'" if "c \<in> set cs" "compact_section opts (depth + 1) c = Some c'" for c c'
      using that Section.IH Section.prems(1) counts_ok_Section by blast
    then have "\<forall>c \<in> set (List.map_filter (compact_section opts (depth + 1)) cs). counts_ok c"
      by (simp add: set_map_filter) blast
    moreover have "s' = Section (copy_data d (token_count d)) (List.map_filter (compact_section opts (depth + 1)) cs)"
      using False Section.prems(2) by (simp add: Let_def split: if_splits)
    moreover have "0 \<le> token_count d"
      using Section.prems(1) by (simp add: counts_ok_Section)
    ultimately show ?thesis
      by (simp add: counts_ok_Section copy_data_def)
  qed
qed

definition no_single_child :: "doc_section \<Rightarrow> bool" where
  "no_single_child s \<longleftrightarrow> (\<forall>x \<in> set (preorder s). length (children x) \<noteq> 1)"

lemma no_single_child_Section:
  "no_single_child (Section d cs) \<longleftrightarrow> length cs \<noteq> 1 \<and> (\<forall>c \<in> set cs. no_single_child c)"
  by (auto simp: no_single_child_def)

lemma merge_cases:
  obtains c where "map merge_single_children cs = [c]"
      "\<exists>d'. merge_single_children (Section d cs) = Section d' (children c)
         \<and> sid d' = sec_id c \<and> token_count d' = token_count (data c) + max 0 (token_count d)"
  | "length cs \<noteq> 1" "merge_single_children (Section d cs) = Section d (map merge_single_children cs)"
proof (cases "map merge_single_children cs" rule: remdups_adj.cases)
  case 1
  then show ?thesis using that(2) by simp
next
  case (2 c)
  then show ?thesis using that(1) by (simp add: max_def)
next
  case (3 x y zs)
  then have "length cs \<noteq> 1" by auto
  with 3 show ?thesis using that(2) by simp
qed

lemma merge_no_single_child: "no_single_child (merge_single_children s)"
proof (induction s)
  case (Section d cs)
  show ?case
  proof (cases rule: merge_cases [of cs d])
    case (1 c)
    then have "no_single_child c" using Section by auto
    then show ?thesis
      using 1 by (cases c) (auto simp: no_single_child_Section)
  next
    case 2
    with Section show ?thesis by (auto simp: no_single_child_Section)
  qed
qed

lemma merge_keeps_tokens:
  "counts_ok s \<Longrightarrow> sum_tokens (merge_single_children s) = sum_tokens s"
proof (induction s)
  case (Section d cs)
  have IH: "sum_tokens (merge_single_children c) = sum_tokens c" if "c \<in> set cs" for c
    using that Section by (auto simp: counts_ok_Section)
  show ?case
  proof (cases rule: merge_cases [of cs d])
    case (1 c)
    then obtain c0 where "cs = [c0]" "c = merge_single_children c0" by auto
    moreover have "sum_tokens c = token_count (data c) + sum_list (map sum_tokens (children c))"
      by (cases c) (simp add: sum_tokens_Section)
    ultimately show ?thesis
      using 1 IH [of c0] Section.prems by (auto simp: sum_tokens_Section counts_ok_Section)
  next
    case 2
    then show ?thesis using IH by (simp add: sum_tokens_Section comp_def cong: map_cong)
  qed
qed

lemma merge_height: "height (merge_single_children s) \<le> height s"
proof (induction s)
  case (Section d cs)
  show ?case
  proof (cases rule: merge_cases [of cs d])
    case (1 c)
    then obtain c0 where c0: "cs = [c0]" "c = merge_single_children c0" by auto
    have "height (Section d' (children c)) = height c" for d' by (cases c) simp
    with 1 c0 Section show ?thesis by fastforce
  next
    case 2
    have "Max (set (map (\<lambda>c. height (merge_single_children c)) cs)) \<le> Max (set (map height cs))" if "cs \<noteq> []"
      unfolding set_map using that Section by (intro Max_image_mono) auto
    with 2 show ?thesis by (simp add: comp_def image_image)
  qed
qed

subsection \<open>Properties\<close>

text \<open>
  \<open>FindByID\<close> returns the last, in document order, of the sections that carry the ID and lie
  below no other section that does, and nil exactly when the tree has no such section; so in a tree
  whose IDs are distinct it returns the section with that ID.
\<close>

theorem find_by_id_spec:
  "find_by_id t i = (case tree_root t of None \<Rightarrow> None
     | Some r \<Rightarrow> if matches i r = [] then None else Some (last (matches i r)))
   \<and> (find_by_id t i = None \<longleftrightarrow> i \<notin> sec_id ` set (tree_sections t))
   \<and> (distinct (map sec_id (tree_sections t)) \<longrightarrow>
        find_by_id t i = Some s \<longleftrightarrow> s \<in> set (tree_sections t) \<and> sec_id s = i)"
proof (intro conjI impI)
  show "find_by_id t i = (case tree_root t of None \<Rightarrow> None
     | Some r \<Rightarrow> if matches i r = [] then None else Some (last (matches i r)))"
    by (simp add: find_by_id_def walk_root_def find_walk split: option.splits)
  show "find_by_id t i = None \<longleftrightarrow> i \<notin> sec_id ` set (tree_sections t)"
    by (rule find_by_id_None)
  assume d: "distinct (map sec_id (tree_sections t))"
  show "find_by_id t i = Some s \<longleftrightarrow> s \<in> set (tree_sections t) \<and> sec_id s = i"
  proof
    assume s: "s \<in> set (tree_sections t) \<and> sec_id s = i"
    then obtain s' where "find_by_id t i = Some s'"
      using find_by_id_None [of t i] by (cases "find_by_id t i") auto
    with s d show "find_by_id t i = Some s"
      using find_by_id_Some [of t i s'] by (auto simp: distinct_map dest: inj_onD)
  qed (rule find_by_id_Some)
qed

text \<open>
  With a depth limit the compacted tree is strictly shallower than the limit, with or without
  single-child merging, and a compacted section keeps only IDs the original tree has.
\<close>

theorem compact_within_depth:
  assumes "0 < max_depth opts" "tree_root (compact t opts) = Some r"
  shows "height r < max_depth opts"
proof (cases "tree_root t")
  case None
  with assms show ?thesis by (simp add: compact_def)
next
  case (Some r0)
  have "max_depth (default_opts opts) = max_depth opts" by (simp add: default_opts_def)
  with assms(1) have "height (compact_root (default_opts opts) r0) < max_depth opts"
    using compact_height [of "default_opts opts" 0 r0]
    by (auto simp: compact_root_def split: option.splits)
  then show ?thesis
    using assms(2) Some merge_height [of "compact_root (default_opts opts) r0"]
    by (auto simp: compact_def Let_def split: if_splits)
qed

text \<open>
  C28. When every leaf reaches the pruning threshold and no count is negative, compaction keeps the
  tree's total token count: flattening absorbs the descendants and merging adds the parent's tokens.
\<close>

theorem compact_keeps_total:
  assumes r: "tree_root t = Some r" and m: "min_tokens opts \<noteq> 0"
    and reach: "leaves_reach (min_tokens opts) r" and counts: "counts_ok r"
  shows "total_tokens (compact t opts) = total_tokens t"
proof -
  obtain s where s: "compact_section opts 0 r = Some s" "sum_tokens s = sum_tokens r"
    using compact_keeps_tokens [OF reach] by blast
  then have "sum_tokens (merge_single_children s) = sum_tokens r"
    using merge_keeps_tokens compact_counts_ok [OF counts s(1)] by simp
  then show ?thesis
    using r m s by (simp add: compact_def compact_root_def default_opts_def Let_def total_tokens_eq tree_sections_def sum_tokens_def)
qed

text \<open>
  Merging collapses every single-child chain: no section of the result has exactly one child,
  and no token is lost when the counts are non-negative.
\<close>

theorem merge_single_children_spec:
  assumes "counts_ok s"
  shows "no_single_child (merge_single_children s) \<and> sum_tokens (merge_single_children s) = sum_tokens s"
  using merge_no_single_child merge_keeps_tokens [OF assms] by blast

text \<open>A small document for the witnesses: a root, an inner section over two leaves, and a leaf.\<close>

definition sample_data :: "section_id \<Rightarrow> int \<Rightarrow> int \<Rightarrow> int \<Rightarrow> section_data" where
  "sample_data i tokens p q = \<lparr>sid = i, parent_id = [], ordinal = 0, title = i, summary = [], axes = None,
     content_ref = i, token_count = tokens, page_start = p, page_end = q, candidate_questions = [],
     metadata = Map.empty\<rparr>"

definition sample_root :: doc_section where
  "sample_root = Section (sample_data ''r'' 0 1 9)
     [Section (sample_data ''a'' 5 1 4)
        [Section (sample_data ''b'' 60 1 2) [], Section (sample_data ''c'' 70 3 4) []],
      Section (sample_data ''d'' 80 5 9) []]"

definition sample_tree :: tree where
  "sample_tree = \<lparr>doc_id = ''doc'', tree_title = ''Doc'', tree_root = Some sample_root, created_at = 0, updated_at = 0\<rparr>"

lemmas sample_defs = sample_data_def sample_root_def sample_tree_def

lemma find_by_id_spec_witness: "find_by_id sample_tree ''c'' = Some (Section (sample_data ''c'' 70 3 4) [])"
proof -
  have "distinct (map sec_id (tree_sections sample_tree))"
    by (simp add: sample_defs tree_sections_def)
  then show ?thesis
    using find_by_id_spec [of sample_tree "''c''" "Section (sample_data ''c'' 70 3 4) []"]
    by (simp add: sample_defs tree_sections_def)
qed

definition sample_opts :: "bool \<Rightarrow> int \<Rightarrow> compact_opts" where
  "sample_opts merge depth = \<lparr>min_tokens = 50, merge_single_child = merge, max_depth = depth\<rparr>"

lemma compact_within_depth_witness:
  "\<exists>r. tree_root (compact sample_tree (sample_opts True 2)) = Some r \<and> height r < 2"
proof -
  obtain r where r: "tree_root (compact sample_tree (sample_opts True 2)) = Some r"
    by (simp add: compact_def sample_tree_def Let_def)
  then show ?thesis
    using compact_within_depth [of "sample_opts True 2" sample_tree r] by (simp add: sample_opts_def)
qed

lemma compact_keeps_total_witness:
  "total_tokens (compact sample_tree (sample_opts True 2)) = 215"
proof -
  have "total_tokens sample_tree = 215"
    by (simp add: total_tokens_eq tree_sections_def sample_defs)
  then show ?thesis
    using compact_keeps_total [of sample_tree sample_root "sample_opts True 2"]
    by (simp add: sample_opts_def leaves_reach_def counts_ok_def sample_defs)
qed

lemma merge_single_children_spec_witness:
  "no_single_child (merge_single_children (Section (sample_data ''p'' 3 1 9) [sample_root]))
   \<and> sum_tokens (merge_single_children (Section (sample_data ''p'' 3 1 9) [sample_root])) = 218"
  using merge_single_children_spec [of "Section (sample_data ''p'' 3 1 9) [sample_root]"]
  by (simp add: sample_defs counts_ok_def sum_tokens_def)

end
