(* ===== verification/Go_Strings.thy ===== *)
theory Go_Strings
  imports Go_Prelude "HOL-Library.Char_ord" "HOL-Library.List_Lexorder"
begin

text \<open>
  The parts of Go's \<open>strings\<close>, \<open>strconv\<close> and 64-bit integer arithmetic the modelled code uses, on
  byte strings. Searching and prefix tests compare bytes, as Go does. \<open>strings.TrimSpace\<close> removes
  the runes of \<open>unicode.IsSpace\<close>, which is a fixed list of code points; it is written here by their
  UTF-8 encodings, since an encoding at the start (end) of a string is exactly what
  \<open>DecodeRuneInString\<close> (\<open>DecodeLastRuneInString\<close>) would decode there.
\<close>

subsection \<open>Integers at 64 bits\<close>

definition wrap64 :: "int \<Rightarrow> int" where
  "wrap64 x = (x + 2 ^ 63) mod 2 ^ 64 - 2 ^ 63"

definition max_int64 :: int where
  "max_int64 = 2 ^ 63 - 1"

lemma wrap64_id: "- (2 ^ 63) \<le> x \<Longrightarrow> x < 2 ^ 63 \<Longrightarrow> wrap64 x = x"
  by (simp add: wrap64_def)

subsection \<open>Bytes and prefixes\<close>

abbreviation byte :: "nat \<Rightarrow> char" where
  "byte n \<equiv> char_of n"

definition has_prefix :: "string \<Rightarrow> string \<Rightarrow> bool" where
  "has_prefix s p = (take (length p) s = p)"

definition has_suffix :: "string \<Rightarrow> string \<Rightarrow> bool" where
  "has_suffix s p = (length p \<le> length s \<and> drop (length s - length p) s = p)"

definition trim_prefix :: "string \<Rightarrow> string \<Rightarrow> string" where
  "trim_prefix s p = (if has_prefix s p then drop (length p) s else s)"

definition trim_suffix :: "string \<Rightarrow> string \<Rightarrow> string" where
  "trim_suffix s p = (if has_suffix s p then take (length s - length p) s else s)"

lemma has_prefix_append [simp]: "has_prefix (p @ s) p"
  by (simp add: has_prefix_def)

lemma has_prefix_iff: "has_prefix s p \<longleftrightarrow> (\<exists>r. s = p @ r)"
  by (metis append_eq_conv_conj append_take_drop_id has_prefix_def)

text \<open>\<open>strings.Index\<close>: the first position at which \<open>p\<close> occurs.\<close>

fun str_index :: "string \<Rightarrow> string \<Rightarrow> nat option" where
  "str_index [] p = (if p = [] then Some 0 else None)"
| "str_index (c # s) p = (if has_prefix (c # s) p then Some 0 else map_option Suc (str_index s p))"

lemma str_index_Some:
  "str_index s p = Some i \<Longrightarrow> i + length p \<le> length s \<and> take (length p) (drop i s) = p"
proof (induction s p arbitrary: i rule: str_index.induct)
  case (2 c s p)
  show ?case
  proof (cases "has_prefix (c # s) p")
    case True
    with 2 show ?thesis
      by (metis add_0 drop0 has_prefix_def length_take linorder_le_cases min.absorb2 min_def
          option.inject str_index.simps(2))
  next
    case False
    with 2 show ?thesis by auto
  qed
qed (auto split: if_splits)

lemma str_index_None: "str_index s p = None \<Longrightarrow> take (length p) (drop i s) = p \<Longrightarrow> False"
proof (induction s p arbitrary: i rule: str_index.induct)
  case (2 c s p)
  then have "\<not> has_prefix (c # s) p" and none: "str_index s p = None"
    by (auto split: if_splits)
  with 2 show ?case
    by (cases i) (auto simp: has_prefix_def)
qed (auto split: if_splits)

lemma str_index_least:
  "str_index s p = Some i \<Longrightarrow> j < i \<Longrightarrow> take (length p) (drop j s) \<noteq> p"
proof (induction s p arbitrary: i j rule: str_index.induct)
  case (2 c s p)
  then show ?case
    by (cases j) (auto simp: has_prefix_def split: if_splits)
qed (auto split: if_splits)

text \<open>\<open>strings.LastIndexByte\<close> (the code searches one-byte strings from the right).\<close>

definition last_index_byte :: "string \<Rightarrow> char \<Rightarrow> nat option" where
  "last_index_byte s c =
     (let hits = filter (\<lambda>i. s ! i = c) [0..<length s] in if hits = [] then None else Some (last hits))"

lemma last_index_byte_Some:
  assumes "last_index_byte s c = Some i"
  shows "i < length s \<and> s ! i = c"
proof -
  let ?hits = "filter (\<lambda>i. s ! i = c) [0..<length s]"
  from assms have "?hits \<noteq> []" "i = last ?hits"
    by (auto simp: last_index_byte_def Let_def split: if_splits)
  then have "i \<in> set ?hits" using last_in_set [of ?hits] by blast
  then show ?thesis by simp
qed

subsection \<open>Trimming space\<close>

definition space_runes :: "string list" where
  "space_runes = [[CHR 0x09], [CHR 0x0A], [CHR 0x0B], [CHR 0x0C], [CHR 0x0D], [CHR 0x20],
     [CHR 0xC2, CHR 0x85], [CHR 0xC2, CHR 0xA0], [CHR 0xE1, CHR 0x9A, CHR 0x80]]
     @ map (\<lambda>c. [CHR 0xE2, CHR 0x80, c])
         [CHR 0x80, CHR 0x81, CHR 0x82, CHR 0x83, CHR 0x84, CHR 0x85, CHR 0x86, CHR 0x87, CHR 0x88, CHR 0x89, CHR 0x8A, CHR 0xA8, CHR 0xA9, CHR 0xAF]
     @ [[CHR 0xE2, CHR 0x81, CHR 0x9F], [CHR 0xE3, CHR 0x80, CHR 0x80]]"

function trim_left_runes :: "string list \<Rightarrow> string \<Rightarrow> string" where
  "trim_left_runes rs s =
     (case find (\<lambda>r. r \<noteq> [] \<and> has_prefix s r) rs of
        None \<Rightarrow> s
      | Some r \<Rightarrow> trim_left_runes rs (drop (length r) s))"
  by pat_completeness auto
termination
proof (relation "measure (\<lambda>(rs, s). length s)", goal_cases)
  case (2 rs s r)
  then have "r \<noteq> []" "has_prefix s r" by (auto simp: find_Some_iff)
  then show ?case by (cases s) (auto simp: has_prefix_def)
qed simp

declare trim_left_runes.simps [simp del]

definition trim_left_space :: "string \<Rightarrow> string" where
  "trim_left_space s = trim_left_runes space_runes s"

definition trim_right_space :: "string \<Rightarrow> string" where
  "trim_right_space s = rev (trim_left_runes (map rev space_runes) (rev s))"

definition trim_space :: "string \<Rightarrow> string" where
  "trim_space s = trim_right_space (trim_left_space s)"

lemma trim_left_runes_suffix: "\<exists>p. s = p @ trim_left_runes rs s"
proof (induction rs s rule: trim_left_runes.induct)
  case (1 rs s)
  show ?case
  proof (cases "find (\<lambda>r. r \<noteq> [] \<and> has_prefix s r) rs")
    case None
    then show ?thesis by (simp add: trim_left_runes.simps)
  next
    case (Some r)
    with 1 obtain p where "drop (length r) s = p @ trim_left_runes rs (drop (length r) s)" by blast
    then have "s = (take (length r) s @ p) @ trim_left_runes rs (drop (length r) s)"
      by (metis append_assoc append_take_drop_id)
    moreover from Some have "trim_left_runes rs s = trim_left_runes rs (drop (length r) s)"
      by (simp add: trim_left_runes.simps [of rs s])
    ultimately show ?thesis by metis
  qed
qed

lemma trim_left_runes_le: "length (trim_left_runes rs s) \<le> length s"
  using trim_left_runes_suffix [of s rs] by (metis le_add2 length_append)

text \<open>Trimming leaves a contiguous part of the string.\<close>

lemma trim_space_infix: "\<exists>p q. s = p @ trim_space s @ q"
proof -
  obtain p where p: "s = p @ trim_left_space s"
    using trim_left_runes_suffix trim_left_space_def by metis
  obtain q where "rev (trim_left_space s) = q @ trim_left_runes (map rev space_runes) (rev (trim_left_space s))"
    using trim_left_runes_suffix by metis
  then have "trim_left_space s = trim_space s @ rev q"
    by (metis rev_append rev_rev_ident trim_right_space_def trim_space_def)
  with p show ?thesis by metis
qed

lemma length_trim_space_le: "length (trim_space s) \<le> length s"
proof -
  obtain p q where "s = p @ trim_space s @ q" using trim_space_infix by metis
  then have "length s = length p + length (trim_space s) + length q"
    by (metis add.assoc length_append)
  then show ?thesis by simp
qed

lemma trim_space_Nil [simp]: "trim_space [] = []"
  using length_trim_space_le [of "[]"] by simp

subsection \<open>Numbers as text\<close>

fun digits_of :: "nat \<Rightarrow> string" where
  "digits_of n = (if n < 10 then [byte (48 + n)] else digits_of (n div 10) @ [byte (48 + n mod 10)])"

declare digits_of.simps [simp del]

text \<open>\<open>strconv.Itoa\<close>, and \<open>%d\<close> in a format.\<close>

definition itoa :: "int \<Rightarrow> string" where
  "itoa n = (if n < 0 then ''-'' @ digits_of (nat (- n)) else digits_of (nat n))"

definition is_ascii_digit :: "char \<Rightarrow> bool" where
  "is_ascii_digit c = (48 \<le> (of_char c :: nat) \<and> (of_char c :: nat) \<le> 57)"

lemma digits_of_digits: "\<forall>c \<in> set (digits_of n). is_ascii_digit c"
proof (induction n rule: digits_of.induct)
  case (1 n)
  have small: "is_ascii_digit (byte (48 + k))" if "k < 10" for k
    using that by (simp add: is_ascii_digit_def)
  show ?case
    using 1 small by (cases "n < 10") (auto simp: digits_of.simps [of n])
qed

lemma digits_of_ne [simp]: "digits_of n \<noteq> []"
  by (subst digits_of.simps) simp


text \<open>Reading decimal digits back, most significant first.\<close>

definition digit_val :: "char \<Rightarrow> int" where
  "digit_val c = of_char c - 48"

definition dec_val :: "string \<Rightarrow> int" where
  "dec_val s = fold (\<lambda>c n. n * 10 + digit_val c) s 0"

lemma digit_val_byte: "k < 10 \<Longrightarrow> digit_val (byte (48 + k)) = int k"
proof -
  assume k: "k < 10"
  have "(of_char (byte (48 + k)) :: int) = int (of_char (byte (48 + k)) :: nat)"
    by (simp add: of_char_def)
  with k show ?thesis by (simp add: digit_val_def)
qed

lemma dec_val_snoc [simp]: "dec_val (s @ [c]) = dec_val s * 10 + digit_val c"
  by (simp add: dec_val_def)

lemma dec_val_digits_of [simp]: "dec_val (digits_of n) = int n"
proof (induction n rule: digits_of.induct)
  case (1 n)
  show ?case
  proof (cases "n < 10")
    case True
    then show ?thesis by (simp add: digits_of.simps [of n] dec_val_def digit_val_byte)
  next
    case False
    then have "dec_val (digits_of n) = int (n div 10) * 10 + int (n mod 10)"
      using 1 by (simp add: digits_of.simps [of n] digit_val_byte)
    then show ?thesis by (metis div_mult_mod_eq of_nat_add of_nat_mult of_nat_numeral)
  qed
qed

lemma digit_val_range: "is_ascii_digit c \<Longrightarrow> 0 \<le> digit_val c \<and> digit_val c \<le> 9"
proof -
  assume c: "is_ascii_digit c"
  have "(of_char c :: int) = int (of_char c :: nat)" by (simp add: of_char_def)
  with c show ?thesis by (simp add: is_ascii_digit_def digit_val_def)
qed

lemma dec_val_nonneg: "\<forall>c \<in> set s. is_ascii_digit c \<Longrightarrow> 0 \<le> dec_val s"
  by (induction s rule: rev_induct) (auto simp: dec_val_def dest: digit_val_range)


lemma trim_left_runes_id: "\<forall>r \<in> set rs. r \<noteq> [] \<longrightarrow> hd r \<noteq> c \<Longrightarrow> trim_left_runes rs (c # s) = c # s"
proof -
  assume "\<forall>r \<in> set rs. r \<noteq> [] \<longrightarrow> hd r \<noteq> c"
  then have "find (\<lambda>r. r \<noteq> [] \<and> has_prefix (c # s) r) rs = None"
    by (auto simp: find_None_iff has_prefix_iff neq_Nil_conv)
  then show ?thesis by (simp add: trim_left_runes.simps [of rs])
qed

text \<open>A string that starts and ends with visible ASCII is not trimmed.\<close>

definition visible_ascii :: "char \<Rightarrow> bool" where
  "visible_ascii c = (CHR '' '' < c \<and> c < CHR 0x80)"

lemma visible_not_space:
  assumes "visible_ascii c"
  shows "\<forall>r \<in> set space_runes. r \<noteq> [] \<longrightarrow> hd r \<noteq> c" "\<forall>r \<in> set (map rev space_runes). r \<noteq> [] \<longrightarrow> hd r \<noteq> c"
  using assms by (auto simp: visible_ascii_def space_runes_def less_char_def)

lemma trim_space_visible_ends:
  assumes "s \<noteq> []" "visible_ascii (hd s)" "visible_ascii (last s)"
  shows "trim_space s = s"
proof -
  note first = visible_not_space(1) [OF assms(2)]
  note last = visible_not_space(2) [OF assms(3)]
  have left: "trim_left_space s = s"
    using trim_left_runes_id [OF first, of "tl s"] assms(1) by (simp add: trim_left_space_def)
  have r: "last s # rev (butlast s) = rev s"
    using assms(1) by (metis append_butlast_last_id rev_eq_Cons_iff rev_rev_ident)
  have "trim_left_runes (map rev space_runes) (rev s) = rev s"
    using trim_left_runes_id [OF last, of "rev (butlast s)"] unfolding r .
  then have "trim_right_space s = s" by (simp add: trim_right_space_def)
  with left show ?thesis by (simp add: trim_space_def)
qed

lemma visible_digit: "is_ascii_digit c \<Longrightarrow> visible_ascii c"
  by (auto simp: is_ascii_digit_def visible_ascii_def less_char_def)

lemma trim_space_digits [simp]: "trim_space (digits_of n) = digits_of n"
  using digits_of_digits [of n] by (intro trim_space_visible_ends) (auto intro: visible_digit)

subsection \<open>Fields and joining\<close>

text \<open>
  \<open>strings.Fields\<close>: the maximal runs of runes that are not \<open>unicode.IsSpace\<close>; \<open>cur\<close> is the run
  being read. Testing for a space rune's encoding at every byte is exact, since such an encoding
  starts with a byte that cannot occur inside another rune.
\<close>

definition space_at :: "string \<Rightarrow> string option" where
  "space_at s = find (\<lambda>r. r \<noteq> [] \<and> has_prefix s r) space_runes"

lemma space_at_Some: "space_at s = Some r \<Longrightarrow> r \<noteq> [] \<and> r \<in> set space_runes \<and> has_prefix s r"
  by (auto simp: space_at_def find_Some_iff)

function str_fields_from :: "string \<Rightarrow> string \<Rightarrow> string list" where
  "str_fields_from cur [] = (if cur = [] then [] else [cur])"
| "str_fields_from cur (c # s) =
     (case space_at (c # s) of
        Some r \<Rightarrow> (if cur = [] then [] else [cur]) @ str_fields_from [] (drop (length r) (c # s))
      | None \<Rightarrow> str_fields_from (cur @ [c]) s)"
  by pat_completeness auto
termination
proof (relation "measure (\<lambda>(cur, s). length s)", goal_cases)
  case (3 cur c s r)
  then show ?case using space_at_Some [of "c # s" r] by (cases r) auto
qed simp_all

definition str_fields :: "string \<Rightarrow> string list" where
  "str_fields s = str_fields_from [] s"

fun join :: "string list \<Rightarrow> string \<Rightarrow> string" where
  "join [] sep = []"
| "join [x] sep = x"
| "join (x # y # ys) sep = x @ sep @ join (y # ys) sep"

lemma join_Cons: "ys \<noteq> [] \<Longrightarrow> join (x # ys) sep = x @ sep @ join ys sep"
  by (cases ys) auto

lemma set_join: "set (join xs sep) \<subseteq> \<Union> (set (map set xs)) \<union> set sep"
  by (induction xs sep rule: join.induct) auto

text \<open>No field holds an ASCII space character.\<close>

definition ascii_spaces :: "char list" where
  "ascii_spaces = [CHR 0x09, CHR 0x0A, CHR 0x0B, CHR 0x0C, CHR 0x0D, CHR 0x20]"

lemma ascii_space_at: "c \<in> set ascii_spaces \<Longrightarrow> space_at (c # s) \<noteq> None"
  by (auto simp: space_at_def find_None_iff ascii_spaces_def space_runes_def has_prefix_def)

lemma fields_from_no_space:
  "set cur \<inter> set ascii_spaces = {} \<Longrightarrow> \<forall>f \<in> set (str_fields_from cur s). set f \<inter> set ascii_spaces = {} \<and> f \<noteq> []"
proof (induction cur s rule: str_fields_from.induct)
  case (2 cur c s)
  show ?case
  proof (cases "space_at (c # s)")
    case None
    then have "c \<notin> set ascii_spaces" using ascii_space_at by blast
    with 2 None show ?thesis by simp
  next
    case (Some r)
    with 2 show ?thesis by auto
  qed
qed auto

lemma str_fields_no_space: "f \<in> set (str_fields s) \<Longrightarrow> set f \<inter> set ascii_spaces = {} \<and> f \<noteq> []"
  using fields_from_no_space [of "[]" s] by (simp add: str_fields_def)

lemma trim_left_no_space: "find (\<lambda>r. r \<noteq> [] \<and> has_prefix (trim_left_runes rs s) r) rs = None"
proof (induction rs s rule: trim_left_runes.induct)
  case (1 rs s)
  show ?case
  proof (cases "find (\<lambda>r. r \<noteq> [] \<and> has_prefix s r) rs")
    case None
    then show ?thesis by (simp add: trim_left_runes.simps [of rs s])
  next
    case (Some r)
    with 1 [OF Some] show ?thesis by (simp add: trim_left_runes.simps [of rs s])
  qed
qed

text \<open>A trimmed text does not start with a space character.\<close>

lemma trim_space_head:
  assumes s: "trim_space s = c # r"
  shows "c \<notin> set ascii_spaces"
proof
  assume c: "c \<in> set ascii_spaces"
  obtain q where "rev (trim_left_space s) = q @ trim_left_runes (map rev space_runes) (rev (trim_left_space s))"
    using trim_left_runes_suffix by metis
  then have "trim_left_space s = trim_space s @ rev q"
    by (metis rev_append rev_rev_ident trim_right_space_def trim_space_def)
  then have "has_prefix (trim_left_space s) [c]" using s by (simp add: has_prefix_def)
  moreover have "[c] \<in> set space_runes" using c by (auto simp: space_runes_def ascii_spaces_def)
  ultimately show False using trim_left_no_space [of space_runes s] by (auto simp: find_None_iff trim_left_space_def)
qed

subsection \<open>Trimmed text\<close>

text \<open>A trimmed text has no space at either end, and no part that reaches an end is blank.\<close>

lemma trim_left_blank: "trim_left_runes rs s = [] \<Longrightarrow> s \<noteq> [] \<Longrightarrow> \<exists>r \<in> set rs. r \<noteq> [] \<and> (\<exists>p. s = p @ r)"
proof (induction rs s rule: trim_left_runes.induct)
  case (1 rs s)
  then obtain r where r: "find (\<lambda>r. r \<noteq> [] \<and> has_prefix s r) rs = Some r"
    by (cases "find (\<lambda>r. r \<noteq> [] \<and> has_prefix s r) rs") (simp_all add: trim_left_runes.simps [of rs s])
  then have rs: "r \<in> set rs" "r \<noteq> []" "s = r @ drop (length r) s"
    by (auto simp: find_Some_iff has_prefix_def dest: nth_mem) (metis append_take_drop_id)
  show ?case
  proof (cases "drop (length r) s = []")
    case True
    with rs show ?thesis by (metis append_Nil append_Nil2)
  next
    case False
    have "trim_left_runes rs (drop (length r) s) = []" using 1(2) r by (simp add: trim_left_runes.simps [of rs s])
    from "1.IH" [OF r this False] obtain r' p where "r' \<in> set rs" "r' \<noteq> []" "drop (length r) s = p @ r'" by blast
    with rs(3) show ?thesis by (metis append.assoc)
  qed
qed

lemma trim_left_fixed: "(\<And>r. r \<in> set rs \<Longrightarrow> r \<noteq> [] \<Longrightarrow> \<not> has_prefix s r) \<Longrightarrow> trim_left_runes rs s = s"
  by (subst trim_left_runes.simps) (auto split: option.split simp: find_Some_iff)

definition trimmed :: "string \<Rightarrow> bool" where
  "trimmed s \<longleftrightarrow> (\<forall>r \<in> set space_runes. r \<noteq> [] \<longrightarrow> \<not> has_prefix s r \<and> \<not> has_prefix (rev s) (rev r))"

lemma trim_space_split: "\<exists>q. trim_left_space s = trim_space s @ q"
proof -
  obtain q where "rev (trim_left_space s) = q @ trim_left_runes (map rev space_runes) (rev (trim_left_space s))"
    using trim_left_runes_suffix by metis
  then show ?thesis by (metis rev_append rev_rev_ident trim_right_space_def trim_space_def)
qed

lemma trimmed_trim_space: "trimmed (trim_space s)"
  unfolding trimmed_def
proof (intro ballI impI conjI)
  fix r assume r: "r \<in> set space_runes" "r \<noteq> []"
  obtain q where q: "trim_left_space s = trim_space s @ q" using trim_space_split by blast
  have "\<not> has_prefix (trim_left_space s) r"
    using trim_left_no_space [of space_runes s] r by (auto simp: find_None_iff trim_left_space_def)
  then show "\<not> has_prefix (trim_space s) r" unfolding q by (auto simp: has_prefix_iff)
  show "\<not> has_prefix (rev (trim_space s)) (rev r)"
    using trim_left_no_space [of "map rev space_runes" "rev (trim_left_space s)"] r
    by (auto simp: find_None_iff trim_space_def trim_right_space_def)
qed

lemma trimmed_part_not_blank:
  assumes "trimmed s" "u \<noteq> []" "(\<exists>p. s = p @ u) \<or> (\<exists>q. s = u @ q)"
  shows "trim_space u \<noteq> []"
proof
  assume blank: "trim_space u = []"
  have run: "trim_left_runes (map rev space_runes) (rev (trim_left_space u)) = []"
    using blank by (simp add: trim_space_def trim_right_space_def)
  have left: "trim_left_space u = u" if "\<exists>q. s = u @ q"
    unfolding trim_left_space_def using that assms(1)
    by (intro trim_left_fixed) (auto simp: trimmed_def has_prefix_iff)
  from assms(3) show False
  proof
    assume "\<exists>q. s = u @ q"
    with left run trim_left_blank [of "map rev space_runes" "rev u"] assms(2) obtain r p where
      "r \<in> set space_runes" "r \<noteq> []" "rev u = p @ rev r" by auto
    then have "u = r @ rev p" by (metis rev_append rev_rev_ident)
    with \<open>\<exists>q. s = u @ q\<close> \<open>r \<in> set space_runes\<close> \<open>r \<noteq> []\<close> assms(1) show False
      by (auto simp: trimmed_def has_prefix_iff)
  next
    assume "\<exists>p. s = p @ u"
    then obtain p where s: "s = p @ u" by blast
    have "\<exists>r \<in> set space_runes. r \<noteq> [] \<and> (\<exists>x. u = x @ r)"
    proof (cases "trim_left_space u = []")
      case True
      with trim_left_blank [of space_runes u] assms(2) show ?thesis by (simp add: trim_left_space_def)
    next
      case False
      then obtain r where r: "r \<in> set space_runes" "r \<noteq> []" "has_prefix (rev (trim_left_space u)) (rev r)"
        using run trim_left_fixed [of "map rev space_runes" "rev (trim_left_space u)"] by fastforce
      obtain y where "rev (trim_left_space u) = rev r @ y" using r(3) by (auto simp: has_prefix_iff)
      then have "trim_left_space u = rev y @ r" by (metis rev_append rev_rev_ident)
      moreover obtain z where "u = z @ trim_left_space u" using trim_left_runes_suffix trim_left_space_def by metis
      ultimately have "u = (z @ rev y) @ r" by simp
      with r show ?thesis by blast
    qed
    with s assms(1) show False by (auto simp: trimmed_def has_prefix_iff)
  qed
qed

text \<open>A trimmed text between two spaces trims to itself.\<close>

lemma space_rune_blank: "r \<in> set space_runes \<Longrightarrow> CHR '' '' \<in> set r \<Longrightarrow> r = '' ''"
  by (auto simp: space_runes_def)

lemma trim_left_blank_head: "trim_left_runes rs (CHR '' '' # s) = trim_left_runes rs s"
  if "'' '' \<in> set rs" "\<And>r. r \<in> set rs \<Longrightarrow> CHR '' '' \<in> set r \<Longrightarrow> r = '' ''"
proof -
  have only: "r = '' ''" if "r \<in> set rs" "r \<noteq> []" "has_prefix (CHR '' '' # s) r" for r
    using that by (intro \<open>\<And>r. r \<in> set rs \<Longrightarrow> CHR '' '' \<in> set r \<Longrightarrow> r = '' ''\<close>) (auto simp: has_prefix_iff Cons_eq_append_conv)
  have "find (\<lambda>r. r \<noteq> [] \<and> has_prefix (CHR '' '' # s) r) rs = Some '' ''"
  proof (cases "find (\<lambda>r. r \<noteq> [] \<and> has_prefix (CHR '' '' # s) r) rs")
    case None
    with that(1) show ?thesis by (auto simp: find_None_iff has_prefix_def)
  next
    case (Some r)
    then have "r \<in> set rs" "r \<noteq> []" "has_prefix (CHR '' '' # s) r" by (auto simp: find_Some_iff)
    with only Some show ?thesis by blast
  qed
  then show ?thesis by (simp add: trim_left_runes.simps [of rs "CHR '' '' # s"])
qed

lemma trim_left_no_prefix:
  assumes "v \<noteq> []" "\<And>r. r \<in> set rs \<Longrightarrow> r \<noteq> [] \<Longrightarrow> \<not> has_prefix v r"
    and "\<And>r. r \<in> set rs \<Longrightarrow> CHR '' '' \<in> set r \<Longrightarrow> r = '' ''"
  shows "trim_left_runes rs (v @ '' '') = v @ '' ''"
proof (rule trim_left_fixed)
  fix r assume r: "r \<in> set rs" "r \<noteq> []"
  show "\<not> has_prefix (v @ '' '') r"
  proof
    assume "has_prefix (v @ '' '') r"
    then obtain q where q: "v @ '' '' = r @ q" by (auto simp: has_prefix_iff)
    show False
    proof (cases q rule: rev_cases)
      case Nil
      with q have "r = v @ '' ''" by simp
      with assms(3) [OF r(1)] assms(1) show False by (cases v) auto
    next
      case (snoc q' c)
      with q have "v = r @ q'" by (metis append_assoc append_same_eq butlast_snoc)
      with assms(2) [OF r] show False by simp
    qed
  qed
qed

lemma trim_space_padded:
  assumes "trimmed v"
  shows "trim_space ('' '' @ v @ '' '') = v"
proof -
  have blank: "'' '' \<in> set space_runes" "'' '' \<in> set (map rev space_runes)" by (auto simp: space_runes_def)
  note only = space_rune_blank
  have only_rev: "r \<in> set (map rev space_runes) \<Longrightarrow> CHR '' '' \<in> set r \<Longrightarrow> r = '' ''" for r
    using only by fastforce
  have left: "trim_left_runes space_runes (CHR '' '' # s) = trim_left_runes space_runes s" for s
    by (rule trim_left_blank_head [OF blank(1) only])
  have right: "trim_left_runes (map rev space_runes) (CHR '' '' # s) = trim_left_runes (map rev space_runes) s" for s
    by (rule trim_left_blank_head [OF blank(2) only_rev])
  show ?thesis
  proof (cases "v = []")
    case True
    have "trim_left_runes space_runes [] = []" by (subst trim_left_runes.simps) (auto split: option.split simp: find_Some_iff has_prefix_def)
    with True show ?thesis using left [of "'' ''"] left [of "[]"] trim_space_Nil
      by (simp add: trim_space_def trim_left_space_def)
  next
    case False
    have "trim_left_runes space_runes (v @ '' '') = v @ '' ''"
      by (rule trim_left_no_prefix [OF False _ only]) (use assms in \<open>auto simp: trimmed_def\<close>)
    then have "trim_left_space ('' '' @ v @ '' '') = v @ '' ''" using left [of "v @ '' ''"] by (simp add: trim_left_space_def)
    moreover have "trim_left_runes (map rev space_runes) (rev v) = rev v"
      by (rule trim_left_fixed) (use assms in \<open>auto simp: trimmed_def\<close>)
    ultimately show ?thesis using right [of "rev v"] by (simp add: trim_space_def trim_right_space_def)
  qed
qed

subsection \<open>Replacing\<close>

text \<open>One left-to-right pass of a \<open>strings.Replacer\<close>, which compares the old strings in argument order.\<close>

function replace_all :: "(string \<times> string) list \<Rightarrow> string \<Rightarrow> string" where
  "replace_all ps [] = []"
| "replace_all ps (c # s) =
     (case find (\<lambda>(old, new). old \<noteq> [] \<and> has_prefix (c # s) old) ps of
        Some (old, new) \<Rightarrow> new @ replace_all ps (drop (length old) (c # s))
      | None \<Rightarrow> c # replace_all ps s)"
  by pat_completeness auto
termination
  by (relation "measure (\<lambda>(ps, s). length s)") (auto simp: find_Some_iff neq_Nil_conv)

definition str_contains :: "string \<Rightarrow> string \<Rightarrow> bool" where
  "str_contains s p = (str_index s p \<noteq> None)"

lemma replace_all_le:
  "\<forall>(old, new) \<in> set ps. length new \<le> length old \<Longrightarrow> length (replace_all ps s) \<le> length s"
proof (induction ps s rule: replace_all.induct)
  case (2 ps c s)
  show ?case
  proof (cases "find (\<lambda>(old, new). old \<noteq> [] \<and> has_prefix (c # s) old) ps")
    case None
    with 2 show ?thesis by simp
  next
    case (Some q)
    obtain old new where q: "q = (old, new)" by force
    with Some have mem: "(old, new) \<in> set ps" and pre: "has_prefix (c # s) old" by (auto simp: find_Some_iff) (metis nth_mem)
    have "length (replace_all ps (drop (length old) (c # s))) \<le> length (drop (length old) (c # s))"
      using "2.IH"(2) [OF Some q [symmetric]] "2.prems" by simp
    moreover have "length new \<le> length old" using "2.prems" mem by fastforce
    moreover have "length old \<le> length (c # s)" using pre unfolding has_prefix_def by (metis length_take min.cobounded1)
    ultimately show ?thesis using Some q by (simp del: drop_Suc_Cons)
  qed
qed simp

text \<open>Replacing emits what the pairs emit, and bytes no pair replaces.\<close>

lemma set_replace_all:
  "x \<in> set (replace_all ps s) \<Longrightarrow> (x \<in> set s \<and> [x] \<notin> fst ` set ps) \<or> (\<exists>p \<in> set ps. x \<in> set (snd p))"
proof (induction ps s rule: replace_all.induct)
  case (2 ps c s)
  show ?case
  proof (cases "find (\<lambda>(old, new). old \<noteq> [] \<and> has_prefix (c # s) old) ps")
    case None
    have "[c] \<notin> fst ` set ps"
    proof
      assume "[c] \<in> fst ` set ps"
      then obtain new where "([c], new) \<in> set ps" by auto
      with None have "\<not> (case ([c], new) of (old, new) \<Rightarrow> old \<noteq> [] \<and> has_prefix (c # s) old)"
        unfolding find_None_iff by blast
      then show False by (simp add: has_prefix_def)
    qed
    moreover have "x = c \<or> x \<in> set (replace_all ps s)" using None "2.prems" by simp
    moreover have "set s \<subseteq> set (c # s)" "c \<in> set (c # s)" by auto
    ultimately show ?thesis using "2.IH"(1) [OF None] by blast
  next
    case (Some q)
    obtain old new where q: "q = (old, new)" by force
    with Some have mem: "(old, new) \<in> set ps" by (auto simp: find_Some_iff) (metis nth_mem)
    have "x \<in> set new \<or> x \<in> set (replace_all ps (drop (length old) (c # s)))" using Some q "2.prems" by simp
    then show ?thesis
    proof
      assume "x \<in> set new"
      with mem show ?thesis by (intro disjI2 bexI [of _ "(old, new)"]) simp_all
    next
      assume "x \<in> set (replace_all ps (drop (length old) (c # s)))"
      from "2.IH"(2) [OF Some q [symmetric] this] show ?thesis
        using in_set_dropD [of x "length old" "c # s"] by (elim disjE conjE) simp_all
    qed
  qed
qed simp

subsection \<open>Runes\<close>

text \<open>The width of the rune a non-empty string starts with, as \<open>utf8.DecodeRune\<close> gives it: one byte where the encoding is wrong.\<close>

abbreviation byte_in :: "nat \<Rightarrow> nat \<Rightarrow> char \<Rightarrow> bool" where
  "byte_in lo hi c \<equiv> lo \<le> of_char c \<and> of_char c \<le> hi"

definition continued :: "nat \<Rightarrow> nat \<Rightarrow> string \<Rightarrow> nat \<Rightarrow> bool" where
  "continued lo hi rest n =
     (n \<le> length rest \<and> byte_in lo hi (rest ! 0) \<and> list_all (byte_in 0x80 0xBF) (take (n - 1) (drop 1 rest)))"

definition rune_width :: "char \<Rightarrow> string \<Rightarrow> nat" where
  "rune_width c rest =
     (if byte_in 0xC2 0xDF c \<and> continued 0x80 0xBF rest 1 then 2
      else if of_char c = (0xE0 :: nat) \<and> continued 0xA0 0xBF rest 2 then 3
      else if (byte_in 0xE1 0xEC c \<or> byte_in 0xEE 0xEF c) \<and> continued 0x80 0xBF rest 2 then 3
      else if of_char c = (0xED :: nat) \<and> continued 0x80 0x9F rest 2 then 3
      else if of_char c = (0xF0 :: nat) \<and> continued 0x90 0xBF rest 3 then 4
      else if byte_in 0xF1 0xF3 c \<and> continued 0x80 0xBF rest 3 then 4
      else if of_char c = (0xF4 :: nat) \<and> continued 0x80 0x8F rest 3 then 4
      else 1)"

lemma rune_width_pos: "0 < rune_width c s"
  by (simp add: rune_width_def)

function runes :: "string \<Rightarrow> string list" where
  "runes [] = []"
| "runes (c # s) = take (rune_width c s) (c # s) # runes (drop (rune_width c s) (c # s))"
  by pat_completeness auto

termination
proof (relation "measure length", goal_cases)
  case (2 c s)
  show ?case using rune_width_pos [of c s] by simp
qed simp

definition rune_count :: "string \<Rightarrow> nat" where
  "rune_count s = length (runes s)"

lemma concat_runes: "concat (runes s) = s"
  by (induction s rule: runes.induct) (simp_all del: drop_Suc_Cons take_Suc_Cons)

end
