(* ===== verification/Toc_Tree.thy ===== *)
theory Toc_Tree
  imports Go_Strings
begin

text \<open>
  The table-of-contents tree: \<open>TOCNode\<close> of \<open>pkg/tree/tree.go\<close>, its depth-first reading
  (\<open>flattenForVerify\<close> of \<open>pkg/ingest/toc_builder.go\<close>), and the two \<open>llms.txt\<close> renderings of
  \<open>pkg/tree/llmstxt.go\<close> are built on it in \<open>Llms_Txt\<close>.
\<close>

subsection \<open>Data\<close>

record toc_data =
  node_id :: string
  toc_structure :: string
  toc_title :: string
  start_page :: int
  end_page :: int
  toc_summary :: string

datatype toc_node = TOC (toc: toc_data) (nodes: "toc_node list")

abbreviation start_of :: "toc_node \<Rightarrow> int" where
  "start_of n \<equiv> start_page (toc n)"

abbreviation end_of :: "toc_node \<Rightarrow> int" where
  "end_of n \<equiv> end_page (toc n)"

text \<open>\<open>flattenForVerify\<close>: every node, depth first.\<close>

fun toc_preorder :: "toc_node \<Rightarrow> toc_node list" where
  "toc_preorder (TOC d ns) = TOC d ns # concat (map toc_preorder ns)"

definition flatten_for_verify :: "toc_node list \<Rightarrow> toc_node list" where
  "flatten_for_verify ns = concat (map toc_preorder ns)"

lemma flatten_append [simp]: "flatten_for_verify (xs @ ys) = flatten_for_verify xs @ flatten_for_verify ys"
  by (simp add: flatten_for_verify_def)

lemma flatten_Nil [simp]: "flatten_for_verify [] = []"
  by (simp add: flatten_for_verify_def)

lemma flatten_Cons: "flatten_for_verify (m # out) = toc_preorder m @ flatten_for_verify out"
  by (simp add: flatten_for_verify_def)

lemma toc_preorder_TOC: "toc_preorder (TOC d ns) = TOC d ns # flatten_for_verify ns"
  by (simp add: flatten_for_verify_def)

end
