(* ===== verification/Toc_Builder.thy ===== *)
theory Toc_Builder
  imports Toc_Tree "HOL-Library.Sublist"
begin

text \<open>
  The contents tree ingest builds (\<open>tree.TOCNode\<close> of \<open>pkg/tree/tree.go\<close>) and the code of
  \<open>pkg/ingest/toc_builder.go\<close> that shapes it after the model has answered: reading the
  \<open><physical_index_X>\<close> markers, nesting the flat list by its dotted structure, clearing start pages
  that cannot be true (with the longest in-order run of siblings kept), inheriting container starts,
  deriving end pages, and stamping node IDs.

  The Go code mutates nodes through pointers into the slices; here every pass returns the new forest.
\<close>

subsection \<open>Data\<close>

record toc_payload =
  pl_structure :: string
  pl_title :: string
  pl_physical_index :: "string option"

subsection \<open>From the flat list to the tree\<close>

fun read_digits :: "string \<Rightarrow> int \<Rightarrow> int" where
  "read_digits [] n = n"
| "read_digits (c # cs) n =
     (if is_ascii_digit c then read_digits cs (wrap64 (n * 10 + (of_char c - 48))) else 0)"

definition parse_physical_index :: "string \<Rightarrow> int" where
  "parse_physical_index s =
     (let pfx = ''<physical_index_''; sfx = ''>''; s = trim_space s
      in if \<not> has_prefix s pfx \<or> \<not> has_suffix s sfx then 0
         else read_digits (take (length s - length sfx - length pfx) (drop (length pfx) s)) 0)"

definition depth_of :: "string \<Rightarrow> nat" where
  "depth_of s = (if s = [] then 0 else length (filter (\<lambda>c. c = CHR ''.'') s) + 1)"

definition materialise :: "toc_payload list \<Rightarrow> toc_data list" where
  "materialise flat = List.map_filter (\<lambda>n.
     let t = trim_space (pl_title n) in
     if t = [] then None
     else Some \<lparr>node_id = [], toc_structure = trim_space (pl_structure n), toc_title = t,
            start_page = (case pl_physical_index n of None \<Rightarrow> 0 | Some p \<Rightarrow> parse_physical_index p),
            end_page = 0, toc_summary = []\<rparr>) flat"

text \<open>
  The code keeps a stack \<open>path\<close> of pointers to the nodes last added, outermost first. A node is only
  ever appended under the top of the stack, so the stack is always the first \<open>k\<close> nodes of the
  forest's right spine (last root, its last child, and so on) and its length says which node the top
  is: \<open>add_at k\<close> appends below the \<open>k\<close>-th node of the spine.
\<close>

fun add_at :: "nat \<Rightarrow> toc_node \<Rightarrow> toc_node list \<Rightarrow> toc_node list" where
  "add_at 0 n out = out @ [n]"
| "add_at (Suc k) n [] = [n]"
| "add_at (Suc k) n [TOC d ns] = [TOC d (add_at k n ns)]"
| "add_at (Suc k) n (m # out) = m # add_at (Suc k) n out"

fun nest :: "toc_data list \<Rightarrow> toc_node list \<Rightarrow> nat \<Rightarrow> toc_node list" where
  "nest [] out k = out"
| "nest (d # ds) out k =
     (let depth = (if depth_of (toc_structure d) \<le> 0 then 1 else depth_of (toc_structure d));
          k' = min k (depth - 1)
      in nest ds (add_at k' (TOC d []) out) (Suc k'))"

definition assemble_hierarchy :: "toc_payload list \<Rightarrow> toc_node list" where
  "assemble_hierarchy flat = nest (materialise flat) [] 0"

subsection \<open>Clearing impossible starts\<close>

text \<open>
  \<open>outOfOrder\<close>: for each placed sibling the length of the longest run that ends there and its
  predecessor in that run, filled left to right; the longest run is then read back from its last
  element. The loop over \<open>prev\<close> only goes to smaller indexes, which the guard states.
\<close>

definition run_row :: "int list \<Rightarrow> nat list \<Rightarrow> nat \<Rightarrow> nat \<times> nat option" where
  "run_row ps lens a =
     fold (\<lambda>b (l, p). if ps ! b \<le> ps ! a \<and> l < lens ! b + 1 then (lens ! b + 1, Some b) else (l, p))
       [0..<a] (1, None)"

definition run_table :: "int list \<Rightarrow> nat list \<times> nat option list" where
  "run_table ps =
     fold (\<lambda>a (lens, prevs). case run_row ps lens a of (l, p) \<Rightarrow> (lens @ [l], prevs @ [p]))
       [0..<length ps] ([], [])"

definition best_end :: "nat list \<Rightarrow> nat" where
  "best_end lens = fold (\<lambda>a best. if lens ! best < lens ! a then a else best) [0..<length lens] 0"

function read_run :: "nat option list \<Rightarrow> nat \<Rightarrow> nat list" where
  "read_run prevs a =
     (case prevs ! a of
        None \<Rightarrow> [a]
      | Some b \<Rightarrow> if b < a then read_run prevs b @ [a] else [a])"
  by pat_completeness auto
termination
  by (relation "measure snd") auto

declare read_run.simps [simp del]

definition longest_run :: "int list \<Rightarrow> nat list" where
  "longest_run ps = (case run_table ps of (lens, prevs) \<Rightarrow> read_run prevs (best_end lens))"

definition out_of_order :: "int list \<Rightarrow> nat list" where
  "out_of_order starts =
     (let idx = filter (\<lambda>i. 0 < starts ! i) [0..<length starts] in
      if length idx < 2 then []
      else let keep = map (\<lambda>a. idx ! a) (longest_run (map (\<lambda>i. starts ! i) idx))
           in filter (\<lambda>i. i \<notin> set keep) idx)"

text \<open>The start pages of one list of siblings after both clearing passes.\<close>

definition clear_pass1 :: "int list \<Rightarrow> int \<Rightarrow> int list \<Rightarrow> int list" where
  "clear_pass1 toc_pages floor starts =
     map (\<lambda>p. if 0 < p \<and> (p \<in> set toc_pages \<or> p < floor) then 0 else p) starts"

definition clear_pass2 :: "int list \<Rightarrow> int list" where
  "clear_pass2 starts =
     (let bad = out_of_order starts
      in map (\<lambda>i. if i \<in> set bad then 0 else starts ! i) [0..<length starts])"

definition set_start :: "toc_data \<Rightarrow> int \<Rightarrow> toc_data" where
  \<comment> \<open>a cleared node loses its start and its end\<close>
  "set_start d p = (if p = start_page d then d else d\<lparr>start_page := 0, end_page := 0\<rparr>)"

function repair_walk :: "int list \<Rightarrow> int \<Rightarrow> toc_node list \<Rightarrow> toc_node list \<times> int" where
  "repair_walk toc_pages floor ns =
     (let starts1 = clear_pass1 toc_pages floor (map start_of ns);
          starts2 = clear_pass2 starts1;
          cleared = int (length (filter (\<lambda>(n, p). p \<noteq> start_of n) (zip ns starts2)));
          walked = map (\<lambda>(n, p).
            case repair_walk toc_pages (if 0 < p then p else floor) (nodes n) of
              (cs, k) \<Rightarrow> (TOC (set_start (toc n) p) cs, k)) (zip ns starts2)
      in (map fst walked, cleared + sum_list (map snd walked)))"
  by pat_completeness auto
termination
proof (relation "measure (\<lambda>(_, _, ns). size_list size ns)", goal_cases)
  case (2 toc_pages floor ns s1 s2 cl np n p)
  then have "n \<in> set ns" by (auto dest: set_zip_leftD)
  then have "size n \<le> size_list size ns"
    by (simp add: size_list_estimation')
  moreover have "size_list size (nodes n) < size n"
    by (cases n) simp
  ultimately show ?case by simp
qed simp

declare repair_walk.simps [simp del]

definition repair_starts :: "toc_node list \<Rightarrow> int list \<Rightarrow> toc_node list \<times> int" where
  "repair_starts ns toc_pages = repair_walk toc_pages 0 ns"

subsection \<open>Container starts, end pages and node IDs\<close>

definition least_start :: "int \<Rightarrow> toc_node list \<Rightarrow> int" where
  "least_start s cs =
     fold (\<lambda>c s. if 0 < start_of c \<and> (s = 0 \<or> start_of c < s) then start_of c else s) cs s"

fun inherit_parent_start :: "toc_node \<Rightarrow> toc_node" where
  "inherit_parent_start (TOC d ns) =
     (if ns = [] then TOC d ns
      else let ns' = map inherit_parent_start ns
           in if 0 < start_page d then TOC d ns'
              else TOC (d\<lparr>start_page := least_start (start_page d) ns'\<rparr>) ns')"

definition inherit_parent_starts :: "toc_node list \<Rightarrow> toc_node list" where
  "inherit_parent_starts ns = map inherit_parent_start ns"

text \<open>The end page the later siblings imply: none of them does when the result is 0.\<close>

fun sibling_end :: "int \<Rightarrow> int list \<Rightarrow> int" where
  "sibling_end s [] = 0"
| "sibling_end s (next # rest) =
     (if next = 0 \<or> s = 0 then sibling_end s rest
      else if next = s then s
      else if next > s then next - 1
      else sibling_end s rest)"

definition extend_over :: "int \<Rightarrow> toc_node list \<Rightarrow> int" where
  "extend_over e cs = fold (\<lambda>c e. if end_of c > e then end_of c else e) cs e"

fun derive_end_pages_in :: "int \<Rightarrow> toc_node list \<Rightarrow> toc_node list" where
  "derive_end_pages_in ceiling [] = []"
| "derive_end_pages_in ceiling (TOC d cs # rest) =
     (let s = start_page d;
          end0 = sibling_end s (map start_of rest);
          end1 = (if end0 \<le> 0 then ceiling else end0);
          end2 = (if 0 < s then (if end1 < s then s else end1) else end_page d);
          cs' = derive_end_pages_in (if end2 = 0 then ceiling else end2) cs
      in TOC (d\<lparr>end_page := extend_over end2 cs'\<rparr>) cs' # derive_end_pages_in ceiling rest)"

definition derive_end_pages :: "toc_node list \<Rightarrow> int \<Rightarrow> toc_node list" where
  "derive_end_pages ns doc_last_page = derive_end_pages_in doc_last_page (inherit_parent_starts ns)"

fun stamp_from :: "nat \<Rightarrow> string \<Rightarrow> toc_node list \<Rightarrow> toc_node list" where
  "stamp_from i pfx [] = []"
| "stamp_from i pfx (TOC d cs # rest) =
     (let base = (if toc_structure d = [] then ''n'' @ itoa (int i + 1) else toc_structure d);
          nid = (if pfx = [] then ''toc_'' @ base else pfx @ ''_'' @ base)
      in TOC (d\<lparr>node_id := nid\<rparr>) (stamp_from 0 nid cs) # stamp_from (Suc i) pfx rest)"

definition stamp_node_ids :: "toc_node list \<Rightarrow> string \<Rightarrow> toc_node list" where
  "stamp_node_ids ns pfx = stamp_from 0 pfx ns"

subsection \<open>Nesting keeps every node, in order\<close>

text \<open>The nodes' own data, without their children.\<close>

definition flat_data :: "toc_node list \<Rightarrow> toc_data list" where
  "flat_data ns = map toc (flatten_for_verify ns)"

lemma flat_data_TOC: "flat_data [TOC d ns] = d # flat_data ns"
  by (simp add: flat_data_def flatten_for_verify_def)

lemma flat_data_append [simp]: "flat_data (xs @ ys) = flat_data xs @ flat_data ys"
  by (simp add: flat_data_def)

lemma flat_data_Nil [simp]: "flat_data [] = []"
  by (simp add: flat_data_def)

lemma flat_data_Cons: "flat_data (m # out) = flat_data [m] @ flat_data out"
  by (simp add: flat_data_def flatten_Cons)

lemma flat_data_add_at: "flat_data (add_at k n out) = flat_data out @ flat_data [n]"
proof (induction k n out rule: add_at.induct)
  case (3 k n d ns)
  then show ?case by (simp add: flat_data_TOC)
next
  case (4 k n m v va)
  then show ?case
    by (simp add: flat_data_Cons [of m "add_at (Suc k) n (v # va)"] flat_data_Cons [of m "v # va"])
qed simp_all

lemma flat_data_nest: "flat_data (nest ds out k) = flat_data out @ ds"
  by (induction ds out k rule: nest.induct) (simp_all add: Let_def flat_data_add_at flat_data_TOC)

subsection \<open>The longest in-order run\<close>

text \<open>A run: strictly increasing positions whose values never go backwards.\<close>

definition run_of :: "int list \<Rightarrow> nat list \<Rightarrow> bool" where
  "run_of ps js \<longleftrightarrow> sorted_wrt (<) js \<and> (\<forall>j \<in> set js. j < length ps) \<and> sorted (map ((!) ps) js)"

definition row_ok :: "int list \<Rightarrow> nat list \<Rightarrow> nat \<Rightarrow> nat \<Rightarrow> nat option \<Rightarrow> nat \<Rightarrow> bool" where
  "row_ok ps lens a l p m \<longleftrightarrow>
     (case p of None \<Rightarrow> l = 1 | Some b \<Rightarrow> b < m \<and> ps ! b \<le> ps ! a \<and> l = lens ! b + 1) \<and>
     (\<forall>b < m. ps ! b \<le> ps ! a \<longrightarrow> lens ! b + 1 \<le> l) \<and> 1 \<le> l"

lemma row_ok_keep:
  assumes "row_ok ps lens a l p m" "\<not> (ps ! m \<le> ps ! a \<and> l < lens ! m + 1)"
  shows "row_ok ps lens a l p (Suc m)"
  using assms by (cases p) (auto simp: row_ok_def less_Suc_eq)

lemma row_ok_take:
  assumes "row_ok ps lens a l p m" "ps ! m \<le> ps ! a" "l < lens ! m + 1"
  shows "row_ok ps lens a (lens ! m + 1) (Some m) (Suc m)"
  using assms by (fastforce simp: row_ok_def less_Suc_eq)

lemma row_ok_fold:
  "case fold (\<lambda>b (l, p). if ps ! b \<le> ps ! a \<and> l < lens ! b + 1 then (lens ! b + 1, Some b) else (l, p))
       [0..<m] (1, None) of (l, p) \<Rightarrow> row_ok ps lens a l p m"
proof (induction m)
  case 0
  then show ?case by (simp add: row_ok_def)
next
  case (Suc m)
  let ?f = "\<lambda>b (l, p). if ps ! b \<le> ps ! a \<and> l < lens ! b + 1 then (lens ! b + 1, Some b) else (l, p)"
  obtain l p where lp: "fold ?f [0..<m] (1, None) = (l, p)" by fastforce
  then have row: "row_ok ps lens a l p m" using Suc.IH by simp
  have "fold ?f [0..<Suc m] (1, None) = ?f m (l, p)" using lp by simp
  moreover have "row_ok ps lens a l p (Suc m)" if "\<not> (ps ! m \<le> ps ! a \<and> l < lens ! m + 1)"
    using row_ok_keep [OF row that] .
  moreover have "row_ok ps lens a (lens ! m + 1) (Some m) (Suc m)" if "ps ! m \<le> ps ! a \<and> l < lens ! m + 1"
    using row_ok_take [OF row] that by blast
  ultimately show ?case by (cases "ps ! m \<le> ps ! a \<and> l < lens ! m + 1") simp_all
qed

lemma run_row_ok: "run_row ps lens a = (l, p) \<Longrightarrow> row_ok ps lens a l p a"
  using row_ok_fold [where ps = ps and lens = lens and a = a and m = a] by (simp add: run_row_def)

definition table_ok :: "int list \<Rightarrow> nat list \<Rightarrow> nat option list \<Rightarrow> bool" where
  "table_ok ps lens prevs \<longleftrightarrow> length prevs = length lens \<and>
     (\<forall>a < length lens. row_ok ps lens a (lens ! a) (prevs ! a) a)"

lemma row_ok_append: "m \<le> length lens \<Longrightarrow> row_ok ps (lens @ xs) a l p m = row_ok ps lens a l p m"
  by (auto simp: row_ok_def nth_append split: option.splits)

lemma table_ok_snoc:
  assumes "table_ok ps lens prevs" "row_ok ps lens (length lens) l p (length lens)"
  shows "table_ok ps (lens @ [l]) (prevs @ [p])"
  using assms by (auto simp: table_ok_def less_Suc_eq nth_append row_ok_append)

lemma run_table_ok:
  "case run_table ps of (lens, prevs) \<Rightarrow> table_ok ps lens prevs \<and> length lens = length ps"
proof -
  have "case fold (\<lambda>a (lens, prevs). case run_row ps lens a of (l, p) \<Rightarrow> (lens @ [l], prevs @ [p]))
       [0..<m] ([], []) of (lens, prevs) \<Rightarrow> table_ok ps lens prevs \<and> length lens = m" for m
  proof (induction m)
    case 0
    then show ?case by (simp add: table_ok_def)
  next
    case (Suc m)
    then show ?case by (auto intro!: table_ok_snoc run_row_ok split: prod.splits)
  qed
  then show ?thesis by (simp add: run_table_def)
qed

lemma read_run_ok:
  assumes "table_ok ps lens prevs" "a < length lens" "length lens \<le> length ps"
  shows "run_of ps (read_run prevs a) \<and> length (read_run prevs a) = lens ! a
    \<and> last (read_run prevs a) = a \<and> read_run prevs a \<noteq> [] \<and> (\<forall>j \<in> set (read_run prevs a). j \<le> a)"
  using assms(2)
proof (induction a rule: less_induct)
  case (less a)
  have row: "row_ok ps lens a (lens ! a) (prevs ! a) a"
    using assms(1) less.prems by (auto simp: table_ok_def)
  show ?case
  proof (cases "prevs ! a")
    case None
    with row less.prems assms(3) show ?thesis
      by (simp add: read_run.simps [of prevs a] run_of_def row_ok_def)
  next
    case (Some b)
    with row have b: "b < a" "ps ! b \<le> ps ! a" "lens ! a = lens ! b + 1" by (auto simp: row_ok_def)
    let ?r = "read_run prevs b"
    have IH: "run_of ps ?r" "length ?r = lens ! b" "last ?r = b" "?r \<noteq> []" "\<forall>j \<in> set ?r. j \<le> b"
      using less.IH [OF b(1)] less.prems b(1) by auto
    have "\<forall>j \<in> set ?r. ps ! j \<le> ps ! b"
    proof
      fix j assume "j \<in> set ?r"
      then obtain i where "i < length ?r" "j = ?r ! i" by (metis in_set_conv_nth)
      moreover have "?r ! (length ?r - 1) = b" using IH by (simp add: last_conv_nth)
      moreover have "map ((!) ps) ?r ! i \<le> map ((!) ps) ?r ! (length ?r - 1)"
        using IH(1) \<open>i < length ?r\<close> by (intro sorted_nth_mono) (auto simp: run_of_def)
      ultimately show "ps ! j \<le> ps ! b"
        using IH(4) \<open>i < length ?r\<close> by simp
    qed
    then have "run_of ps (?r @ [a])"
      using IH b less.prems assms(3)
      by (fastforce simp: run_of_def sorted_wrt_append sorted_append)
    with Some b IH show ?thesis by (auto simp: read_run.simps [of prevs a])
  qed
qed

lemma run_length_le:
  assumes tab: "table_ok ps lens prevs" and len: "length lens = length ps"
  shows "run_of ps js \<Longrightarrow> js \<noteq> [] \<Longrightarrow> length js \<le> lens ! last js"
proof (induction js rule: rev_induct)
  case (snoc a js)
  have a: "a < length lens" using snoc.prems len by (simp add: run_of_def)
  have row: "row_ok ps lens a (lens ! a) (prevs ! a) a"
    using tab a by (auto simp: table_ok_def)
  show ?case
  proof (cases "js = []")
    case True
    with row show ?thesis by (simp add: row_ok_def)
  next
    case False
    then have "last js < a" "ps ! last js \<le> ps ! a" "run_of ps js"
      using snoc.prems(1) by (auto simp: run_of_def sorted_wrt_append sorted_append)
    with row snoc.IH False have "length js \<le> lens ! last js" "lens ! last js + 1 \<le> lens ! a"
      by (auto simp: row_ok_def)
    then show ?thesis by simp
  qed
qed simp

lemma best_end_max:
  assumes "lens \<noteq> []"
  shows "best_end lens < length lens \<and> (\<forall>a < length lens. lens ! a \<le> lens ! best_end lens)"
proof -
  have "m \<le> length lens \<Longrightarrow> (let b = fold (\<lambda>a best. if lens ! best < lens ! a then a else best) [0..<m] 0
      in b < length lens \<and> (\<forall>a < m. lens ! a \<le> lens ! b))" for m
    using assms by (induction m) (auto simp: Let_def less_Suc_eq intro: order_trans less_imp_le)
  from this [of "length lens"] show ?thesis by (simp add: best_end_def Let_def)
qed

lemma longest_run_ok:
  assumes "ps \<noteq> []"
  shows "run_of ps (longest_run ps)" "run_of ps js \<Longrightarrow> length js \<le> length (longest_run ps)"
proof -
  obtain lens prevs where t: "run_table ps = (lens, prevs)" by force
  then have tab: "table_ok ps lens prevs" "length lens = length ps"
    using run_table_ok [of ps] by auto
  have ne: "lens \<noteq> []" using tab(2) assms by auto
  note best = best_end_max [OF ne]
  have r: "run_of ps (read_run prevs (best_end lens))"
    "length (read_run prevs (best_end lens)) = lens ! best_end lens"
    using read_run_ok [OF tab(1)] best tab(2) by auto
  then show "run_of ps (longest_run ps)" by (simp add: longest_run_def t)
  show "length js \<le> length (longest_run ps)" if js: "run_of ps js"
  proof (cases "js = []")
    case False
    then have "last js < length lens" using js tab(2) by (simp add: run_of_def)
    with run_length_le [OF tab js False] best show ?thesis
      using r by (fastforce simp: longest_run_def t)
  qed simp
qed


lemma longest_run_bound: "ps \<noteq> [] \<Longrightarrow> a \<in> set (longest_run ps) \<Longrightarrow> a < length ps"
  using longest_run_ok(1) [of ps] by (simp add: run_of_def)

lemma nths_index: "nths xs N = map ((!) xs) (filter (\<lambda>i. i \<in> N) [0..<length xs])"
  by (induction xs rule: rev_induct) (auto simp: nths_append nth_append)

lemma filter_index: "filter P xs = map ((!) xs) (filter (\<lambda>i. P (xs ! i)) [0..<length xs])"
  by (induction xs rule: rev_induct) (auto simp: nth_append intro!: arg_cong2 [where f = append] map_cong filter_cong)

lemma subseq_run:
  assumes "subseq ys ps" "sorted ys"
  obtains js where "run_of ps js" "ys = map ((!) ps) js"
proof -
  from assms(1) obtain N where "ys = nths ps N" by (auto simp: subseq_conv_nths)
  then have ys: "ys = map ((!) ps) (filter (\<lambda>i. i \<in> N) [0..<length ps])" by (simp add: nths_index)
  moreover have "run_of ps (filter (\<lambda>i. i \<in> N) [0..<length ps])"
    using assms(2) by (auto simp: run_of_def ys intro: sorted_wrt_filter)
  ultimately show thesis using that by blast
qed

definition placed_pages :: "int list \<Rightarrow> int list" where
  "placed_pages starts = filter (\<lambda>p. 0 < p) starts"

lemma length_clear_pass2 [simp]: "length (clear_pass2 starts) = length starts"
  by (simp add: clear_pass2_def Let_def)

lemma clear_pass2_nth: "i < length starts \<Longrightarrow>
    clear_pass2 starts ! i = (if i \<in> set (out_of_order starts) then 0 else starts ! i)"
  by (simp add: clear_pass2_def Let_def)

lemma placed_clear_pass2:
  assumes "2 \<le> length (placed_pages starts)"
  shows "placed_pages (clear_pass2 starts)
    = map ((!) (placed_pages starts)) (longest_run (placed_pages starts))"
proof -
  define idx where "idx = filter (\<lambda>i. 0 < starts ! i) [0..<length starts]"
  let ?ps = "placed_pages starts"
  let ?keep = "map (\<lambda>a. idx ! a) (longest_run ?ps)"
  have ps: "?ps = map (\<lambda>i. starts ! i) idx"
    by (simp add: placed_pages_def idx_def filter_index [of _ starts])
  have idx_sorted: "sorted_wrt (<) idx" by (simp add: idx_def sorted_wrt_filter)
  have run: "run_of ?ps (longest_run ?ps)" using assms longest_run_ok(1) [of ?ps] by fastforce
  have keep_sorted: "sorted_wrt (<) ?keep"
    using run idx_sorted
    by (auto simp: run_of_def ps sorted_wrt_map elim!: sorted_wrt_mono_rel [rotated]
        intro: sorted_wrt_nth_less)
  have keep_idx: "set ?keep \<subseteq> set idx" using run by (auto simp: run_of_def ps)
  have bad: "out_of_order starts = filter (\<lambda>i. i \<notin> set ?keep) idx"
    using assms by (simp add: out_of_order_def Let_def idx_def [symmetric] ps)
  have val: "0 < clear_pass2 starts ! i \<longleftrightarrow> i \<in> set ?keep" if "i < length starts" for i
    using that keep_idx by (auto simp: clear_pass2_nth bad idx_def)
  have "filter (\<lambda>i. 0 < clear_pass2 starts ! i) [0..<length starts] = filter (\<lambda>i. i \<in> set ?keep) [0..<length starts]"
    using val by (intro filter_cong) auto
  also have "\<dots> = ?keep"
  proof (rule strict_sorted_equal)
    show "sorted_wrt (<) (filter (\<lambda>i. i \<in> set ?keep) [0..<length starts])"
      by (simp add: sorted_wrt_filter)
    show "set (filter (\<lambda>i. i \<in> set ?keep) [0..<length starts]) = set ?keep"
      using keep_idx by (auto simp: idx_def)
  qed (fact keep_sorted)
  finally have "placed_pages (clear_pass2 starts) = map ((!) (clear_pass2 starts)) ?keep"
    by (simp add: placed_pages_def filter_index [of _ "clear_pass2 starts"])
  also have "\<dots> = map ((!) starts) ?keep"
    using keep_idx by (auto simp: clear_pass2_nth bad idx_def)
  finally show ?thesis using run by (auto simp: ps run_of_def)
qed

lemma clear_pass2_few:
  assumes "length (placed_pages starts) < 2"
  shows "clear_pass2 starts = starts"
proof -
  have "length (filter (\<lambda>i. 0 < starts ! i) [0..<length starts]) = length (placed_pages starts)"
    by (simp add: placed_pages_def filter_index [of _ starts])
  then show ?thesis
    using assms by (simp add: clear_pass2_def out_of_order_def Let_def map_nth)
qed

lemma sorted_short: "length xs < 2 \<Longrightarrow> sorted xs"
  by (cases xs) (auto simp: numeral_2_eq_2)

lemma sorted_clear_pass2: "sorted (placed_pages (clear_pass2 starts))"
proof (cases "length (placed_pages starts) < 2")
  case True
  then show ?thesis by (simp add: clear_pass2_few sorted_short)
next
  case False
  then have "placed_pages starts \<noteq> []" by auto
  from longest_run_ok(1) [OF this] False show ?thesis
    by (simp add: placed_clear_pass2 run_of_def)
qed

lemma clear_pass2_cases: "i < length starts \<Longrightarrow> clear_pass2 starts ! i = starts ! i \<or> (clear_pass2 starts ! i = 0 \<and> 0 < starts ! i)"
  by (auto simp: clear_pass2_nth out_of_order_def Let_def split: if_splits)

lemma clear_pass2_max:
  assumes "subseq ys starts" "sorted ys" "\<forall>y \<in> set ys. 0 < y"
  shows "length ys \<le> length (placed_pages (clear_pass2 starts))"
proof -
  have sub: "subseq ys (placed_pages starts)"
    using subseq_filter [OF assms(1), of "\<lambda>p. 0 < p"] assms(3) by (simp add: placed_pages_def)
  show ?thesis
  proof (cases "length (placed_pages starts) < 2")
    case True
    with list_emb_length [OF sub] show ?thesis by (simp add: clear_pass2_few)
  next
    case False
    from subseq_run [OF sub assms(2)] obtain js
      where js: "run_of (placed_pages starts) js" "ys = map ((!) (placed_pages starts)) js" .
    have "placed_pages starts \<noteq> []" using False by auto
    from longest_run_ok(2) [OF this js(1)] False show ?thesis
      by (simp add: placed_clear_pass2 js(2))
  qed
qed


subsection \<open>What repairing promises\<close>

text \<open>
  The order ingest wants: on every level the placed siblings read forward, none of them points at a
  table-of-contents page, and none starts before the closest placed ancestor.
\<close>

definition level_ok :: "int list \<Rightarrow> int \<Rightarrow> int list \<Rightarrow> bool" where
  "level_ok toc_pages floor starts \<longleftrightarrow>
     sorted (placed_pages starts) \<and> (\<forall>p \<in> set (placed_pages starts). p \<notin> set toc_pages \<and> floor \<le> p)"

fun node_ok :: "int list \<Rightarrow> int \<Rightarrow> toc_node \<Rightarrow> bool" where
  "node_ok toc_pages floor (TOC d cs) =
     (let f = (if 0 < start_page d then start_page d else floor)
      in level_ok toc_pages f (map start_of cs) \<and> (\<forall>c \<in> set cs. node_ok toc_pages f c))"

definition forest_ok :: "int list \<Rightarrow> int \<Rightarrow> toc_node list \<Rightarrow> bool" where
  "forest_ok toc_pages floor ns \<longleftrightarrow>
     level_ok toc_pages floor (map start_of ns) \<and> (\<forall>n \<in> set ns. node_ok toc_pages floor n)"

lemma node_ok_iff:
  "node_ok toc_pages floor n = forest_ok toc_pages (if 0 < start_of n then start_of n else floor) (nodes n)"
  by (cases n) (auto simp: forest_ok_def Let_def)

lemma length_clear_pass1 [simp]: "length (clear_pass1 T f starts) = length starts"
  by (simp add: clear_pass1_def)

lemma clear_pass1_nth: "i < length starts \<Longrightarrow> clear_pass1 T f starts ! i = starts ! i
    \<or> (clear_pass1 T f starts ! i = 0 \<and> 0 < starts ! i)"
  by (auto simp: clear_pass1_def)

lemma set_placed_clear: "set (placed_pages (clear_pass2 starts)) \<subseteq> set (placed_pages starts)"
proof
  fix p assume "p \<in> set (placed_pages (clear_pass2 starts))"
  then obtain i where "i < length starts" "clear_pass2 starts ! i = p" "0 < p"
    by (auto simp: placed_pages_def in_set_conv_nth)
  with clear_pass2_cases [of i starts] show "p \<in> set (placed_pages starts)"
    by (auto simp: placed_pages_def)
qed

lemma placed_clear_pass1: "p \<in> set (placed_pages (clear_pass1 T f starts)) \<Longrightarrow> p \<notin> set T \<and> f \<le> p"
  by (auto simp: placed_pages_def clear_pass1_def split: if_splits)

lemma level_ok_clear: "level_ok T f (clear_pass2 (clear_pass1 T f starts))"
  using set_placed_clear [of "clear_pass1 T f starts"] sorted_clear_pass2 placed_clear_pass1
  unfolding level_ok_def by blast

lemma cleared_nth:
  assumes "i < length starts"
  shows "clear_pass2 (clear_pass1 T f starts) ! i = starts ! i
    \<or> (clear_pass2 (clear_pass1 T f starts) ! i = 0 \<and> 0 < starts ! i)"
  using clear_pass2_cases [of i "clear_pass1 T f starts"] clear_pass1_nth [of i starts T f] assms by auto

lemma start_set_start:
  "p = start_page d \<or> p = 0 \<Longrightarrow> start_page (set_start d p) = p"
  by (auto simp: set_start_def)

abbreviation cleared_starts :: "int list \<Rightarrow> int \<Rightarrow> toc_node list \<Rightarrow> int list" where
  "cleared_starts T f ns \<equiv> clear_pass2 (clear_pass1 T f (map start_of ns))"

lemma repair_walk_fst: "fst (repair_walk T f ns) = map (\<lambda>(n, p). TOC (set_start (toc n) p)
    (fst (repair_walk T (if 0 < p then p else f) (nodes n)))) (zip ns (cleared_starts T f ns))"
  by (subst repair_walk.simps) (simp add: Let_def case_prod_unfold)

lemma repair_walk_snd: "snd (repair_walk T f ns) =
    int (length (filter (\<lambda>(n, p). p \<noteq> start_of n) (zip ns (cleared_starts T f ns))))
    + (\<Sum>(n, p) \<leftarrow> zip ns (cleared_starts T f ns). snd (repair_walk T (if 0 < p then p else f) (nodes n)))"
  by (subst repair_walk.simps) (simp add: Let_def case_prod_unfold comp_def)

lemma length_repair_walk [simp]: "length (fst (repair_walk T f ns)) = length ns"
  by (subst repair_walk_fst) simp

lemma repair_walk_nth: "i < length ns \<Longrightarrow> fst (repair_walk T f ns) ! i =
    TOC (set_start (toc (ns ! i)) (cleared_starts T f ns ! i))
      (fst (repair_walk T (if 0 < cleared_starts T f ns ! i then cleared_starts T f ns ! i else f) (nodes (ns ! i))))"
  by (subst repair_walk_fst) simp

lemma zip_starts: "zip ns (map start_of ns) = map (\<lambda>n. (n, start_of n)) ns"
  by (induction ns) simp_all

lemma starts_repair_walk: "map start_of (fst (repair_walk T f ns)) = cleared_starts T f ns"
proof (rule nth_equalityI)
  show "length (map start_of (fst (repair_walk T f ns))) = length (cleared_starts T f ns)"
    by simp
next
  fix i assume "i < length (map start_of (fst (repair_walk T f ns)))"
  then have i: "i < length ns" by simp
  then show "map start_of (fst (repair_walk T f ns)) ! i = cleared_starts T f ns ! i"
    using cleared_nth [of i "map start_of ns" T f]
    by (auto simp: repair_walk_nth intro: start_set_start)
qed

lemma repair_walk_ok: "forest_ok T f (fst (repair_walk T f ns))"
proof (induction T f ns rule: repair_walk.induct)
  case (1 T f ns)
  have "node_ok T f m" if "m \<in> set (fst (repair_walk T f ns))" for m
  proof -
    from that obtain i where i: "i < length ns" "m = fst (repair_walk T f ns) ! i"
      by (auto simp: in_set_conv_nth)
    define p where "p = cleared_starts T f ns ! i"
    have m: "m = TOC (set_start (toc (ns ! i)) p) (fst (repair_walk T (if 0 < p then p else f) (nodes (ns ! i))))"
      using i by (simp add: repair_walk_nth p_def)
    have "start_page (set_start (toc (ns ! i)) p) = p"
      using cleared_nth [of i "map start_of ns" T f] i by (auto simp: p_def intro: start_set_start)
    moreover have "(ns ! i, p) \<in> set (zip ns (cleared_starts T f ns))"
      using i by (auto simp: p_def set_zip)
    ultimately show ?thesis
      using 1 [OF refl refl refl, of "(ns ! i, p)" "ns ! i" p]
      by (cases "0 < p") (simp_all add: node_ok_iff m)
  qed
  then show ?case
    unfolding forest_ok_def starts_repair_walk using level_ok_clear by auto
qed

text \<open>Only start and end pages change, and only by being cleared together.\<close>

definition unpaged :: "toc_data \<Rightarrow> toc_data" where
  "unpaged d = d\<lparr>start_page := 0, end_page := 0\<rparr>"

fun shape :: "(toc_data \<Rightarrow> toc_data) \<Rightarrow> toc_node \<Rightarrow> toc_node" where
  "shape g (TOC d cs) = TOC (g d) (map (shape g) cs)"

lemma unpaged_set_start: "unpaged (set_start d p) = unpaged d"
  by (simp add: unpaged_def set_start_def)

lemma repair_walk_shape: "map (shape unpaged) (fst (repair_walk T f ns)) = map (shape unpaged) ns"
proof (induction T f ns rule: repair_walk.induct)
  case (1 T f ns)
  have "shape unpaged (fst (repair_walk T f ns) ! i) = shape unpaged (ns ! i)" if i: "i < length ns" for i
  proof -
    define p where "p = cleared_starts T f ns ! i"
    have "(ns ! i, p) \<in> set (zip ns (cleared_starts T f ns))"
      using i by (auto simp: p_def set_zip)
    then have "map (shape unpaged) (fst (repair_walk T (if 0 < p then p else f) (nodes (ns ! i))))
        = map (shape unpaged) (nodes (ns ! i))"
      using 1 [OF refl refl refl, of "(ns ! i, p)" "ns ! i" p] by simp
    moreover have "fst (repair_walk T f ns) ! i = TOC (set_start (toc (ns ! i)) p)
        (fst (repair_walk T (if 0 < p then p else f) (nodes (ns ! i))))"
      using i by (simp add: repair_walk_nth p_def)
    ultimately show ?thesis
      by (cases "ns ! i") (simp add: unpaged_set_start)
  qed
  then show ?case by (intro nth_equalityI) simp_all
qed

text \<open>A forest already in order is left alone.\<close>

lemma clear_pass1_id:
  assumes "level_ok T f starts"
  shows "clear_pass1 T f starts = starts"
proof -
  have "p \<notin> set T \<and> \<not> p < f" if "p \<in> set starts" "0 < p" for p
    using assms that by (simp add: level_ok_def placed_pages_def not_less)
  then show ?thesis by (auto simp: clear_pass1_def intro!: map_idI)
qed

lemma placed_eq_all:
  assumes "length xs = length ys" "\<forall>i < length xs. xs ! i = ys ! i \<or> (xs ! i = 0 \<and> 0 < ys ! i)"
    and "length (placed_pages ys) \<le> length (placed_pages xs)"
  shows "xs = (ys :: int list)"
  using assms
proof (induction xs ys rule: list_induct2)
  case (Cons x xs y ys)
  have step: "\<forall>i < length xs. xs ! i = ys ! i \<or> (xs ! i = 0 \<and> 0 < ys ! i)"
    using Cons.prems(1) by (metis Suc_less_eq length_Cons nth_Cons_Suc)
  have le: "length (placed_pages xs) \<le> length (placed_pages ys)"
    if "length xs = length ys" "\<forall>i < length xs. xs ! i = ys ! i \<or> (xs ! i = 0 \<and> 0 < ys ! i)" for xs ys :: "int list"
    using that
  proof (induction xs ys rule: list_induct2)
    case (Cons a as b bs)
    then have "\<forall>i < length as. as ! i = bs ! i \<or> (as ! i = 0 \<and> 0 < bs ! i)"
      by (metis Suc_less_eq length_Cons nth_Cons_Suc)
    then show ?case using Cons.IH Cons.prems [rule_format, of 0] by (auto simp: placed_pages_def)
  qed simp
  have head: "x = y \<or> (x = 0 \<and> 0 < y)" using Cons.prems(1) [rule_format, of 0] by simp
  have "x = y" using head Cons.prems(2) le [OF Cons.hyps step] by (auto simp: placed_pages_def)
  then show ?case using Cons.IH [OF step] Cons.prems(2) by (auto simp: placed_pages_def split: if_splits)
qed simp

lemma clear_pass2_id:
  assumes "sorted (placed_pages starts)"
  shows "clear_pass2 starts = starts"
proof (rule placed_eq_all)
  show "length (placed_pages starts) \<le> length (placed_pages (clear_pass2 starts))"
    by (rule clear_pass2_max) (use assms in \<open>simp_all add: placed_pages_def\<close>)
  show "\<forall>i < length (clear_pass2 starts). clear_pass2 starts ! i = starts ! i
      \<or> (clear_pass2 starts ! i = 0 \<and> 0 < starts ! i)"
    using clear_pass2_cases by simp
qed simp

lemma repair_walk_id: "forest_ok T f ns \<Longrightarrow> repair_walk T f ns = (ns, 0)"
proof (induction T f ns rule: repair_walk.induct)
  case (1 T f ns)
  have same: "cleared_starts T f ns = map start_of ns"
  proof -
    have "level_ok T f (map start_of ns)" using "1.prems" by (simp add: forest_ok_def)
    then have "sorted (placed_pages (map start_of ns))" by (simp only: level_ok_def)
    with \<open>level_ok T f (map start_of ns)\<close> show ?thesis by (simp only: clear_pass1_id clear_pass2_id)
  qed
  have IH1: "(n, p) \<in> set (zip ns (cleared_starts T f ns)) \<Longrightarrow>
      forest_ok T (if 0 < p then p else f) (nodes n) \<Longrightarrow>
      repair_walk T (if 0 < p then p else f) (nodes n) = (nodes n, 0)" for n p
    by (rule "1.IH" [OF refl refl refl _ refl])
  have IH: "repair_walk T (if 0 < start_of n then start_of n else f) (nodes n) = (nodes n, 0)"
    if "n \<in> set ns" for n
  proof -
    have "(n, start_of n) \<in> set (zip ns (cleared_starts T f ns))"
      using that by (auto simp: same zip_starts)
    moreover have "node_ok T f n" using "1.prems" that by (simp add: forest_ok_def)
    then have "forest_ok T (if 0 < start_of n then start_of n else f) (nodes n)"
      by (simp only: node_ok_iff)
    ultimately show ?thesis by (intro IH1)
  qed
  have "fst (repair_walk T f ns) ! i = ns ! i" if i: "i < length ns" for i
  proof -
    have "cleared_starts T f ns ! i = start_of (ns ! i)" using i by (simp add: same)
    then show ?thesis
      using IH [of "ns ! i"] i 
      by (simp only: repair_walk_nth nth_mem fst_conv set_start_def simp_thms if_True toc_node.collapse)
  qed
  then have "fst (repair_walk T f ns) = ns" by (intro nth_equalityI) simp_all
  moreover have "(\<Sum>n \<leftarrow> ns. snd (repair_walk T (if 0 < start_of n then start_of n else f) (nodes n))) = 0"
  proof -
    have "map (\<lambda>n. snd (repair_walk T (if 0 < start_of n then start_of n else f) (nodes n))) ns
        = map (\<lambda>n. 0) ns"
      by (intro map_cong refl) (simp only: IH snd_conv)
    then show ?thesis by (simp only: sum_list_0)
  qed
  then have "snd (repair_walk T f ns) = 0"
    by (subst repair_walk_snd) (simp only: same zip_starts filter_map comp_def map_map prod.case, simp)
  ultimately show ?case by (simp only: prod_eq_iff fst_conv snd_conv)
qed


subsection \<open>What the derived end pages promise\<close>

text \<open>A placed node does not end before it starts, and no node ends after its parent.\<close>

fun ends_ok :: "toc_node \<Rightarrow> bool" where
  "ends_ok (TOC d cs) \<longleftrightarrow> (0 < start_page d \<longrightarrow> start_page d \<le> end_page d)
     \<and> (\<forall>c \<in> set cs. end_of c \<le> end_page d \<and> ends_ok c)"

text \<open>
  No page is lost between siblings: where a later sibling starts no earlier than this one, some
  sibling between them (or that one) starts at most one page after this one ends.
\<close>

definition gap_free :: "toc_node list \<Rightarrow> bool" where
  "gap_free ns \<longleftrightarrow> (\<forall>i j. i < j \<and> j < length ns \<and> 0 < start_of (ns ! i) \<and> start_of (ns ! i) \<le> start_of (ns ! j) \<longrightarrow>
     (\<exists>k. i < k \<and> k \<le> j \<and> start_of (ns ! i) \<le> start_of (ns ! k) \<and> start_of (ns ! k) \<le> end_of (ns ! i) + 1))"

fun tiled :: "toc_node \<Rightarrow> bool" where
  "tiled (TOC d cs) \<longleftrightarrow> gap_free cs \<and> (\<forall>c \<in> set cs. tiled c)"

lemma extend_over_ge: "e \<le> extend_over e cs \<and> (\<forall>c \<in> set cs. end_of c \<le> extend_over e cs)"
  unfolding extend_over_def
proof (induction cs arbitrary: e)
  case (Cons c cs)
  have "end_of c \<le> (if end_of c > e then end_of c else e)" "e \<le> (if end_of c > e then end_of c else e)" by auto
  with Cons [of "if end_of c > e then end_of c else e"] show ?case by (fastforce intro: order_trans)
qed simp

lemma sibling_end_bound:
  assumes "0 < s" "j < length rest" "s \<le> rest ! j"
  shows "s \<le> sibling_end s rest \<and> (\<exists>k \<le> j. s \<le> rest ! k \<and> rest ! k \<le> sibling_end s rest + 1)"
  using assms(2,3)
proof (induction rest arbitrary: j)
  case (Cons q rest)
  show ?case
  proof (cases "s \<le> q")
    case True
    with \<open>0 < s\<close> show ?thesis by (auto intro!: exI [of _ 0])
  next
    case False
    then obtain j' where j': "j = Suc j'" "j' < length rest" "s \<le> rest ! j'"
      using Cons.prems by (cases j) auto
    from Cons.IH [OF j'(2,3)] obtain k
      where k: "s \<le> sibling_end s rest" "k \<le> j'" "s \<le> rest ! k" "rest ! k \<le> sibling_end s rest + 1" by auto
    have "sibling_end s (q # rest) = sibling_end s rest" using False by auto
    with k j' show ?thesis by (auto intro!: exI [of _ "Suc k"])
  qed
qed simp

lemma derive_Cons: "derive_end_pages_in ceiling (n # rest) =
    (let s = start_of n;
         end0 = sibling_end s (map start_of rest);
         end1 = (if end0 \<le> 0 then ceiling else end0);
         end2 = (if 0 < s then (if end1 < s then s else end1) else end_of n);
         cs' = derive_end_pages_in (if end2 = 0 then ceiling else end2) (nodes n)
     in TOC ((toc n)\<lparr>end_page := extend_over end2 cs'\<rparr>) cs' # derive_end_pages_in ceiling rest)"
  by (cases n) (simp add: Let_def)

lemma starts_derive [simp]: "map start_of (derive_end_pages_in ceiling ns) = map start_of ns"
  by (induction ns arbitrary: ceiling) (simp_all add: derive_Cons Let_def)

lemma length_derive [simp]: "length (derive_end_pages_in ceiling ns) = length ns"
  using starts_derive [of ceiling ns] by (metis length_map)

lemma end_head_derive:
  assumes "0 < start_of n" "j < length rest" "start_of n \<le> start_of (rest ! j)"
  shows "\<exists>k \<le> j. start_of n \<le> start_of (rest ! k)
    \<and> start_of (rest ! k) \<le> end_of (hd (derive_end_pages_in ceiling (n # rest))) + 1"
proof -
  let ?e = "sibling_end (start_of n) (map start_of rest)"
  from sibling_end_bound [OF assms(1), of j "map start_of rest"] assms(2,3)
  obtain k where k: "start_of n \<le> ?e" "k \<le> j" "start_of n \<le> start_of (rest ! k)"
    "start_of (rest ! k) \<le> ?e + 1" by auto
  have "?e \<le> end_of (hd (derive_end_pages_in ceiling (n # rest)))"
    using k(1) assms(1) extend_over_ge by (simp add: derive_Cons Let_def)
  with k show ?thesis by (intro exI [of _ k]) auto
qed

lemma gap_free_Cons:
  assumes "gap_free ms"
    and "\<And>j. j < length ms \<Longrightarrow> 0 < start_of m \<Longrightarrow> start_of m \<le> start_of (ms ! j) \<Longrightarrow>
      \<exists>k \<le> j. start_of m \<le> start_of (ms ! k) \<and> start_of (ms ! k) \<le> end_of m + 1"
  shows "gap_free (m # ms)"
  unfolding gap_free_def
proof (intro allI impI, elim conjE)
  fix i j assume ij: "i < j" "j < length (m # ms)" "0 < start_of ((m # ms) ! i)"
    "start_of ((m # ms) ! i) \<le> start_of ((m # ms) ! j)"
  then obtain j' where j: "j = Suc j'" by (cases j) auto
  show "\<exists>k. i < k \<and> k \<le> j \<and> start_of ((m # ms) ! i) \<le> start_of ((m # ms) ! k)
      \<and> start_of ((m # ms) ! k) \<le> end_of ((m # ms) ! i) + 1"
  proof (cases i)
    case 0
    with ij j assms(2) [of j'] obtain k where "k \<le> j'" "start_of m \<le> start_of (ms ! k)"
      "start_of (ms ! k) \<le> end_of m + 1" by auto
    with 0 j show ?thesis by (intro exI [of _ "Suc k"]) auto
  next
    case (Suc i')
    with ij j assms(1) obtain k where "i' < k" "k \<le> j'" "start_of (ms ! i') \<le> start_of (ms ! k)"
      "start_of (ms ! k) \<le> end_of (ms ! i') + 1"
      unfolding gap_free_def by (metis Suc_less_eq length_Cons nth_Cons_Suc)
    with Suc j show ?thesis by (intro exI [of _ "Suc k"]) auto
  qed
qed

lemma derive_in_ok: "(\<forall>m \<in> set (derive_end_pages_in ceiling ns). ends_ok m \<and> tiled m)
    \<and> gap_free (derive_end_pages_in ceiling ns)"
proof (induction ceiling ns rule: derive_end_pages_in.induct)
  case (1 ceiling)
  then show ?case by (simp add: gap_free_def)
next
  case (2 ceiling d cs rest)
  let ?n = "TOC d cs"
  have hd: "ends_ok (hd (derive_end_pages_in ceiling (?n # rest)))
      \<and> tiled (hd (derive_end_pages_in ceiling (?n # rest)))"
    using 2(1) [OF refl refl refl refl] extend_over_ge
    by (auto simp: Let_def intro: order_trans [OF _ conjunct1 [OF extend_over_ge]])
  obtain m where m: "derive_end_pages_in ceiling (?n # rest) = m # derive_end_pages_in ceiling rest"
    by (simp add: Let_def)
  have start: "start_of m = start_of ?n"
    using m starts_derive [of ceiling "?n # rest"] by (metis list.simps(9) list.inject)
  have st: "start_of (derive_end_pages_in ceiling rest ! k) = start_of (rest ! k)" if "k < length rest" for k
    using that starts_derive [of ceiling rest] by (metis length_derive nth_map)
  have "gap_free (m # derive_end_pages_in ceiling rest)"
  proof (rule gap_free_Cons)
    fix j assume j: "j < length (derive_end_pages_in ceiling rest)" "0 < start_of m"
      "start_of m \<le> start_of (derive_end_pages_in ceiling rest ! j)"
    then obtain k where k: "k \<le> j" "start_of ?n \<le> start_of (rest ! k)" "start_of (rest ! k) \<le> end_of m + 1"
      using end_head_derive [of ?n j rest ceiling] start st by (auto simp only: m list.sel length_derive)
    then show "\<exists>k \<le> j. start_of m \<le> start_of (derive_end_pages_in ceiling rest ! k)
        \<and> start_of (derive_end_pages_in ceiling rest ! k) \<le> end_of m + 1"
      using j start st by (intro exI [of _ k]) auto
  qed (use 2(2) in simp)
  then show ?case using hd 2(2) unfolding m by simp
qed


text \<open>
  The exact ends. A placed node ends on the page before the next placed sibling that starts no earlier
  than it does, on its own page when that sibling starts there too, and at the ceiling when there is no
  such sibling; then it is extended over its children. Its own end is the ceiling of its children.
\<close>

definition own_end :: "int \<Rightarrow> int \<Rightarrow> int list \<Rightarrow> int" where
  "own_end ceiling s later =
     (if 0 < s then case filter (\<lambda>p. s \<le> p) later of [] \<Rightarrow> max s ceiling | p # ps \<Rightarrow> max s (p - 1) else 0)"

fun ends_exact :: "int \<Rightarrow> toc_node list \<Rightarrow> bool" where
  "ends_exact ceiling [] \<longleftrightarrow> True"
| "ends_exact ceiling (TOC d cs # rest) \<longleftrightarrow>
     (let e = own_end ceiling (start_page d) (map start_of rest)
      in end_page d = Max (insert e (end_of ` set cs))
         \<and> ends_exact (if 0 < start_page d then e else ceiling) cs \<and> ends_exact ceiling rest)"

text \<open>A placed child lies below a placed parent and starts on none of the pages before it.\<close>

fun starts_within :: "toc_node \<Rightarrow> bool" where
  "starts_within (TOC d cs) \<longleftrightarrow>
     (\<forall>c \<in> set cs. (0 < start_of c \<longrightarrow> start_page d \<noteq> 0 \<and> start_page d \<le> start_of c) \<and> starts_within c)"

text \<open>No node carries an end without a start, as in every tree the builder assembles.\<close>

fun no_stray_end :: "toc_node \<Rightarrow> bool" where
  "no_stray_end (TOC d cs) \<longleftrightarrow> (start_page d \<le> 0 \<longrightarrow> end_page d = 0) \<and> (\<forall>c \<in> set cs. no_stray_end c)"

lemma extend_over_Max: "extend_over e cs = Max (insert e (end_of ` set cs))"
proof (induction cs arbitrary: e)
  case (Cons c cs)
  have "extend_over e (c # cs) = extend_over (max e (end_of c)) cs"
    by (simp add: extend_over_def max_def)
  also have "\<dots> = Max (insert (max e (end_of c)) (end_of ` set cs))" by (rule Cons.IH)
  also have "\<dots> = Max (insert e (end_of ` set (c # cs)))"
    by (cases "cs = []") (simp_all add: max.assoc)
  finally show ?case .
qed (simp add: extend_over_def)

lemma sibling_end_filter:
  "0 < s \<Longrightarrow> sibling_end s later = (case filter (\<lambda>p. s \<le> p) later of [] \<Rightarrow> 0 | p # ps \<Rightarrow> max s (p - 1))"
  by (induction later) auto

lemma own_end_ge: "0 < s \<Longrightarrow> s \<le> own_end ceiling s later"
  by (simp add: own_end_def split: list.split)

lemma own_end_eq:
  assumes "0 < s"
  shows "(let e0 = sibling_end s later; e1 = (if e0 \<le> 0 then ceiling else e0)
    in if e1 < s then s else e1) = own_end ceiling s later"
  using assms by (simp add: sibling_end_filter own_end_def Let_def max_def split: list.split)

lemma toc_list_induct [case_names 1]:
  assumes "\<And>ns. (\<And>n. n \<in> set ns \<Longrightarrow> P (nodes n)) \<Longrightarrow> P ns"
  shows "P ns"
proof -
  have "P (nodes n)" for n
  proof (induction n)
    case (TOC d cs)
    then show ?case using assms [of cs] by simp
  qed
  then show ?thesis by (rule assms)
qed

lemma forest_induct [case_names Nil Cons]:
  assumes "P []" "\<And>d cs rest. P cs \<Longrightarrow> P rest \<Longrightarrow> P (TOC d cs # rest)"
  shows "P ns"
proof (induction ns rule: toc_list_induct)
  case (1 ns)
  then show ?case
  proof (induction ns)
    case (Cons n rest)
    then have "P (nodes n)" "P rest" by simp_all
    then have "P (TOC (toc n) (nodes n) # rest)" by (rule assms(2))
    then show ?case by simp
  qed (rule assms(1))
qed

lemma derive_step:
  "\<exists>e cap. derive_end_pages_in ceiling (TOC d cs # rest)
     = TOC (d\<lparr>end_page := e\<rparr>) (derive_end_pages_in cap cs) # derive_end_pages_in ceiling rest"
  by (simp only: derive_end_pages_in.simps Let_def) blast

lemma derive_own_end:
  assumes "no_stray_end (TOC d cs)"
  shows "derive_end_pages_in ceiling (TOC d cs # rest) =
    (let e = own_end ceiling (start_page d) (map start_of rest);
         cs' = derive_end_pages_in (if 0 < start_page d then e else ceiling) cs
     in TOC (d\<lparr>end_page := extend_over e cs'\<rparr>) cs' # derive_end_pages_in ceiling rest)"
proof (cases "0 < start_page d")
  case True
  with own_end_eq [OF this, of "map start_of rest" ceiling] own_end_ge [OF this, of ceiling "map start_of rest"]
  show ?thesis by (simp only: derive_end_pages_in.simps Let_def if_True) (simp add: Let_def)
next
  case False
  with assms have "end_page d = 0" by simp
  with False show ?thesis by (simp add: own_end_def Let_def)
qed

lemma derive_ends_exact:
  "\<forall>n \<in> set ns. no_stray_end n \<Longrightarrow> ends_exact ceiling (derive_end_pages_in ceiling ns)"
proof (induction ns arbitrary: ceiling rule: forest_induct)
  case (Cons d cs rest)
  then have "no_stray_end (TOC d cs)" "\<forall>c \<in> set cs. no_stray_end c" "\<forall>n \<in> set rest. no_stray_end n" by simp_all
  with Cons.IH show ?case
    by (simp only: derive_own_end Let_def ends_exact.simps starts_derive extend_over_Max) simp
qed simp

lemma no_stray_end_iff:
  "no_stray_end n \<longleftrightarrow> (start_of n \<le> 0 \<longrightarrow> end_of n = 0) \<and> (\<forall>c \<in> set (nodes n). no_stray_end c)"
  by (cases n) simp

lemma repair_walk_no_stray:
  "\<forall>n \<in> set ns. no_stray_end n \<Longrightarrow> \<forall>m \<in> set (fst (repair_walk T f ns)). no_stray_end m"
proof (induction ns arbitrary: f rule: toc_list_induct)
  case (1 ns)
  show ?case
  proof
    fix m assume "m \<in> set (fst (repair_walk T f ns))"
    then obtain i where i: "i < length ns" "m = fst (repair_walk T f ns) ! i" by (auto simp: in_set_conv_nth)
    define n where "n = ns ! i"
    define p where "p = cleared_starts T f ns ! i"
    have m: "m = TOC (set_start (toc n) p) (fst (repair_walk T (if 0 < p then p else f) (nodes n)))"
      using i by (simp add: repair_walk_nth n_def p_def)
    have p: "p = start_of n \<or> p = 0"
      using cleared_nth [of i "map start_of ns" T f] i(1) by (auto simp: n_def p_def)
    have "n \<in> set ns" using i(1) by (simp add: n_def)
    with "1.prems" have stray: "no_stray_end n" by blast
    then have "\<forall>c \<in> set (nodes n). no_stray_end c" by (simp add: no_stray_end_iff [of n])
    with "1.IH" [OF \<open>n \<in> set ns\<close>] have "\<forall>c \<in> set (nodes m). no_stray_end c" by (simp add: m)
    moreover have "start_of m \<le> 0 \<longrightarrow> end_of m = 0"
      using p stray by (auto simp: m set_start_def no_stray_end_iff [of n])
    ultimately show "no_stray_end m" by (simp add: no_stray_end_iff [of m])
  qed
qed

lemma least_start_Cons: "least_start s (c # cs) =
    least_start (if 0 < start_of c \<and> (s = 0 \<or> start_of c < s) then start_of c else s) cs"
  by (simp add: least_start_def)

lemma least_start_low: "s \<noteq> 0 \<Longrightarrow> least_start s cs \<noteq> 0 \<and> least_start s cs \<le> s"
proof (induction cs arbitrary: s)
  case (Cons c cs)
  show ?case
  proof (cases "0 < start_of c \<and> (s = 0 \<or> start_of c < s)")
    case True
    with Cons.IH [of "start_of c"] Cons.prems show ?thesis by (simp add: least_start_Cons)
  next
    case False
    with Cons show ?thesis by (auto simp: least_start_Cons)
  qed
qed (simp add: least_start_def)

lemma least_start_le:
  "c \<in> set cs \<Longrightarrow> 0 < start_of c \<Longrightarrow> least_start s cs \<noteq> 0 \<and> least_start s cs \<le> start_of c"
proof (induction cs arbitrary: s)
  case (Cons b cs)
  let ?s = "if 0 < start_of b \<and> (s = 0 \<or> start_of b < s) then start_of b else s"
  have step: "least_start s (b # cs) = least_start ?s cs" by (rule least_start_Cons)
  show ?case
  proof (cases "b = c")
    case True
    then have "?s \<noteq> 0" "?s \<le> start_of c" using Cons.prems by auto
    then show ?thesis unfolding step using least_start_low [of ?s cs] by linarith
  next
    case False
    then show ?thesis unfolding step using Cons by simp
  qed
qed simp

lemma least_start_cases: "least_start s cs = s \<or> (\<exists>c \<in> set cs. least_start s cs = start_of c)"
proof (induction cs arbitrary: s)
  case (Cons c cs)
  then show ?case unfolding least_start_Cons using Cons.IH [of s] Cons.IH [of "start_of c"] by auto
qed (simp add: least_start_def)

lemma inherit_no_stray: "no_stray_end n \<Longrightarrow> no_stray_end (inherit_parent_start n)"
proof (induction n rule: inherit_parent_start.induct)
  case (1 d ns)
  then show ?case by (cases "ns = []"; cases "0 < start_page d") (simp_all add: Let_def)
qed

lemma inherit_starts_within:
  "node_ok T f n \<Longrightarrow> (0 < start_of n \<longrightarrow> f \<le> start_of n) \<Longrightarrow> starts_within (inherit_parent_start n)
     \<and> (0 < start_of (inherit_parent_start n) \<longrightarrow> f \<le> start_of (inherit_parent_start n))"
proof (induction n arbitrary: f rule: inherit_parent_start.induct)
  case (1 d ns)
  let ?g = "if 0 < start_page d then start_page d else f"
  let ?cs = "map inherit_parent_start ns"
  let ?l = "least_start (start_page d) ?cs"
  show ?case
  proof (cases "ns = []")
    case False
    have cs: "starts_within c \<and> (0 < start_of c \<longrightarrow> ?g \<le> start_of c)" if "c \<in> set ?cs" for c
    proof -
      from that obtain n where n: "n \<in> set ns" "c = inherit_parent_start n" by auto
      from "1.prems"(1) n(1) have "node_ok T ?g n" "0 < start_of n \<longrightarrow> ?g \<le> start_of n"
        by (auto simp: Let_def level_ok_def placed_pages_def)
      from "1.IH" [OF False n(1) this] show ?thesis unfolding n(2) .
    qed
    show ?thesis
    proof (cases "0 < start_page d")
      case True
      with False cs "1.prems"(2) show ?thesis by (auto simp: Let_def)
    next
      case unplaced: False
      have "0 < start_of c \<longrightarrow> ?l \<noteq> 0 \<and> ?l \<le> start_of c" if "c \<in> set ?cs" for c
        using least_start_le [OF that] by blast
      moreover have "0 < ?l \<longrightarrow> f \<le> ?l"
        using least_start_cases [of "start_page d" ?cs] cs unplaced by fastforce
      ultimately show ?thesis using False unplaced cs by (auto simp: Let_def)
    qed
  qed (use "1.prems" in simp)
qed

lemma derive_starts_within:
  "\<forall>n \<in> set ns. starts_within n \<Longrightarrow> \<forall>m \<in> set (derive_end_pages_in ceiling ns). starts_within m"
proof (induction ns arbitrary: ceiling rule: forest_induct)
  case (Cons d cs rest)
  obtain e cap where step: "derive_end_pages_in ceiling (TOC d cs # rest)
      = TOC (d\<lparr>end_page := e\<rparr>) (derive_end_pages_in cap cs) # derive_end_pages_in ceiling rest"
    using derive_step by blast
  have "start_of ` set (derive_end_pages_in cap cs) = start_of ` set cs"
    by (metis list.set_map starts_derive)
  moreover have "\<forall>s \<in> start_of ` set cs. 0 < s \<longrightarrow> start_page d \<noteq> 0 \<and> start_page d \<le> s" using Cons.prems by auto
  ultimately have "\<forall>c \<in> set (derive_end_pages_in cap cs). 0 < start_of c \<longrightarrow> start_page d \<noteq> 0 \<and> start_page d \<le> start_of c"
    by (metis image_eqI)
  moreover have "\<forall>c \<in> set (derive_end_pages_in cap cs). starts_within c" by (rule Cons.IH) (use Cons.prems in simp)
  moreover have "\<forall>c \<in> set (derive_end_pages_in ceiling rest). starts_within c" by (rule Cons.IH) (use Cons.prems in simp)
  ultimately show ?case unfolding step by simp
qed simp


subsection \<open>Reading the marker\<close>

lemma read_digits_val:
  assumes "\<forall>c \<in> set ds. is_ascii_digit c" "0 \<le> n" "fold (\<lambda>c n. n * 10 + digit_val c) ds n \<le> max_int64"
  shows "read_digits ds n = fold (\<lambda>c n. n * 10 + digit_val c) ds n"
  using assms
proof (induction ds arbitrary: n)
  case (Cons c ds)
  have d: "0 \<le> digit_val c" using Cons.prems(1) digit_val_range [of c] by simp
  then have n: "0 \<le> n * 10 + digit_val c" using Cons.prems(2) by simp
  have mono: "m \<le> fold (\<lambda>c n. n * 10 + digit_val c) xs m" if "\<forall>c \<in> set xs. is_ascii_digit c" "0 \<le> m" for xs m
    using that
  proof (induction xs arbitrary: m)
    case (Cons x xs)
    have "0 \<le> digit_val x" using Cons.prems(1) digit_val_range [of x] by simp
    then show ?case using Cons.IH [of "m * 10 + digit_val x"] Cons.prems by simp
  qed simp
  have "n * 10 + digit_val c \<le> max_int64"
    using mono [of ds "n * 10 + digit_val c"] Cons.prems n by simp
  then have "wrap64 (n * 10 + (of_char c - 48)) = n * 10 + digit_val c"
    using n by (intro wrap64_id [THEN trans]) (auto simp: max_int64_def digit_val_def)
  then show ?case using Cons.IH [of "n * 10 + digit_val c"] Cons.prems n by simp
qed simp

subsection \<open>Properties\<close>

definition physical_index_marker :: "nat \<Rightarrow> string" where
  "physical_index_marker n = ''<physical_index_'' @ digits_of n @ ''>''"

text \<open>
  The page number in a well-formed marker is read back exactly, for every page a Go \<open>int\<close> can hold.
\<close>
lemma parse_physical_index_roundtrip:
  assumes "int n \<le> max_int64"
  shows "parse_physical_index (physical_index_marker n) = int n"
proof -
  have "trim_space (physical_index_marker n) = physical_index_marker n"
    by (intro trim_space_visible_ends) (simp_all add: physical_index_marker_def visible_ascii_def less_char_def)
  moreover have "read_digits (digits_of n) 0 = int n"
    using read_digits_val [OF digits_of_digits, of 0 n] dec_val_digits_of [of n] assms
    by (simp add: dec_val_def)
  ultimately show ?thesis
    by (simp add: parse_physical_index_def Let_def physical_index_marker_def has_prefix_def has_suffix_def)
qed

lemma parse_physical_index_roundtrip_witness:
  "int 42 \<le> max_int64 \<and> parse_physical_index (physical_index_marker 42) = int 42"
  using parse_physical_index_roundtrip [of 42] by (simp add: max_int64_def)

text \<open>
  Nesting the flat list loses nothing and reorders nothing: read depth first, the tree holds
  exactly the titled rows of the flat list, in their order.
\<close>
lemma assemble_hierarchy_keeps_rows:
  "flat_data (assemble_hierarchy flat) = materialise flat"
  by (simp add: assemble_hierarchy_def flat_data_nest)

text \<open>
  C13. Clearing out-of-order siblings touches nothing but the pages it zeroes, leaves the remaining
  placed pages in order, and is least destructive: no in-order selection of the placed siblings is
  longer than what it keeps.
\<close>
lemma clear_pass2_keeps_longest_run:
  assumes "subseq ys starts" "sorted ys" "\<forall>y \<in> set ys. 0 < y"
  shows "length (clear_pass2 starts) = length starts
    \<and> (\<forall>i < length starts. clear_pass2 starts ! i = starts ! i \<or> (clear_pass2 starts ! i = 0 \<and> 0 < starts ! i))
    \<and> sorted (placed_pages (clear_pass2 starts))
    \<and> length ys \<le> length (placed_pages (clear_pass2 starts))"
  using clear_pass2_cases sorted_clear_pass2 clear_pass2_max [OF assms] by auto

lemma clear_pass2_keeps_longest_run_witness:
  "subseq [3, 5, 8] [3, 9, 5, 0, 8 :: int] \<and> 3 \<le> length (placed_pages (clear_pass2 [3, 9, 5, 0, 8]))"
  using clear_pass2_keeps_longest_run [of "[3, 5, 8]" "[3, 9, 5, 0, 8]"] by simp

text \<open>
  C12. Repairing the start pages of any contents tree gives one that reads forward: on every level the
  placed siblings are in order, none lies on a contents page, none lies before its closest placed
  ancestor. The tree itself, its titles, structures and summaries are unchanged, and repairing again
  clears nothing.
\<close>
lemma repair_starts_reads_forward:
  "forest_ok toc_pages 0 (fst (repair_starts ns toc_pages))
   \<and> map (shape unpaged) (fst (repair_starts ns toc_pages)) = map (shape unpaged) ns
   \<and> repair_starts (fst (repair_starts ns toc_pages)) toc_pages = (fst (repair_starts ns toc_pages), 0)"
  using repair_walk_ok repair_walk_shape repair_walk_id [OF repair_walk_ok]
  by (simp add: repair_starts_def)

text \<open>
  C11. The page ranges ingest derives for a contents tree, after repairing its starts, are nested: on no
  level does a placed node end before it starts, every placed child starts no earlier and ends no later
  than its parent, and a node with a placed child has a start of its own. The ends are exact: a node ends
  on the page before the next placed sibling that does not start earlier, on its own page when that
  sibling starts there too, at the ceiling its parent's own end (or the document) sets when there is no
  such sibling, and where its children run further, with the last of them; so between a node and a later
  sibling that starts no earlier no page is lost.
\<close>
lemma derive_end_pages_nested_and_tiled:
  assumes "\<forall>n \<in> set ns. no_stray_end n"
  shows "let out = derive_end_pages (fst (repair_starts ns toc_pages)) last_page
    in list_all ends_ok out \<and> list_all starts_within out \<and> ends_exact last_page out
       \<and> list_all tiled out \<and> gap_free out"
proof -
  define ms where "ms = inherit_parent_starts (fst (repair_starts ns toc_pages))"
  have "\<forall>m \<in> set ms. no_stray_end m"
    using repair_walk_no_stray [OF assms] inherit_no_stray by (auto simp: ms_def inherit_parent_starts_def repair_starts_def)
  then have exact: "ends_exact last_page (derive_end_pages_in last_page ms)" by (rule derive_ends_exact)
  have "forest_ok toc_pages 0 (fst (repair_starts ns toc_pages))" by (simp add: repair_starts_def repair_walk_ok)
  then have "\<forall>n \<in> set (fst (repair_starts ns toc_pages)). node_ok toc_pages 0 n" by (simp add: forest_ok_def)
  then have "\<forall>m \<in> set ms. starts_within m"
    using inherit_starts_within [of toc_pages 0] by (simp add: ms_def inherit_parent_starts_def)
  then have "\<forall>m \<in> set (derive_end_pages_in last_page ms). starts_within m" by (rule derive_starts_within)
  with exact derive_in_ok [of last_page ms] show ?thesis
    by (simp add: derive_end_pages_def list_all_iff Let_def flip: ms_def)
qed

text \<open>Two parts, the first with three subsections on two pages, one of them without a start.\<close>

definition page_node :: "int \<Rightarrow> toc_node list \<Rightarrow> toc_node" where
  "page_node s cs = TOC \<lparr>node_id = [], toc_structure = [], toc_title = [], start_page = s, end_page = 0, toc_summary = []\<rparr> cs"

definition sample_parts :: "toc_node list" where
  "sample_parts = [page_node 3 [page_node 3 [], page_node 3 [], page_node 0 [], page_node 5 []], page_node 9 []]"

lemma derive_end_pages_nested_and_tiled_witness:
  "list_all no_stray_end sample_parts
    \<and> ends_exact 12 (derive_end_pages (fst (repair_starts sample_parts [2])) 12)
    \<and> map end_of (derive_end_pages (fst (repair_starts sample_parts [2])) 12) = [8, 12]"
proof -
  have stray: "\<forall>n \<in> set sample_parts. no_stray_end n" by (simp add: sample_parts_def page_node_def)
  moreover have "list_all no_stray_end sample_parts" using stray by (simp add: list_all_iff)
  moreover have "forest_ok [2] 0 sample_parts"
    by (simp add: sample_parts_def page_node_def forest_ok_def level_ok_def placed_pages_def)
  then have "repair_starts sample_parts [2] = (sample_parts, 0)" by (simp add: repair_starts_def repair_walk_id)
  moreover have "map end_of (derive_end_pages sample_parts 12) = [8, 12]" by code_simp
  ultimately show ?thesis using derive_end_pages_nested_and_tiled [OF stray, of "[2]" 12] by (simp only: Let_def fst_conv simp_thms)
qed

text \<open>
  The comment on \<open>assembleHierarchy\<close> says a row whose parent is missing lands at the top level. The
  code puts it below the row before it: here \<open>2.2\<close> becomes a child of \<open>2.1\<close>.
\<close>

lemma nest_orphan:
  "toc_structure a = ''2.1'' \<Longrightarrow> toc_structure b = ''2.2'' \<Longrightarrow> nest [a, b] [] 0 = [TOC a [TOC b []]]"
  by (simp add: Let_def depth_of_def)

end
