(* ===== verification/Heading_Path.thy ===== *)
theory Heading_Path
  imports Tree_Model Toc_Tree
begin

text \<open>
  Canonical heading paths (\<open>pkg/tree/heading_path.go\<close>): the contents tree is flattened to entries
  with resolved page spans, and every section with a page range gets the path of the entry that
  fits it best.

  Page numbers are Go \<open>int\<close>s; every subtraction and addition below is between positive pages in
  order, so none can wrap.
\<close>

subsection \<open>Flattening the contents tree\<close>

record toc_entry =
  te_start :: int
  te_end :: int
  te_depth :: int
  te_path :: "string list"

definition entry_span :: "toc_entry \<Rightarrow> int" where
  "entry_span e = (if te_end e < te_start e then max_int64 else te_end e - te_start e + 1)"

definition normalise_title :: "string \<Rightarrow> string" where
  "normalise_title s = trim_space s"

text \<open>The loop over the later siblings \<open>rest\<close> stops at the first one that has a start page.\<close>

definition resolve_end_page :: "toc_node \<Rightarrow> toc_node list \<Rightarrow> int \<Rightarrow> int" where
  "resolve_end_page n rest parent_end =
     (if 0 < end_of n then end_of n
      else case find (\<lambda>m. 0 < start_of m) rest of
             Some m \<Rightarrow> if start_of m - 1 \<ge> start_of n then start_of m - 1 else start_of n
           | None \<Rightarrow> if 0 < parent_end then parent_end else start_of n)"

fun flatten_toc_at :: "toc_node list \<Rightarrow> string list \<Rightarrow> int \<Rightarrow> int \<Rightarrow> toc_entry list" where
  "flatten_toc_at [] parent_path parent_end depth = []"
| "flatten_toc_at (TOC d cs # rest) parent_path parent_end depth =
     (let start = start_page d;
          end = resolve_end_page (TOC d cs) rest parent_end;
          t = normalise_title (toc_title d);
          path = (if t \<noteq> [] then parent_path @ [t] else parent_path)
      in (if 0 < start \<and> start \<le> end
          then [\<lparr>te_start = start, te_end = end, te_depth = depth, te_path = path\<rparr>] else [])
         @ flatten_toc_at cs path (if end \<le> 0 then parent_end else end) (depth + 1)
         @ flatten_toc_at rest parent_path parent_end depth)"

definition flatten_toc :: "toc_node list \<Rightarrow> string list \<Rightarrow> int \<Rightarrow> toc_entry list" where
  "flatten_toc ns parent_path parent_end = flatten_toc_at ns parent_path parent_end 0"

fun toc_max_page :: "toc_node list \<Rightarrow> int \<Rightarrow> int" where
  "toc_max_page [] hi = hi"
| "toc_max_page (TOC d cs # rest) hi =
     toc_max_page rest (toc_max_page cs (max (max hi (end_page d)) (start_page d)))"

definition document_max_page :: "doc_section option \<Rightarrow> toc_node list \<Rightarrow> int" where
  "document_max_page r ns =
     toc_max_page ns (walk_root (\<lambda>s hi. (True, max hi (page_end (data s)))) r 0)"

subsection \<open>Choosing the entry\<close>

definition contains :: "int \<Rightarrow> int \<Rightarrow> int \<Rightarrow> int \<Rightarrow> bool" where
  "contains o_start o_end i_start i_end = (o_start \<le> i_start \<and> i_end \<le> o_end)"

definition overlap_pages :: "int \<Rightarrow> int \<Rightarrow> int \<Rightarrow> int \<Rightarrow> int" where
  "overlap_pages a_start a_end b_start b_end =
     (if a_start \<le> 0 \<or> a_end \<le> 0 \<or> b_start \<le> 0 \<or> b_end \<le> 0 then 0
      else let lo = max a_start b_start; hi = min a_end b_end
           in if hi < lo then 0 else hi - lo + 1)"

abbreviation entry_overlap :: "toc_entry \<Rightarrow> int \<Rightarrow> int \<Rightarrow> int" where
  "entry_overlap e s t \<equiv> overlap_pages (te_start e) (te_end e) s t"

definition less_specific :: "toc_entry \<Rightarrow> toc_entry \<Rightarrow> int \<Rightarrow> int \<Rightarrow> bool" where
  "less_specific a b s t =
     (let a_contains = contains (te_start a) (te_end a) s t;
          b_contains = contains (te_start b) (te_end b) s t
      in if a_contains \<noteq> b_contains then b_contains
         else if te_depth a \<noteq> te_depth b then te_depth b > te_depth a
         else if entry_overlap a s t \<noteq> entry_overlap b s t then entry_overlap b s t > entry_overlap a s t
         else if entry_span a \<noteq> entry_span b then entry_span b < entry_span a
         else te_start b < te_start a)"

definition best_entry :: "toc_entry list \<Rightarrow> int \<Rightarrow> int \<Rightarrow> toc_entry option" where
  "best_entry entries s t =
     fold (\<lambda>e best. if entry_overlap e s t \<le> 0 then best
                    else case best of
                           None \<Rightarrow> Some e
                         | Some b \<Rightarrow> if less_specific b e s t then Some e else Some b) entries None"

definition best_heading_path :: "toc_entry list \<Rightarrow> int \<Rightarrow> int \<Rightarrow> string list option" where
  "best_heading_path entries s t =
     (case best_entry entries s t of
        None \<Rightarrow> None
      | Some e \<Rightarrow> if te_path e = [] then None else Some (te_path e))"

definition build_heading_paths :: "doc_section option \<Rightarrow> toc_node list \<Rightarrow> section_id \<Rightarrow> string list option" where
  "build_heading_paths r ns =
     (if r = None \<or> ns = [] then Map.empty
      else let entries = flatten_toc ns [] (document_max_page r ns)
           in if entries = [] then Map.empty
              else walk_root (\<lambda>s out.
                (True, if page_start (data s) \<le> 0 \<or> page_end (data s) \<le> 0 then out
                       else case best_heading_path entries (page_start (data s)) (page_end (data s)) of
                              Some path \<Rightarrow> out(sec_id s \<mapsto> path)
                            | None \<Rightarrow> out)) r Map.empty)"

subsection \<open>The precedence as a rank\<close>

text \<open>
  The documented precedence as a key: containment, depth, overlap, tightness, earlier start, each
  only breaking ties of the ones before it. \<open>lessSpecific\<close> is the lexicographic order of this key.
\<close>

definition rank :: "int \<Rightarrow> int \<Rightarrow> toc_entry \<Rightarrow> int list" where
  "rank s t e = [of_bool (contains (te_start e) (te_end e) s t), te_depth e, entry_overlap e s t,
     - entry_span e, - te_start e]"

lemma less_specific_rank: "less_specific a b s t \<longleftrightarrow> rank s t a < rank s t b"
  by (auto simp: less_specific_def rank_def Let_def)

lemma best_entry_snoc:
  "best_entry (es @ [e]) s t =
     (if entry_overlap e s t \<le> 0 then best_entry es s t
      else case best_entry es s t of
             None \<Rightarrow> Some e
           | Some b \<Rightarrow> if rank s t b < rank s t e then Some e else Some b)"
  by (simp add: best_entry_def less_specific_rank cong: option.case_cong)

lemma best_entry_spec:
  "case best_entry es s t of
     None \<Rightarrow> \<forall>e \<in> set es. entry_overlap e s t \<le> 0
   | Some b \<Rightarrow> b \<in> set es \<and> 0 < entry_overlap b s t
       \<and> (\<forall>e \<in> set es. 0 < entry_overlap e s t \<longrightarrow> rank s t e \<le> rank s t b)"
proof (induction es rule: rev_induct)
  case Nil
  then show ?case by (simp add: best_entry_def)
next
  case (snoc e es)
  then show ?case
    by (cases "best_entry es s t") (auto simp: best_entry_snoc not_less split: if_splits)
qed

lemma best_entry_Some:
  assumes "best_entry es s t = Some b"
  shows "b \<in> set es" "0 < entry_overlap b s t"
    "e \<in> set es \<Longrightarrow> 0 < entry_overlap e s t \<Longrightarrow> rank s t e \<le> rank s t b"
  using best_entry_spec [of es s t] assms by auto

lemma best_entry_None: "best_entry es s t = None \<longleftrightarrow> (\<forall>e \<in> set es. entry_overlap e s t \<le> 0)"
proof (cases "best_entry es s t")
  case None
  with best_entry_spec [of es s t] show ?thesis by simp
next
  case (Some b)
  with best_entry_Some(1,2) [OF Some] show ?thesis by fastforce
qed

subsection \<open>The entries\<close>

lemma flatten_toc_at_ok:
  "e \<in> set (flatten_toc_at ns pp pe depth) \<Longrightarrow> 0 < te_start e \<and> te_start e \<le> te_end e \<and> depth \<le> te_depth e
     \<and> (\<exists>q. te_path e = pp @ q \<and> length q \<le> nat (te_depth e - depth) + 1)"
proof (induction ns pp pe depth rule: flatten_toc_at.induct)
  case (2 d cs rest pp pe depth)
  define path where "path = (if normalise_title (toc_title d) \<noteq> [] then pp @ [normalise_title (toc_title d)] else pp)"
  define e1 where "e1 = resolve_end_page (TOC d cs) rest pe"
  have path: "\<exists>q. path = pp @ q \<and> length q \<le> 1" by (auto simp: path_def)
  from 2(3) consider
      "0 < start_page d \<and> start_page d \<le> e1 \<and> e = \<lparr>te_start = start_page d, te_end = e1, te_depth = depth, te_path = path\<rparr>"
    | "e \<in> set (flatten_toc_at cs path (if e1 \<le> 0 then pe else e1) (depth + 1))"
    | "e \<in> set (flatten_toc_at rest pp pe depth)"
    by (auto simp: Let_def path_def e1_def split: if_splits)
  then show ?case
  proof cases
    case 1
    with path show ?thesis by auto
  next
    case 2
    then have "0 < te_start e \<and> te_start e \<le> te_end e \<and> depth + 1 \<le> te_depth e
        \<and> (\<exists>q. te_path e = path @ q \<and> length q \<le> nat (te_depth e - (depth + 1)) + 1)"
      by (rule "2.IH"(1) [OF refl refl refl refl, folded e1_def, folded path_def])
    then obtain q p where q: "te_path e = pp @ (p @ q)" "length p \<le> 1" "length q \<le> nat (te_depth e - (depth + 1)) + 1"
      "0 < te_start e" "te_start e \<le> te_end e" "depth + 1 \<le> te_depth e"
      using path by auto
    then have "length (p @ q) \<le> nat (te_depth e - depth) + 1" by simp
    with q show ?thesis by (intro conjI exI [of _ "p @ q"]) simp_all
  next
    case 3
    then show ?thesis using "2.IH"(2) [OF refl refl refl refl] by simp
  qed
qed simp

lemma entry_overlap_iff:
  assumes "0 < te_start e" "te_start e \<le> te_end e" "0 < s" "0 < t"
  shows "0 < entry_overlap e s t \<longleftrightarrow> te_start e \<le> t \<and> s \<le> te_end e \<and> s \<le> t"
  using assms by (auto simp: overlap_pages_def Let_def)


subsection \<open>Properties\<close>

definition root_sections :: "doc_section option \<Rightarrow> doc_section list" where
  "root_sections r = (case r of None \<Rightarrow> [] | Some s \<Rightarrow> preorder s)"

lemma walk_root_sections:
  assumes "\<And>s st. fst (visit s st)"
  shows "walk_root visit r st = fold (\<lambda>s st. snd (visit s st)) (root_sections r) st"
  using walk_all [of visit, OF assms] by (simp add: walk_root_def root_sections_def split: option.splits)

definition heading_entries :: "doc_section option \<Rightarrow> toc_node list \<Rightarrow> toc_entry list" where
  "heading_entries r ns = flatten_toc ns [] (document_max_page r ns)"

text \<open>What one section contributes.\<close>

definition section_path :: "toc_entry list \<Rightarrow> doc_section \<Rightarrow> string list option" where
  "section_path es x =
     (if page_start (data x) \<le> 0 \<or> page_end (data x) \<le> 0 then None
      else best_heading_path es (page_start (data x)) (page_end (data x)))"

lemma fold_paths:
  assumes "distinct (map sec_id xs)" "x \<in> set xs"
  shows "fold (\<lambda>s out. case section_path es s of Some path \<Rightarrow> out(sec_id s \<mapsto> path) | None \<Rightarrow> out) xs m (sec_id x)
    = (case section_path es x of Some path \<Rightarrow> Some path | None \<Rightarrow> m (sec_id x))"
  using assms
proof (induction xs arbitrary: m)
  case (Cons y xs)
  have other: "fold (\<lambda>s out. case section_path es s of Some path \<Rightarrow> out(sec_id s \<mapsto> path) | None \<Rightarrow> out) ys m i = m i"
    if "i \<notin> sec_id ` set ys" for ys m i
    using that by (induction ys arbitrary: m) (auto split: option.splits)
  show ?case
  proof (cases "x = y")
    case True
    with Cons.prems show ?thesis by (auto simp: other split: option.splits)
  next
    case False
    then have "x \<in> set xs" "sec_id y \<noteq> sec_id x" using Cons.prems by auto
    with Cons show ?thesis by (auto split: option.splits)
  qed
qed simp

lemma build_heading_paths_eq:
  assumes "distinct (map sec_id (root_sections r))" "x \<in> set (root_sections r)"
  shows "build_heading_paths r ns (sec_id x) = section_path (heading_entries r ns) x"
proof (cases "heading_entries r ns = []")
  case True
  then show ?thesis
    by (auto simp: build_heading_paths_def heading_entries_def [symmetric] section_path_def
        best_heading_path_def best_entry_def Let_def)
next
  case False
  then have ne: "ns \<noteq> []" by (auto simp: heading_entries_def flatten_toc_def)
  obtain r0 where r: "r = Some r0" using assms(2) by (cases r) (auto simp: root_sections_def)
  have step: "(if page_start (data s) \<le> 0 \<or> page_end (data s) \<le> 0 then out
        else case best_heading_path (heading_entries r ns) (page_start (data s)) (page_end (data s)) of
               Some path \<Rightarrow> out(sec_id s \<mapsto> path) | None \<Rightarrow> out)
      = (case section_path (heading_entries r ns) s of Some path \<Rightarrow> out(sec_id s \<mapsto> path) | None \<Rightarrow> out)" for s out
    by (simp add: section_path_def)
  have "build_heading_paths r ns = fold (\<lambda>s out. case section_path (heading_entries r ns) s of
      Some path \<Rightarrow> out(sec_id s \<mapsto> path) | None \<Rightarrow> out) (root_sections r) Map.empty"
    unfolding step [symmetric] unfolding r using False [unfolded r] ne
    by (simp add: build_heading_paths_def heading_entries_def [symmetric] Let_def walk_root_sections)
  then show ?thesis
    using fold_paths [OF assms, of "heading_entries r ns" Map.empty] by (simp split: option.splits)
qed

text \<open>
  C27. With distinct section IDs, a section's heading path is that of the entry that ranks highest, by
  the documented precedence, among the entries sharing a page with it; every such entry has a
  non-empty page span. A section has no path only when it has no page range, no entry shares a page
  with it, or the best entry lies under headings that are all blank.
\<close>
lemma heading_path_is_best:
  assumes "distinct (map sec_id (root_sections r))" "x \<in> set (root_sections r)"
  shows "case build_heading_paths r ns (sec_id x) of
      Some path \<Rightarrow> 0 < page_start (data x) \<and> 0 < page_end (data x) \<and> (\<exists>b \<in> set (heading_entries r ns).
        te_path b = path \<and> path \<noteq> [] \<and> 0 < te_start b \<and> te_start b \<le> page_end (data x) \<and> page_start (data x) \<le> te_end b
        \<and> (\<forall>e \<in> set (heading_entries r ns). 0 < entry_overlap e (page_start (data x)) (page_end (data x)) \<longrightarrow>
             rank (page_start (data x)) (page_end (data x)) e \<le> rank (page_start (data x)) (page_end (data x)) b))
    | None \<Rightarrow> page_start (data x) \<le> 0 \<or> page_end (data x) \<le> 0
        \<or> (\<forall>e \<in> set (heading_entries r ns). entry_overlap e (page_start (data x)) (page_end (data x)) \<le> 0)
        \<or> (\<exists>b. best_entry (heading_entries r ns) (page_start (data x)) (page_end (data x)) = Some b \<and> te_path b = [])"
proof (cases "0 < page_start (data x) \<and> 0 < page_end (data x)")
  case False
  then show ?thesis by (auto simp: build_heading_paths_eq [OF assms] section_path_def)
next
  case paged: True
  let ?s = "page_start (data x)" and ?t = "page_end (data x)"
  let ?es = "heading_entries r ns"
  show ?thesis
  proof (cases "best_entry ?es ?s ?t")
    case None
    then have "\<forall>e \<in> set ?es. entry_overlap e ?s ?t \<le> 0" by (simp add: best_entry_None)
    with None paged show ?thesis
      by (simp add: build_heading_paths_eq [OF assms] section_path_def best_heading_path_def)
  next
    case (Some b)
    note best = best_entry_Some [OF Some]
    have "0 < te_start b \<and> te_start b \<le> te_end b"
      using best(1) flatten_toc_at_ok [of b ns "[]" _ 0] by (simp add: heading_entries_def flatten_toc_def)
    with best(2) paged have "0 < te_start b \<and> te_start b \<le> ?t \<and> ?s \<le> te_end b"
      by (simp add: entry_overlap_iff)
    with Some paged best show ?thesis
      by (auto simp: build_heading_paths_eq [OF assms] section_path_def best_heading_path_def)
  qed
qed

definition sample_toc :: "toc_node list" where
  "sample_toc = [TOC \<lparr>node_id = [], toc_structure = ''1'', toc_title = ''Item'', start_page = 1, end_page = 9, toc_summary = []\<rparr>
     [TOC \<lparr>node_id = [], toc_structure = ''1.1'', toc_title = ''Note'', start_page = 3, end_page = 5, toc_summary = []\<rparr> []]]"

lemma heading_path_is_best_witness:
  "\<exists>b. b \<in> set (heading_entries (Some sample_root) sample_toc) \<and> te_path b = [''Item'', ''Note'']
     \<and> build_heading_paths (Some sample_root) sample_toc ''c'' = Some (te_path b)
     \<and> rank 3 4 (hd (heading_entries (Some sample_root) sample_toc)) \<le> rank 3 4 b"
proof -
  let ?x = "Section (sample_data ''c'' 70 3 4) []"
  have d: "distinct (map sec_id (root_sections (Some sample_root)))" "?x \<in> set (root_sections (Some sample_root))"
    by (simp_all add: root_sections_def sample_defs)
  have found: "build_heading_paths (Some sample_root) sample_toc ''c'' = Some [''Item'', ''Note'']"
    by code_simp
  have hd: "hd (heading_entries (Some sample_root) sample_toc) \<in> set (heading_entries (Some sample_root) sample_toc)"
    "0 < entry_overlap (hd (heading_entries (Some sample_root) sample_toc)) 3 4"
    by code_simp+
  then show ?thesis using heading_path_is_best [OF d, of sample_toc] found
    by (auto simp: sample_data_def)
qed

end
