(* ===== verification/Llms_Txt.thy ===== *)
theory Llms_Txt
  imports Tree_Model Toc_Tree
begin

text \<open>
  The two \<open>llms.txt\<close> renderings of \<open>pkg/tree/llmstxt.go\<close>: the section tree as nested headings, and
  the contents tree as one bullet per entry. The link builder the caller passes is the parameter
  \<open>page_url\<close>. Dashes are written by their UTF-8 bytes.
\<close>

definition one_line_text :: "string \<Rightarrow> string" where
  "one_line_text s = join (str_fields s) '' ''"

abbreviation newline :: char where
  "newline \<equiv> CHR 0x0A"

fun write_llms_section :: "doc_section \<Rightarrow> nat \<Rightarrow> string" where
  "write_llms_section (Section d cs) level =
     (let level = (if level > 6 then 6 else level);
          heading = trim_space (title d);
          heading = (if heading = [] then sid d else heading);
          sum = one_line_text (summary d)
      in newline # replicate level (CHR ''#'') @ '' '' @ heading @ [newline]
         @ (if sum \<noteq> [] then sum @ [newline] else [])
         @ concat (map (\<lambda>c. write_llms_section c (level + 1)) cs))"

definition render_llms_txt :: "tree \<Rightarrow> string" where
  "render_llms_txt t =
     (let h = trim_space (tree_title t);
          h = (if h = [] then doc_id t else h)
      in ''# '' @ h @ [newline]
         @ (case tree_root t of
              None \<Rightarrow> []
            | Some r \<Rightarrow>
                (let s = one_line_text (summary (data r))
                 in if s \<noteq> [] then newline # ''> '' @ s @ [newline] else [])
                @ concat (map (\<lambda>c. write_llms_section c 2) (children r))))"

subsection \<open>The contents tree\<close>

definition en_dash :: string where
  "en_dash = [CHR 0xE2, CHR 0x80, CHR 0x93]"

definition em_dash :: string where
  "em_dash = [CHR 0xE2, CHR 0x80, CHR 0x94]"

fun count_entries :: "toc_node list \<Rightarrow> int" where
  "count_entries [] = 0"
| "count_entries (TOC d cs # rest) = 1 + count_entries cs + count_entries rest"

definition page_range :: "int \<Rightarrow> int \<Rightarrow> string" where
  "page_range a b = itoa a @ en_dash @ itoa b"

definition entry_link :: "(int \<Rightarrow> int \<Rightarrow> string) \<Rightarrow> string \<Rightarrow> int \<Rightarrow> int \<Rightarrow> string" where
  "entry_link page_url label a b = ''['' @ label @ '']('' @ page_url a b @ '')''"

text \<open>The text of an entry and the pages it states, by the four cases of the switch.\<close>

definition entry_line :: "(int \<Rightarrow> int \<Rightarrow> string) \<Rightarrow> string \<Rightarrow> int \<Rightarrow> int \<Rightarrow> int \<Rightarrow> int \<Rightarrow> string \<times> string" where
  "entry_line page_url label from to p_from p_to =
     (if 0 < from \<and> from < to then (entry_link page_url label from to, ''pp. '' @ page_range from to)
      else if 0 < from then (entry_link page_url label from from, ''p. '' @ itoa from)
      else if 0 < p_from \<and> p_from < p_to
        then (entry_link page_url label p_from p_to, ''within pp. '' @ page_range p_from p_to)
      else if 0 < p_from then (entry_link page_url label p_from p_from, ''within p. '' @ itoa p_from)
      else (label, []))"

text \<open>An open-ended entry runs to the page before its next sibling, or to the ceiling.\<close>

definition entry_to :: "toc_data \<Rightarrow> toc_node list \<Rightarrow> int \<Rightarrow> int" where
  "entry_to d rest ceiling =
     (if end_page d = 0
      then (case rest of m # _ \<Rightarrow> if 0 < start_of m then start_of m - 1 else ceiling | [] \<Rightarrow> ceiling)
      else end_page d)"

definition entry_text :: "(int \<Rightarrow> int \<Rightarrow> string) \<Rightarrow> toc_data \<Rightarrow> nat \<Rightarrow> int \<Rightarrow> int \<Rightarrow> int \<Rightarrow> string" where
  "entry_text page_url d depth to p_from p_to =
     (let label = one_line_text (toc_title d);
          label = (if label = [] then toc_structure d else label);
          (line, pages) = entry_line page_url label (start_page d) to p_from p_to;
          sum = one_line_text (toc_summary d)
      in concat (replicate depth ''  '') @ ''- '' @ line
         @ (if pages \<noteq> [] then '': '' @ pages else [])
         @ (if sum \<noteq> [] then '' '' @ em_dash @ '' '' @ sum else []))"

fun toc_lines :: "(int \<Rightarrow> int \<Rightarrow> string) \<Rightarrow> toc_node list \<Rightarrow> nat \<Rightarrow> int \<Rightarrow> int \<Rightarrow> int \<Rightarrow> string" where
  "toc_lines page_url [] depth ceiling p_from p_to = []"
| "toc_lines page_url (TOC d cs # rest) depth ceiling p_from p_to =
     (let from = start_page d;
          to = entry_to d rest ceiling;
          child_ceiling = (if to = 0 then ceiling else to);
          (c_from, c_to) = (if from = 0 then (p_from, p_to) else (from, to))
      in entry_text page_url d depth to p_from p_to @ [newline]
         @ toc_lines page_url cs (depth + 1) child_ceiling c_from c_to
         @ toc_lines page_url rest depth ceiling p_from p_to)"

definition render_toc_llms_txt :: "string \<Rightarrow> toc_node list \<Rightarrow> int \<Rightarrow> (int \<Rightarrow> int \<Rightarrow> string) \<Rightarrow> string" where
  "render_toc_llms_txt heading ns page_count page_url =
     (let h = one_line_text heading;
          h = (if h = [] then ''Document'' else h);
          entries = count_entries ns;
          desc = (if 0 < page_count then itoa page_count @ '' pages, '' @ itoa entries @ '' contents entries''
                  else itoa entries @ '' contents entries'')
      in ''# '' @ h @ [newline, newline]
         @ ''> The document's own table of contents, '' @ desc
         @ '', each placed on the page where it begins. Every entry links to the text of its pages.''
         @ [newline, newline] @ ''## Contents'' @ [newline, newline]
         @ toc_lines page_url ns 0 page_count 0 0)"

subsection \<open>One line per entry\<close>

definition lines_in :: "string \<Rightarrow> nat" where
  "lines_in s = count_list s newline"

lemma lines_in_append [simp]: "lines_in (s @ t) = lines_in s + lines_in t"
  by (simp add: lines_in_def)

lemma lines_in_Nil [simp]: "lines_in [] = 0"
  by (simp add: lines_in_def)

lemma lines_in_Cons [simp]: "lines_in (c # s) = (if c = newline then 1 else 0) + lines_in s"
  by (simp add: lines_in_def)

lemma lines_in_0: "newline \<notin> set s \<Longrightarrow> lines_in s = 0"
  by (simp add: lines_in_def)

lemma one_line_text_line [simp]: "lines_in (one_line_text s) = 0"
proof -
  have "newline \<notin> set (join (str_fields s) '' '')"
    using set_join [of "str_fields s" "'' ''"] str_fields_no_space [of _ s] by (auto simp: ascii_spaces_def)
  then show ?thesis by (simp add: one_line_text_def lines_in_0)
qed

lemma lines_in_digits [simp]: "lines_in (digits_of n) = 0"
  using digits_of_digits [of n] by (auto simp: is_ascii_digit_def intro!: lines_in_0)

lemma lines_in_itoa [simp]: "lines_in (itoa n) = 0"
  by (simp add: itoa_def)

lemma lines_in_indent [simp]: "lines_in (concat (replicate n ''  '')) = 0"
  by (induction n) auto

lemma entry_text_line:
  assumes "\<And>a b. lines_in (page_url a b) = 0" "lines_in (toc_structure d) = 0"
  shows "lines_in (entry_text page_url d depth to p_from p_to) = 0"
  using assms
  by (simp add: entry_text_def Let_def entry_line_def entry_link_def page_range_def en_dash_def em_dash_def)

lemma lines_in_toc_lines:
  assumes "\<And>a b. lines_in (page_url a b) = 0"
    and "\<forall>n \<in> set (flatten_for_verify ns). lines_in (toc_structure (toc n)) = 0"
  shows "lines_in (toc_lines page_url ns depth ceiling p_from p_to) = length (flatten_for_verify ns)"
  using assms
proof (induction page_url ns depth ceiling p_from p_to rule: toc_lines.induct)
  case (2 page_url d cs rest depth ceiling p_from p_to)
  let ?to = "entry_to d rest ceiling"
  let ?c = "if ?to = 0 then ceiling else ?to"
  let ?f = "if start_page d = 0 then p_from else start_page d"
  let ?t = "if start_page d = 0 then p_to else ?to"
  have d: "lines_in (toc_structure d) = 0"
    and cs: "\<forall>n \<in> set (flatten_for_verify cs). lines_in (toc_structure (toc n)) = 0"
    and rest: "\<forall>n \<in> set (flatten_for_verify rest). lines_in (toc_structure (toc n)) = 0"
    using "2.prems"(2) by (auto simp: flatten_Cons toc_preorder_TOC simp del: toc_preorder.simps)
  have split: "toc_lines page_url (TOC d cs # rest) depth ceiling p_from p_to
      = entry_text page_url d depth ?to p_from p_to @ [newline]
        @ toc_lines page_url cs (depth + 1) ?c ?f ?t @ toc_lines page_url rest depth ceiling p_from p_to"
    by (simp add: Let_def)
  have "lines_in (toc_lines page_url cs (depth + 1) ?c ?f ?t) = length (flatten_for_verify cs)"
    by (rule "2.IH"(1) [OF refl refl refl _ refl "2.prems"(1) cs]) auto
  moreover have "lines_in (toc_lines page_url rest depth ceiling p_from p_to) = length (flatten_for_verify rest)"
    using "2.IH"(2) [OF refl refl refl _ refl "2.prems"(1) rest] by (cases "start_page d = 0") auto
  ultimately show ?case
    unfolding split by (simp add: entry_text_line [OF "2.prems"(1) d] flatten_Cons toc_preorder_TOC
        del: toc_preorder.simps)
qed simp

lemma count_entries_eq: "count_entries ns = int (length (flatten_for_verify ns))"
  by (induction ns rule: count_entries.induct) (simp_all add: flatten_Cons flatten_for_verify_def)


text \<open>
  When neither the links nor the structure numbers contain a line break, the contents map is its
  six heading lines and exactly one line per entry of the contents tree, and the number of entries it
  announces is that number: no title or summary can break or add a line.
\<close>
lemma render_toc_llms_txt_lines:
  assumes "\<And>a b. lines_in (page_url a b) = 0"
    and "\<forall>n \<in> set (flatten_for_verify ns). lines_in (toc_structure (toc n)) = 0"
  shows "int (lines_in (render_toc_llms_txt heading ns page_count page_url)) = 6 + count_entries ns"
  using lines_in_toc_lines [OF assms]
  by (simp add: render_toc_llms_txt_def Let_def count_entries_eq)

lemma render_toc_llms_txt_lines_witness:
  "int (lines_in (render_toc_llms_txt ''T'' [TOC \<lparr>node_id = [], toc_structure = ''1'', toc_title = ''A'',
     start_page = 1, end_page = 0, toc_summary = []\<rparr> []] 3 (\<lambda>a b. itoa a))) = 7"
  using render_toc_llms_txt_lines [of "\<lambda>a b. itoa a" "[TOC \<lparr>node_id = [], toc_structure = ''1'',
     toc_title = ''A'', start_page = 1, end_page = 0, toc_summary = []\<rparr> []]" "''T''" 3]
  by (simp add: flatten_for_verify_def)

end
