(* ===== verification/Float64.thy ===== *)
theory Float64
  imports Main "HOL-Library.Log_Nat"
begin

text \<open>
  Go's \<open>float64\<close>: a finite value is the rational number it denotes, and every operation rounds the
  exact result to the nearest multiple of its last place, ties to even, with gradual underflow and
  overflow to an infinity. The one thing left out is the sign of zero, which no modelled comparison
  or result depends on. Comparisons with NaN are false, as in the language.
\<close>

datatype f64 = NaN | Inf bool | Fin rat

subsection \<open>Rounding\<close>

definition round_half_even :: "rat \<Rightarrow> int" where
  "round_half_even x =
     (let f = \<lfloor>x\<rfloor>; d = x - of_int f
      in if d < 1 / 2 then f else if 1 / 2 < d then f + 1 else if even f then f else f + 1)"

definition pow2 :: "int \<Rightarrow> rat" where
  "pow2 e = (if 0 \<le> e then 2 ^ nat e else 1 / 2 ^ nat (- e))"

text \<open>The exponent \<open>e\<close> with \<open>2 ^ e \<le> x < 2 ^ (e + 1)\<close>, for a positive \<open>x\<close>.\<close>

definition exponent_of :: "rat \<Rightarrow> int" where
  "exponent_of x =
     (case quotient_of x of (p, q) \<Rightarrow>
        let e = bitlen p - bitlen q in if pow2 e \<le> x then e else e - 1)"

definition max_finite :: rat where
  "max_finite = (2 - pow2 (- 52)) * pow2 1023"

definition rnd :: "rat \<Rightarrow> f64" where
  "rnd x =
     (if x = 0 then Fin 0
      else let ulp = pow2 (max (exponent_of \<bar>x\<bar>) (- 1022) - 52);
               m = of_int (round_half_even (\<bar>x\<bar> / ulp)) * ulp
           in if max_finite < m then Inf (x < 0) else Fin (if x < 0 then - m else m))"

subsection \<open>Arithmetic\<close>

fun f_neg :: "f64 \<Rightarrow> f64" where
  "f_neg NaN = NaN"
| "f_neg (Inf s) = Inf (\<not> s)"
| "f_neg (Fin x) = Fin (- x)"

fun f_add :: "f64 \<Rightarrow> f64 \<Rightarrow> f64" where
  "f_add (Fin x) (Fin y) = rnd (x + y)"
| "f_add (Inf s) (Inf t) = (if s = t then Inf s else NaN)"
| "f_add (Inf s) (Fin y) = Inf s"
| "f_add (Fin x) (Inf t) = Inf t"
| "f_add _ _ = NaN"

definition f_sub :: "f64 \<Rightarrow> f64 \<Rightarrow> f64" where
  "f_sub x y = f_add x (f_neg y)"

fun f_mul :: "f64 \<Rightarrow> f64 \<Rightarrow> f64" where
  "f_mul (Fin x) (Fin y) = rnd (x * y)"
| "f_mul (Inf s) (Inf t) = Inf (s \<noteq> t)"
| "f_mul (Inf s) (Fin y) = (if y = 0 then NaN else Inf (s \<noteq> (y < 0)))"
| "f_mul (Fin x) (Inf t) = (if x = 0 then NaN else Inf ((x < 0) \<noteq> t))"
| "f_mul _ _ = NaN"

text \<open>Division; a zero divisor is taken as positive zero.\<close>

fun f_div :: "f64 \<Rightarrow> f64 \<Rightarrow> f64" where
  "f_div (Fin x) (Fin y) = (if y = 0 then (if x = 0 then NaN else Inf (x < 0)) else rnd (x / y))"
| "f_div (Inf s) (Fin y) = Inf (s \<noteq> (y < 0))"
| "f_div (Fin x) (Inf t) = Fin 0"
| "f_div _ _ = NaN"

subsection \<open>Comparison\<close>

fun f_lt :: "f64 \<Rightarrow> f64 \<Rightarrow> bool" where
  "f_lt (Fin x) (Fin y) = (x < y)"
| "f_lt (Inf s) (Inf t) = (s \<and> \<not> t)"
| "f_lt (Inf s) (Fin y) = s"
| "f_lt (Fin x) (Inf t) = (\<not> t)"
| "f_lt _ _ = False"

definition f_eq :: "f64 \<Rightarrow> f64 \<Rightarrow> bool" where
  "f_eq x y = (x \<noteq> NaN \<and> x = y)"

definition f_le :: "f64 \<Rightarrow> f64 \<Rightarrow> bool" where
  "f_le x y = (f_lt x y \<or> f_eq x y)"

text \<open>A float64 conversion of a Go integer.\<close>

definition f_of_int :: "int \<Rightarrow> f64" where
  "f_of_int n = rnd (of_int n)"

text \<open>\<open>int(x)\<close>, as amd64 does it where the language leaves it open.\<close>

fun int64_of :: "f64 \<Rightarrow> int" where
  "int64_of (Fin x) = (if 0 \<le> x then \<lfloor>x\<rfloor> else \<lceil>x\<rceil>)"
| "int64_of _ = - (2 ^ 63)"

lemma f_lt_irrefl [simp]: "\<not> f_lt x x"
  by (cases x) auto

lemma f_lt_trans: "f_lt x y \<Longrightarrow> f_lt y z \<Longrightarrow> f_lt x z"
  by (cases x; cases y; cases z) auto

lemma f_lt_asym: "f_lt x y \<Longrightarrow> \<not> f_lt y x"
  using f_lt_trans f_lt_irrefl by blast

lemma f_lt_NaN [simp]: "\<not> f_lt NaN x" "\<not> f_lt x NaN"
  by (cases x; simp)+

lemma f_lt_total: "x \<noteq> NaN \<Longrightarrow> y \<noteq> NaN \<Longrightarrow> f_lt x y \<or> x = y \<or> f_lt y x"
  by (cases x; cases y) auto

lemma f_le_trans: "f_le x y \<Longrightarrow> f_le y z \<Longrightarrow> f_le x z"
  unfolding f_le_def f_eq_def using f_lt_trans by blast

lemma not_f_lt: "x \<noteq> NaN \<Longrightarrow> y \<noteq> NaN \<Longrightarrow> \<not> f_lt x y \<longleftrightarrow> f_le y x"
  using f_lt_total [of x y] f_lt_asym [of x y] by (auto simp: f_le_def f_eq_def)

lemma f_le_NaN: "f_le x y \<Longrightarrow> x \<noteq> NaN \<and> y \<noteq> NaN"
  by (auto simp: f_le_def f_eq_def)

subsection \<open>Rounding facts\<close>

lemma round_half_even_of_int [simp]: "round_half_even (of_int n) = n"
  by (simp add: round_half_even_def)

lemma round_half_even_mono: "x \<le> y \<Longrightarrow> round_half_even x \<le> round_half_even y"
proof -
  assume xy: "x \<le> y"
  have fl: "\<lfloor>x\<rfloor> \<le> \<lfloor>y\<rfloor>" using xy by (rule floor_mono)
  show ?thesis
  proof (cases "\<lfloor>x\<rfloor> = \<lfloor>y\<rfloor>")
    case True
    with xy show ?thesis by (auto simp: round_half_even_def Let_def)
  next
    case False
    with fl have "\<lfloor>x\<rfloor> + 1 \<le> \<lfloor>y\<rfloor>" by simp
    then show ?thesis by (auto simp: round_half_even_def Let_def)
  qed
qed

lemma rnd_zero [simp]: "rnd 0 = Fin 0"
  by (simp add: rnd_def)

text \<open>Integers below \<open>2 ^ 53\<close> are exact.\<close>

lemma exponent_of_int: "0 < n \<Longrightarrow> n < 2 ^ 53 \<Longrightarrow> exponent_of (of_int n) \<le> 52"
  using bitlen_le_iff_power [of n 53] by (simp add: exponent_of_def Let_def bitlen_alt_def)

lemma max_finite_large: "2 ^ 53 \<le> max_finite"
proof -
  have "(1 :: rat) * 2 ^ 1023 \<le> (2 - 1 / 2 ^ 52) * 2 ^ 1023"
    by (rule mult_right_mono) simp_all
  moreover have "(2 :: rat) ^ 53 \<le> 2 ^ 1023" by (rule power_increasing) simp_all
  ultimately show ?thesis by (simp add: max_finite_def pow2_def)
qed

lemma rnd_of_int:
  assumes "\<bar>n\<bar> < 2 ^ 53"
  shows "rnd (of_int n) = Fin (of_int n)"
proof (cases "n = 0")
  case False
  let ?k = "max (exponent_of \<bar>of_int n\<bar>) (- 1022) - 52"
  have "exponent_of (of_int \<bar>n\<bar>) \<le> 52" using False assms by (intro exponent_of_int) auto
  then have k: "?k \<le> 0" by simp
  have ulp: "pow2 ?k = 1 / 2 ^ nat (- ?k)" using k by (auto simp: pow2_def)
  have "\<bar>of_int n\<bar> / pow2 ?k = of_int (\<bar>n\<bar> * 2 ^ nat (- ?k))" by (simp add: ulp)
  then have "of_int (round_half_even (\<bar>of_int n\<bar> / pow2 ?k)) * pow2 ?k = (of_int (\<bar>n\<bar> * 2 ^ nat (- ?k)) :: rat) * pow2 ?k"
    by (simp only: round_half_even_of_int)
  also have "\<dots> = of_int \<bar>n\<bar>" by (simp add: ulp)
  finally have m: "of_int (round_half_even (\<bar>of_int n\<bar> / pow2 ?k)) * pow2 ?k = of_int \<bar>n\<bar>" .
  have "(of_int \<bar>n\<bar> :: rat) < of_int (2 ^ 53)" using assms by (simp only: of_int_less_iff)
  with max_finite_large have "\<not> max_finite < of_int \<bar>n\<bar>" by simp
  with False show ?thesis unfolding rnd_def Let_def m by (auto simp: abs_if)
qed simp

lemma rnd_numeral: "(numeral k :: int) < 2 ^ 53 \<Longrightarrow> rnd (numeral k) = Fin (numeral k)"
  using rnd_of_int [of "numeral k"] by simp

lemma rnd_one [simp]: "rnd 1 = Fin 1"
  using rnd_of_int [of 1] by simp

end
