(* ===== verification/Strategy_Core.thy ===== *)
theory Strategy_Core
  imports Tree_Model Go_Strings Float64
begin

text \<open>
  What every retrieval strategy shares (\<open>pkg/retrieval/strategy.go\<close>, \<open>pkg/retrieval/trace.go\<close>): the
  budget of one model call, usage accounting, the result, and the replay token. SHA-256 with its hex
  encoding is the parameter \<open>sha256_hex\<close>.

  A nil map of confidences is the empty map, a nil slice the empty list.
\<close>

subsection \<open>Data\<close>

record context_budget =
  model_name :: string
  max_tokens :: int
  reserved_for_prompt :: int
  max_parallel_calls :: int

definition available :: "context_budget \<Rightarrow> int" where
  "available b = (let v = wrap64 (max_tokens b - reserved_for_prompt b) in if v < 0 then 0 else v)"

record usage =
  input_tokens :: int
  output_tokens :: int
  usage_tokens :: int
  cost_usd :: f64
  llm_calls :: int

definition no_usage :: usage where
  "no_usage = \<lparr>input_tokens = 0, output_tokens = 0, usage_tokens = 0, cost_usd = Fin 0, llm_calls = 0\<rparr>"

text \<open>Token counts are added as Go adds them, at 64 bits.\<close>

definition add_usage :: "usage \<Rightarrow> usage \<Rightarrow> usage" where
  "add_usage u v =
     \<lparr>input_tokens = wrap64 (input_tokens u + input_tokens v),
      output_tokens = wrap64 (output_tokens u + output_tokens v),
      usage_tokens = wrap64 (usage_tokens u + usage_tokens v),
      cost_usd = f_add (cost_usd u) (cost_usd v),
      llm_calls = wrap64 (llm_calls u + llm_calls v)\<rparr>"

record page_read =
  pr_start :: int
  pr_end :: int
  pr_sections :: "section_id list"
  pr_chars :: int

record evidence_page =
  ev_page :: int
  ev_title :: string
  ev_text :: string
  ev_confidence :: f64

record result =
  selected_ids :: "section_id list"
  confidences :: "section_id \<Rightarrow> f64 option"
  reasoning :: string
  model_used :: string
  res_usage :: usage
  hops_taken :: int
  trace_token :: string
  pages_read :: "page_read list"
  evidence_pages :: "evidence_page list"
  runner_up_pages :: "evidence_page list"
  runner_up_ids :: "section_id list"
  cited_pages :: "(int \<times> int) list"
  res_confidence :: f64

definition empty_result :: result where
  "empty_result = \<lparr>selected_ids = [], confidences = Map.empty, reasoning = [], model_used = [],
     res_usage = no_usage, hops_taken = 0, trace_token = [], pages_read = [], evidence_pages = [],
     runner_up_pages = [], runner_up_ids = [], cited_pages = [], res_confidence = Fin 0\<rparr>"

subsection \<open>The replay token\<close>

abbreviation nul :: char where
  "nul \<equiv> CHR 0x00"

definition system_prompt_version :: string where
  "system_prompt_version = ''v1''"

definition token_input :: "document_id \<Rightarrow> string \<Rightarrow> string \<Rightarrow> section_id list \<Rightarrow> string" where
  "token_input doc version model ids =
     doc @ [nul] @ version @ [nul] @ model @ [nul] @ system_prompt_version @ [nul] @ join (sort ids) [nul]"

definition compute_trace_token ::
    "(string \<Rightarrow> string) \<Rightarrow> document_id \<Rightarrow> string \<Rightarrow> string \<Rightarrow> section_id list \<Rightarrow> string" where
  "compute_trace_token sha256_hex doc version model ids = sha256_hex (token_input doc version model ids)"

lemma split_at_nul:
  assumes "nul \<notin> set a" "nul \<notin> set b" "a @ nul # x = b @ nul # y"
  shows "a = b \<and> x = y"
  using assms
proof (induction a arbitrary: b)
  case Nil
  then show ?case by (cases b) auto
next
  case (Cons c a)
  then show ?case by (cases b) auto
qed

lemma join_nul_inject:
  assumes "\<forall>s \<in> set xs \<union> set ys. nul \<notin> set s \<and> s \<noteq> []" "join xs [nul] = join ys [nul]"
  shows "xs = ys"
  using assms
proof (induction xs arbitrary: ys)
  case Nil
  then show ?case by (cases ys; cases "tl ys") (auto simp: join_Cons)
next
  case (Cons x xs)
  then obtain y ys' where ys: "ys = y # ys'" by (cases ys; cases xs) (auto simp: join_Cons)
  have ne: "x \<noteq> []" "nul \<notin> set x" "y \<noteq> []" "nul \<notin> set y" using Cons.prems(1) ys by auto
  show ?case
  proof (cases "xs = [] \<or> ys' = []")
    case True
    show ?thesis
    proof (cases "xs = [] \<and> ys' = []")
      case True
      with Cons.prems(2) ys show ?thesis by simp
    next
      case False
      with True consider "xs = []" "ys' \<noteq> []" | "xs \<noteq> []" "ys' = []" by auto
      then show ?thesis
      proof cases
        case 1
        with Cons.prems(2) ys have "x = y @ nul # join ys' [nul]" by (simp add: join_Cons)
        with ne show ?thesis by auto
      next
        case 2
        with Cons.prems(2) ys have "y = x @ nul # join xs [nul]" by (simp add: join_Cons)
        with ne show ?thesis by auto
      qed
    qed
  next
    case False
    with Cons.prems(2) ys have "x @ nul # join xs [nul] = y @ nul # join ys' [nul]"
      by (simp add: join_Cons)
    with ne split_at_nul have "x = y \<and> join xs [nul] = join ys' [nul]" by blast
    with Cons.IH [of ys'] Cons.prems(1) ys show ?thesis by auto
  qed
qed

lemma token_input_inject:
  assumes "nul \<notin> set doc" "nul \<notin> set doc'" "nul \<notin> set version" "nul \<notin> set version'"
    "nul \<notin> set model" "nul \<notin> set model'" "\<forall>s \<in> set ids \<union> set ids'. nul \<notin> set s \<and> s \<noteq> []"
    and eq: "token_input doc version model ids = token_input doc' version' model' ids'"
  shows "doc = doc' \<and> version = version' \<and> model = model' \<and> mset ids = mset ids'"
proof -
  have 1: "doc = doc'" "version @ nul # model @ nul # system_prompt_version @ nul # join (sort ids) [nul]
      = version' @ nul # model' @ nul # system_prompt_version @ nul # join (sort ids') [nul]"
    using split_at_nul [OF assms(1,2)] eq by (simp_all add: token_input_def)
  have 2: "version = version'" "model @ nul # system_prompt_version @ nul # join (sort ids) [nul]
      = model' @ nul # system_prompt_version @ nul # join (sort ids') [nul]"
    using split_at_nul [OF assms(3,4) 1(2)] by auto
  have 3: "model = model'" "join (sort ids) [nul] = join (sort ids') [nul]"
    using split_at_nul [OF assms(5,6) 2(2)] by auto
  have "sort ids = sort ids'"
    using join_nul_inject [OF _ 3(2)] assms(7) by simp
  then have "mset ids = mset ids'" by (metis mset_sort)
  with 1(1) 2(1) 3(1) show ?thesis by simp
qed

subsection \<open>Properties\<close>

text \<open>
  Unless their inputs happen to be a collision of the hash, two runs get the same replay token
  exactly when they agree on document, version and model and selected the same sections, in any order.
  The IDs must be non-empty and nothing may contain the separator byte.
\<close>
lemma trace_token_identifies_run:
  assumes "sha256_hex (token_input doc version model ids) = sha256_hex (token_input doc' version' model' ids')
      \<Longrightarrow> token_input doc version model ids = token_input doc' version' model' ids'"
    and "nul \<notin> set doc" "nul \<notin> set doc'" "nul \<notin> set version" "nul \<notin> set version'"
    and "nul \<notin> set model" "nul \<notin> set model'" "\<forall>s \<in> set ids \<union> set ids'. nul \<notin> set s \<and> s \<noteq> []"
  shows "compute_trace_token sha256_hex doc version model ids = compute_trace_token sha256_hex doc' version' model' ids'
    \<longleftrightarrow> doc = doc' \<and> version = version' \<and> model = model' \<and> mset ids = mset ids'"
proof
  assume "compute_trace_token sha256_hex doc version model ids = compute_trace_token sha256_hex doc' version' model' ids'"
  then have "token_input doc version model ids = token_input doc' version' model' ids'"
    using assms(1) by (simp add: compute_trace_token_def)
  then show "doc = doc' \<and> version = version' \<and> model = model' \<and> mset ids = mset ids'"
    using token_input_inject [OF assms(2-8)] by blast
next
  assume same: "doc = doc' \<and> version = version' \<and> model = model' \<and> mset ids = mset ids'"
  then have "sort ids = sort ids'"
    by (intro properties_for_sort) (auto simp flip: same)
  with same show "compute_trace_token sha256_hex doc version model ids = compute_trace_token sha256_hex doc' version' model' ids'"
    by (simp add: compute_trace_token_def token_input_def)
qed

lemma trace_token_identifies_run_witness:
  "compute_trace_token id ''d'' ''1'' ''m'' [''a'', ''b''] = compute_trace_token id ''d'' ''1'' ''m'' [''b'', ''a'']"
  using trace_token_identifies_run [where sha256_hex = id and doc = "''d''" and doc' = "''d''" and version = "''1''"
      and version' = "''1''" and model = "''m''" and model' = "''m''" and ids = "[''a'', ''b'']" and ids' = "[''b'', ''a'']"]
  by simp

text \<open>Without the condition on empty IDs the claim fails: no selection and one empty ID share a token.\<close>

lemma trace_token_empty_id:
  "compute_trace_token sha256_hex doc version model [] = compute_trace_token sha256_hex doc version model [[]]"
  by (simp add: compute_trace_token_def token_input_def)

end
