(* ===== verification/Page_Ranges.thy ===== *)
theory Page_Ranges
  imports Strategy_Core
begin

text \<open>
  The page arithmetic of \<open>pkg/retrieval/treewalk_strategy.go\<close>: the sections ordered by page, clamping
  a range the model asks for, the confidence-gated choice of the cited ranges, and the sections a
  range covers. A \<open>pageRange\<close> and its wire form \<open>[2]int\<close> are pairs.

  \<open>sort.SliceStable\<close> and \<open>sort.Slice\<close> are \<open>stable_sort\<close> with the code's comparison; where a property
  depends on the order the comparison is a strict weak order, and where the sort is not the stable
  one its elements are distinct under a total order, so the result is the library's.
\<close>

type_synonym page_range = "int \<times> int"

subsection \<open>The synthesised contents\<close>

datatype toc_view = TocView (tv_id: section_id) (tv_title: string) (tv_start: int) (tv_end: int) (tv_children: "toc_view list")

fun section_to_toc :: "doc_section \<Rightarrow> toc_view" where
  "section_to_toc (Section d cs) =
     TocView (sid d) (title d) (page_start d) (page_end d) (map section_to_toc cs)"

definition convert_section_to_toc :: "doc_section option \<Rightarrow> toc_view list" where
  "convert_section_to_toc r =
     (case r of
        None \<Rightarrow> []
      | Some s \<Rightarrow> if sec_id s = [] then map section_to_toc (children s) else [section_to_toc s])"

subsection \<open>Sections by page\<close>

record page_entry =
  pe_id :: section_id
  pe_title :: string
  pe_summary :: string
  pe_ref :: string
  pe_start :: int
  pe_end :: int

definition entry_of :: "doc_section \<Rightarrow> page_entry" where
  "entry_of s = \<lparr>pe_id = sec_id s, pe_title = title (data s), pe_summary = summary (data s),
     pe_ref = content_ref (data s), pe_start = page_start (data s), pe_end = page_end (data s)\<rparr>"

definition page_less :: "page_range \<Rightarrow> page_range \<Rightarrow> bool" where
  "page_less p q = (if fst p \<noteq> fst q then fst p < fst q else snd p < snd q)"

definition flatten_sections_by_page :: "tree \<Rightarrow> page_entry list" where
  "flatten_sections_by_page t =
     stable_sort (\<lambda>a b. page_less (pe_start a, pe_end a) (pe_start b, pe_end b))
       (walk_root (\<lambda>s out. (True, if page_start (data s) \<le> 0 \<or> page_end (data s) \<le> 0 then out
                                else out @ [entry_of s])) (tree_root t) [])"

definition max_known_page :: "page_entry list \<Rightarrow> int" where
  "max_known_page es = fold (\<lambda>s m. if pe_end s > m then pe_end s else m) es 0"

definition overlaps :: "int \<Rightarrow> int \<Rightarrow> int \<Rightarrow> int \<Rightarrow> bool" where
  "overlaps a_start a_end b_start b_end =
     (if a_start \<le> 0 \<or> a_end \<le> 0 \<or> b_start \<le> 0 \<or> b_end \<le> 0 then False
      else a_start \<le> b_end \<and> b_start \<le> a_end)"

definition clamp_range :: "int \<Rightarrow> int \<Rightarrow> int \<Rightarrow> int \<times> int \<times> bool" where
  "clamp_range start end max_page =
     (if start \<le> 0 \<and> end \<le> 0 then (0, 0, False)
      else let start = (if start \<le> 0 then 1 else start);
               end = (if end \<le> 0 then start else end);
               (start, end) = (if start > end then (end, start) else (start, end))
           in if 0 < max_page
              then if start > max_page then (start, end, False)
                   else (start, if end > max_page then max_page else end, True)
              else (start, end, True))"

subsection \<open>The cited ranges\<close>

text \<open>\<open>NaN\<close> compares false both ways, so it passes through.\<close>

definition clamp_confidence :: "f64 \<Rightarrow> f64" where
  "clamp_confidence c = (if f_lt c (Fin 0) then Fin 0 else if f_lt (Fin 1) c then Fin 1 else c)"

record scored_range =
  sr_range :: page_range
  sr_conf :: f64
  sr_order :: nat

text \<open>
  The loop over the raw ranges. The \<open>seen\<close> map takes a range to its place in \<open>kept\<close>; the ranges in
  \<open>kept\<close> are distinct, so updating the entry with that range is updating that place.
\<close>

definition raise_conf :: "page_range \<Rightarrow> f64 \<Rightarrow> scored_range \<Rightarrow> scored_range" where
  "raise_conf r c k = (if sr_range k = r \<and> f_lt (sr_conf k) c then k\<lparr>sr_conf := c\<rparr> else k)"

fun keep_ranges :: "page_range list \<Rightarrow> nat \<Rightarrow> f64 list \<Rightarrow> int \<Rightarrow> scored_range list \<Rightarrow> scored_range list" where
  "keep_ranges [] i confs max_page kept = kept"
| "keep_ranges (rr # raw) i confs max_page kept =
     (case clamp_range (fst rr) (snd rr) max_page of
        (s, e, ok) \<Rightarrow>
          if \<not> ok then keep_ranges raw (Suc i) confs max_page kept
          else let conf = (if i < length confs then clamp_confidence (confs ! i) else Fin 0)
               in keep_ranges raw (Suc i) confs max_page
                    (if (s, e) \<in> sr_range ` set kept then map (raise_conf (s, e) conf) kept
                     else kept @ [\<lparr>sr_range = (s, e), sr_conf = conf, sr_order = i\<rparr>]))"

definition better_range :: "scored_range \<Rightarrow> scored_range \<Rightarrow> bool" where
  "better_range a b =
     (if \<not> f_eq (sr_conf a) (sr_conf b) then f_lt (sr_conf b) (sr_conf a) else sr_order a < sr_order b)"

definition cap_ranges :: "int \<Rightarrow> scored_range list \<Rightarrow> scored_range list" where
  "cap_ranges max_citations kept =
     (if 0 < max_citations \<and> int (length kept) > max_citations
      then take (nat max_citations) (stable_sort better_range kept) else kept)"

definition select_cited_ranges :: "page_range list \<Rightarrow> f64 list \<Rightarrow> int \<Rightarrow> int \<Rightarrow> page_range list" where
  "select_cited_ranges raw confs max_page max_citations =
     (if raw = [] then []
      else let kept = keep_ranges raw 0 confs max_page []
           in if kept = [] then []
              else stable_sort page_less (map sr_range (cap_ranges max_citations kept)))"

definition confidence_map :: "section_id list \<Rightarrow> f64 \<Rightarrow> section_id \<Rightarrow> f64 option" where
  "confidence_map ids confidence =
     (if ids = [] \<or> f_le confidence (Fin 0) then Map.empty
      else fold (\<lambda>i m. m(i \<mapsto> confidence)) ids Map.empty)"

definition ranges_to_pairs :: "page_range list \<Rightarrow> (int \<times> int) list" where
  "ranges_to_pairs ranges = map (\<lambda>r. (fst r, snd r)) ranges"

subsection \<open>From ranges to sections\<close>

definition sections_overlapping :: "page_entry list \<Rightarrow> page_range list \<Rightarrow> section_id list" where
  "sections_overlapping sections ranges =
     (if ranges = [] \<or> sections = [] then []
      else dedup_by id [] (map pe_id
        (filter (\<lambda>sec. \<exists>r \<in> set ranges. overlaps (pe_start sec) (pe_end sec) (fst r) (snd r)) sections)))"

definition section_ids_overlapping :: "tree \<Rightarrow> int \<Rightarrow> int \<Rightarrow> section_id list" where
  "section_ids_overlapping t start end =
     (if tree_root t = None then [] else sections_overlapping (flatten_sections_by_page t) [(start, end)])"

record citation_source =
  cs_start :: int
  cs_end :: int
  cs_sections :: "section_id list"

definition citation_sources :: "result option \<Rightarrow> citation_source list" where
  "citation_sources res =
     (case res of
        None \<Rightarrow> []
      | Some r \<Rightarrow>
          if cited_pages r \<noteq> []
          then map (\<lambda>p. \<lparr>cs_start = fst p, cs_end = snd p, cs_sections = []\<rparr>)
                 (dedup_by (\<lambda>p. (fst p, snd p)) [] (cited_pages r))
          else map (\<lambda>p. \<lparr>cs_start = pr_start p, cs_end = pr_end p, cs_sections = pr_sections p\<rparr>)
                 (dedup_by (\<lambda>p. (pr_start p, pr_end p)) [] (pages_read r)))"

subsection \<open>The replay token of a page-based run\<close>

definition range_string :: "page_range \<Rightarrow> string" where
  "range_string p = (if fst p = snd p then itoa (fst p) else itoa (fst p) @ ''-'' @ itoa (snd p))"

definition tree_walk_trace_token ::
    "(string \<Rightarrow> string) \<Rightarrow> document_id \<Rightarrow> string \<Rightarrow> page_range list \<Rightarrow> string" where
  "tree_walk_trace_token sha256_hex doc model ranges =
     compute_trace_token sha256_hex doc ''1-pages'' (''treewalk:'' @ model)
       (map (\<lambda>s. ''p:'' @ s) (sort (map range_string ranges)))"

subsection \<open>Reading a range the model wrote\<close>

text \<open>
  \<open>strconv.Atoi\<close> on a decimal literal with an optional sign: an error on anything else and on a value
  outside 64 bits.
\<close>

definition atoi :: "string \<Rightarrow> int option" where
  "atoi s =
     (let (neg, ds) = (case s of [] \<Rightarrow> (False, [])
                       | c # cs \<Rightarrow> if c = CHR ''-'' then (True, cs) else if c = CHR ''+'' then (False, cs) else (False, s));
          n = (if neg then - dec_val ds else dec_val ds)
      in if ds = [] \<or> \<not> list_all is_ascii_digit ds then None
         else if - (2 ^ 63) \<le> n \<and> n \<le> max_int64 then Some n else None)"

definition parse_page_range_string :: "string \<Rightarrow> (int \<times> int) option" where
  "parse_page_range_string s =
     (let s = trim_space s in
      if s = [] then None
      else let sep = length (takeWhile (\<lambda>c. c \<noteq> CHR ''-'' \<and> c \<noteq> CHR '','') s)
           in if sep = length s
              then (case atoi s of Some n \<Rightarrow> if n \<le> 0 then None else Some (n, n) | None \<Rightarrow> None)
              else (case (atoi (trim_space (take sep s)), atoi (trim_space (drop (sep + 1) s))) of
                      (Some a, Some b) \<Rightarrow> if a \<le> 0 \<or> b \<le> 0 then None else Some (a, b)
                    | _ \<Rightarrow> None))"

record cited_range_obj =
  cro_pages :: "int list"
  cro_pages_str :: string
  cro_start :: int
  cro_end :: int
  cro_confidence :: f64

definition to_range :: "cited_range_obj \<Rightarrow> (int \<times> int) option" where
  "to_range ob =
     (if length (cro_pages ob) = 1 \<and> 0 < cro_pages ob ! 0 then Some (cro_pages ob ! 0, cro_pages ob ! 0)
      else if 2 \<le> length (cro_pages ob) \<and> 0 < cro_pages ob ! 0 \<and> 0 < cro_pages ob ! 1
        then Some (cro_pages ob ! 0, cro_pages ob ! 1)
      else case (if cro_pages_str ob = [] then None else parse_page_range_string (cro_pages_str ob)) of
             Some r \<Rightarrow> Some r
           | None \<Rightarrow> if 0 < cro_start ob
                     then Some (cro_start ob, if cro_end ob \<le> 0 then cro_start ob else cro_end ob)
                     else None)"


subsection \<open>Clamping\<close>

definition clamped :: "int \<Rightarrow> page_range \<Rightarrow> page_range option" where
  "clamped max_page r = (case clamp_range (fst r) (snd r) max_page of (s, e, ok) \<Rightarrow> if ok then Some (s, e) else None)"

lemma clamp_range_ok:
  "clamp_range a b max_page = (s, e, True) \<Longrightarrow> 0 < s \<and> s \<le> e \<and> (0 < max_page \<longrightarrow> e \<le> max_page)"
  by (auto simp: clamp_range_def Let_def split: if_splits)

lemma clamped_ok: "clamped max_page r = Some (s, e) \<Longrightarrow> 0 < s \<and> s \<le> e \<and> (0 < max_page \<longrightarrow> e \<le> max_page)"
  using clamp_range_ok by (auto simp: clamped_def split: prod.splits if_splits)

lemma clamp_confidence_range: "c \<noteq> NaN \<Longrightarrow> f_le (Fin 0) (clamp_confidence c) \<and> f_le (clamp_confidence c) (Fin 1)"
  by (cases c) (auto simp: clamp_confidence_def f_le_def f_eq_def)

lemma clamp_confidence_not_NaN: "clamp_confidence c = NaN \<longleftrightarrow> c = NaN"
  by (cases c) (auto simp: clamp_confidence_def)

text \<open>
  The comment on \<open>clampConfidence\<close> says NaN-ish values clamp to the nearest bound. NaN does not: it
  comes out as NaN (a model can send it, as the string form of a confidence is read by
  \<open>strconv.ParseFloat\<close>), and it then passes the guard of \<open>confidenceMap\<close> too.
\<close>

lemma clamp_confidence_keeps_NaN:
  "clamp_confidence NaN = NaN" "confidence_map [i] NaN i = Some NaN"
  by (simp_all add: clamp_confidence_def confidence_map_def f_le_def f_eq_def)

subsection \<open>What the loop keeps\<close>

definition conf_at :: "f64 list \<Rightarrow> nat \<Rightarrow> f64" where
  "conf_at confs i = (if i < length confs then clamp_confidence (confs ! i) else Fin 0)"

definition kept_ok :: "page_range list \<Rightarrow> f64 list \<Rightarrow> int \<Rightarrow> nat \<Rightarrow> scored_range list \<Rightarrow> bool" where
  "kept_ok raw confs max_page n kept \<longleftrightarrow> distinct (map sr_range kept)
     \<and> (\<forall>k \<in> set kept. \<exists>i < n. clamped max_page (raw ! i) = Some (sr_range k) \<and> sr_conf k = conf_at confs i)
     \<and> (\<forall>i < n. \<forall>r. clamped max_page (raw ! i) = Some r \<longrightarrow> (\<exists>k \<in> set kept. sr_range k = r \<and> f_le (conf_at confs i) (sr_conf k)))"

lemma kept_okD:
  assumes "kept_ok raw confs max_page n kept"
  shows "distinct (map sr_range kept)"
    and "k \<in> set kept \<Longrightarrow> \<exists>i < n. clamped max_page (raw ! i) = Some (sr_range k) \<and> sr_conf k = conf_at confs i"
    and "i < n \<Longrightarrow> clamped max_page (raw ! i) = Some r \<Longrightarrow> \<exists>k \<in> set kept. sr_range k = r \<and> f_le (conf_at confs i) (sr_conf k)"
  using assms unfolding kept_ok_def by blast+

lemma sr_range_raise [simp]: "sr_range (raise_conf r c k) = sr_range k"
  by (simp add: raise_conf_def)

lemma map_range_raise [simp]: "map sr_range (map (raise_conf r c) kept) = map sr_range kept"
  by (simp add: comp_def)

lemma conf_at_not_NaN: "list_all (\<lambda>c. c \<noteq> NaN) confs \<Longrightarrow> conf_at confs i \<noteq> NaN"
  by (simp add: conf_at_def list_all_length clamp_confidence_not_NaN)

lemma f_le_refl: "x \<noteq> NaN \<Longrightarrow> f_le x x"
  by (simp add: f_le_def f_eq_def)

lemma f_le_raise: "sr_conf k \<noteq> NaN \<Longrightarrow> c \<noteq> NaN \<Longrightarrow> f_le (sr_conf k) (sr_conf (raise_conf r c k))
    \<and> (sr_range k = r \<longrightarrow> f_le c (sr_conf (raise_conf r c k)))
    \<and> (sr_conf (raise_conf r c k) = sr_conf k \<or> (sr_range k = r \<and> sr_conf (raise_conf r c k) = c))"
  using not_f_lt [of "sr_conf k" c] by (auto simp: raise_conf_def f_le_def f_eq_def)

lemma kept_ok_skip:
  "kept_ok raw confs max_page n kept \<Longrightarrow> clamped max_page (raw ! n) = None \<Longrightarrow> kept_ok raw confs max_page (Suc n) kept"
  unfolding kept_ok_def by (metis less_Suc_eq option.distinct(1))

lemma kept_ok_new:
  assumes "kept_ok raw confs max_page n kept" "clamped max_page (raw ! n) = Some r" "r \<notin> sr_range ` set kept"
    "conf_at confs n \<noteq> NaN"
  shows "kept_ok raw confs max_page (Suc n) (kept @ [\<lparr>sr_range = r, sr_conf = conf_at confs n, sr_order = n\<rparr>])"
proof -
  have "\<forall>k \<in> set kept. \<exists>i < Suc n. clamped max_page (raw ! i) = Some (sr_range k) \<and> sr_conf k = conf_at confs i"
    using assms(1) less_SucI unfolding kept_ok_def by blast
  moreover have "\<forall>i < n. \<forall>q. clamped max_page (raw ! i) = Some q \<longrightarrow> (\<exists>k \<in> set kept. sr_range k = q \<and> f_le (conf_at confs i) (sr_conf k))"
    using assms(1) unfolding kept_ok_def by blast
  moreover have "distinct (map sr_range kept)" using assms(1) unfolding kept_ok_def by blast
  ultimately show ?thesis
    using assms(2,3) f_le_refl [OF assms(4)] by (auto simp: kept_ok_def less_Suc_eq)
qed

lemma kept_ok_raise:
  assumes "kept_ok raw confs max_page n kept" "clamped max_page (raw ! n) = Some r" "r \<in> sr_range ` set kept"
    and nan: "\<And>i. conf_at confs i \<noteq> NaN"
  shows "kept_ok raw confs max_page (Suc n) (map (raise_conf r (conf_at confs n)) kept)"
proof -
  let ?f = "raise_conf r (conf_at confs n)"
  have src: "\<exists>i < n. clamped max_page (raw ! i) = Some (sr_range k) \<and> sr_conf k = conf_at confs i" if "k \<in> set kept" for k
    using kept_okD(2) [OF assms(1) that] .
  have nk: "sr_conf k \<noteq> NaN" if k: "k \<in> set kept" for k
  proof -
    obtain i where "sr_conf k = conf_at confs i" using src [OF k] by blast
    with nan [of i] show ?thesis by simp
  qed
  have raise: "f_le (sr_conf k) (sr_conf (?f k))" "sr_range k = r \<Longrightarrow> f_le (conf_at confs n) (sr_conf (?f k))"
    "sr_conf (?f k) = sr_conf k \<or> (sr_range k = r \<and> sr_conf (?f k) = conf_at confs n)" if "k \<in> set kept" for k
    using f_le_raise [OF nk [OF that] nan [of n], of r] by blast+
  have A: "\<exists>i < Suc n. clamped max_page (raw ! i) = Some (sr_range (?f k)) \<and> sr_conf (?f k) = conf_at confs i" if k: "k \<in> set kept" for k
  proof -
    consider "sr_conf (?f k) = sr_conf k" | "sr_range k = r" "sr_conf (?f k) = conf_at confs n"
      using raise(3) [OF k] by blast
    then show ?thesis
    proof cases
      case 1
      obtain i where "i < n" "clamped max_page (raw ! i) = Some (sr_range k)" "sr_conf k = conf_at confs i"
        using src [OF k] by blast
      with 1 show ?thesis by (metis less_SucI sr_range_raise)
    next
      case 2
      with assms(2) show ?thesis by (metis lessI sr_range_raise)
    qed
  qed
  have B: "\<exists>k \<in> set kept. sr_range k = q \<and> f_le (conf_at confs i) (sr_conf (?f k))"
    if i: "i < Suc n" "clamped max_page (raw ! i) = Some q" for i q
  proof (cases "i = n")
    case True
    with i(2) assms(2) have q: "q = r" by simp
    from assms(3) obtain k where k: "k \<in> set kept" "sr_range k = r" by (metis imageE)
    from raise(2) [OF k] k True q show ?thesis by (intro bexI [of _ k] conjI) simp_all
  next
    case False
    with i(1) have "i < n" by simp
    from kept_okD(3) [OF assms(1) this i(2)] obtain k
      where k: "k \<in> set kept" "sr_range k = q" "f_le (conf_at confs i) (sr_conf k)" by blast
    have "f_le (conf_at confs i) (sr_conf (?f k))" by (rule f_le_trans [OF k(3) raise(1) [OF k(1)]])
    with k show ?thesis by blast
  qed
  have D: "distinct (map sr_range (map ?f kept))"
    unfolding map_range_raise by (rule kept_okD(1) [OF assms(1)])
  show ?thesis
    unfolding kept_ok_def
  proof (intro conjI ballI allI impI)
    fix k' assume "k' \<in> set (map ?f kept)"
    then obtain k where "k \<in> set kept" "k' = ?f k" by auto
    with A [of k] show "\<exists>i < Suc n. clamped max_page (raw ! i) = Some (sr_range k') \<and> sr_conf k' = conf_at confs i"
      by simp
  next
    fix i q assume "i < Suc n" "clamped max_page (raw ! i) = Some q"
    from B [OF this] obtain k where "k \<in> set kept" "sr_range k = q" "f_le (conf_at confs i) (sr_conf (?f k))"
      by blast
    then show "\<exists>k \<in> set (map ?f kept). sr_range k = q \<and> f_le (conf_at confs i) (sr_conf k)"
      by (intro bexI [of _ "?f k"]) simp_all
  qed (fact D)
qed

lemma keep_ranges_ok:
  assumes "raw = pre @ rest" "kept_ok raw confs max_page (length pre) kept" "list_all (\<lambda>c. c \<noteq> NaN) confs"
  shows "kept_ok raw confs max_page (length raw) (keep_ranges rest (length pre) confs max_page kept)"
  using assms(1,2)
proof (induction rest arbitrary: pre kept)
  case Nil
  then show ?case by simp
next
  case (Cons rr rest)
  have here: "raw ! length pre = rr" using Cons.prems(1) by simp
  have next_pre: "raw = (pre @ [rr]) @ rest" using Cons.prems(1) by simp
  obtain s e ok where c: "clamp_range (fst rr) (snd rr) max_page = (s, e, ok)" by (metis prod_cases3)
  show ?case
  proof (cases ok)
    case False
    then have "clamped max_page (raw ! length pre) = None" by (simp add: here clamped_def c)
    from Cons.IH [OF next_pre] kept_ok_skip [OF Cons.prems(2) this] show ?thesis using c False by simp
  next
    case True
    then have cl: "clamped max_page (raw ! length pre) = Some (s, e)" by (simp add: here clamped_def c)
    let ?kept = "if (s, e) \<in> sr_range ` set kept then map (raise_conf (s, e) (conf_at confs (length pre))) kept
        else kept @ [\<lparr>sr_range = (s, e), sr_conf = conf_at confs (length pre), sr_order = length pre\<rparr>]"
    have "kept_ok raw confs max_page (Suc (length pre)) ?kept"
      using kept_ok_new [OF Cons.prems(2) cl] kept_ok_raise [OF Cons.prems(2) cl] conf_at_not_NaN [OF assms(3)] by simp
    with Cons.IH [OF next_pre, of ?kept]
    have "kept_ok raw confs max_page (length raw) (keep_ranges rest (Suc (length pre)) confs max_page ?kept)" by simp
    then show ?thesis
      using True unfolding keep_ranges.simps c prod.case conf_at_def [symmetric] Let_def by simp
  qed
qed

lemma keep_ranges_all:
  "list_all (\<lambda>c. c \<noteq> NaN) confs \<Longrightarrow> kept_ok raw confs max_page (length raw) (keep_ranges raw 0 confs max_page [])"
  using keep_ranges_ok [of raw "[]" raw confs max_page "[]"] by (simp add: kept_ok_def)


subsection \<open>The cap\<close>

lemma better_range_iff:
  assumes "sr_conf x \<noteq> NaN" "sr_conf y \<noteq> NaN"
  shows "better_range x y \<longleftrightarrow> f_lt (sr_conf y) (sr_conf x) \<or> (sr_conf x = sr_conf y \<and> sr_order x < sr_order y)"
  using assms by (auto simp: better_range_def f_eq_def)

lemma not_better_range_iff:
  assumes "sr_conf x \<noteq> NaN" "sr_conf y \<noteq> NaN"
  shows "\<not> better_range x y \<longleftrightarrow> f_lt (sr_conf x) (sr_conf y) \<or> (sr_conf x = sr_conf y \<and> sr_order y \<le> sr_order x)"
  using f_lt_total [OF assms] f_lt_asym [of "sr_conf x" "sr_conf y"] f_lt_irrefl
  unfolding better_range_iff [OF assms] by (metis not_less)

lemma better_range_weak:
  assumes "\<forall>k \<in> S. sr_conf k \<noteq> NaN"
  shows "weak_order_on S better_range"
  unfolding weak_order_on_def
proof (intro conjI ballI impI)
  fix x y assume xy: "x \<in> S" "y \<in> S" "better_range x y"
  have nn: "sr_conf x \<noteq> NaN" "sr_conf y \<noteq> NaN" using assms xy by blast+
  show "\<not> better_range y x"
    using xy(3) unfolding better_range_iff [OF nn] not_better_range_iff [OF nn(2,1)] by (metis less_imp_le)
next
  fix x y z assume xyz: "x \<in> S" "y \<in> S" "z \<in> S" "\<not> better_range y x" "\<not> better_range z y"
  have nn: "sr_conf x \<noteq> NaN" "sr_conf y \<noteq> NaN" "sr_conf z \<noteq> NaN" using assms xyz by blast+
  show "\<not> better_range z x"
    using xyz(4,5) unfolding not_better_range_iff [OF nn(2,1)] not_better_range_iff [OF nn(3,2)]
      not_better_range_iff [OF nn(3,1)] by (metis f_lt_trans order_trans)
qed

lemma not_better_le: "sr_conf x \<noteq> NaN \<Longrightarrow> sr_conf y \<noteq> NaN \<Longrightarrow> \<not> better_range y x \<Longrightarrow> f_le (sr_conf y) (sr_conf x)"
  unfolding not_better_range_iff by (auto simp: f_le_def f_eq_def)

lemma set_cap_ranges: "set (cap_ranges c kept) \<subseteq> set kept"
  by (auto simp: cap_ranges_def dest: in_set_takeD)

lemma length_cap_ranges: "0 < c \<Longrightarrow> int (length (cap_ranges c kept)) \<le> c"
  by (auto simp: cap_ranges_def)

lemma distinct_cap_ranges: "distinct (map sr_range kept) \<Longrightarrow> distinct (map sr_range (cap_ranges c kept))"
  by (simp add: cap_ranges_def distinct_take flip: take_map)

lemma cap_keeps_best:
  assumes "\<forall>k \<in> set kept. sr_conf k \<noteq> NaN" "x \<in> set (cap_ranges c kept)" "y \<in> set kept" "y \<notin> set (cap_ranges c kept)"
  shows "f_le (sr_conf y) (sr_conf x)"
proof -
  let ?s = "stable_sort better_range kept"
  from assms(3,4) have cap: "cap_ranges c kept = take (nat c) ?s"
    by (auto simp: cap_ranges_def split: if_splits)
  have "sorted_wrt (\<lambda>a b. \<not> better_range b a) ?s"
    using assms(1) by (intro stable_sort_sorted better_range_weak)
  then have "\<forall>a \<in> set (take (nat c) ?s). \<forall>b \<in> set (drop (nat c) ?s). \<not> better_range b a"
    by (metis append_take_drop_id sorted_wrt_append)
  moreover have "y \<in> set (drop (nat c) ?s)"
    using assms(3,4) cap by (metis Un_iff append_take_drop_id set_append set_stable_sort)
  ultimately have "\<not> better_range y x" using assms(2) cap by simp
  moreover have "x \<in> set kept" using assms(2) set_cap_ranges by blast
  ultimately show ?thesis using assms(1,3) by (intro not_better_le) auto
qed

subsection \<open>Page order\<close>

lemma page_less_weak: "weak_order_on S page_less"
  by (auto simp: weak_order_on_def page_less_def split: if_splits)

lemma page_less_total: "p \<noteq> q \<Longrightarrow> page_less p q \<or> page_less q p"
  by (cases p; cases q) (auto simp: page_less_def)

lemma sorted_pages:
  assumes "distinct xs"
  shows "sorted_wrt page_less (stable_sort page_less xs)"
proof -
  have "distinct (stable_sort page_less xs)"
    using assms distinct_map_stable_sort [of id page_less xs] by simp
  then have ne: "stable_sort page_less xs ! i \<noteq> stable_sort page_less xs ! j" if "i < j" "j < length xs" for i j
    using that by (simp add: nth_eq_iff_index_eq)
  have "sorted_wrt (\<lambda>a b. \<not> page_less b a) (stable_sort page_less xs)"
    by (intro stable_sort_sorted page_less_weak)
  then have nb: "\<not> page_less (stable_sort page_less xs ! j) (stable_sort page_less xs ! i)" if "i < j" "j < length xs" for i j
    using that by (simp add: sorted_wrt_iff_nth_less)
  show ?thesis
    unfolding sorted_wrt_iff_nth_less length_stable_sort using ne nb page_less_total by blast
qed

lemma select_cited_ranges_eq:
  "select_cited_ranges raw confs max_page c =
     stable_sort page_less (map sr_range (cap_ranges c (keep_ranges raw 0 confs max_page [])))"
  by (auto simp: select_cited_ranges_def Let_def cap_ranges_def stable_sort_def)

text \<open>Without any condition on the confidences: the shape of what is kept.\<close>

definition range_in :: "int \<Rightarrow> page_range \<Rightarrow> bool" where
  "range_in max_page r \<longleftrightarrow> 0 < fst r \<and> fst r \<le> snd r \<and> (0 < max_page \<longrightarrow> snd r \<le> max_page)"

lemma keep_ranges_shape:
  "distinct (map sr_range kept) \<Longrightarrow> \<forall>k \<in> set kept. range_in max_page (sr_range k) \<Longrightarrow>
   distinct (map sr_range (keep_ranges raw i confs max_page kept))
     \<and> (\<forall>k \<in> set (keep_ranges raw i confs max_page kept). range_in max_page (sr_range k))"
proof (induction raw arbitrary: i kept)
  case (Cons rr raw)
  obtain s e ok where c: "clamp_range (fst rr) (snd rr) max_page = (s, e, ok)" by (metis prod_cases3)
  show ?case
  proof (cases ok)
    case False
    with Cons c show ?thesis by simp
  next
    case True
    with c clamp_range_ok [of "fst rr" "snd rr" max_page s e] have r: "range_in max_page (s, e)" by (simp add: range_in_def)
    define conf where "conf = (if i < length confs then clamp_confidence (confs ! i) else Fin 0)"
    define kept1 where "kept1 = (if (s, e) \<in> sr_range ` set kept then map (raise_conf (s, e) conf) kept
        else kept @ [\<lparr>sr_range = (s, e), sr_conf = conf, sr_order = i\<rparr>])"
    have "distinct (map sr_range kept1)" "\<forall>k \<in> set kept1. range_in max_page (sr_range k)"
      using Cons.prems r by (auto simp: kept1_def comp_def)
    from Cons.IH [OF this, of "Suc i"] show ?thesis
      using True unfolding keep_ranges.simps c prod.case Let_def conf_def [symmetric] kept1_def [symmetric] by simp
  qed
qed simp

lemma select_cited_ranges_shape:
  "distinct (select_cited_ranges raw confs max_page c)"
  "r \<in> set (select_cited_ranges raw confs max_page c) \<Longrightarrow> range_in max_page r"
  "0 < c \<Longrightarrow> int (length (select_cited_ranges raw confs max_page c)) \<le> c"
proof -
  let ?kept = "keep_ranges raw 0 confs max_page []"
  have k: "distinct (map sr_range ?kept)" "\<forall>k \<in> set ?kept. range_in max_page (sr_range k)"
    using keep_ranges_shape [of "[]" max_page raw 0 confs] by simp_all
  from distinct_cap_ranges [OF k(1), of c] show "distinct (select_cited_ranges raw confs max_page c)"
    using distinct_map_stable_sort [of id page_less "map sr_range (cap_ranges c ?kept)"]
    by (simp add: select_cited_ranges_eq)
  show "range_in max_page r" if "r \<in> set (select_cited_ranges raw confs max_page c)"
    using that k(2) set_cap_ranges [of c ?kept] by (auto simp: select_cited_ranges_eq)
  show "int (length (select_cited_ranges raw confs max_page c)) \<le> c" if "0 < c"
    using length_cap_ranges [OF that] by (simp add: select_cited_ranges_eq)
qed

subsection \<open>Sections under a range\<close>

lemma flatten_by_page_set: "set (flatten_sections_by_page t)
    = entry_of ` {s \<in> set (tree_sections t). 0 < page_start (data s) \<and> 0 < page_end (data s)}"
proof -
  have "fold (\<lambda>s out. if page_start (data s) \<le> 0 \<or> page_end (data s) \<le> 0 then out else out @ [entry_of s]) xs out
      = out @ map entry_of (filter (\<lambda>s. 0 < page_start (data s) \<and> 0 < page_end (data s)) xs)" for xs out
    by (induction xs arbitrary: out) auto
  then show ?thesis
    by (auto simp: flatten_sections_by_page_def walk_root_all)
qed

lemma flatten_by_page_sorted:
  "sorted_wrt (\<lambda>a b. \<not> page_less (pe_start b, pe_end b) (pe_start a, pe_end a)) (flatten_sections_by_page t)"
  unfolding flatten_sections_by_page_def
  by (rule stable_sort_sorted) (auto simp: weak_order_on_def page_less_def split: if_splits)

lemma sections_overlapping_eq:
  "sections_overlapping sections ranges = dedup_by id [] (map pe_id
     (filter (\<lambda>sec. \<exists>r \<in> set ranges. overlaps (pe_start sec) (pe_end sec) (fst r) (snd r)) sections))"
  by (auto simp: sections_overlapping_def)

lemma sections_overlapping_set: "set (sections_overlapping sections ranges)
    = pe_id ` {sec \<in> set sections. \<exists>r \<in> set ranges. overlaps (pe_start sec) (pe_end sec) (fst r) (snd r)}"
  by (simp add: sections_overlapping_eq seen_simps)

lemma sections_overlapping_distinct: "distinct (sections_overlapping sections ranges)"
  by (simp add: sections_overlapping_eq seen_simps)

lemma section_ids_overlapping_eq:
  "section_ids_overlapping t a b = sections_overlapping (flatten_sections_by_page t) [(a, b)]"
proof (cases "tree_root t")
  case None
  then have "flatten_sections_by_page t = []"
    by (simp add: flatten_sections_by_page_def walk_root_def stable_sort_def)
  with None show ?thesis by (simp add: section_ids_overlapping_def sections_overlapping_def)
qed (simp add: section_ids_overlapping_def)

lemma sections_overlapping_union: "set (sections_overlapping (flatten_sections_by_page t) ranges)
    = (\<Union>r \<in> set ranges. set (section_ids_overlapping t (fst r) (snd r)))"
  unfolding section_ids_overlapping_eq sections_overlapping_set by auto

subsection \<open>Properties\<close>

text \<open>
  C8. The cited ranges of a finished run are distinct, in page order, non-empty page ranges inside the
  document, and at most as many as the cap allows. Every one of them comes from a range the model
  cited, and a cited range that was cut had a confidence no greater than that of any range kept.
  (No confidence is NaN.)
\<close>
lemma select_cited_ranges_best:
  assumes "list_all (\<lambda>c. c \<noteq> NaN) confs"
  shows "distinct (select_cited_ranges raw confs max_page cap)
    \<and> sorted_wrt page_less (select_cited_ranges raw confs max_page cap)
    \<and> (0 < cap \<longrightarrow> int (length (select_cited_ranges raw confs max_page cap)) \<le> cap)
    \<and> (\<forall>(s, e) \<in> set (select_cited_ranges raw confs max_page cap). 0 < s \<and> s \<le> e \<and> (0 < max_page \<longrightarrow> e \<le> max_page))
    \<and> (\<forall>r \<in> set (select_cited_ranges raw confs max_page cap). \<exists>i < length raw.
         clamped max_page (raw ! i) = Some r
         \<and> (\<forall>j < length raw. \<forall>q. clamped max_page (raw ! j) = Some q
              \<and> q \<notin> set (select_cited_ranges raw confs max_page cap) \<longrightarrow> f_le (conf_at confs j) (conf_at confs i)))"
proof -
  let ?kept = "keep_ranges raw 0 confs max_page []"
  let ?cap = "cap_ranges cap ?kept"
  let ?out = "select_cited_ranges raw confs max_page cap"
  note ok = keep_ranges_all [OF assms, of raw max_page]
  note eq = select_cited_ranges_eq [of raw confs max_page cap]
  have out: "set ?out = sr_range ` set ?cap" by (simp add: eq)
  have dist: "distinct (map sr_range ?cap)" using kept_okD(1) [OF ok] by (rule distinct_cap_ranges)
  then have 1: "distinct ?out" using distinct_map_stable_sort [of id page_less "map sr_range ?cap"] by (simp add: eq)
  have 2: "sorted_wrt page_less ?out" using dist by (simp add: eq sorted_pages)
  have 3: "0 < cap \<longrightarrow> int (length ?out) \<le> cap" using length_cap_ranges [of cap ?kept] by (simp add: eq)
  have nn: "\<forall>k \<in> set ?kept. sr_conf k \<noteq> NaN"
    using kept_okD(2) [OF ok] conf_at_not_NaN [OF assms] by metis
  have src: "\<exists>k i. k \<in> set ?cap \<and> i < length raw \<and> clamped max_page (raw ! i) = Some r \<and> sr_conf k = conf_at confs i"
    if r: "r \<in> set ?out" for r
  proof -
    from r obtain k where k: "k \<in> set ?cap" "r = sr_range k" unfolding out by blast
    then have "k \<in> set ?kept" using set_cap_ranges by blast
    from kept_okD(2) [OF ok this] k show ?thesis by blast
  qed
  have best: "f_le (conf_at confs j) (sr_conf k)"
    if "k \<in> set ?cap" "j < length raw" "clamped max_page (raw ! j) = Some q" "q \<notin> set ?out" for k j q
  proof -
    from kept_okD(3) [OF ok that(2,3)] obtain m where m: "m \<in> set ?kept" "sr_range m = q"
      "f_le (conf_at confs j) (sr_conf m)" by blast
    have "m \<notin> set ?cap" using m(2) that(4) unfolding out by blast
    from cap_keeps_best [OF nn that(1) m(1) this] m(3) show ?thesis using f_le_trans by blast
  qed
  have 4: "\<forall>(s, e) \<in> set ?out. 0 < s \<and> s \<le> e \<and> (0 < max_page \<longrightarrow> e \<le> max_page)"
    using src clamped_ok by blast
  have 5: "\<forall>r \<in> set ?out. \<exists>i < length raw. clamped max_page (raw ! i) = Some r
      \<and> (\<forall>j < length raw. \<forall>q. clamped max_page (raw ! j) = Some q \<and> q \<notin> set ?out \<longrightarrow> f_le (conf_at confs j) (conf_at confs i))"
  proof
    fix r assume "r \<in> set ?out"
    from src [OF this] obtain k i where "k \<in> set ?cap" "i < length raw" "clamped max_page (raw ! i) = Some r"
      "sr_conf k = conf_at confs i" by blast
    then show "\<exists>i < length raw. clamped max_page (raw ! i) = Some r \<and> (\<forall>j < length raw. \<forall>q.
        clamped max_page (raw ! j) = Some q \<and> q \<notin> set ?out \<longrightarrow> f_le (conf_at confs j) (conf_at confs i))"
      using best by (intro exI [of _ i]) metis
  qed
  from 1 2 3 4 5 show ?thesis by blast
qed

lemma select_cited_ranges_best_witness:
  "int (length (select_cited_ranges [(3, 5), (9, 8), (3, 5), (40, 41)] [Fin (1/2), Fin 1] 20 1)) \<le> 1"
  using select_cited_ranges_best [of "[Fin (1/2), Fin 1]" "[(3, 5), (9, 8), (3, 5), (40, 41)]" 20 1] by simp

text \<open>
  The sections a page range resolves to are exactly the sections with a page range of their own
  that shares a page with it, each once.
\<close>
lemma section_ids_overlapping_exact:
  "distinct (section_ids_overlapping t a b)
   \<and> set (section_ids_overlapping t a b) = sec_id ` {s \<in> set (tree_sections t).
        0 < page_start (data s) \<and> 0 < page_end (data s) \<and> 0 < a \<and> 0 < b \<and> page_start (data s) \<le> b \<and> a \<le> page_end (data s)}"
proof -
  have eq: "section_ids_overlapping t a b = sections_overlapping (flatten_sections_by_page t) [(a, b)]"
    by (rule section_ids_overlapping_eq)
  have img: "pe_id ` {sec \<in> entry_of ` A. P (pe_start sec) (pe_end sec)}
      = sec_id ` {s \<in> A. P (page_start (data s)) (page_end (data s))}" for A P
    by (auto simp: entry_of_def intro!: rev_image_eqI)
  show ?thesis
    unfolding eq sections_overlapping_set flatten_by_page_set img [of _ "\<lambda>s e. \<exists>r \<in> set [(a, b)]. overlaps s e (fst r) (snd r)"]
    by (auto simp: sections_overlapping_distinct overlaps_def)
qed


lemma itoa_pos: "0 < n \<Longrightarrow> itoa n = digits_of (nat n)"
  by (simp add: itoa_def)

lemma hd_digits: "\<exists>c cs. digits_of n = c # cs \<and> is_ascii_digit c"
  using digits_of_digits [of n] digits_of_ne [of n] by (cases "digits_of n") auto

lemma digit_not_sign: "is_ascii_digit c \<Longrightarrow> c \<noteq> CHR ''-'' \<and> c \<noteq> CHR ''+'' \<and> c \<noteq> CHR '',''"
  by (auto simp: is_ascii_digit_def)

lemma atoi_digits:
  assumes "int n \<le> max_int64"
  shows "atoi (digits_of n) = Some (int n)"
proof -
  obtain c cs where d: "digits_of n = c # cs" "is_ascii_digit c" using hd_digits by blast
  have "list_all is_ascii_digit (c # cs)" using digits_of_digits [of n] d by (simp add: list_all_iff)
  moreover have "dec_val (c # cs) = int n" using dec_val_digits_of [of n] d by simp
  moreover have "- (2 ^ 63) \<le> int n" by (rule order_trans [of _ 0]) simp_all
  ultimately show ?thesis
    using digit_not_sign [OF d(2)] assms by (simp add: atoi_def d)
qed

lemma takeWhile_digits: "is_sep = (\<lambda>c. c = CHR ''-'' \<or> c = CHR '','') \<Longrightarrow>
    takeWhile (\<lambda>c. \<not> is_sep c) (digits_of n @ r) = digits_of n @ takeWhile (\<lambda>c. \<not> is_sep c) r"
  using digits_of_digits [of n] digit_not_sign by (intro takeWhile_append2) auto

text \<open>
  A page range as it is written in replay tokens and prompts is read back as the same range.
\<close>
lemma parse_range_string_roundtrip:
  assumes "0 < a" "a \<le> max_int64" "0 < b" "b \<le> max_int64"
  shows "parse_page_range_string (range_string (a, b)) = Some (a, b)"
proof -
  have num: "atoi (digits_of (nat a)) = Some a" "atoi (digits_of (nat b)) = Some b"
    using atoi_digits [of "nat a"] atoi_digits [of "nat b"] assms by simp_all
  let ?sep = "\<lambda>c. c = CHR ''-'' \<or> c = CHR '',''"
  have tw: "takeWhile (\<lambda>c. c \<noteq> CHR ''-'' \<and> c \<noteq> CHR '','') (digits_of n @ r)
      = digits_of n @ takeWhile (\<lambda>c. c \<noteq> CHR ''-'' \<and> c \<noteq> CHR '','') r" for n r
    using takeWhile_digits [of ?sep n r] by simp
  show ?thesis
  proof (cases "a = b")
    case True
    have "takeWhile (\<lambda>c. c \<noteq> CHR ''-'' \<and> c \<noteq> CHR '','') (digits_of (nat a)) = digits_of (nat a)"
      using tw [of "nat a" "[]"] by (simp del: takeWhile_eq_all_conv)
    with True show ?thesis
      using num assms
      by (simp add: parse_page_range_string_def range_string_def itoa_pos Let_def del: takeWhile_eq_all_conv)
  next
    case False
    let ?s = "digits_of (nat a) @ ''-'' @ digits_of (nat b)"
    have "trim_space ?s = ?s"
      using digits_of_digits [of "nat a"] digits_of_digits [of "nat b"]
      by (intro trim_space_visible_ends) (auto intro: visible_digit)
    moreover have "takeWhile (\<lambda>c. c \<noteq> CHR ''-'' \<and> c \<noteq> CHR '','') ?s = digits_of (nat a)"
      using tw [of "nat a" "''-'' @ digits_of (nat b)"] by simp
    ultimately show ?thesis
      using num assms False
      by (simp add: parse_page_range_string_def range_string_def itoa_pos Let_def)
  qed
qed

lemma parse_range_string_roundtrip_witness: "parse_page_range_string (range_string (12, 15)) = Some (12, 15)"
  using parse_range_string_roundtrip [of 12 15] by (simp add: max_int64_def)

end
