(* ===== verification/Tree_Walk.thy ===== *)
theory Tree_Walk
  imports Page_Ranges
begin

text \<open>
  The page-navigation loop of \<open>pkg/retrieval/treewalk_strategy.go\<close> (\<open>TreeWalkStrategy\<close>): a bounded
  conversation in which the model asks for the contents or for pages until it answers, with one forced
  answer at the end.

  What the loop calls but does not own are fields of an environment: the model, the page loader and
  the contents provider (each takes the state of the outside world and returns it changed), the
  decoding of a reply into an action (JSON), the JSON of a contents tree, \<open>strconv.Quote\<close> and SHA-256.
  Messages are kept as what they are made from; the prompt texts are constants.
\<close>

subsection \<open>Data\<close>

record tree_walk_action =
  act_tool :: string
  act_start :: int
  act_end :: int
  act_answer :: string
  act_cited :: "(int \<times> int) list"
  act_cited_confidences :: "f64 list"
  act_confidence :: f64
  act_reasoning :: string

datatype tw_message =
    System_Prompt
  | Initial_Prompt string int string
  | Assistant string
  | Parse_Retry
  | Tool_Result string string
  | Budget_Used

record llm_response =
  resp_content :: string
  resp_usage :: usage

record 'w tw_env =
  llm_complete :: "string \<Rightarrow> tw_message list \<Rightarrow> 'w \<Rightarrow> (string + llm_response) \<times> 'w"
  page_loader :: "(string \<Rightarrow> 'w \<Rightarrow> (string + string) \<times> 'w) option"
  toc_provider :: "(document_id \<Rightarrow> 'w \<Rightarrow> (string + string) \<times> 'w) option"
  parse_action :: "string \<Rightarrow> tree_walk_action option"
  marshal_toc :: "toc_view list \<Rightarrow> string"
  quote :: "string \<Rightarrow> string"
  sha_hex :: "string \<Rightarrow> string"

record tw_config =
  cfg_max_hops :: int
  cfg_page_limit :: int
  cfg_max_citations :: int
  cfg_model_override :: string

record tw_event =
  te_hop :: int
  te_type :: string
  te_reasoning :: string
  te_start_page :: int
  te_end_page :: int
  te_chars :: int
  te_sections :: "section_id list"
  te_answer :: string
  te_cited :: "(int \<times> int) list"
  te_confidence :: f64
  te_note :: string

definition blank_event :: tw_event where
  "blank_event = \<lparr>te_hop = 0, te_type = [], te_reasoning = [], te_start_page = 0, te_end_page = 0,
     te_chars = 0, te_sections = [], te_answer = [], te_cited = [], te_confidence = Fin 0, te_note = []\<rparr>"

record 'w tw_state =
  ws_world :: 'w
  ws_msgs :: "tw_message list"
  ws_usage :: usage
  ws_hops :: int
  ws_reads :: "page_read list"
  ws_events :: "tw_event list"

definition emit :: "tw_event \<Rightarrow> 'w tw_state \<Rightarrow> 'w tw_state" where
  "emit ev st = st\<lparr>ws_events := ws_events st @ [ev]\<rparr>"

definition say :: "tw_message \<Rightarrow> 'w tw_state \<Rightarrow> 'w tw_state" where
  "say m st = st\<lparr>ws_msgs := ws_msgs st @ [m]\<rparr>"

subsection \<open>Observations\<close>

definition page_header :: "(string \<Rightarrow> string) \<Rightarrow> page_entry \<Rightarrow> string" where
  "page_header qt sec = [CHR 0x0A] @ ''--- section_id='' @ pe_id sec @ '' title='' @ qt (pe_title sec)
     @ '' pages='' @ itoa (pe_start sec) @ ''-'' @ itoa (pe_end sec) @ '' ---'' @ [CHR 0x0A]"

definition load_section_body ::
    "(string \<Rightarrow> 'w \<Rightarrow> (string + string) \<times> 'w) \<Rightarrow> page_entry \<Rightarrow> 'w \<Rightarrow> string \<times> 'w" where
  "load_section_body load sec w =
     (if pe_ref sec = []
      then (if pe_summary sec \<noteq> [] then ''(summary, no content loaded)'' @ [CHR 0x0A] @ pe_summary sec else [], w)
      else case load (pe_ref sec) w of
             (Inl err, w') \<Rightarrow>
               (if pe_summary sec \<noteq> []
                then ''(content load failed: '' @ err @ ''; using summary)'' @ [CHR 0x0A] @ pe_summary sec
                else ''(content load failed: '' @ err @ '')'', w')
           | (Inr bytes, w') \<Rightarrow> (trim_space bytes, w'))"

text \<open>The loop over the sections: the text so far, the sections met, the bytes written, the world.\<close>

fun render_pages_from ::
    "(string \<Rightarrow> string) \<Rightarrow> (string \<Rightarrow> 'w \<Rightarrow> (string + string) \<times> 'w) \<Rightarrow> int \<Rightarrow> int \<Rightarrow> int \<Rightarrow> page_entry list \<Rightarrow>
     string \<Rightarrow> section_id list \<Rightarrow> int \<Rightarrow> 'w \<Rightarrow> (string \<times> section_id list) \<times> 'w" where
  "render_pages_from qt load s e limit [] b ids written w = ((b, ids), w)"
| "render_pages_from qt load s e limit (sec # secs) b ids written w =
     (if \<not> overlaps (pe_start sec) (pe_end sec) s e then render_pages_from qt load s e limit secs b ids written w
      else let ids = ids @ [pe_id sec];
               header = page_header qt sec;
               remaining = limit - written
           in if remaining \<le> 0 then ((b, ids), w)
              else if int (length header) > remaining then ((b @ take (nat remaining) header, ids), w)
              else let b = b @ header;
                       written = written + int (length header);
                       (body, w) = load_section_body load sec w;
                       remaining = limit - written
                   in if remaining \<le> 0 then ((b, ids), w)
                      else if int (length body) > remaining then ((b @ take (nat remaining) body, ids), w)
                      else render_pages_from qt load s e limit secs (b @ body) ids (written + int (length body)) w)"

definition no_loader_line :: "(string \<Rightarrow> string) \<Rightarrow> page_entry \<Rightarrow> string" where
  "no_loader_line qt sec = ''section_id='' @ pe_id sec @ '' title='' @ qt (pe_title sec) @ '' pages=''
     @ itoa (pe_start sec) @ ''-'' @ itoa (pe_end sec) @ '' summary='' @ qt (pe_summary sec) @ [CHR 0x0A]"

fun no_loader_from ::
    "(string \<Rightarrow> string) \<Rightarrow> int \<Rightarrow> int \<Rightarrow> int \<Rightarrow> page_entry list \<Rightarrow> string \<Rightarrow> section_id list \<Rightarrow> string \<times> section_id list" where
  "no_loader_from qt s e limit [] b ids = (b, ids)"
| "no_loader_from qt s e limit (sec # secs) b ids =
     (if \<not> overlaps (pe_start sec) (pe_end sec) s e then no_loader_from qt s e limit secs b ids
      else let b = b @ no_loader_line qt sec; ids = ids @ [pe_id sec]
           in if int (length b) \<ge> limit then (b, ids) else no_loader_from qt s e limit secs b ids)"

definition render_pages_no_loader :: "(string \<Rightarrow> string) \<Rightarrow> page_entry list \<Rightarrow> int \<Rightarrow> int \<Rightarrow> int \<Rightarrow> string \<times> section_id list" where
  "render_pages_no_loader qt sections s e limit =
     (case no_loader_from qt s e limit sections [] [] of
        (out, ids) \<Rightarrow> (if int (length out) > limit then take (nat limit) out else out, ids))"

definition render_pages ::
    "'w tw_env \<Rightarrow> page_entry list \<Rightarrow> int \<Rightarrow> int \<Rightarrow> int \<Rightarrow> 'w \<Rightarrow> (string \<times> section_id list) \<times> 'w" where
  "render_pages env sections s e limit w =
     (case page_loader env of
        None \<Rightarrow> (render_pages_no_loader (quote env) sections s e limit, w)
      | Some load \<Rightarrow> render_pages_from (quote env) load s e limit sections [] [] 0 w)"

definition synthesise_toc :: "'w tw_env \<Rightarrow> tree \<Rightarrow> string" where
  "synthesise_toc env t =
     (if tree_root t = None then ''[]'' else marshal_toc env (convert_section_to_toc (tree_root t)))"

definition render_structure :: "'w tw_env \<Rightarrow> tree \<Rightarrow> 'w \<Rightarrow> string \<times> 'w" where
  "render_structure env t w =
     (case toc_provider env of
        None \<Rightarrow> (synthesise_toc env t, w)
      | Some get \<Rightarrow>
          (case get (doc_id t) w of
             (Inr raw, w') \<Rightarrow> (if raw \<noteq> [] then raw else synthesise_toc env t, w')
           | (Inl err, w') \<Rightarrow> (synthesise_toc env t, w')))"

subsection \<open>The loop\<close>

definition call_usage :: "llm_response \<Rightarrow> usage" where
  "call_usage resp = (resp_usage resp)\<lparr>llm_calls := 1\<rparr>"

text \<open>What one run fixes: the tree, its sections by page, and the resolved limits.\<close>

record tw_run =
  run_tree :: tree
  run_model :: string
  run_sections :: "page_entry list"
  run_max_page :: int
  run_page_limit :: int
  run_max_citations :: int

datatype 'w tw_outcome =
    Failed string "'w tw_state"
  | Finished result "'w tw_state"
  | Going "'w tw_state"

definition finish ::
    "'w tw_env \<Rightarrow> tw_run \<Rightarrow> string \<Rightarrow> page_range list \<Rightarrow> f64 \<Rightarrow> 'w tw_state \<Rightarrow> result" where
  "finish env run answer cited confidence st =
     (let selected = sections_overlapping (run_sections run) cited
      in empty_result\<lparr>selected_ids := selected,
           confidences := confidence_map selected confidence,
           res_confidence := confidence,
           cited_pages := ranges_to_pairs cited,
           reasoning := answer,
           model_used := run_model run,
           res_usage := ws_usage st,
           hops_taken := ws_hops st,
           pages_read := ws_reads st,
           trace_token := tree_walk_trace_token (sha_hex env) (doc_id (run_tree run)) (run_model run) cited\<rparr>)"

definition do_done :: "'w tw_env \<Rightarrow> tw_run \<Rightarrow> tree_walk_action \<Rightarrow> 'w tw_state \<Rightarrow> 'w tw_outcome" where
  "do_done env run act st =
     (let answer = trim_space (act_answer act);
          why = trim_space (act_reasoning act);
          cited = select_cited_ranges (act_cited act) (act_cited_confidences act) (run_max_page run) (run_max_citations run);
          confidence = clamp_confidence (act_confidence act)
      in Finished (finish env run answer cited confidence st)
           (emit (blank_event\<lparr>te_hop := ws_hops st, te_type := ''done'', te_reasoning := why,
              te_answer := answer, te_cited := ranges_to_pairs cited, te_confidence := confidence\<rparr>) st))"

definition do_structure :: "'w tw_env \<Rightarrow> tw_run \<Rightarrow> tree_walk_action \<Rightarrow> 'w tw_state \<Rightarrow> 'w tw_state" where
  "do_structure env run act st =
     (case render_structure env (run_tree run) (ws_world st) of
        (obs, w) \<Rightarrow>
          emit (blank_event\<lparr>te_hop := ws_hops st, te_type := ''get_document_structure'',
              te_reasoning := act_reasoning act, te_chars := int (length obs)\<rparr>)
            (say (Tool_Result ''get_document_structure'' obs) (st\<lparr>ws_world := w\<rparr>)))"

definition invalid_range_text :: "tree_walk_action \<Rightarrow> int \<Rightarrow> string" where
  "invalid_range_text act max_page = ''invalid range start='' @ itoa (act_start act) @ '' end='' @ itoa (act_end act)
     @ '' (document has '' @ itoa max_page @ '' pages). Pages are 1-indexed inclusive.''"

definition pages_text :: "int \<Rightarrow> int \<Rightarrow> section_id list \<Rightarrow> string \<Rightarrow> string" where
  "pages_text s e ids txt = ''pages '' @ itoa s @ ''-'' @ itoa e @ '' ('' @ itoa (int (length ids)) @ '' sections, ''
     @ itoa (int (length txt)) @ '' chars):'' @ [CHR 0x0A] @ txt"

definition do_get_pages :: "'w tw_env \<Rightarrow> tw_run \<Rightarrow> tree_walk_action \<Rightarrow> 'w tw_state \<Rightarrow> 'w tw_state" where
  "do_get_pages env run act st =
     (case clamp_range (act_start act) (act_end act) (run_max_page run) of
        (s, e, ok) \<Rightarrow>
          if \<not> ok
          then emit (blank_event\<lparr>te_hop := ws_hops st, te_type := ''get_pages'', te_reasoning := act_reasoning act,
                   te_start_page := act_start act, te_end_page := act_end act, te_note := ''invalid range''\<rparr>)
                 (say (Tool_Result ''get_pages'' (invalid_range_text act (run_max_page run))) st)
          else case render_pages env (run_sections run) s e (run_page_limit run) (ws_world st) of
                 ((txt, ids), w) \<Rightarrow>
                   emit (blank_event\<lparr>te_hop := ws_hops st, te_type := ''get_pages'', te_reasoning := act_reasoning act,
                       te_start_page := s, te_end_page := e, te_chars := int (length txt), te_sections := ids\<rparr>)
                     (say (Tool_Result ''get_pages'' (pages_text s e ids txt))
                       (st\<lparr>ws_world := w,
                           ws_reads := ws_reads st @ [\<lparr>pr_start = s, pr_end = e, pr_sections = ids,
                             pr_chars = int (length txt)\<rparr>]\<rparr>)))"

definition do_unsupported :: "'w tw_env \<Rightarrow> tree_walk_action \<Rightarrow> 'w tw_state \<Rightarrow> 'w tw_state" where
  "do_unsupported env act st =
     emit (blank_event\<lparr>te_hop := ws_hops st, te_type := act_tool act, te_note := ''unsupported tool''\<rparr>)
       (say (Tool_Result (act_tool act) (''unsupported tool '' @ quote env (act_tool act)
          @ ''. Use one of: get_document_structure, get_pages, done.'')) st)"

text \<open>One turn: ask the model, record its reply, and dispatch on the action it holds.\<close>

definition tw_turn :: "'w tw_env \<Rightarrow> tw_run \<Rightarrow> int \<Rightarrow> 'w tw_state \<Rightarrow> 'w tw_outcome" where
  "tw_turn env run hop st =
     (case llm_complete env (run_model run) (ws_msgs st) (ws_world st) of
        (Inl err, w) \<Rightarrow> Failed (''treewalk hop '' @ itoa (hop + 1) @ '': '' @ err) (st\<lparr>ws_world := w\<rparr>)
      | (Inr resp, w) \<Rightarrow>
          let st = say (Assistant (resp_content resp))
                (st\<lparr>ws_world := w, ws_hops := ws_hops st + 1, ws_usage := add_usage (ws_usage st) (call_usage resp)\<rparr>)
          in (case parse_action env (resp_content resp) of
                None \<Rightarrow> Going (say Parse_Retry st)
              | Some act \<Rightarrow>
                  if act_tool act = ''done'' then do_done env run act st
                  else if act_tool act = ''get_document_structure'' then Going (do_structure env run act st)
                  else if act_tool act = ''get_pages'' then Going (do_get_pages env run act st)
                  else Going (do_unsupported env act st)))"

fun tw_loop :: "'w tw_env \<Rightarrow> tw_run \<Rightarrow> nat \<Rightarrow> int \<Rightarrow> 'w tw_state \<Rightarrow> 'w tw_outcome" where
  "tw_loop env run 0 hop st = Going st"
| "tw_loop env run (Suc n) hop st =
     (case tw_turn env run hop st of
        Going st' \<Rightarrow> tw_loop env run n (hop + 1) st'
      | out \<Rightarrow> out)"

text \<open>The last turn: the answer, its ranges and its confidence, all empty when there is no usable reply.\<close>

definition force_done ::
    "'w tw_env \<Rightarrow> tw_run \<Rightarrow> 'w tw_state \<Rightarrow> (string \<times> page_range list \<times> f64) \<times> 'w tw_state" where
  "force_done env run st =
     (let st = say Budget_Used st
      in case llm_complete env (run_model run) (ws_msgs st) (ws_world st) of
           (Inl err, w) \<Rightarrow> (([], [], Fin 0), st\<lparr>ws_world := w\<rparr>)
         | (Inr resp, w) \<Rightarrow>
             let st = st\<lparr>ws_world := w, ws_hops := ws_hops st + 1,
                   ws_usage := add_usage (ws_usage st) (call_usage resp)\<rparr>
             in (case parse_action env (resp_content resp) of
                   None \<Rightarrow> (([], [], Fin 0), st)
                 | Some act \<Rightarrow>
                     if act_tool act \<noteq> ''done'' then (([], [], Fin 0), st)
                     else ((trim_space (act_answer act),
                            select_cited_ranges (act_cited act) (act_cited_confidences act)
                              (run_max_page run) (run_max_citations run),
                            clamp_confidence (act_confidence act)), st)))"

definition resolve_limit :: "int \<Rightarrow> int \<Rightarrow> int" where
  "resolve_limit v dflt = (if v \<le> 0 then dflt else v)"

definition start_run :: "tw_config \<Rightarrow> tree \<Rightarrow> context_budget \<Rightarrow> tw_run" where
  "start_run cfg t budget =
     (let sections = flatten_sections_by_page t
      in \<lparr>run_tree = t,
          run_model = (if cfg_model_override cfg = [] then model_name budget else cfg_model_override cfg),
          run_sections = sections, run_max_page = max_known_page sections,
          run_page_limit = resolve_limit (cfg_page_limit cfg) 16000,
          run_max_citations = resolve_limit (cfg_max_citations cfg) 6\<rparr>)"

definition start_state :: "tree \<Rightarrow> string \<Rightarrow> tw_run \<Rightarrow> 'w \<Rightarrow> 'w tw_state" where
  "start_state t query run w =
     \<lparr>ws_world = w, ws_msgs = [System_Prompt, Initial_Prompt (tree_title t) (run_max_page run) query],
      ws_usage = no_usage, ws_hops = 0, ws_reads = [], ws_events = []\<rparr>"

definition tree_walk_select ::
    "'w tw_env \<Rightarrow> tw_config \<Rightarrow> tree \<Rightarrow> string \<Rightarrow> context_budget \<Rightarrow> 'w \<Rightarrow> (string + result) \<times> tw_event list \<times> 'w" where
  "tree_walk_select env cfg t query budget w =
     (if tree_root t = None then (Inr empty_result, [], w)
      else let run = start_run cfg t budget;
               max_hops = resolve_limit (cfg_max_hops cfg) 8
           in case tw_loop env run (nat max_hops) 0 (start_state t query run w) of
                Failed err st \<Rightarrow> (Inl err, ws_events st, ws_world st)
              | Finished res st \<Rightarrow> (Inr res, ws_events st, ws_world st)
              | Going st \<Rightarrow>
                  (case force_done env run st of
                     ((answer, cited, confidence), st') \<Rightarrow>
                       (Inr (finish env run answer cited confidence st'), ws_events st', ws_world st')))"


subsection \<open>Observations stay within the limit\<close>

lemma render_pages_from_ok:
  assumes "written = int (length b)" "written \<le> limit"
  shows "case render_pages_from qt load s e limit secs b ids written w of
      ((out, ids'), w') \<Rightarrow> int (length out) \<le> limit \<and> set ids' \<subseteq> set ids \<union> pe_id `
        {sec \<in> set secs. overlaps (pe_start sec) (pe_end sec) s e}"
  using assms
proof (induction secs arbitrary: b ids written w)
  case (Cons sec secs)
  show ?case
  proof (cases "overlaps (pe_start sec) (pe_end sec) s e")
    case False
    with Cons.IH [OF Cons.prems, of ids w] show ?thesis by (auto split: prod.splits)
  next
    case True
    let ?h = "page_header qt sec"
    obtain body w1 where body: "load_section_body load sec w = (body, w1)" by force
    consider "limit - written \<le> 0" | "0 < limit - written" "limit - written < int (length ?h)"
      | "int (length ?h) \<le> limit - written" "0 < limit - written" by linarith
    then show ?thesis
    proof cases
      case 1
      with True Cons.prems show ?thesis by simp
    next
      case 2
      with True Cons.prems show ?thesis by (simp add: Let_def)
    next
      case 3
      let ?w = "written + int (length ?h)"
      show ?thesis
      proof (cases "?w + int (length body) \<le> limit \<and> 0 < limit - ?w")
        case more: True
        have "?w + int (length body) = int (length ((b @ ?h) @ body))" using Cons.prems(1) by simp
        from Cons.IH [OF this, of "ids @ [pe_id sec]" w1] more 3 True body
        show ?thesis by (auto simp: Let_def split: prod.splits)
      next
        case False
        with 3 True body Cons.prems show ?thesis by (auto simp: Let_def)
      qed
    qed
  qed
qed simp

lemma no_loader_from_ids:
  "case no_loader_from qt s e limit secs b ids of (out, ids') \<Rightarrow>
     set ids' \<subseteq> set ids \<union> pe_id ` {sec \<in> set secs. overlaps (pe_start sec) (pe_end sec) s e}"
proof (induction secs arbitrary: b ids)
  case (Cons sec secs)
  show ?case
  proof (cases "overlaps (pe_start sec) (pe_end sec) s e")
    case True
    with Cons.IH [of "ids @ [pe_id sec]" "b @ no_loader_line qt sec"] show ?thesis
      by (auto simp: Let_def split: prod.splits)
  next
    case False
    with Cons.IH [of ids b] show ?thesis by (auto split: prod.splits)
  qed
qed simp

lemma render_pages_ok:
  assumes "render_pages env sections s e limit w = ((pg, ids), w')" "0 \<le> limit"
  shows "int (length pg) \<le> limit" "set ids \<subseteq> pe_id ` {sec \<in> set sections. overlaps (pe_start sec) (pe_end sec) s e}"
proof -
  have "int (length pg) \<le> limit \<and> set ids \<subseteq> pe_id ` {sec \<in> set sections. overlaps (pe_start sec) (pe_end sec) s e}"
  proof (cases "page_loader env")
    case None
    with assms no_loader_from_ids [where qt = "quote env" and s = s and e = e and limit = limit and secs = sections and b = "[]" and ids = "[]"] show ?thesis
      by (auto simp: render_pages_def render_pages_no_loader_def split: prod.splits)
  next
    case (Some load)
    with assms render_pages_from_ok [where written = 0 and b = "[]" and limit = limit and qt = "quote env" and load = load
        and s = s and e = e and secs = sections and ids = "[]" and w = w] show ?thesis
      by (simp add: render_pages_def)
  qed
  then show "int (length pg) \<le> limit" "set ids \<subseteq> pe_id ` {sec \<in> set sections. overlaps (pe_start sec) (pe_end sec) s e}"
    by auto
qed

text \<open>
  The comment on \<open>renderPages\<close> says it returns the sections that contributed. A section met when the
  limit is already used up contributes nothing and is reported all the same.
\<close>

lemma render_pages_reports_unread_section:
  assumes "overlaps (pe_start sec) (pe_end sec) s e"
  shows "render_pages_from qt load s e limit (sec # secs) b ids limit w = ((b, ids @ [pe_id sec]), w)"
  using assms by simp

subsection \<open>The invariant of the loop\<close>

definition read_ok :: "tw_run \<Rightarrow> page_read \<Rightarrow> bool" where
  "read_ok run p \<longleftrightarrow> 0 < pr_start p \<and> pr_start p \<le> pr_end p \<and> (0 < run_max_page run \<longrightarrow> pr_end p \<le> run_max_page run)
     \<and> pr_chars p \<le> run_page_limit run
     \<and> set (pr_sections p) \<subseteq> pe_id ` {sec \<in> set (run_sections run). overlaps (pe_start sec) (pe_end sec) (pr_start p) (pr_end p)}"

definition tw_inv :: "tw_run \<Rightarrow> int \<Rightarrow> 'w tw_state \<Rightarrow> bool" where
  "tw_inv run n st \<longleftrightarrow> 0 \<le> ws_hops st \<and> ws_hops st \<le> n \<and> int (length (ws_reads st)) \<le> ws_hops st
     \<and> list_all (read_ok run) (ws_reads st)"

lemma emit_simps [simp]:
  "ws_hops (emit ev st) = ws_hops st" "ws_reads (emit ev st) = ws_reads st" "ws_usage (emit ev st) = ws_usage st"
  "ws_world (emit ev st) = ws_world st" "ws_msgs (emit ev st) = ws_msgs st"
  by (simp_all add: emit_def)

lemma say_simps [simp]:
  "ws_hops (say m st) = ws_hops st" "ws_reads (say m st) = ws_reads st" "ws_usage (say m st) = ws_usage st"
  "ws_world (say m st) = ws_world st" "ws_events (say m st) = ws_events st"
  by (simp_all add: say_def)

lemma tw_inv_cong [inv_intros]:
  "tw_inv run n st \<Longrightarrow> ws_hops st' = ws_hops st \<Longrightarrow> ws_reads st' = ws_reads st \<Longrightarrow> tw_inv run n st'"
  by (simp add: tw_inv_def)

text \<open>A reply counts one hop, so a read after it stays within the hops.\<close>

definition spare :: "tw_run \<Rightarrow> int \<Rightarrow> 'w tw_state \<Rightarrow> bool" where
  "spare run n st \<longleftrightarrow> tw_inv run n st \<and> int (length (ws_reads st)) < ws_hops st"

lemma do_get_pages_inv:
  assumes "spare run n st" "0 \<le> run_page_limit run"
  shows "tw_inv run n (do_get_pages env run act st)"
proof -
  obtain s e ok where c: "clamp_range (act_start act) (act_end act) (run_max_page run) = (s, e, ok)"
    by (metis prod_cases3)
  obtain pg ids w where r: "render_pages env (run_sections run) s e (run_page_limit run) (ws_world st) = ((pg, ids), w)"
    by (metis prod.exhaust)
  show ?thesis
  proof (cases ok)
    case False
    with assms(1) c show ?thesis by (auto simp: do_get_pages_def spare_def intro: inv_intros)
  next
    case True
    with c clamp_range_ok have "0 < s \<and> s \<le> e \<and> (0 < run_max_page run \<longrightarrow> e \<le> run_max_page run)" by metis
    then have "read_ok run \<lparr>pr_start = s, pr_end = e, pr_sections = ids, pr_chars = int (length pg)\<rparr>"
      using render_pages_ok [OF r assms(2)] by (simp add: read_ok_def)
    with assms(1) c r True show ?thesis
      by (simp add: do_get_pages_def spare_def tw_inv_def)
  qed
qed

text \<open>The results the loop can end with, whatever the model wrote.\<close>

definition result_form :: "'w tw_env \<Rightarrow> tw_run \<Rightarrow> 'w tw_state \<Rightarrow> result \<Rightarrow> bool" where
  "result_form env run st r \<longleftrightarrow> (\<exists>answer cited_raw confs conf.
     r = finish env run answer (select_cited_ranges cited_raw confs (run_max_page run) (run_max_citations run)) conf st)"

lemma do_structure_inv: "tw_inv run n st \<Longrightarrow> tw_inv run n (do_structure env run act st)"
  by (auto simp: do_structure_def tw_inv_def split: prod.splits)

lemma tw_turn_inv:
  assumes "tw_inv run n st" "0 \<le> run_page_limit run"
  shows "case tw_turn env run hop st of
      Failed err st' \<Rightarrow> True
    | Going st' \<Rightarrow> tw_inv run (n + 1) st'
    | Finished r st' \<Rightarrow> tw_inv run (n + 1) st' \<and> result_form env run st' r"
proof -
  obtain reply w where call: "llm_complete env (run_model run) (ws_msgs st) (ws_world st) = (reply, w)" by force
  show ?thesis
  proof (cases reply)
    case (Inl err)
    with call show ?thesis by (simp add: tw_turn_def)
  next
    case (Inr resp)
    define st1 where "st1 = say (Assistant (resp_content resp))
      (st\<lparr>ws_world := w, ws_hops := ws_hops st + 1, ws_usage := add_usage (ws_usage st) (call_usage resp)\<rparr>)"
    have spare: "spare run (n + 1) st1" and inv: "tw_inv run (n + 1) st1"
      using assms(1) by (auto simp: spare_def tw_inv_def st1_def)
    have turn: "tw_turn env run hop st = (case parse_action env (resp_content resp) of
          None \<Rightarrow> Going (say Parse_Retry st1)
        | Some act \<Rightarrow>
            if act_tool act = ''done'' then do_done env run act st1
            else if act_tool act = ''get_document_structure'' then Going (do_structure env run act st1)
            else if act_tool act = ''get_pages'' then Going (do_get_pages env run act st1)
            else Going (do_unsupported env act st1))"
      unfolding st1_def tw_turn_def call prod.case Inr sum.case Let_def ..
    have done_ok: "\<exists>r st'. do_done env run act st1 = Finished r st' \<and> tw_inv run (n + 1) st' \<and> result_form env run st' r"
      for act
    proof -
      let ?st = "emit (blank_event\<lparr>te_hop := ws_hops st1, te_type := ''done'', te_reasoning := trim_space (act_reasoning act),
          te_answer := trim_space (act_answer act), te_cited := ranges_to_pairs (select_cited_ranges (act_cited act)
            (act_cited_confidences act) (run_max_page run) (run_max_citations run)),
          te_confidence := clamp_confidence (act_confidence act)\<rparr>) st1"
      have "finish env run answer c conf st1 = finish env run answer c conf ?st" for answer c conf
        by (simp add: finish_def)
      then have "\<exists>r. do_done env run act st1 = Finished r ?st \<and> result_form env run ?st r"
        unfolding do_done_def Let_def result_form_def by blast
      moreover have "tw_inv run (n + 1) ?st" using inv by (auto intro: inv_intros)
      ultimately show ?thesis by blast
    qed
    show ?thesis
    proof (cases "parse_action env (resp_content resp)")
      case None
      with inv show ?thesis by (simp add: turn tw_inv_def)
    next
      case (Some act)
      consider "act_tool act = ''done''" | "act_tool act = ''get_document_structure''" | "act_tool act = ''get_pages''"
        | "act_tool act \<notin> {''done'', ''get_document_structure'', ''get_pages''}" by blast
      then show ?thesis
      proof cases
        case 1
        with done_ok [of act] Some show ?thesis by (auto simp: turn)
      next
        case 2
        with Some do_structure_inv [OF inv] show ?thesis by (simp add: turn)
      next
        case 3
        with Some do_get_pages_inv [OF spare assms(2)] show ?thesis by (simp add: turn)
      next
        case 4
        with Some inv show ?thesis by (simp add: turn do_unsupported_def tw_inv_def)
      qed
    qed
  qed
qed

lemma tw_loop_inv:
  assumes "tw_inv run n st" "0 \<le> run_page_limit run"
  shows "case tw_loop env run k hop st of
      Failed err st' \<Rightarrow> True
    | Going st' \<Rightarrow> tw_inv run (n + int k) st'
    | Finished r st' \<Rightarrow> tw_inv run (n + int k) st' \<and> result_form env run st' r"
  using assms(1)
proof (induction k arbitrary: n hop st)
  case (Suc k)
  have mono: "tw_inv run m st' \<Longrightarrow> m \<le> m' \<Longrightarrow> tw_inv run m' st'" for m m' and st' :: "'a tw_state"
    by (simp add: tw_inv_def)
  show ?case
  proof (cases "tw_turn env run hop st")
    case (Going st')
    with tw_turn_inv [OF Suc.prems assms(2), of env hop] have "tw_inv run (n + 1) st'" by simp
    from Suc.IH [OF this, of "hop + 1"] Going show ?thesis
      by (auto simp: algebra_simps split: tw_outcome.splits)
  next
    case (Finished r st')
    with tw_turn_inv [OF Suc.prems assms(2), of env hop] mono [of "n + 1" st' "n + int (Suc k)"]
    show ?thesis by auto
  qed simp
qed simp


subsection \<open>Properties\<close>

lemma force_done_ok:
  assumes "tw_inv run n st" "force_done env run st = ((answer, cited, confidence), st')"
  shows "tw_inv run (n + 1) st' \<and> (\<exists>raw confs. cited = select_cited_ranges raw confs (run_max_page run) (run_max_citations run))"
proof -
  have none: "[] = select_cited_ranges [] [] (run_max_page run) (run_max_citations run)"
    by (simp add: select_cited_ranges_def)
  have inv: "tw_inv run (n + 1) st" using assms(1) by (simp add: tw_inv_def)
  obtain reply w where call: "llm_complete env (run_model run) (ws_msgs (say Budget_Used st)) (ws_world st) = (reply, w)"
    by force
  show ?thesis
  proof (cases reply)
    case (Inl err)
    with assms(2) call none inv show ?thesis by (auto simp: force_done_def tw_inv_def)
  next
    case (Inr resp)
    define st1 where "st1 = (say Budget_Used st)\<lparr>ws_world := w, ws_hops := ws_hops st + 1,
      ws_usage := add_usage (ws_usage st) (call_usage resp)\<rparr>"
    have inv1: "tw_inv run (n + 1) st1" using assms(1) by (auto simp: st1_def tw_inv_def)
    show ?thesis
    proof (cases "parse_action env (resp_content resp)")
      case None
      with assms(2) call Inr none inv1 show ?thesis by (auto simp: force_done_def Let_def st1_def)
    next
      case (Some act)
      with assms(2) call Inr none inv1 show ?thesis
        by (cases "act_tool act = ''done''") (auto simp: force_done_def Let_def st1_def)
    qed
  qed
qed

lemma start_inv: "tw_inv run 0 (start_state t query run w)"
  by (simp add: tw_inv_def start_state_def)

text \<open>
  C2. Whatever the model replies, a page-navigation run that returns has taken at most one turn more
  than its hop limit and has read at most one page range per turn, each inside the document, cut to
  the page limit, and reporting only sections on those pages. It cites distinct ranges inside the
  document, at most as many as the citation limit, and its selected sections are, each once, exactly
  the sections on the cited pages.
\<close>
theorem tree_walk_select_bounded:
  assumes "tree_walk_select env cfg t query budget w = (Inr r, evs, w')" "tree_root t \<noteq> None"
  shows "hops_taken r \<le> resolve_limit (cfg_max_hops cfg) 8 + 1
    \<and> int (length (pages_read r)) \<le> hops_taken r
    \<and> list_all (read_ok (start_run cfg t budget)) (pages_read r)
    \<and> distinct (cited_pages r)
    \<and> int (length (cited_pages r)) \<le> resolve_limit (cfg_max_citations cfg) 6
    \<and> list_all (range_in (max_known_page (flatten_sections_by_page t))) (cited_pages r)
    \<and> distinct (selected_ids r)
    \<and> set (selected_ids r) = (\<Union>p \<in> set (cited_pages r). set (section_ids_overlapping t (fst p) (snd p)))"
proof -
  define run where "run = start_run cfg t budget"
  define hops where "hops = resolve_limit (cfg_max_hops cfg) 8"
  have hops: "0 < hops" by (simp add: hops_def resolve_limit_def)
  have lim: "0 \<le> run_page_limit run" "0 < run_max_citations run"
    by (simp_all add: run_def start_run_def resolve_limit_def Let_def)
  have run: "run_sections run = flatten_sections_by_page t" "run_max_page run = max_known_page (flatten_sections_by_page t)"
    "run_max_citations run = resolve_limit (cfg_max_citations cfg) 6"
    by (simp_all add: run_def start_run_def Let_def)
  have final: "hops_taken r \<le> hops + 1 \<and> ?thesis"
    if inv: "tw_inv run (hops + 1) st" and form: "result_form env run st r" for st
  proof -
    from form obtain answer raw confs conf where
      r: "r = finish env run answer (select_cited_ranges raw confs (run_max_page run) (run_max_citations run)) conf st"
      unfolding result_form_def by blast
    have cited: "cited_pages r = select_cited_ranges raw confs (run_max_page run) (run_max_citations run)"
      by (simp add: r finish_def Let_def ranges_to_pairs_def)
    have "selected_ids r = sections_overlapping (run_sections run) (cited_pages r)"
      unfolding cited by (simp add: r finish_def Let_def)
    moreover have "hops_taken r = ws_hops st" "pages_read r = ws_reads st"
      by (simp_all add: r finish_def Let_def)
    moreover have "list_all (range_in (run_max_page run)) (cited_pages r)"
      using select_cited_ranges_shape(2) unfolding cited list_all_iff by blast
    moreover have "distinct (cited_pages r)" "int (length (cited_pages r)) \<le> run_max_citations run"
      using select_cited_ranges_shape(1,3) lim(2) unfolding cited by blast+
    ultimately show ?thesis
      using inv sections_overlapping_distinct sections_overlapping_union
      by (simp add: tw_inv_def run hops_def flip: run_def)
  qed
  note loop = tw_loop_inv [OF start_inv [of run t query w] lim(1), where env = env and k = "nat hops" and hop = 0]
  have sel: "tree_walk_select env cfg t query budget w = (case tw_loop env run (nat hops) 0 (start_state t query run w) of
       Failed err st \<Rightarrow> (Inl err, ws_events st, ws_world st)
     | Finished res st \<Rightarrow> (Inr res, ws_events st, ws_world st)
     | Going st \<Rightarrow> (case force_done env run st of ((answer, cited, confidence), st') \<Rightarrow>
         (Inr (finish env run answer cited confidence st'), ws_events st', ws_world st')))"
    by (simp only: tree_walk_select_def assms(2) if_False Let_def run_def hops_def)
  show ?thesis
  proof (cases "tw_loop env run (nat hops) 0 (start_state t query run w)")
    case (Failed err st)
    with assms(1) sel show ?thesis by simp
  next
    case (Finished res st)
    with assms(1) sel have "res = r" by simp
    with loop Finished hops have "tw_inv run hops st" "result_form env run st r" by simp_all
    then have "tw_inv run (hops + 1) st" by (simp add: tw_inv_def)
    from final [OF this \<open>result_form env run st r\<close>] show ?thesis by blast
  next
    case (Going st)
    with loop hops have inv: "tw_inv run hops st" by simp
    obtain answer cited confidence st' where f: "force_done env run st = ((answer, cited, confidence), st')"
      by (metis prod.exhaust)
    note fd = force_done_ok [OF inv f]
    from assms(1) sel Going f have "r = finish env run answer cited confidence st'" by simp
    with fd have "result_form env run st' r" unfolding result_form_def by blast
    from final [OF conjunct1 [OF fd] this] show ?thesis by blast
  qed
qed

text \<open>A model that looks at the contents and then answers, for the witness.\<close>

definition sample_env :: "nat tw_env" where
  "sample_env = \<lparr>llm_complete = (\<lambda>model msgs w. (Inr \<lparr>resp_content = (if w = 0 then ''look'' else ''answer''),
       resp_usage = no_usage\<rparr>, w + 1)),
     page_loader = None, toc_provider = Some (\<lambda>d w. (Inr ''toc'', w)),
     parse_action = (\<lambda>s. Some \<lparr>act_tool = (if s = ''look'' then ''get_document_structure'' else ''done''), act_start = 2, act_end = 3,
       act_answer = ''yes'', act_cited = [(2, 3), (2, 3)], act_cited_confidences = [], act_confidence = Fin 1,
       act_reasoning = []\<rparr>),
     marshal_toc = (\<lambda>_. []), quote = id, sha_hex = id\<rparr>"

definition sample_cfg :: tw_config where
  "sample_cfg = \<lparr>cfg_max_hops = 3, cfg_page_limit = 0, cfg_max_citations = 0, cfg_model_override = []\<rparr>"

definition sample_budget :: context_budget where
  "sample_budget = \<lparr>model_name = ''m'', max_tokens = 100, reserved_for_prompt = 10, max_parallel_calls = 4\<rparr>"

lemma sample_run_answers:
  "\<exists>r evs. tree_walk_select sample_env sample_cfg sample_tree ''q'' sample_budget 0 = (Inr r, evs, 2)"
proof -
  have "nat (resolve_limit (cfg_max_hops sample_cfg) 8) = Suc (Suc (Suc 0))"
    by (simp add: sample_cfg_def resolve_limit_def)
  then show ?thesis
    by (simp add: tree_walk_select_def tw_turn_def do_structure_def do_done_def render_structure_def
        sample_env_def sample_tree_def start_state_def Let_def emit_def say_def)
qed

lemma tree_walk_select_bounded_witness:
  "\<exists>r evs. tree_walk_select sample_env sample_cfg sample_tree ''q'' sample_budget 0 = (Inr r, evs, 2)
     \<and> hops_taken r \<le> 4 \<and> int (length (cited_pages r)) \<le> 6"
proof -
  obtain r evs where r: "tree_walk_select sample_env sample_cfg sample_tree ''q'' sample_budget 0 = (Inr r, evs, 2)"
    using sample_run_answers by blast
  from tree_walk_select_bounded [OF this] show ?thesis
    using r by (auto simp: sample_cfg_def resolve_limit_def sample_tree_def)
qed

text \<open>
  The comment on \<open>MaxHops\<close> counts the terminal turn within the limit. The code does not: when the last
  turn the limit allows is no answer, the forced answer is one turn more.
\<close>

lemma tree_walk_exceeds_max_hops:
  "\<exists>r evs w. tree_walk_select (sample_env\<lparr>parse_action := (\<lambda>s. None)\<rparr>) (sample_cfg\<lparr>cfg_max_hops := 1\<rparr>) sample_tree ''q''
     sample_budget 0 = (Inr r, evs, w) \<and> hops_taken r = 2"
proof -
  have "nat (resolve_limit (cfg_max_hops (sample_cfg\<lparr>cfg_max_hops := 1\<rparr>)) 8) = Suc 0"
    by (simp add: resolve_limit_def)
  then show ?thesis
    by (simp add: tree_walk_select_def tw_turn_def force_done_def finish_def
        sample_env_def sample_tree_def start_state_def Let_def emit_def say_def)
qed

end
