(* ===== verification/Selection.thy ===== *)
theory Selection
  imports Strategy_Core
begin

text \<open>
  Asking a model to pick sections (\<open>pkg/retrieval/single_pass.go\<close>): the outline written into the
  prompt, reading the reply, the retries on a reply that does not parse, the filters that keep a model
  from inventing IDs, and the single-pass strategy.

  The model is the parameter \<open>llm\<close>, which takes a request and the state of the outside world; \<open>unmarshal\<close> is
  \<open>encoding/json\<close> on the reply's type.
\<close>

subsection \<open>The outline\<close>

definition dash :: string where
  "dash = '' '' @ [CHR 0xE2, CHR 0x80, CHR 0x94] @ '' ''"

definition ellipsis :: string where
  "ellipsis = [CHR 0xE2, CHR 0x80, CHR 0xA6]"

abbreviation eol :: string where
  "eol \<equiv> [CHR 0x0A]"

fun first_n :: "string list \<Rightarrow> nat \<Rightarrow> string list" where
  "first_n xs 0 = []"
| "first_n [] (Suc n) = []"
| "first_n (x # xs) (Suc n) =
     (let x = trim_space x in if x = [] then first_n xs (Suc n) else x # first_n xs n)"

definition truncate_question :: "string \<Rightarrow> string" where
  "truncate_question q =
     (if length q > 120
      then (case last_index_byte (take 120 q) (CHR '' '') of
              Some sp \<Rightarrow> if sp > 100 then take sp q @ ellipsis else take 120 q @ ellipsis
            | None \<Rightarrow> take 120 q @ ellipsis)
      else q)"

fun first_candidate_question :: "string list \<Rightarrow> string" where
  "first_candidate_question [] = []"
| "first_candidate_question (q # qs) =
     (let q = trim_space q in if q = [] then first_candidate_question qs else truncate_question q)"

definition indent :: "int \<Rightarrow> string" where
  "indent depth = concat (replicate (nat depth) ''  '')"

definition axes_text :: "summary_axes option \<Rightarrow> string" where
  "axes_text ax =
     (case ax of
        None \<Rightarrow> []
      | Some a \<Rightarrow>
          (let ents = first_n (entities a) 3
           in if ents \<noteq> [] then dash @ ''entities: '' @ join ents '', '' else [])
          @ (let nums = first_n (numbers a) 3
             in if nums \<noteq> [] then dash @ ''numbers: '' @ join nums '', '' else []))"

definition write_section_line :: "section_view \<Rightarrow> string" where
  "write_section_line sv =
     indent (sv_depth sv) @ ''- ['' @ sv_id sv @ ''] '' @ sv_title sv
     @ (if sv_summary sv \<noteq> [] then dash @ sv_summary sv else [])
     @ axes_text (sv_axes sv) @ eol
     @ (let q = first_candidate_question (sv_questions sv)
        in if q \<noteq> [] then indent (sv_depth sv) @ ''    answers: '' @ q @ eol else [])"

definition selection_instructions :: string where
  "selection_instructions = eol @ eol @ ''Return a JSON object. Preferred shape:'' @ eol
     @ ''  {\"picks\": [{\"id\": \"sec_x\", \"confidence\": 0.82}, ...], \"reasoning\": \"...\"}'' @ eol
     @ ''confidence is a float in [0.0, 1.0] reflecting how likely the section's body answers the query. Use the full range; do not score every pick at 1.0.'' @ eol
     @ ''Fallback shape (use ONLY if you cannot reason about confidence):'' @ eol
     @ ''  {\"selected_section_ids\": [\"sec_x\", ...], \"reasoning\": \"...\"}''"

definition build_selection_prompt ::
    "string \<Rightarrow> section_view list \<Rightarrow> section_view list \<Rightarrow> string \<Rightarrow> string" where
  "build_selection_prompt breadcrumb sections siblings query =
     (if breadcrumb \<noteq> [] then breadcrumb @ eol @ eol else [])
     @ ''Outline (sections you may select from):'' @ eol
     @ concat (map write_section_line sections)
     @ (if siblings \<noteq> [] then eol @ ''Peripheral siblings (context only '' @ [CHR 0xE2, CHR 0x80, CHR 0x94]
          @ '' NOT selectable):'' @ eol @ concat (map write_section_line siblings) else [])
     @ eol @ ''User query:'' @ eol @ query @ selection_instructions"

subsection \<open>Reading the reply\<close>

text \<open>
  The tolerant part every reply parser shares: strip a code fence, then everything before the first
  brace and after the last.
\<close>

definition strip_fences :: "string \<Rightarrow> string" where
  "strip_fences raw =
     (if has_prefix raw ''```''
      then trim_space (trim_suffix (case str_index raw eol of Some i \<Rightarrow> drop (i + 1) raw | None \<Rightarrow> raw) ''```'')
      else raw)"

definition isolate_object :: "string \<Rightarrow> string" where
  "isolate_object raw =
     (let raw = (case str_index raw ''{'' of Some i \<Rightarrow> if 0 < i then drop i raw else raw | None \<Rightarrow> raw)
      in case last_index_byte raw (CHR ''}'') of
           Some j \<Rightarrow> if j < length raw - 1 then take (j + 1) raw else raw
         | None \<Rightarrow> raw)"

record selection_pick =
  pick_id :: string
  pick_confidence :: "f64 option"

record selection_payload =
  sp_picks :: "selection_pick list"
  sp_ids :: "string list"

definition clamp_pick :: "f64 \<Rightarrow> f64" where
  "clamp_pick c = (if f_lt c (Fin 0) then Fin 0 else if f_lt (Fin 1) c then Fin 1 else c)"

text \<open>The picks with a usable ID, the first one of each ID.\<close>

definition usable_picks :: "selection_pick list \<Rightarrow> selection_pick list" where
  "usable_picks ps = dedup_by (\<lambda>p. trim_space (pick_id p)) [] (filter (\<lambda>p. trim_space (pick_id p) \<noteq> []) ps)"

definition pick_confidences :: "selection_pick list \<Rightarrow> section_id \<Rightarrow> f64 option" where
  "pick_confidences ps =
     fold (\<lambda>p m. case pick_confidence p of
                   None \<Rightarrow> m
                 | Some c \<Rightarrow> m(trim_space (pick_id p) \<mapsto> clamp_pick c)) ps Map.empty"

definition parse_selection ::
    "(string \<Rightarrow> selection_payload option) \<Rightarrow> string \<Rightarrow> (section_id list \<times> (section_id \<Rightarrow> f64 option)) option" where
  "parse_selection unmarshal raw =
     (let raw = trim_space raw in
      if raw = [] then Some ([], Map.empty)
      else case unmarshal (isolate_object (strip_fences raw)) of
             None \<Rightarrow> None
           | Some p \<Rightarrow>
               if sp_picks p \<noteq> []
               then let ps = usable_picks (sp_picks p)
                    in Some (map (\<lambda>p. trim_space (pick_id p)) ps, pick_confidences ps)
               else Some (filter (\<lambda>i. i \<noteq> []) (map trim_space (sp_ids p)), Map.empty))"

definition filter_known_ids :: "section_id list \<Rightarrow> section_view list \<Rightarrow> section_id list" where
  "filter_known_ids ids sections =
     dedup_by id [] (filter (\<lambda>i. i \<in> set (map sv_id sections)) ids)"

definition filter_confidences ::
    "(section_id \<Rightarrow> f64 option) \<Rightarrow> section_id list \<Rightarrow> section_id \<Rightarrow> f64 option" where
  "filter_confidences src keep = src |` set keep"

subsection \<open>The call\<close>

datatype role = System | User

record llm_request =
  req_model :: string
  req_messages :: "(role \<times> string) list"
  req_max_tokens :: int

record llm_reply =
  rep_content :: string
  rep_usage :: usage

type_synonym 'w llm = "llm_request \<Rightarrow> 'w \<Rightarrow> (string + llm_reply) \<times> 'w"

definition retry_suffix :: string where
  "retry_suffix = eol @ eol @ ''IMPORTANT: respond with ONLY a JSON object matching the schema. Do not include prose, explanation, or markdown fences.''"

text \<open>A retry repeats the request with the last message strengthened.\<close>

definition strengthen :: "llm_request \<Rightarrow> llm_request" where
  "strengthen req =
     (case rev (req_messages req) of
        [] \<Rightarrow> req
      | (r, c) # ms \<Rightarrow> req\<lparr>req_messages := rev ms @ [(r, c @ retry_suffix)]\<rparr>)"

definition one_call :: "llm_reply \<Rightarrow> usage" where
  "one_call resp = (rep_usage resp)\<lparr>llm_calls := 1\<rparr>"

text \<open>
  The retry loop, for any parser: the error of the transport, or the parsed reply and \<open>None\<close> when no
  attempt parsed; always with the usage of every attempt made.
\<close>

fun attempts :: "'w llm \<Rightarrow> (string \<Rightarrow> 'a option) \<Rightarrow> llm_request \<Rightarrow> nat \<Rightarrow> bool \<Rightarrow> usage \<Rightarrow> 'w \<Rightarrow>
    ((string + 'a option) \<times> usage) \<times> 'w" where
  "attempts llm parse req 0 first u w = ((Inr None, u), w)"
| "attempts llm parse req (Suc n) first u w =
     (case llm (if first then req else strengthen req) w of
        (Inl err, w') \<Rightarrow> ((Inl err, u), w')
      | (Inr resp, w') \<Rightarrow>
          let u' = add_usage u (one_call resp)
          in (case parse (rep_content resp) of
                Some v \<Rightarrow> ((Inr (Some v), u'), w')
              | None \<Rightarrow> attempts llm parse req n False u' w'))"

definition run_selection_with_retry ::
    "'w llm \<Rightarrow> (string \<Rightarrow> selection_payload option) \<Rightarrow> llm_request \<Rightarrow> int \<Rightarrow> 'w \<Rightarrow>
     ((string + section_id list \<times> (section_id \<Rightarrow> f64 option)) \<times> usage) \<times> 'w" where
  "run_selection_with_retry llm unmarshal req max_retries w =
     (case attempts llm (parse_selection unmarshal) req (nat (max max_retries 0) + 1) True no_usage w of
        ((Inl err, u), w') \<Rightarrow> ((Inl err, u), w')
      | ((Inr (Some v), u), w') \<Rightarrow> ((Inr v, u), w')
      | ((Inr None, u), w') \<Rightarrow> ((Inr ([], Map.empty), u), w'))"

definition selection_request :: "string \<Rightarrow> string \<Rightarrow> string \<Rightarrow> llm_request" where
  "selection_request system_prompt model prompt =
     \<lparr>req_model = model, req_messages = [(System, system_prompt), (User, prompt)], req_max_tokens = 2048\<rparr>"

text \<open>What a strategy is built from: the model, JSON, the hash, and the selection system prompt.\<close>

record 'w select_env =
  se_llm :: "'w llm"
  se_unmarshal :: "string \<Rightarrow> selection_payload option"
  se_sha :: "string \<Rightarrow> string"
  se_system :: string

definition single_pass_select ::
    "'w select_env \<Rightarrow> tree \<Rightarrow> string \<Rightarrow> context_budget \<Rightarrow> 'w \<Rightarrow> (string + result) \<times> 'w" where
  "single_pass_select env t query budget w =
     (if tree_root t = None then (Inr empty_result, w)
      else let view = build_view t;
               model = model_name budget;
               prompt = build_selection_prompt (''Document: '' @ view_title view) (view_sections view) [] query
           in case run_selection_with_retry (se_llm env) (se_unmarshal env)
                     (selection_request (se_system env) model prompt) 2 w of
                ((Inl err, u), w') \<Rightarrow> (Inl (''single-pass llm call: '' @ err), w')
              | ((Inr (ids, confs), u), w') \<Rightarrow>
                  let selected = filter_known_ids ids (view_sections view)
                  in (Inr (empty_result\<lparr>selected_ids := selected, confidences := filter_confidences confs selected,
                        model_used := model, res_usage := u, hops_taken := 1,
                        trace_token := compute_trace_token (se_sha env) (doc_id t) ''1'' model selected\<rparr>), w'))"

subsection \<open>What a strategy promises\<close>

text \<open>
  Every strategy's contract with the API layer: what it selects are sections of the document, each
  once, and it states confidences for selected sections only.
\<close>

locale strategy =
  fixes select :: "tree \<Rightarrow> string \<Rightarrow> context_budget \<Rightarrow> 'w \<Rightarrow> ('e + result) \<times> 'w"
  assumes known: "select t query budget w = (Inr r, w') \<Longrightarrow> set (selected_ids r) \<subseteq> sec_id ` set (tree_sections t)"
    and once: "select t query budget w = (Inr r, w') \<Longrightarrow> distinct (selected_ids r)"
    and confident: "select t query budget w = (Inr r, w') \<Longrightarrow> dom (confidences r) \<subseteq> set (selected_ids r)"
begin

lemma at_most_all:
  "select t query budget w = (Inr r, w') \<Longrightarrow> length (selected_ids r) \<le> length (tree_sections t)"
  using known once by (metis card_image_le card_length card_mono distinct_card finite_imageI finite_set order_trans)

lemma empty_document:
  "select t query budget w = (Inr r, w') \<Longrightarrow> tree_root t = None \<Longrightarrow> selected_ids r = [] \<and> confidences r = Map.empty"
  using known [of t query budget w r w'] confident [of t query budget w r w'] by (simp add: tree_sections_def)

lemma none_selected_no_confidence:
  "select t query budget w = (Inr r, w') \<Longrightarrow> selected_ids r = [] \<Longrightarrow> confidences r = Map.empty"
  using confident by fastforce

lemma every_confidence_known:
  "select t query budget w = (Inr r, w') \<Longrightarrow> confidences r i = Some c \<Longrightarrow> i \<in> sec_id ` set (tree_sections t)"
  using known confident by blast

end

lemma filter_known_ids_set: "set (filter_known_ids ids sections) = set ids \<inter> sv_id ` set sections"
  by (auto simp: filter_known_ids_def seen_simps)

lemma filter_known_ids_distinct: "distinct (filter_known_ids ids sections)"
  by (simp add: filter_known_ids_def seen_simps)

lemma dom_filter_confidences: "dom (filter_confidences src keep) = dom src \<inter> set keep"
  by (simp add: filter_confidences_def)

lemma view_ids_set: "sv_id ` set (view_sections (build_view t)) = sec_id ` set (tree_sections t)"
  using view_ids [of t] by (metis set_map)

lemma empty_result_simps [simp]:
  "selected_ids empty_result = []" "confidences empty_result = Map.empty"
  by (simp_all add: empty_result_def)

text \<open>The ways a single-pass run can succeed.\<close>

lemma single_pass_cases:
  assumes "single_pass_select env t query budget w = (Inr r, w')"
  obtains "tree_root t = None" "r = empty_result"
  | ids confs where "selected_ids r = filter_known_ids ids (view_sections (build_view t))"
      "confidences r = filter_confidences confs (selected_ids r)" "model_used r = model_name budget"
      "trace_token r = compute_trace_token (se_sha env) (doc_id t) ''1'' (model_name budget) (selected_ids r)"
proof (cases "tree_root t = None")
  case True
  with assms that(1) show thesis by (simp add: single_pass_select_def)
next
  case False
  obtain reply u w1 where call: "run_selection_with_retry (se_llm env) (se_unmarshal env)
      (selection_request (se_system env) (model_name budget) (build_selection_prompt
        (''Document: '' @ view_title (build_view t)) (view_sections (build_view t)) [] query)) 2 w = ((reply, u), w1)"
    by (metis prod.exhaust)
  with assms False obtain v where v: "reply = Inr v"
    by (cases reply) (simp_all add: single_pass_select_def Let_def)
  obtain ids confs where "v = (ids, confs)" by force
  with assms False call v that(2) [of ids confs] show thesis
    by (auto simp: single_pass_select_def Let_def)
qed

interpretation single_pass: strategy "single_pass_select env" for env :: "'w select_env"
proof
  fix t query budget and w w' :: 'w and r
  assume run: "single_pass_select env t query budget w = (Inr r, w')"
  show "set (selected_ids r) \<subseteq> sec_id ` set (tree_sections t)"
    by (cases rule: single_pass_cases [OF run]) (auto simp: filter_known_ids_set simp flip: view_ids_set)
  show "distinct (selected_ids r)"
    by (cases rule: single_pass_cases [OF run]) (auto simp: filter_known_ids_distinct)
  show "dom (confidences r) \<subseteq> set (selected_ids r)"
    by (cases rule: single_pass_cases [OF run]) (auto simp: filter_confidences_def restrict_map_def split: if_splits)
qed


text \<open>A model that always answers is always given a selection.\<close>

lemma attempts_answered:
  assumes "\<forall>q w. \<exists>resp w'. llm q w = (Inr resp, w')"
  shows "attempts llm parse req n first u w = ((v, u'), w') \<Longrightarrow> \<exists>x. v = Inr x"
proof (induction n arbitrary: first u w)
  case 0
  then show ?case by auto
next
  case (Suc n)
  obtain resp w1 where "llm (if first then req else strengthen req) w = (Inr resp, w1)" using assms by blast
  with Suc show ?case by (auto simp: Let_def split: option.splits)
qed

lemma run_selection_answered:
  assumes "\<forall>q w. \<exists>resp w'. llm q w = (Inr resp, w')"
    "run_selection_with_retry llm unmarshal req retries w = ((v, u), w')"
  shows "\<exists>ids confs. v = Inr (ids, confs)"
proof -
  obtain v' u' w1 where a: "attempts llm (parse_selection unmarshal) req (nat (max retries 0) + 1) True no_usage w = ((v', u'), w1)"
    by (metis prod.exhaust)
  with attempts_answered [OF assms(1)] obtain x where "v' = Inr x" by blast
  with a assms(2) show ?thesis
    by (cases x) (auto simp: run_selection_with_retry_def simp del: attempts.simps)
qed

subsection \<open>Properties\<close>

text \<open>
  Whatever the model replies, the single-pass strategy selects sections of the document only, each
  once, and states a confidence only for what it selected.
\<close>
lemma single_pass_selects_known:
  assumes "single_pass_select env t query budget w = (Inr r, w')"
  shows "distinct (selected_ids r) \<and> set (selected_ids r) \<subseteq> sec_id ` set (tree_sections t)
    \<and> dom (confidences r) \<subseteq> set (selected_ids r) \<and> length (selected_ids r) \<le> length (tree_sections t)"
  using single_pass.known [OF assms] single_pass.once [OF assms] single_pass.confident [OF assms]
    single_pass.at_most_all [OF assms] by blast

definition sample_select_env :: "unit select_env" where
  "sample_select_env = \<lparr>se_llm = (\<lambda>q w. (Inr \<lparr>rep_content = ''x'', rep_usage = no_usage\<rparr>, w)),
     se_unmarshal = (\<lambda>s. Some \<lparr>sp_picks = [\<lparr>pick_id = ''a'', pick_confidence = Some (Fin 1)\<rparr>,
        \<lparr>pick_id = ''nowhere'', pick_confidence = None\<rparr>], sp_ids = []\<rparr>),
     se_sha = id, se_system = []\<rparr>"

lemma attempts_parsed:
  "attempts llm parse req n first u w = ((Inr (Some v), u'), w') \<Longrightarrow> \<exists>s. parse s = Some v"
proof (induction n arbitrary: first u w)
  case (Suc n)
  obtain reply w1 where "llm (if first then req else strengthen req) w = (reply, w1)" by force
  with Suc show ?case by (cases reply) (auto simp: Let_def split: option.splits)
qed simp

lemma attempts_first:
  "llm req w = (Inr resp, w') \<Longrightarrow> parse (rep_content resp) = Some v \<Longrightarrow>
   attempts llm parse req (Suc n) True u w = ((Inr (Some v), add_usage u (one_call resp)), w')"
  by (simp add: Let_def)

lemma sample_single_pass: "\<exists>r. single_pass_select sample_select_env sample_tree ''q'' b () = (Inr r, ())"
proof -
  have "trim_space ''x'' = ''x''"
    by (rule trim_space_visible_ends) (simp_all add: visible_ascii_def less_char_def)
  then obtain ids confs where parse: "parse_selection (se_unmarshal sample_select_env) ''x'' = Some (ids, confs)"
    by (simp add: parse_selection_def sample_select_env_def Let_def)
  have call: "\<exists>u. attempts (se_llm sample_select_env) (parse_selection (se_unmarshal sample_select_env)) req (nat (max 2 0) + 1)
      True no_usage () = ((Inr (Some (ids, confs)), u), ())" for req
  proof -
    have "se_llm sample_select_env req () = (Inr \<lparr>rep_content = ''x'', rep_usage = no_usage\<rparr>, ())"
      by (simp add: sample_select_env_def)
    with attempts_first [where llm = "se_llm sample_select_env" and req = req and w = "()" and w' = "()"
        and resp = "\<lparr>rep_content = ''x'', rep_usage = no_usage\<rparr>"
        and parse = "parse_selection (se_unmarshal sample_select_env)" and v = "(ids, confs)" and n = 2 and u = no_usage] parse
    show ?thesis by (simp del: attempts.simps)
  qed
  have "\<exists>u. run_selection_with_retry (se_llm sample_select_env) (se_unmarshal sample_select_env) req 2 ()
      = ((Inr (ids, confs), u), ())" for req
  proof -
    obtain u where "attempts (se_llm sample_select_env) (parse_selection (se_unmarshal sample_select_env)) req
        (nat (max 2 0) + 1) True no_usage () = ((Inr (Some (ids, confs)), u), ())" using call [of req] by blast
    then show ?thesis unfolding run_selection_with_retry_def by simp
  qed
  then obtain u where run: "run_selection_with_retry (se_llm sample_select_env) (se_unmarshal sample_select_env)
      (selection_request (se_system sample_select_env) (model_name b) (build_selection_prompt
        (''Document: '' @ view_title (build_view sample_tree)) (view_sections (build_view sample_tree)) [] ''q'')) 2 ()
      = ((Inr (ids, confs), u), ())" by blast
  have "(tree_root sample_tree = None) = False" by (simp add: sample_tree_def)
  then show ?thesis
    unfolding single_pass_select_def Let_def run by simp
qed

lemma single_pass_selects_known_witness:
  "\<exists>r. fst (single_pass_select sample_select_env sample_tree ''q'' \<lparr>model_name = ''m'', max_tokens = 0,
     reserved_for_prompt = 0, max_parallel_calls = 1\<rparr> ()) = Inr r \<and> distinct (selected_ids r)"
proof -
  let ?b = "\<lparr>model_name = ''m'', max_tokens = 0, reserved_for_prompt = 0, max_parallel_calls = 1\<rparr>"
  obtain r where r: "single_pass_select sample_select_env sample_tree ''q'' ?b () = (Inr r, ())"
    using sample_single_pass by blast
  from single_pass_selects_known [OF this] r show ?thesis by simp
qed

text \<open>
  What the model is asked over the retries, whatever is done with the replies: the request itself, then
  the strengthened request, each in the world the call before left. A reply is unparsed when the call
  succeeded and its content is no selection.
\<close>

fun same_calls :: "'w llm \<Rightarrow> llm_request \<Rightarrow> nat \<Rightarrow> 'w \<Rightarrow> (string + llm_reply) list" where
  "same_calls llm req 0 w = []"
| "same_calls llm req (Suc n) w = (case llm req w of (r, w') \<Rightarrow> r # same_calls llm req n w')"

definition retry_calls :: "'w llm \<Rightarrow> llm_request \<Rightarrow> nat \<Rightarrow> 'w \<Rightarrow> (string + llm_reply) list" where
  "retry_calls llm req n w = (case llm req w of (r, w') \<Rightarrow> r # same_calls llm (strengthen req) n w')"

definition unparsed :: "(string \<Rightarrow> 'a option) \<Rightarrow> string + llm_reply \<Rightarrow> bool" where
  "unparsed parse r = (case r of Inl e \<Rightarrow> False | Inr resp \<Rightarrow> parse (rep_content resp) = None)"

definition answered :: "(string + llm_reply) list \<Rightarrow> llm_reply list" where
  "answered rs = List.map_filter (\<lambda>r. case r of Inl e \<Rightarrow> None | Inr resp \<Rightarrow> Some resp) rs"

definition used_up :: "usage \<Rightarrow> llm_reply list \<Rightarrow> usage" where
  "used_up u resps = fold (\<lambda>resp u. add_usage u (one_call resp)) resps u"

text \<open>The outcome the replies decide: the first one that is not unparsed, or none.\<close>

fun outcome :: "(string \<Rightarrow> 'a option) \<Rightarrow> (string + llm_reply) list \<Rightarrow> string + 'a option" where
  "outcome parse [] = Inr None"
| "outcome parse (Inl e # rs) = Inl e"
| "outcome parse (Inr resp # rs) = Inr (parse (rep_content resp))"

lemma answered_simps [simp]:
  "answered [] = []" "answered (Inl e # rs) = answered rs" "answered (Inr resp # rs) = resp # answered rs"
  by (simp_all add: answered_def List.map_filter_def)

lemma used_up_simps [simp]:
  "used_up u [] = u" "used_up u (resp # rs) = used_up (add_usage u (one_call resp)) rs"
  by (simp_all add: used_up_def)

lemma length_same_calls [simp]: "length (same_calls llm req n w) = n"
  by (induction n arbitrary: w) (simp_all split: prod.splits)

lemma same_attempts:
  assumes "attempts llm parse req n False u w = ((v, u'), w')"
  shows "v = outcome parse (dropWhile (unparsed parse) (same_calls llm (strengthen req) n w))
    \<and> u' = used_up u (answered (take (length (takeWhile (unparsed parse) (same_calls llm (strengthen req) n w)) + 1)
        (same_calls llm (strengthen req) n w)))"
  using assms
proof (induction n arbitrary: u w)
  case (Suc n)
  obtain r w1 where call: "llm (strengthen req) w = (r, w1)" by force
  show ?case
  proof (cases r)
    case (Inr resp)
    with Suc call show ?thesis
      by (cases "parse (rep_content resp)") (auto simp: Let_def unparsed_def)
  qed (use Suc call in \<open>auto simp: unparsed_def\<close>)
qed simp

lemma attempts_outcome:
  assumes "attempts llm parse req (Suc n) True u w = ((v, u'), w')"
  shows "v = outcome parse (dropWhile (unparsed parse) (retry_calls llm req n w))"
    and "u' = used_up u (answered (take (length (takeWhile (unparsed parse) (retry_calls llm req n w)) + 1)
        (retry_calls llm req n w)))"
proof -
  obtain r w1 where call: "llm req w = (r, w1)" by force
  have "v = outcome parse (dropWhile (unparsed parse) (retry_calls llm req n w))
      \<and> u' = used_up u (answered (take (length (takeWhile (unparsed parse) (retry_calls llm req n w)) + 1)
          (retry_calls llm req n w)))"
  proof (cases r)
    case (Inr resp)
    with assms call show ?thesis
      by (cases "parse (rep_content resp)")
        (auto simp: retry_calls_def Let_def unparsed_def dest!: same_attempts)
  qed (use assms call in \<open>auto simp: retry_calls_def unparsed_def\<close>)
  then show "v = outcome parse (dropWhile (unparsed parse) (retry_calls llm req n w))"
    and "u' = used_up u (answered (take (length (takeWhile (unparsed parse) (retry_calls llm req n w)) + 1)
        (retry_calls llm req n w)))" by blast+
qed

lemma used_up_calls:
  "llm_calls u = int k \<Longrightarrow> k + length resps < 2 ^ 62 \<Longrightarrow> llm_calls (used_up u resps) = int (k + length resps)"
proof (induction resps arbitrary: u k)
  case (Cons r resps)
  have "llm_calls (add_usage u (one_call r)) = int (Suc k)"
    using Cons.prems by (simp add: add_usage_def one_call_def wrap64_def)
  from Cons.IH [OF this] Cons.prems show ?case by simp
qed simp

lemma length_answered: "length (answered rs) \<le> length rs"
proof (induction rs)
  case (Cons r rs)
  then show ?case by (cases r) simp_all
qed simp

text \<open>
  C7. The replies the model would give to the request and then to its strengthened form decide what a
  selection call returns: the selection of the first reply that parses, the error of the first call that
  fails if it comes before, and the empty selection when none of the replies parses; the replies after
  it are never asked for. The usage is the sum over the replies that came, at most one more than the
  retries, and exactly that many when all of them came and none parsed.
\<close>
lemma selection_retry_degrades:
  assumes "0 \<le> retries" "retries < 2 ^ 61"
  shows "let rs = retry_calls llm req (nat retries) w;
      bad = takeWhile (unparsed (parse_selection unmarshal)) rs
    in case run_selection_with_retry llm unmarshal req retries w of
      ((v, u), w') \<Rightarrow>
        v = (if bad = rs then Inr ([], Map.empty)
             else case rs ! length bad of
                    Inl err \<Rightarrow> Inl err
                  | Inr resp \<Rightarrow> Inr (the (parse_selection unmarshal (rep_content resp))))
        \<and> u = used_up no_usage (answered (take (length bad + 1) rs))
        \<and> llm_calls u = int (length (answered (take (length bad + 1) rs)))
        \<and> llm_calls u \<le> retries + 1
        \<and> (bad = rs \<longrightarrow> llm_calls u = retries + 1)"
proof -
  let ?p = "parse_selection unmarshal"
  define rs where "rs = retry_calls llm req (nat retries) w"
  define bad where "bad = takeWhile (unparsed ?p) rs"
  obtain v u w' where a: "attempts llm ?p req (Suc (nat retries)) True no_usage w = ((v, u), w')"
    by (metis prod.exhaust)
  note o = attempts_outcome [OF a, folded rs_def bad_def]
  have rs: "int (length rs) = retries + 1" using assms(1) by (simp add: rs_def retry_calls_def split: prod.splits)
  have le: "length (answered (take (length bad + 1) rs)) \<le> length rs"
    by (rule order_trans [OF length_answered]) simp
  then have calls: "llm_calls u = int (length (answered (take (length bad + 1) rs)))"
    using o(2) rs assms(2) used_up_calls [of no_usage 0] by (simp add: no_usage_def)
  have split: "rs = bad @ dropWhile (unparsed ?p) rs" by (simp add: bad_def)
  have out: "if bad = rs then v = Inr None else
      (case rs ! length bad of Inl err \<Rightarrow> v = Inl err
        | Inr resp \<Rightarrow> v = Inr (Some (the (?p (rep_content resp)))))"
  proof (cases "dropWhile (unparsed ?p) rs")
    case Nil
    then have "v = Inr None" "bad = rs" using o(1) split by (simp_all only: outcome.simps append_Nil2)
    then show ?thesis by simp
  next
    case (Cons r rest)
    then have "rs ! length bad = r" "bad \<noteq> rs" using split by (metis nth_append_length, metis append_self_conv list.distinct(1))
    moreover have "\<not> unparsed ?p r" using Cons by (metis dropWhile_eq_Cons_conv)
    ultimately show ?thesis using o(1) Cons by (cases r) (auto simp: unparsed_def)
  qed
  have all: "bad = rs \<Longrightarrow> length (answered rs) = length rs"
  proof -
    assume "bad = rs"
    then have "\<forall>r \<in> set rs. unparsed ?p r" by (metis bad_def set_takeWhileD)
    then show ?thesis
    proof (induction rs)
      case (Cons r rs)
      then show ?case by (cases r) (simp_all add: unparsed_def)
    qed simp
  qed
  have run: "run_selection_with_retry llm unmarshal req retries w
      = (case v of Inl err \<Rightarrow> ((Inl err, u), w') | Inr None \<Rightarrow> ((Inr ([], Map.empty), u), w')
          | Inr (Some x) \<Rightarrow> ((Inr x, u), w'))"
    using a assms(1) by (simp add: run_selection_with_retry_def del: attempts.simps split: sum.split option.split)
  show ?thesis
    using out calls le rs all o(2) unfolding Let_def rs_def [symmetric] bad_def [symmetric] run
    by (auto split: sum.splits if_splits)
qed

text \<open>A model that never keeps to the schema, and one that does so from its \<open>k\<close>-th reply on.\<close>

definition rambling :: "nat \<Rightarrow> nat llm" where
  "rambling k q w = (Inr \<lparr>rep_content = (if w < k then ''x'' else []), rep_usage = no_usage\<rparr>, w + 1)"

lemma rambling_replies:
  "retry_calls (rambling k) req 2 0 = map (\<lambda>w. fst (rambling k req w)) [0, 1, 2]"
  "parse_selection (\<lambda>s. None) ''x'' = None" "parse_selection (\<lambda>s. None) [] = Some ([], Map.empty)"
proof -
  have "trim_space ''x'' = ''x''"
    by (rule trim_space_visible_ends) (simp_all add: visible_ascii_def less_char_def)
  then show "parse_selection (\<lambda>s. None) ''x'' = None" by (simp add: parse_selection_def Let_def)
qed (simp_all add: retry_calls_def rambling_def numeral_2_eq_2 parse_selection_def trim_space_Nil)

lemma selection_retry_degrades_witness:
  "(case run_selection_with_retry (rambling 9) (\<lambda>s. None) (selection_request [] ''m'' ''p'') 2 0 of
      ((v, u), w') \<Rightarrow> v = Inr ([], Map.empty) \<and> llm_calls u = 3)
    \<and> (case run_selection_with_retry (rambling 1) (\<lambda>s. None) (selection_request [] ''m'' ''p'') 2 0 of
      ((v, u), w') \<Rightarrow> v = Inr ([], Map.empty) \<and> llm_calls u = 2)"
  using selection_retry_degrades [of 2 "rambling 9" "selection_request [] ''m'' ''p''" 0 "\<lambda>s. None"]
    selection_retry_degrades [of 2 "rambling 1" "selection_request [] ''m'' ''p''" 0 "\<lambda>s. None"]
  by (auto simp: rambling_replies rambling_def unparsed_def split: prod.splits)

end
