(* ===== verification/Splitter.thy ===== *)
theory Splitter
  imports Selection
begin

text \<open>
  The structure-aware splitter (\<open>pkg/retrieval/splitter.go\<close>): a tree whose outline does not fit one
  call is cut into slices along sibling boundaries, recursing into a child that alone is too large.
  The tokenizer is a parameter that may fail and may change the outside world; without one the code
  estimates four characters a token. Token counts are far below 64 bits and are kept as integers.
\<close>

type_synonym 'w tokenizer = "(string \<Rightarrow> 'w \<Rightarrow> (string + int) \<times> 'w) option"

record slice =
  breadcrumb :: string
  sl_sections :: "section_view list"
  sl_siblings :: "section_view list"

text \<open>The views the splitter makes leave pages, questions and axes out.\<close>

definition bare_view :: "section_data \<Rightarrow> int \<Rightarrow> section_id list \<Rightarrow> section_view" where
  "bare_view d depth kids =
     \<lparr>sv_id = sid d, sv_parent = parent_id d, sv_depth = depth, sv_title = title d, sv_summary = summary d,
      sv_children = kids, sv_tokens = token_count d, sv_page_start = 0, sv_page_end = 0, sv_questions = [],
      sv_axes = None\<rparr>"

fun flat_sections :: "doc_section \<Rightarrow> int \<Rightarrow> section_view list" where
  "flat_sections (Section d cs) depth =
     bare_view d depth (map sec_id cs) # concat (map (\<lambda>c. flat_sections c (depth + 1)) cs)"

definition shallow_siblings :: "doc_section \<Rightarrow> int \<Rightarrow> section_view list" where
  "shallow_siblings node base_depth =
     map (\<lambda>c. \<lparr>sv_id = sec_id c, sv_parent = [], sv_depth = base_depth + 1, sv_title = title (data c),
        sv_summary = summary (data c), sv_children = [], sv_tokens = 0, sv_page_start = 0, sv_page_end = 0,
        sv_questions = [], sv_axes = None\<rparr>) (children node)"

definition render_cost_fallback :: "section_view list \<Rightarrow> int" where
  "render_cost_fallback svs =
     sum_list (map (\<lambda>sv. int (length (sv_title sv) + length (sv_summary sv) + length (sv_id sv) + 8)) svs) div 4"

definition measure_cost :: "'w tokenizer \<Rightarrow> section_view list \<Rightarrow> 'w \<Rightarrow> (string + int) \<times> 'w" where
  "measure_cost tok svs w =
     (case tok of
        None \<Rightarrow> (Inr (render_cost_fallback svs), w)
      | Some tokens \<Rightarrow> tokens (concat (map write_section_line svs)) w)"

definition arrow :: string where
  "arrow = '' '' @ [CHR 0xE2, CHR 0x86, CHR 0x92] @ '' ''"

definition flush_slice :: "string \<Rightarrow> section_view list \<Rightarrow> section_view list \<Rightarrow> slice list \<Rightarrow> slice list" where
  "flush_slice crumb siblings cur out =
     (if cur = [] then out
      else out @ [\<lparr>breadcrumb = crumb, sl_sections = cur, sl_siblings = siblings\<rparr>])"

definition number_slices :: "slice list \<Rightarrow> slice list" where
  "number_slices out =
     (if length out > 1
      then map (\<lambda>(i, s). s\<lparr>breadcrumb := breadcrumb s @ '' (slice '' @ itoa (int i + 1) @ '' of '' @ itoa (int (length out)) @ '')''\<rparr>)
             (zip [0..<length out] out)
      else out)"

text \<open>
  \<open>split_children\<close> is the loop over the children, with the slice being filled, its cost and the
  slices finished so far; an oversized child is split on its own, under a longer breadcrumb.
\<close>

function (sequential)
  split_node :: "'w tokenizer \<Rightarrow> bool \<Rightarrow> doc_section \<Rightarrow> string \<Rightarrow> int \<Rightarrow> int \<Rightarrow> 'w \<Rightarrow> (string + slice list) \<times> 'w" and
  split_children :: "'w tokenizer \<Rightarrow> bool \<Rightarrow> doc_section list \<Rightarrow> string \<Rightarrow> string \<Rightarrow> section_view list \<Rightarrow> int \<Rightarrow> int \<Rightarrow>
     section_view list \<Rightarrow> int \<Rightarrow> slice list \<Rightarrow> 'w \<Rightarrow> (string + section_view list \<times> slice list) \<times> 'w" where
  "split_node tok incl (Section d cs) crumb base avail w =
     (let siblings = (if incl then shallow_siblings (Section d cs) base else []);
          header = flat_sections (Section d cs) base;
          self_view = bare_view d base []
      in case measure_cost tok [self_view] w of
           (Inl err, w) \<Rightarrow> (Inl err, w)
         | (Inr self_cost, w) \<Rightarrow>
             (case split_children tok incl cs (title d) crumb siblings base avail [self_view] self_cost [] w of
                (Inl err, w) \<Rightarrow> (Inl err, w)
              | (Inr (cur, out), w) \<Rightarrow>
                  let out = flush_slice crumb siblings cur out;
                      out = (if out = [] then [\<lparr>breadcrumb = crumb, sl_sections = header, sl_siblings = siblings\<rparr>] else out)
                  in (Inr (number_slices out), w)))"
| "split_children tok incl [] name crumb siblings base avail cur cost out w = (Inr (cur, out), w)"
| "split_children tok incl (c # cs) name crumb siblings base avail cur cost out w =
     (let sub = flat_sections c (base + 1)
      in case measure_cost tok sub w of
           (Inl err, w) \<Rightarrow> (Inl err, w)
         | (Inr k, w) \<Rightarrow>
             if k > avail
             then let out = flush_slice crumb siblings cur out;
                      child_crumb = (if name \<noteq> [] then crumb @ arrow @ name else crumb)
                  in (case split_node tok incl c child_crumb (base + 1) avail w of
                        (Inl err, w) \<Rightarrow> (Inl err, w)
                      | (Inr subs, w) \<Rightarrow>
                          split_children tok incl cs name crumb siblings base avail [] 0 (out @ subs) w)
             else if cost + k > avail \<and> cur \<noteq> []
             then split_children tok incl cs name crumb siblings base avail sub k (flush_slice crumb siblings cur out) w
             else split_children tok incl cs name crumb siblings base avail (cur @ sub) (cost + k) out w)"
  by pat_completeness auto
termination
  by (relation "measure (\<lambda>x. case x of
        Inl (_, _, s, _) \<Rightarrow> 2 * size s
      | Inr (_, _, cs, _) \<Rightarrow> 2 * size_list size cs + 1)") auto

declare split_node.simps [simp del] split_children.simps [simp del]

definition split_tree ::
    "bool \<Rightarrow> 'w tokenizer \<Rightarrow> tree \<Rightarrow> context_budget \<Rightarrow> 'w \<Rightarrow> (string + slice list) \<times> 'w" where
  "split_tree incl tok t budget w =
     (case tree_root t of
        None \<Rightarrow> (Inr [], w)
      | Some r \<Rightarrow>
          let avail = (if available budget \<le> 0 then max_tokens budget else available budget)
          in if avail \<le> 0
             then (let view = build_view t
                   in (Inr [\<lparr>breadcrumb = ''Document: '' @ view_title view, sl_sections = view_sections view, sl_siblings = []\<rparr>], w))
             else let full = flat_sections r 0
                  in (case measure_cost tok full w of
                        (Inl err, w) \<Rightarrow> (Inl err, w)
                      | (Inr cost, w) \<Rightarrow>
                          if cost \<le> avail
                          then (Inr [\<lparr>breadcrumb = ''Document: '' @ tree_title t, sl_sections = full, sl_siblings = []\<rparr>], w)
                          else split_node tok incl r (''Document: '' @ tree_title t) 0 avail w))"

subsection \<open>Nothing is lost\<close>

definition slice_ids :: "slice list \<Rightarrow> section_id list" where
  "slice_ids out = concat (map (\<lambda>s. map sv_id (sl_sections s)) out)"

lemma slice_ids_append [simp]: "slice_ids (xs @ ys) = slice_ids xs @ slice_ids ys"
  by (simp add: slice_ids_def)

lemma slice_ids_Nil [simp]: "slice_ids [] = []"
  by (simp add: slice_ids_def)

lemma flat_sections_ids: "map sv_id (flat_sections s depth) = map sec_id (preorder s)"
proof (induction s arbitrary: depth)
  case (Section d cs)
  then have "map sv_id (concat (map (\<lambda>c. flat_sections c (depth + 1)) cs)) = map sec_id (concat (map preorder cs))"
    by (induction cs) auto
  then show ?case by (simp add: bare_view_def)
qed

lemma slice_ids_flush [simp]: "slice_ids (flush_slice crumb sib cur out) = slice_ids out @ map sv_id cur"
  by (simp add: flush_slice_def slice_ids_def)

lemma number_slices_sections: "map sl_sections (number_slices out) = map sl_sections out"
proof (cases "length out > 1")
  case True
  then show ?thesis unfolding number_slices_def by (intro nth_equalityI) simp_all
qed (simp add: number_slices_def)

lemma slice_ids_number [simp]: "slice_ids (number_slices out) = slice_ids out"
  unfolding slice_ids_def by (metis (no_types, lifting) map_map number_slices_sections comp_def map_eq_conv)

definition no_empty :: "slice list \<Rightarrow> bool" where
  "no_empty out \<longleftrightarrow> (\<forall>s \<in> set out. sl_sections s \<noteq> [])"

lemma no_empty_flush: "no_empty out \<Longrightarrow> no_empty (flush_slice crumb sib cur out)"
  by (auto simp: no_empty_def flush_slice_def)

lemma no_empty_iff: "no_empty out \<longleftrightarrow> [] \<notin> set (map sl_sections out)"
  by (induction out) (auto simp: no_empty_def)

lemma no_empty_number [simp]: "no_empty (number_slices out) = no_empty out"
  by (simp only: no_empty_iff number_slices_sections)

lemma split_complete:
  fixes tok :: "'w tokenizer"
  shows "split_node tok incl s crumb base avail w = (Inr out, w') \<Longrightarrow>
      slice_ids out = map sec_id (preorder s) \<and> no_empty out"
    and "split_children tok incl cs name crumb sib base avail cur cost out0 w = (Inr (cur', out'), w') \<Longrightarrow> no_empty out0 \<Longrightarrow>
      slice_ids out' @ map sv_id cur' = slice_ids out0 @ map sv_id cur @ map sec_id (concat (map preorder cs))
      \<and> no_empty out' \<and> (cur \<noteq> [] \<or> out0 \<noteq> [] \<longrightarrow> cur' \<noteq> [] \<or> out' \<noteq> [])"
proof (induction tok incl s crumb base avail w and tok incl cs name crumb sib base avail cur cost out0 w
    arbitrary: out w' and cur' out' w' rule: split_node_split_children.induct)
  case (1 tok incl d cs crumb base avail w)
  let ?sib = "if incl then shallow_siblings (Section d cs) base else []"
  obtain m w1 where m: "measure_cost tok [bare_view d base []] w = (m, w1)" by force
  with "1.prems" obtain k where k: "m = Inr k" by (cases m) (simp_all add: split_node.simps)
  obtain p w2 where p: "split_children tok incl cs (title d) crumb ?sib base avail [bare_view d base []] k [] w1 = (p, w2)"
    by force
  with "1.prems" m k obtain cur out' where q: "p = Inr (cur, out')"
    by (cases p) (auto simp: split_node.simps Let_def)
  have IH: "slice_ids out' @ map sv_id cur = sid d # map sec_id (concat (map preorder cs))" "no_empty out'"
    "cur \<noteq> [] \<or> out' \<noteq> []"
    using "1.IH" [OF refl refl refl m [symmetric] k, of cur out' w2] p q
    by (simp_all add: no_empty_def bare_view_def Let_def)
  then have ne: "flush_slice crumb ?sib cur out' \<noteq> []" by (auto simp: flush_slice_def)
  have "out = number_slices (flush_slice crumb ?sib cur out')"
    using "1.prems" m k p q ne by (simp add: split_node.simps Let_def)
  with IH show ?case by (simp add: no_empty_flush)
next
  case (2 tok incl name crumb sib base avail cur cost out0 w)
  then show ?case by (simp add: split_children.simps)
next
  case (3 tok incl c cs name crumb sib base avail cur cost out0 w)
  let ?sub = "flat_sections c (base + 1)"
  obtain m w1 where m: "measure_cost tok ?sub w = (m, w1)" by force
  with "3.prems" obtain k where k: "m = Inr k" by (cases m) (simp_all add: split_children.simps Let_def)
  have sub_ne: "?sub \<noteq> []" by (cases c) simp
  have sub_ids: "map sv_id ?sub = map sec_id (preorder c)" by (rule flat_sections_ids)
  show ?case
  proof (cases "k > avail")
    case True
    let ?crumb = "if name \<noteq> [] then crumb @ arrow @ name else crumb"
    obtain p w2 where p: "split_node tok incl c ?crumb (base + 1) avail w1 = (p, w2)" by force
    with "3.prems" m k True obtain subs where q: "p = Inr subs"
      by (cases p) (simp_all add: split_children.simps Let_def)
    have rest: "split_children tok incl cs name crumb sib base avail [] 0 (flush_slice crumb sib cur out0 @ subs) w2
        = (Inr (cur', out'), w')"
      using "3.prems" m k True p q by (simp add: split_children.simps Let_def)
    have sub: "slice_ids subs = map sec_id (preorder c)" "no_empty subs"
      using "3.IH"(1) [OF refl m [symmetric] k True refl refl] p q by auto
    have ne: "no_empty (flush_slice crumb sib cur out0 @ subs)"
      using no_empty_flush [OF "3.prems"(2), of crumb sib cur] sub(2) by (auto simp: no_empty_def)
    have "subs \<noteq> []" using sub(1) by (cases c) (auto simp: slice_ids_def)
    then show ?thesis
      using "3.IH"(2) [OF refl m [symmetric] k True refl refl p [symmetric] q rest ne] sub(1) by simp
  next
    case small: False
    show ?thesis
    proof (cases "cost + k > avail \<and> cur \<noteq> []")
      case True
      have rest: "split_children tok incl cs name crumb sib base avail ?sub k (flush_slice crumb sib cur out0) w1
          = (Inr (cur', out'), w')"
        using "3.prems" m k small True by (simp add: split_children.simps Let_def)
      show ?thesis
        using "3.IH"(3) [OF refl m [symmetric] k small True rest no_empty_flush [OF "3.prems"(2)]] sub_ne sub_ids by simp
    next
      case False
      have rest: "split_children tok incl cs name crumb sib base avail (cur @ ?sub) (cost + k) out0 w1
          = (Inr (cur', out'), w')"
        using "3.prems" m k small False by (simp add: split_children.simps Let_def)
      show ?thesis
        using "3.IH"(4) [OF refl m [symmetric] k small False rest "3.prems"(2)] sub_ne sub_ids by simp
    qed
  qed
qed


subsection \<open>Properties\<close>

lemma view_sections_ids: "map sv_id (view_sections (build_view t)) = map sec_id (tree_sections t)"
  by (rule view_ids)

text \<open>The slices hold the sections of the document, in preorder, each once.\<close>

lemma split_covers:
  assumes "split_tree incl tok t budget w = (Inr out, w')"
  shows "slice_ids out = map sec_id (tree_sections t) \<and> (tree_root t \<noteq> None \<longrightarrow> no_empty out)"
proof (cases "tree_root t")
  case None
  with assms show ?thesis by (simp add: split_tree_def tree_sections_def)
next
  case (Some r)
  then have secs: "tree_sections t = preorder r" by (simp add: tree_sections_def)
  have ne: "preorder r \<noteq> []" by (cases r) simp
  define avail where "avail = (if available budget \<le> 0 then max_tokens budget else available budget)"
  have ids: "map sv_id (flat_sections r 0) = map sec_id (preorder r)" by (rule flat_sections_ids)
  show ?thesis
  proof (cases "avail \<le> 0")
    case True
    with assms Some have "out = [\<lparr>breadcrumb = ''Document: '' @ view_title (build_view t),
        sl_sections = view_sections (build_view t), sl_siblings = []\<rparr>]"
      by (simp add: split_tree_def Let_def avail_def)
    then show ?thesis
      using view_sections_ids [of t] ne by (auto simp: slice_ids_def no_empty_def secs)
  next
    case False
    obtain m w1 where m: "measure_cost tok (flat_sections r 0) w = (m, w1)" by force
    with assms Some False obtain k where k: "m = Inr k"
      by (cases m) (simp_all add: split_tree_def Let_def avail_def)
    show ?thesis
    proof (cases "k \<le> avail")
      case True
      with assms Some False m k have "out = [\<lparr>breadcrumb = ''Document: '' @ tree_title t,
          sl_sections = flat_sections r 0, sl_siblings = []\<rparr>]"
        by (simp add: split_tree_def Let_def avail_def)
      then show ?thesis using ids ne by (auto simp: slice_ids_def no_empty_def secs)
    next
      case big: False
      have "split_node tok incl r (''Document: '' @ tree_title t) 0 avail w1 = (Inr out, w')"
        using assms Some False m k big by (simp add: split_tree_def Let_def avail_def)
      from split_complete(1) [OF this] show ?thesis by (simp add: secs)
    qed
  qed
qed

text \<open>
  C6. Splitting neither loses nor repeats a section: read in order, the slices hold exactly the sections
  of the tree, each once and in document order, and no slice is empty; for any tokenizer.
\<close>
lemma split_tree_covers:
  assumes "split_tree incl tok t budget w = (Inr out, w')"
  shows "slice_ids out = map sec_id (tree_sections t) \<and> (tree_root t \<noteq> None \<longrightarrow> no_empty out)"
  using assms by (rule split_covers)

lemma split_tree_covers_witness:
  "\<exists>out. fst (split_tree True (Some (\<lambda>s w. (Inr (int (length s)), w))) sample_tree
      \<lparr>model_name = ''m'', max_tokens = 0, reserved_for_prompt = 0, max_parallel_calls = 1\<rparr> ()) = Inr out
     \<and> slice_ids out = map sec_id (tree_sections sample_tree)"
proof -
  let ?tok = "Some (\<lambda>s w. (Inr (int (length s)), w)) :: unit tokenizer"
  let ?b = "\<lparr>model_name = ''m'', max_tokens = 0, reserved_for_prompt = 0, max_parallel_calls = 1\<rparr>"
  have "\<exists>out. split_tree True ?tok sample_tree ?b () = (Inr out, ())"
    by (simp add: split_tree_def sample_tree_def available_def wrap64_def Let_def)
  then obtain out where out: "split_tree True ?tok sample_tree ?b () = (Inr out, ())" ..
  from split_tree_covers [OF this] out show ?thesis by simp
qed

end
