(* ===== verification/Chunked_Tree.thy ===== *)
theory Chunked_Tree
  imports Splitter
begin

text \<open>
  The chunked-tree strategy (\<open>pkg/retrieval/chunked_tree.go\<close>): one selection call per slice, run
  concurrently, and a merge of the results by slice index.

  The goroutines only meet in the outside world (the model) and each writes its own slot, so a run is a
  sequential one in the order in which the calls take place; that order is the argument \<open>sched\<close>,
  which gives the order for a number of slices. The first call that fails ends the run with its error
  (\<open>errgroup\<close> returns the first error, and the group's context cancels the rest).
\<close>

record slice_result =
  sres_ids :: "section_id list"
  sres_confidences :: "section_id \<Rightarrow> f64 option"
  sres_usage :: usage

definition no_slice_result :: slice_result where
  "no_slice_result = \<lparr>sres_ids = [], sres_confidences = Map.empty, sres_usage = no_usage\<rparr>"

definition reason_over_slice ::
    "'w select_env \<Rightarrow> slice \<Rightarrow> string \<Rightarrow> context_budget \<Rightarrow> 'w \<Rightarrow> (string + slice_result) \<times> 'w" where
  "reason_over_slice env sl query budget w =
     (case run_selection_with_retry (se_llm env) (se_unmarshal env)
            (selection_request (se_system env) (model_name budget)
              (build_selection_prompt (breadcrumb sl) (sl_sections sl) (sl_siblings sl) query)) 2 w of
        ((Inl err, u), w') \<Rightarrow> (Inl err, w')
      | ((Inr (ids, confs), u), w') \<Rightarrow>
          let filtered = filter_known_ids ids (sl_sections sl)
          in (Inr \<lparr>sres_ids = filtered, sres_confidences = filter_confidences confs filtered, sres_usage = u\<rparr>, w'))"

fun run_slices ::
    "'w select_env \<Rightarrow> slice list \<Rightarrow> string \<Rightarrow> context_budget \<Rightarrow> nat list \<Rightarrow> slice_result list \<Rightarrow> 'w \<Rightarrow>
     (string + slice_result list) \<times> 'w" where
  "run_slices env slices query budget [] results w = (Inr results, w)"
| "run_slices env slices query budget (i # order) results w =
     (case reason_over_slice env (slices ! i) query budget w of
        (Inl err, w') \<Rightarrow> (Inl err, w')
      | (Inr sr, w') \<Rightarrow> run_slices env slices query budget order (results[i := sr]) w')"

text \<open>Where two slices score one section the higher confidence stays.\<close>

definition merge_confidence ::
    "(section_id \<Rightarrow> f64 option) \<Rightarrow> (section_id \<Rightarrow> f64 option) \<Rightarrow> section_id \<Rightarrow> f64 option" where
  "merge_confidence m r i =
     (case r i of
        None \<Rightarrow> m i
      | Some c \<Rightarrow> (case m i of None \<Rightarrow> Some c | Some old \<Rightarrow> if f_lt old c then Some c else Some old))"

definition union_merge :: "section_id list list \<Rightarrow> section_id list" where
  "union_merge per_slice = sort (dedup_by id [] (concat per_slice))"

definition merge_slices ::
    "'w select_env \<Rightarrow> tree \<Rightarrow> context_budget \<Rightarrow> slice_result list \<Rightarrow> result" where
  "merge_slices env t budget results =
     (let selected = union_merge (map sres_ids results);
          merged = fold (\<lambda>r m. merge_confidence m (sres_confidences r)) results Map.empty
      in empty_result\<lparr>selected_ids := selected,
           confidences := filter_confidences merged selected,
           res_usage := fold (\<lambda>r u. add_usage u (sres_usage r)) results no_usage,
           hops_taken := 1,
           trace_token := compute_trace_token (se_sha env) (doc_id t) ''1'' (model_name budget) selected\<rparr>)"

definition chunked_select ::
    "'w select_env \<Rightarrow> 'w tokenizer \<Rightarrow> (nat \<Rightarrow> nat list) \<Rightarrow> tree \<Rightarrow> string \<Rightarrow> context_budget \<Rightarrow> 'w \<Rightarrow> (string + result) \<times> 'w" where
  "chunked_select env tok sched t query budget w =
     (if tree_root t = None then (Inr empty_result, w)
      else case split_tree True tok t budget w of
             (Inl err, w1) \<Rightarrow> (Inl err, w1)
           | (Inr slices, w1) \<Rightarrow>
               (case run_slices env slices query budget (sched (length slices))
                       (replicate (length slices) no_slice_result) w1 of
                  (Inl err, w2) \<Rightarrow> (Inl err, w2)
                | (Inr results, w2) \<Rightarrow> (Inr (merge_slices env t budget results), w2)))"

subsection \<open>The contract\<close>

lemma set_union_merge: "set (union_merge per) = \<Union> (set (map set per))"
  by (simp add: union_merge_def seen_simps)

lemma distinct_union_merge: "distinct (union_merge per)"
  by (simp add: union_merge_def seen_simps)

lemma reason_over_slice_ids:
  "reason_over_slice env sl query budget w = (Inr sr, w') \<Longrightarrow> set (sres_ids sr) \<subseteq> sv_id ` set (sl_sections sl)"
  by (auto simp: reason_over_slice_def filter_known_ids_set Let_def split: prod.splits sum.splits)

lemma slice_result_ids:
  "i < length slices \<Longrightarrow> sv_id ` set (sl_sections (slices ! i)) \<subseteq> set (slice_ids slices)"
  by (force simp: slice_ids_def)

lemma run_slices_ids:
  assumes "run_slices env slices query budget order results w = (Inr results', w')"
    and "\<forall>i \<in> set order. i < length slices" "\<forall>r \<in> set results. set (sres_ids r) \<subseteq> S" "set (slice_ids slices) \<subseteq> S"
  shows "\<forall>r \<in> set results'. set (sres_ids r) \<subseteq> S"
  using assms(1-3)
proof (induction order arbitrary: results w)
  case (Cons i order)
  obtain v w1 where v: "reason_over_slice env (slices ! i) query budget w = (v, w1)" by force
  with Cons.prems(1) obtain sr where sr: "v = Inr sr" by (cases v) simp_all
  have "set (sres_ids sr) \<subseteq> S"
    using reason_over_slice_ids [of env "slices ! i" query budget w sr w1] v sr slice_result_ids [of i slices]
      Cons.prems(2) assms(4) by fastforce
  then have "\<forall>r \<in> set (results[i := sr]). set (sres_ids r) \<subseteq> S"
    using Cons.prems(3) by (auto dest!: set_update_subset_insert [THEN subsetD])
  with Cons.IH [of "results[i := sr]" w1] Cons.prems v sr show ?case by simp
qed simp

lemma chunked_ids:
  assumes "chunked_select env tok sched t query budget w = (Inr r, w')" "schedule sched"
  shows "set (selected_ids r) \<subseteq> sec_id ` set (tree_sections t) \<and> distinct (selected_ids r)
    \<and> dom (confidences r) \<subseteq> set (selected_ids r)"
proof (cases "tree_root t = None")
  case True
  with assms(1) show ?thesis by (auto simp: chunked_select_def)
next
  case False
  obtain v w1 where v: "split_tree True tok t budget w = (v, w1)" by force
  with assms(1) False obtain slices where slices: "v = Inr slices"
    by (cases v) (simp_all add: chunked_select_def)
  obtain v2 w2 where v2: "run_slices env slices query budget (sched (length slices))
      (replicate (length slices) no_slice_result) w1 = (v2, w2)" by force
  with assms(1) False v slices obtain results where results: "v2 = Inr results"
    by (cases v2) (simp_all add: chunked_select_def)
  have r: "r = merge_slices env t budget results"
    using assms(1) False v slices v2 results by (simp add: chunked_select_def)
  have "slice_ids slices = map sec_id (tree_sections t)"
    using split_covers [of True tok t budget w slices w1] v slices by simp
  then have "\<forall>r \<in> set results. set (sres_ids r) \<subseteq> sec_id ` set (tree_sections t)"
    using run_slices_ids [of env slices query budget "sched (length slices)"
        "replicate (length slices) no_slice_result" w1 results w2 "sec_id ` set (tree_sections t)"] v2 results assms(2)
    by (auto simp: schedule_def no_slice_result_def)
  then show ?thesis
    by (auto simp: r merge_slices_def Let_def set_union_merge distinct_union_merge filter_confidences_def)
qed

interpretation chunked: strategy "chunked_select env tok in_order" for env :: "'w select_env" and tok :: "'w tokenizer"
proof
  fix t query budget and w w' :: 'w and r
  assume "chunked_select env tok in_order t query budget w = (Inr r, w')"
  note ids = chunked_ids [OF this schedule_in_order]
  show "set (selected_ids r) \<subseteq> sec_id ` set (tree_sections t)" using ids by blast
  show "distinct (selected_ids r)" using ids by blast
  show "dom (confidences r) \<subseteq> set (selected_ids r)" using ids by blast
qed

subsection \<open>The order of the calls does not matter\<close>

text \<open>A model is stateless when its reply depends on the request only.\<close>

definition stateless :: "'w llm \<Rightarrow> bool" where
  "stateless llm \<longleftrightarrow> (\<forall>q w w'. fst (llm q w) = fst (llm q w'))"

lemma attempts_stateless:
  assumes "stateless llm"
  shows "fst (attempts llm parse req n first u w) = fst (attempts llm parse req n first u w')"
proof (induction n arbitrary: first u w w')
  case (Suc n)
  let ?q = "if first then req else strengthen req"
  obtain v w1 w2 where v: "llm ?q w = (v, w1)" "llm ?q w' = (v, w2)"
    using assms unfolding stateless_def by (metis prod.collapse)
  show ?case
  proof (cases v)
    case (Inr resp)
    show ?thesis using Suc [of False "add_usage u (one_call resp)" w1 w2] v Inr
      by (auto simp: Let_def split: option.splits)
  qed (use v in simp)
qed simp

lemma run_selection_stateless:
  assumes "stateless llm"
  shows "fst (run_selection_with_retry llm unm req k w) = fst (run_selection_with_retry llm unm req k w')"
proof -
  let ?a = "attempts llm (parse_selection unm) req (nat (max k 0) + 1) True no_usage"
  obtain v u w1 w2 where "?a w = ((v, u), w1)" "?a w' = ((v, u), w2)"
    using attempts_stateless [OF assms] by (metis prod.collapse)
  then show ?thesis
    by (cases v) (auto simp: run_selection_with_retry_def simp del: attempts.simps split: option.splits)
qed

lemma reason_over_slice_stateless:
  assumes "stateless (se_llm env)"
  shows "fst (reason_over_slice env sl query budget w) = fst (reason_over_slice env sl query budget w')"
proof -
  let ?r = "run_selection_with_retry (se_llm env) (se_unmarshal env)
            (selection_request (se_system env) (model_name budget)
              (build_selection_prompt (breadcrumb sl) (sl_sections sl) (sl_siblings sl) query)) 2"
  obtain v u w1 w2 where "?r w = ((v, u), w1)" "?r w' = ((v, u), w2)"
    using run_selection_stateless [OF assms] by (metis prod.collapse)
  then show ?thesis by (cases v) (auto simp: reason_over_slice_def Let_def split: prod.splits)
qed

text \<open>For a stateless model a completed run holds, in every slot, that slice's own answer.\<close>

definition slice_answer :: "'w select_env \<Rightarrow> slice list \<Rightarrow> string \<Rightarrow> context_budget \<Rightarrow> nat \<Rightarrow> 'w \<Rightarrow> string + slice_result" where
  "slice_answer env slices query budget i w = fst (reason_over_slice env (slices ! i) query budget w)"

lemma run_slices_answers:
  assumes "stateless (se_llm env)" "run_slices env slices query budget order results w = (Inr results', w')"
    and "distinct order" "\<forall>i \<in> set order. i < length results"
  shows "length results' = length results
    \<and> (\<forall>i < length results. if i \<in> set order then slice_answer env slices query budget i w0 = Inr (results' ! i)
         else results' ! i = results ! i)"
  using assms(2-4)
proof (induction order arbitrary: results w)
  case (Cons j order)
  obtain v w1 where v: "reason_over_slice env (slices ! j) query budget w = (v, w1)" by force
  with Cons.prems(1) obtain sr where sr: "v = Inr sr" by (cases v) simp_all
  have ans: "slice_answer env slices query budget j w0 = Inr sr"
    using reason_over_slice_stateless [OF assms(1), of "slices ! j" query budget w0 w] v sr
    by (simp add: slice_answer_def)
  have rest: "run_slices env slices query budget order (results[j := sr]) w1 = (Inr results', w')"
    using Cons.prems(1) v sr by simp
  from Cons.IH [OF rest] Cons.prems(2,3)
  have IH: "length results' = length results" "\<forall>i < length results.
      if i \<in> set order then slice_answer env slices query budget i w0 = Inr (results' ! i)
      else results' ! i = results[j := sr] ! i"
    by simp_all
  moreover have "results' ! j = sr" using IH(2) Cons.prems(2,3) by simp
  ultimately show ?case using ans Cons.prems(2) by (auto simp: nth_list_update)
qed simp

lemma run_slices_success:
  assumes "stateless (se_llm env)" "\<forall>i \<in> set order. \<exists>sr. slice_answer env slices query budget i w0 = Inr sr"
  shows "\<exists>results' w'. run_slices env slices query budget order results w = (Inr results', w')"
  using assms(2)
proof (induction order arbitrary: results w)
  case (Cons i order)
  obtain sr w1 where "reason_over_slice env (slices ! i) query budget w = (Inr sr, w1)"
    using reason_over_slice_stateless [OF assms(1), of "slices ! i" query budget w0 w] Cons.prems
    by (metis insertI1 list.simps(15) prod.collapse slice_answer_def)
  with Cons show ?case by simp
qed simp

lemma run_slices_schedule:
  assumes "stateless (se_llm env)" "schedule s1" "schedule s2"
    and run: "run_slices env slices query budget (s1 (length slices)) (replicate (length slices) no_slice_result) w = (Inr results, w1)"
  shows "\<exists>w2. run_slices env slices query budget (s2 (length slices)) (replicate (length slices) no_slice_result) w = (Inr results, w2)"
proof -
  let ?n = "length slices" and ?init = "replicate (length slices) no_slice_result"
  have perm: "distinct (s1 ?n)" "set (s1 ?n) = {0..<?n}" "distinct (s2 ?n)" "set (s2 ?n) = {0..<?n}"
    using assms(2,3) by (simp_all add: schedule_def)
  have a1: "length results = ?n" "\<forall>i < ?n. slice_answer env slices query budget i w = Inr (results ! i)"
    using run_slices_answers [OF assms(1) run, of w] perm by auto
  then obtain results2 w2 where run2: "run_slices env slices query budget (s2 ?n) ?init w = (Inr results2, w2)"
    using run_slices_success [OF assms(1), of "s2 ?n" slices query budget w ?init w] perm(4) by auto
  have "length results2 = ?n" "\<forall>i < ?n. slice_answer env slices query budget i w = Inr (results2 ! i)"
    using run_slices_answers [OF assms(1) run2, of w] perm by auto
  with a1 have "results2 = results" by (intro nth_equalityI) auto
  with run2 show ?thesis by blast
qed

subsection \<open>Properties\<close>

text \<open>
  Whatever the model replies and in whatever order the concurrent calls run, the chunked strategy
  selects sections of the document only, each once, and states confidences for those only.
\<close>
lemma chunked_selects_known:
  assumes "chunked_select env tok sched t query budget w = (Inr r, w')" "schedule sched"
  shows "distinct (selected_ids r) \<and> set (selected_ids r) \<subseteq> sec_id ` set (tree_sections t)
    \<and> dom (confidences r) \<subseteq> set (selected_ids r)"
  using chunked_ids [OF assms] by blast

text \<open>
  C5. The order in which the concurrent calls run cannot change the answer: when the model is stateless
  and one order succeeds, every order succeeds with the same selection, confidences, usage and token.
\<close>
lemma chunked_order_independent:
  assumes "stateless (se_llm env)" "schedule s1" "schedule s2"
    and "chunked_select env tok s1 t query budget w = (Inr r, w1)"
  shows "fst (chunked_select env tok s2 t query budget w) = Inr r"
proof (cases "tree_root t = None")
  case True
  with assms(4) show ?thesis by (simp add: chunked_select_def)
next
  case False
  obtain v w1' where v: "split_tree True tok t budget w = (v, w1')" by force
  with assms(4) False obtain slices where slices: "v = Inr slices"
    by (cases v) (simp_all add: chunked_select_def)
  obtain v2 w2 where v2: "run_slices env slices query budget (s1 (length slices))
      (replicate (length slices) no_slice_result) w1' = (v2, w2)" by force
  with assms(4) False v slices obtain results where results: "v2 = Inr results"
    by (cases v2) (simp_all add: chunked_select_def)
  from run_slices_schedule [OF assms(1-3), of slices query budget w1' results w2] v2 results
  obtain w3 where "run_slices env slices query budget (s2 (length slices))
      (replicate (length slices) no_slice_result) w1' = (Inr results, w3)" by blast
  moreover obtain r0 where "tree_root t = Some r0" using False by blast
  ultimately show ?thesis using assms(4) v slices v2 results by (simp add: chunked_select_def)
qed

definition sample_wide :: context_budget where
  "sample_wide = \<lparr>model_name = ''m'', max_tokens = 0, reserved_for_prompt = 0, max_parallel_calls = 1\<rparr>"

lemma sample_stateless: "stateless (se_llm sample_select_env)"
  by (simp add: stateless_def sample_select_env_def)

lemma sample_chunked: "\<exists>r. chunked_select sample_select_env None in_order sample_tree ''q'' sample_wide () = (Inr r, ())"
proof -
  have answers: "\<forall>q w. \<exists>resp w'. se_llm sample_select_env q w = (Inr resp, w')"
    by (simp add: sample_select_env_def)
  have ok: "\<exists>sr. reason_over_slice sample_select_env sl q b () = (Inr sr, ())" for sl q b
  proof -
    let ?req = "selection_request (se_system sample_select_env) (model_name b)
              (build_selection_prompt (breadcrumb sl) (sl_sections sl) (sl_siblings sl) q)"
    obtain v u where run: "run_selection_with_retry (se_llm sample_select_env) (se_unmarshal sample_select_env) ?req 2 () = ((v, u), ())"
      by (cases "run_selection_with_retry (se_llm sample_select_env) (se_unmarshal sample_select_env) ?req 2 ()") auto
    with run_selection_answered [OF answers] obtain ids confs where "v = Inr (ids, confs)" by blast
    with run show ?thesis by (simp add: reason_over_slice_def Let_def)
  qed
  obtain sl where sl: "split_tree True None sample_tree sample_wide () = (Inr [sl], ())"
    by (simp add: split_tree_def sample_tree_def sample_wide_def available_def wrap64_def Let_def)
  obtain sr where "reason_over_slice sample_select_env sl ''q'' sample_wide () = (Inr sr, ())" using ok by blast
  then have "run_slices sample_select_env [sl] ''q'' sample_wide (in_order (length [sl]))
      (replicate (length [sl]) no_slice_result) () = (Inr [sr], ())" by (simp add: in_order_def)
  moreover have "(tree_root sample_tree = None) = False" by (simp add: sample_tree_def)
  ultimately show ?thesis using sl by (simp add: chunked_select_def)
qed

lemma chunked_selects_known_witness:
  "\<exists>r. fst (chunked_select sample_select_env None in_order sample_tree ''q'' sample_wide ()) = Inr r \<and> distinct (selected_ids r)"
proof -
  obtain r where r: "chunked_select sample_select_env None in_order sample_tree ''q'' sample_wide () = (Inr r, ())"
    using sample_chunked by blast
  from chunked_selects_known [OF this schedule_in_order] r show ?thesis by simp
qed

lemma chunked_order_independent_witness:
  "\<exists>r. fst (chunked_select sample_select_env None (rev \<circ> in_order) sample_tree ''q'' sample_wide ()) = Inr r"
proof -
  obtain r where r: "chunked_select sample_select_env None in_order sample_tree ''q'' sample_wide () = (Inr r, ())"
    using sample_chunked by blast
  have "schedule (rev \<circ> in_order)" by (simp add: schedule_def in_order_def)
  from chunked_order_independent [OF sample_stateless schedule_in_order this r] show ?thesis by blast
qed

end
