(* ===== verification/Re_Rank.thy ===== *)
theory Re_Rank
  imports Selection
begin

text \<open>
  Re-ranking candidates by a model's scores (\<open>pkg/retrieval/rerank.go\<close>): the prompt, the reply, the
  retries, and the merge that may reorder candidates but never drops one.
\<close>

subsection \<open>Data\<close>

record section_content =
  sc_id :: section_id
  sc_title :: string
  sc_content :: string

record scored_section =
  ss_id :: section_id
  ss_score :: f64
  ss_reason :: string

record rerank_item =
  ri_id :: string
  ri_score :: f64
  ri_reason :: string

record 'w re_ranker =
  rr_llm :: "'w llm"
  rr_unmarshal :: "string \<Rightarrow> rerank_item list option"
  rr_system :: string
  rr_model :: string
  rr_max_chars :: int
  rr_max_retries :: int

subsection \<open>The prompt and the reply\<close>

definition candidate_block :: "int \<Rightarrow> section_content \<Rightarrow> string" where
  "candidate_block max_chars c =
     ''['' @ sc_id c @ ''] '' @ sc_title c @ eol
     @ (let excerpt = trim_space (sc_content c)
        in if excerpt = [] then ''(section body is empty)'' @ eol
           else (if int (length excerpt) > max_chars then take (nat max_chars) excerpt @ ellipsis else excerpt) @ eol)"

definition at_most :: string where
  "at_most = [CHR 0xE2, CHR 0x89, CHR 0xA4]"

definition build_re_rank_prompt :: "string \<Rightarrow> section_content list \<Rightarrow> int \<Rightarrow> string" where
  "build_re_rank_prompt query candidates max_chars =
     ''User query:'' @ eol @ query @ eol @ eol @ ''Candidate sections:'' @ eol
     @ join (map (candidate_block max_chars) candidates) eol
     @ eol @ ''Return a JSON object with a `scores` array. Each entry has `id` (string, exactly as shown above), `score` (number, 0-100), and `reason` (string, ''
     @ at_most @ ''120 chars). Score every section in the candidate list.''"

definition scored_item :: "rerank_item \<Rightarrow> scored_section option" where
  "scored_item it =
     (let i = trim_space (ri_id it)
      in if i = [] then None
         else Some \<lparr>ss_id = i, ss_score = (if f_lt (ri_score it) (Fin 0) then Fin 0 else ri_score it),
                ss_reason = trim_space (ri_reason it)\<rparr>)"

definition parse_re_rank :: "(string \<Rightarrow> rerank_item list option) \<Rightarrow> string \<Rightarrow> scored_section list option" where
  "parse_re_rank unmarshal raw =
     (let raw = trim_space raw in
      if raw = [] then None
      else case unmarshal (isolate_object (strip_fences raw)) of
             None \<Rightarrow> None
           | Some items \<Rightarrow> Some (List.map_filter scored_item items))"

subsection \<open>The merge\<close>

definition input_order_scored :: "section_content list \<Rightarrow> scored_section list" where
  "input_order_scored candidates = map (\<lambda>c. \<lparr>ss_id = sc_id c, ss_score = Fin 0, ss_reason = []\<rparr>) candidates"

text \<open>The position of an ID is the last one it has, as the map is overwritten.\<close>

definition position_of :: "section_content list \<Rightarrow> section_id \<Rightarrow> int" where
  "position_of candidates i =
     (case map_of (rev (zip (map sc_id candidates) (map int [0..<length candidates]))) i of None \<Rightarrow> 0 | Some k \<Rightarrow> k)"

definition index_scored :: "section_content list \<Rightarrow> scored_section list \<Rightarrow> section_id \<Rightarrow> scored_section option" where
  "index_scored candidates scored =
     fold (\<lambda>s m. if ss_id s \<notin> set (map sc_id candidates) then m
                 else if m (ss_id s) \<noteq> None then m
                 else m(ss_id s \<mapsto> s)) scored Map.empty"

text \<open>An element moves left past the ones it outranks; the loop stops at the first one it does not.\<close>

definition outranks :: "(section_id \<Rightarrow> int) \<Rightarrow> scored_section \<Rightarrow> scored_section \<Rightarrow> bool" where
  "outranks pos cur cmp =
     (\<not> (f_lt (ss_score cur) (ss_score cmp)
        \<or> (f_eq (ss_score cmp) (ss_score cur) \<and> pos (ss_id cmp) \<le> pos (ss_id cur))))"

definition insertion_sort_by_score :: "scored_section list \<Rightarrow> (section_id \<Rightarrow> int) \<Rightarrow> scored_section list" where
  "insertion_sort_by_score ss pos = stable_sort (outranks pos) ss"

definition merge_scored :: "section_content list \<Rightarrow> scored_section list \<Rightarrow> scored_section list" where
  "merge_scored candidates scored =
     (let by_id = index_scored candidates scored;
          out = List.map_filter (\<lambda>c. by_id (sc_id c)) candidates;
          missing = map (\<lambda>c. \<lparr>ss_id = sc_id c, ss_score = Fin 0, ss_reason = []\<rparr>)
                      (filter (\<lambda>c. by_id (sc_id c) = None) candidates)
      in insertion_sort_by_score out (position_of candidates) @ missing)"

definition re_rank ::
    "'w re_ranker option \<Rightarrow> string \<Rightarrow> section_content list \<Rightarrow> 'w \<Rightarrow> (scored_section list \<times> usage \<times> string option) \<times> 'w" where
  "re_rank ranker query candidates w =
     (case ranker of
        None \<Rightarrow> ((input_order_scored candidates, no_usage, None), w)
      | Some r \<Rightarrow>
          if candidates = [] then (([], no_usage, None), w)
          else let max_chars = (if rr_max_chars r \<le> 0 then 2000 else rr_max_chars r);
                   retries = (if rr_max_retries r < 0 then 0 else rr_max_retries r);
                   retries = (if retries = 0 then 2 else retries);
                   req = \<lparr>req_model = rr_model r,
                      req_messages = [(System, rr_system r), (User, build_re_rank_prompt query candidates max_chars)],
                      req_max_tokens = 1024\<rparr>
               in (case attempts (rr_llm r) (parse_re_rank (rr_unmarshal r)) req (nat retries + 1) True no_usage w of
                     ((Inl err, u), w') \<Rightarrow> ((input_order_scored candidates, u, Some (''rerank llm call: '' @ err)), w')
                   | ((Inr None, u), w') \<Rightarrow> ((input_order_scored candidates, u, None), w')
                   | ((Inr (Some scored), u), w') \<Rightarrow> ((merge_scored candidates scored, u, None), w')))"

subsection \<open>Nothing is dropped\<close>

lemma input_order_ids: "map ss_id (input_order_scored candidates) = map sc_id candidates"
  by (simp add: input_order_scored_def)

text \<open>The first entry of the reply wins.\<close>

lemma index_scored_eq: "index_scored candidates scored i =
    (if i \<in> set (map sc_id candidates) then find (\<lambda>s. ss_id s = i) scored else None)"
proof -
  have "fold (\<lambda>s m. if ss_id s \<notin> set (map sc_id candidates) then m else if m (ss_id s) \<noteq> None then m
        else m(ss_id s \<mapsto> s)) scored m i =
      (if m i \<noteq> None then m i else if i \<in> set (map sc_id candidates) then find (\<lambda>s. ss_id s = i) scored else None)" for m
    by (induction scored arbitrary: m) auto
  from this [of Map.empty] show ?thesis by (simp add: index_scored_def)
qed

lemma index_scored_id: "index_scored candidates scored i = Some s \<Longrightarrow> ss_id s = i \<and> s \<in> set scored"
  by (auto simp: index_scored_eq find_Some_iff split: if_splits)

lemma mset_map_filter_split:
  "(\<And>c v. c \<in> set cs \<Longrightarrow> f c = Some v \<Longrightarrow> g v = h c) \<Longrightarrow>
   mset (map g (List.map_filter f cs)) + mset (map h (filter (\<lambda>c. f c = None) cs)) = mset (map h cs)"
proof (induction cs)
  case (Cons c cs)
  then show ?case by (cases "f c") (auto simp: List.map_filter_simps)
qed (simp add: List.map_filter_simps)

lemma merge_scored_ids: "mset (map ss_id (merge_scored candidates scored)) = mset (map sc_id candidates)"
proof -
  let ?f = "\<lambda>c. index_scored candidates scored (sc_id c)"
  have "mset (map ss_id (List.map_filter ?f candidates)) + mset (map sc_id (filter (\<lambda>c. ?f c = None) candidates))
      = mset (map sc_id candidates)"
    by (rule mset_map_filter_split) (simp add: index_scored_id)
  then show ?thesis
    by (simp only: merge_scored_def Let_def insertion_sort_by_score_def map_append map_map comp_def
        scored_section.select_convs mset_append mset_map_stable_sort)
qed

lemma not_outranks_iff:
  assumes "ss_score a \<noteq> NaN" "ss_score b \<noteq> NaN"
  shows "\<not> outranks pos a b \<longleftrightarrow> f_lt (ss_score a) (ss_score b) \<or> (ss_score a = ss_score b \<and> pos (ss_id b) \<le> pos (ss_id a))"
  using assms unfolding outranks_def f_eq_def by metis

lemma outranks_iff:
  assumes "ss_score a \<noteq> NaN" "ss_score b \<noteq> NaN"
  shows "outranks pos a b \<longleftrightarrow> f_lt (ss_score b) (ss_score a) \<or> (ss_score a = ss_score b \<and> pos (ss_id a) < pos (ss_id b))"
proof -
  consider "f_lt (ss_score a) (ss_score b)" | "ss_score a = ss_score b" | "f_lt (ss_score b) (ss_score a)"
    using f_lt_total [OF assms] by blast
  then show ?thesis
  proof cases
    case 1
    then have "\<not> outranks pos a b" "\<not> f_lt (ss_score b) (ss_score a)" "ss_score a \<noteq> ss_score b"
      using not_outranks_iff [OF assms] f_lt_asym by auto
    then show ?thesis by blast
  next
    case 2
    with not_outranks_iff [OF assms] show ?thesis by (metis f_lt_irrefl not_le)
  next
    case 3
    with not_outranks_iff [OF assms] f_lt_asym show ?thesis by (metis f_lt_irrefl)
  qed
qed

lemma outranks_weak:
  assumes "\<forall>s \<in> S. ss_score s \<noteq> NaN"
  shows "weak_order_on S (outranks pos)"
  unfolding weak_order_on_def
proof (intro conjI ballI impI)
  fix x y assume xy: "x \<in> S" "y \<in> S" "outranks pos x y"
  have nn: "ss_score x \<noteq> NaN" "ss_score y \<noteq> NaN" using assms xy by blast+
  show "\<not> outranks pos y x"
    using xy(3) unfolding outranks_iff [OF nn] not_outranks_iff [OF nn(2,1)] by (metis less_imp_le)
next
  fix x y z assume xyz: "x \<in> S" "y \<in> S" "z \<in> S" "\<not> outranks pos y x" "\<not> outranks pos z y"
  have nn: "ss_score x \<noteq> NaN" "ss_score y \<noteq> NaN" "ss_score z \<noteq> NaN" using assms xyz by blast+
  show "\<not> outranks pos z x"
    using xyz(4,5) unfolding not_outranks_iff [OF nn(2,1)] not_outranks_iff [OF nn(3,2)]
      not_outranks_iff [OF nn(3,1)] by (metis f_lt_trans order_trans)
qed

lemma re_rank_ids: "mset (map ss_id (fst (fst (re_rank ranker query candidates w)))) = mset (map sc_id candidates)"
  by (auto simp: re_rank_def Let_def input_order_ids merge_scored_ids simp del: mset_map attempts.simps
      split: option.splits prod.splits sum.splits)

subsection \<open>Properties\<close>

text \<open>
  C26. Re-ranking never drops and never invents a candidate: whatever the model does (no model, a failed
  call, replies that do not parse, unknown, repeated or missing IDs) the result holds exactly the IDs
  of the candidates, as often as they were given.
\<close>
lemma re_rank_keeps_candidates:
  "mset (map ss_id (fst (fst (re_rank ranker query candidates w)))) = mset (map sc_id candidates)"
  by (rule re_rank_ids)

text \<open>
  The merge lists the scored candidates first, by descending score with ties in input order, each
  with the first score the reply gave it, and then the candidates the reply left out, in input order
  with score zero. (No score is NaN.)
\<close>
lemma merge_scored_order:
  assumes "list_all (\<lambda>s. ss_score s \<noteq> NaN) scored"
  shows "\<exists>known missing. merge_scored candidates scored = known @ missing
    \<and> sorted_wrt (\<lambda>a b. f_lt (ss_score b) (ss_score a)
         \<or> (ss_score a = ss_score b \<and> position_of candidates (ss_id a) \<le> position_of candidates (ss_id b))) known
    \<and> list_all (\<lambda>s. find (\<lambda>x. ss_id x = ss_id s) scored = Some s) known
    \<and> map ss_id missing = map sc_id (filter (\<lambda>c. find (\<lambda>x. ss_id x = sc_id c) scored = None) candidates)
    \<and> list_all (\<lambda>s. ss_score s = Fin 0) missing"
proof -
  let ?by = "index_scored candidates scored"
  let ?out = "List.map_filter (\<lambda>c. ?by (sc_id c)) candidates"
  let ?missing = "map (\<lambda>c. \<lparr>ss_id = sc_id c, ss_score = Fin 0, ss_reason = []\<rparr>)
                      (filter (\<lambda>c. ?by (sc_id c) = None) candidates)"
  let ?known = "insertion_sort_by_score ?out (position_of candidates)"
  have in_out: "find (\<lambda>x. ss_id x = ss_id s) scored = Some s \<and> s \<in> set scored" if "s \<in> set ?out" for s
  proof -
    from that obtain c where "c \<in> set candidates" "?by (sc_id c) = Some s"
      by (auto simp: set_map_filter)
    then show ?thesis using index_scored_id [of candidates scored "sc_id c" s]
      by (auto simp: index_scored_eq split: if_splits)
  qed
  have nn: "ss_score s \<noteq> NaN" if "s \<in> set ?out" for s
    using in_out [OF that] assms by (auto simp: list_all_iff)
  have "sorted_wrt (\<lambda>a b. \<not> outranks (position_of candidates) b a) ?known"
    unfolding insertion_sort_by_score_def using nn by (intro stable_sort_sorted outranks_weak) blast
  then have "sorted_wrt (\<lambda>a b. f_lt (ss_score b) (ss_score a)
         \<or> (ss_score a = ss_score b \<and> position_of candidates (ss_id a) \<le> position_of candidates (ss_id b))) ?known"
  proof (rule sorted_wrt_mono_rel [rotated])
    fix a b assume ab: "a \<in> set ?known" "b \<in> set ?known" "\<not> outranks (position_of candidates) b a"
    then have "ss_score b \<noteq> NaN" "ss_score a \<noteq> NaN" using nn by (simp_all add: insertion_sort_by_score_def)
    from ab(3) not_outranks_iff [OF this] show "f_lt (ss_score b) (ss_score a)
         \<or> (ss_score a = ss_score b \<and> position_of candidates (ss_id a) \<le> position_of candidates (ss_id b))" by auto
  qed
  moreover have "list_all (\<lambda>s. find (\<lambda>x. ss_id x = ss_id s) scored = Some s) ?known"
    using in_out by (simp add: list_all_iff insertion_sort_by_score_def)
  moreover have "map ss_id ?missing = map sc_id (filter (\<lambda>c. find (\<lambda>x. ss_id x = sc_id c) scored = None) candidates)"
    by (auto simp: comp_def index_scored_eq intro!: filter_cong arg_cong [where f = "map sc_id"])
  moreover have "list_all (\<lambda>s. ss_score s = Fin 0) ?missing" by (simp add: list_all_iff)
  moreover have "merge_scored candidates scored = ?known @ ?missing"
    by (simp add: merge_scored_def Let_def)
  ultimately show ?thesis by blast
qed

lemma merge_scored_order_witness:
  "\<exists>known missing. merge_scored
      [\<lparr>sc_id = ''a'', sc_title = [], sc_content = []\<rparr>, \<lparr>sc_id = ''b'', sc_title = [], sc_content = []\<rparr>]
      [\<lparr>ss_id = ''b'', ss_score = Fin 90, ss_reason = []\<rparr>] = known @ missing \<and> map ss_id missing = [''a'']"
proof -
  have "list_all (\<lambda>s. ss_score s \<noteq> NaN) [\<lparr>ss_id = ''b'', ss_score = Fin 90, ss_reason = []\<rparr>]" by simp
  from merge_scored_order [OF this, of "[\<lparr>sc_id = ''a'', sc_title = [], sc_content = []\<rparr>,
      \<lparr>sc_id = ''b'', sc_title = [], sc_content = []\<rparr>]"]
  obtain known missing where "merge_scored
      [\<lparr>sc_id = ''a'', sc_title = [], sc_content = []\<rparr>, \<lparr>sc_id = ''b'', sc_title = [], sc_content = []\<rparr>]
      [\<lparr>ss_id = ''b'', ss_score = Fin 90, ss_reason = []\<rparr>] = known @ missing"
    "map ss_id missing = map sc_id (filter (\<lambda>c. find (\<lambda>x. ss_id x = sc_id c) [\<lparr>ss_id = ''b'', ss_score = Fin 90, ss_reason = []\<rparr>] = None)
       [\<lparr>sc_id = ''a'', sc_title = [], sc_content = []\<rparr>, \<lparr>sc_id = ''b'', sc_title = [], sc_content = []\<rparr>])"
    by blast
  then show ?thesis by (intro exI conjI) (assumption, simp)
qed

end
