(* ===== verification/Calc_Eval.thy ===== *)
theory Calc_Eval
  imports Go_Strings Float64
begin

text \<open>
  The arithmetic evaluator of \<open>pkg/calc/calc.go\<close>: the tokenizer with its number grammar, the
  recursive-descent parser that evaluates as it reads, and \<open>Evaluate\<close>. An error value stands for
  each message the code formats; \<open>Fuel_Spent\<close> is not one of the code's and is proved never to
  occur. \<open>math.Pow\<close> is the parameter \<open>pw\<close>: nothing below depends on how it rounds.

  The parser works on the tokens it has not read yet, which is what \<open>p.toks[p.pos:]\<close> is. Its mutual
  recursion is not structural, so every routine takes fuel; \<open>6 * n + 5\<close> is enough for \<open>n\<close> tokens.
  The grammar the comments in the code give is stated on its own, as relations between token lists
  and syntax trees, with the value of a tree; the parser is proved to be exactly that.
\<close>

subsection \<open>Errors and tokens\<close>

datatype calc_error =
    Unexpected string | Empty_Expression | Bad_Number string | Ends_Early | Unexpected_Operator
  | Unclosed_Paren | Division_By_Zero | Overflow | Power_Operand | Exponent_Beyond f64
  | Fractional_Power | Not_Finite | Trailing_Input | Close_Without_Open | Open_Without_Close
  | Fuel_Spent

datatype token = TNum f64 string nat | TOp char | TLParen | TRParen

subsection \<open>The number grammar\<close>

definition operator_signs :: "(string \<times> string) list" where
  "operator_signs = [([CHR 0xC3, CHR 0x97], ''* ''), ([CHR 0xC3, CHR 0xB7], ''/ ''),
     ([CHR 0xE2, CHR 0x88, CHR 0x92], ''-  ''), ([CHR 0xE2, CHR 0x80, CHR 0x93], ''-  '')]"

definition regexp_space :: "char \<Rightarrow> bool" where
  "regexp_space c = (c \<in> {CHR 0x09, CHR 0x0A, CHR 0x0C, CHR 0x0D, CHR 0x20})"

definition currency_signs :: "string list" where
  "currency_signs = [''$'', [CHR 0xE2, CHR 0x82, CHR 0xAC], [CHR 0xC2, CHR 0xA3]]"

text \<open>The lengths \<open>numberRE\<close>'s parts match: \<open>(?:,\d{3})*\<close>, \<open>(?:\.\d+)?\<close> and the number itself.\<close>

fun match_groups :: "string \<Rightarrow> nat" where
  "match_groups (c # x # y # z # s) =
     (if c = CHR '','' \<and> is_ascii_digit x \<and> is_ascii_digit y \<and> is_ascii_digit z then 4 + match_groups s else 0)"
| "match_groups _ = 0"

definition match_fraction :: "string \<Rightarrow> nat" where
  "match_fraction s =
     (case s of [] \<Rightarrow> 0
      | c # r \<Rightarrow> let k = length (takeWhile is_ascii_digit r)
                in if c = CHR ''.'' \<and> 0 < k then Suc k else 0)"

definition match_digits :: "string \<Rightarrow> nat" where
  "match_digits s =
     (let n = length (takeWhile is_ascii_digit s)
      in if 1 \<le> n \<and> n \<le> 3 then n + match_groups (drop n s) else n)"

definition match_body :: "string \<Rightarrow> nat" where
  "match_body s =
     (let n = match_digits s
      in if n = 0 then match_fraction s else n + match_fraction (drop n s))"

definition match_number :: "string \<Rightarrow> nat" where
  "match_number s =
     (let p = (case find (has_prefix s) currency_signs of
                 None \<Rightarrow> 0
               | Some r \<Rightarrow> (let k = length r in if k < length s \<and> regexp_space (s ! k) then Suc k else k));
          n = match_body (drop p s)
      in if n = 0 then 0
         else if p + n < length s \<and> s ! (p + n) = CHR ''%'' then Suc (p + n) else p + n)"

text \<open>\<open>strconv.ParseFloat\<close> on decimal text; a value out of range is its error.\<close>

definition decimal_rat :: "string \<Rightarrow> rat" where
  "decimal_rat s =
     (let whole = takeWhile is_ascii_digit s; frac = filter is_ascii_digit (drop (length whole) s)
      in of_int (dec_val whole) + of_int (dec_val frac) / 10 ^ length frac)"

definition parse_decimal :: "string \<Rightarrow> f64 option" where
  "parse_decimal s = (case rnd (decimal_rat s) of Fin x \<Rightarrow> Some (Fin x) | _ \<Rightarrow> None)"

definition read_number :: "string \<Rightarrow> calc_error + f64" where
  "read_number s =
     (case parse_decimal (filter (\<lambda>c. is_ascii_digit c \<or> c = CHR ''.'') s) of
        None \<Rightarrow> Inl (Bad_Number s)
      | Some v \<Rightarrow> Inr (if has_suffix s ''%'' then f_div v (Fin 100) else v))"

subsection \<open>The tokenizer\<close>

text \<open>\<open>tokenize_at\<close> is the loop: \<open>i\<close> bytes are behind it and \<open>s\<close> is \<open>expr[i:]\<close>.\<close>

function tokenize_at :: "nat \<Rightarrow> string \<Rightarrow> calc_error + token list" where
  "tokenize_at i [] = Inr []"
| "tokenize_at i (c # s) =
     (if c \<in> {CHR '' '', CHR 0x09, CHR 0x0A} then tokenize_at (Suc i) s
      else if c = CHR ''*'' \<and> s \<noteq> [] \<and> hd s = CHR ''*'' then map_sum id ((#) (TOp (CHR ''^''))) (tokenize_at (i + 2) (tl s))
      else if c \<in> {CHR ''*'', CHR ''+'', CHR ''-'', CHR ''/'', CHR ''^''} then map_sum id ((#) (TOp c)) (tokenize_at (Suc i) s)
      else if c = CHR ''('' then map_sum id ((#) TLParen) (tokenize_at (Suc i) s)
      else if c = CHR '')'' then map_sum id ((#) TRParen) (tokenize_at (Suc i) s)
      else let n = match_number (c # s)
           in if n = 0 then Inl (Unexpected (take 12 (c # s)))
              else case read_number (take n (c # s)) of
                     Inl e \<Rightarrow> Inl e
                   | Inr v \<Rightarrow> map_sum id ((#) (TNum v (trim_space (take n (c # s))) i))
                       (tokenize_at (i + n) (drop n (c # s))))"
  by pat_completeness auto
termination
  by (relation "measure (\<lambda>(i, s). length s)") (auto simp: Let_def)

definition tokenize :: "string \<Rightarrow> calc_error + token list" where
  "tokenize expr =
     (case tokenize_at 0 (replace_all operator_signs expr) of
        Inl e \<Rightarrow> Inl e
      | Inr toks \<Rightarrow> if toks = [] then Inl Empty_Expression else Inr toks)"

subsection \<open>The parser\<close>

fun finite_value :: "f64 \<Rightarrow> bool" where
  "finite_value (Fin x) = True"
| "finite_value _ = False"

definition max_exponent :: rat where
  "max_exponent = 100"

text \<open>The checks and the result of a power, once both operands are read.\<close>

definition power_value :: "(f64 \<Rightarrow> f64 \<Rightarrow> f64) \<Rightarrow> f64 \<Rightarrow> f64 \<Rightarrow> calc_error + f64" where
  "power_value pw base ex =
     (case (base, ex) of
        (Fin b, Fin e) \<Rightarrow>
          if max_exponent < \<bar>e\<bar> then Inl (Exponent_Beyond (Fin e))
          else if b < 0 \<and> e \<noteq> of_int \<lfloor>e\<rfloor> then Inl Fractional_Power
          else if b = 0 \<and> e < 0 then Inl Division_By_Zero
          else if finite_value (pw base ex) then Inr (pw base ex) else Inl Not_Finite
      | _ \<Rightarrow> Inl Power_Operand)"

definition sum_value :: "char \<Rightarrow> f64 \<Rightarrow> f64 \<Rightarrow> calc_error + f64" where
  "sum_value c v r =
     (let v' = (if c = CHR ''+'' then f_add v r else f_sub v r)
      in if finite_value v' then Inr v' else Inl Overflow)"

definition product_value :: "char \<Rightarrow> f64 \<Rightarrow> f64 \<Rightarrow> calc_error + f64" where
  "product_value c v r =
     (if c \<noteq> CHR ''*'' \<and> f_eq r (Fin 0) then Inl Division_By_Zero
      else let v' = (if c = CHR ''*'' then f_mul v r else f_div v r)
           in if finite_value v' then Inr v' else Inl Overflow)"

type_synonym parsed = "(calc_error + f64 \<times> token list) option"

text \<open>
  The routines call each other through \<open>call\<close>, which says which one to run on which tokens; the two
  loops carry the value so far. \<open>parse\<close> ties the knot, one unit of fuel per call; no fuel is \<open>None\<close>.
\<close>

datatype routine = Expr | Expr_Loop f64 | Term | Term_Loop f64 | Unary | Power | Atom

type_synonym routines = "routine \<Rightarrow> token list \<Rightarrow> parsed"

definition p_expr :: "routines \<Rightarrow> token list \<Rightarrow> parsed" where
  "p_expr call ts = (case call Term ts of Some (Inr (v, r)) \<Rightarrow> call (Expr_Loop v) r | e \<Rightarrow> e)"

definition p_expr_loop :: "routines \<Rightarrow> f64 \<Rightarrow> token list \<Rightarrow> parsed" where
  "p_expr_loop call v ts =
     (case ts of
        TOp c # ts' \<Rightarrow>
          if c \<in> {CHR ''+'', CHR ''-''} then
            (case call Term ts' of
               Some (Inr (x, r)) \<Rightarrow> (case sum_value c v x of Inl e \<Rightarrow> Some (Inl e) | Inr v' \<Rightarrow> call (Expr_Loop v') r)
             | e \<Rightarrow> e)
          else Some (Inr (v, ts))
      | _ \<Rightarrow> Some (Inr (v, ts)))"

definition p_term :: "routines \<Rightarrow> token list \<Rightarrow> parsed" where
  "p_term call ts = (case call Unary ts of Some (Inr (v, r)) \<Rightarrow> call (Term_Loop v) r | e \<Rightarrow> e)"

definition p_term_loop :: "routines \<Rightarrow> f64 \<Rightarrow> token list \<Rightarrow> parsed" where
  "p_term_loop call v ts =
     (case ts of
        TOp c # ts' \<Rightarrow>
          if c \<in> {CHR ''*'', CHR ''/''} then
            (case call Unary ts' of
               Some (Inr (x, r)) \<Rightarrow> (case product_value c v x of Inl e \<Rightarrow> Some (Inl e) | Inr v' \<Rightarrow> call (Term_Loop v') r)
             | e \<Rightarrow> e)
          else Some (Inr (v, ts))
      | _ \<Rightarrow> Some (Inr (v, ts)))"

definition p_unary :: "routines \<Rightarrow> token list \<Rightarrow> parsed" where
  "p_unary call ts =
     (case ts of
        TOp c # ts' \<Rightarrow>
          if c \<in> {CHR ''+'', CHR ''-''} then
            (case call Unary ts' of
               Some (Inr (v, r)) \<Rightarrow> Some (Inr (if c = CHR ''-'' then f_neg v else v, r))
             | e \<Rightarrow> e)
          else call Power ts
      | _ \<Rightarrow> call Power ts)"

definition p_power :: "(f64 \<Rightarrow> f64 \<Rightarrow> f64) \<Rightarrow> routines \<Rightarrow> token list \<Rightarrow> parsed" where
  "p_power pw call ts =
     (case call Atom ts of
        Some (Inr (b, TOp c # r)) \<Rightarrow>
          if c = CHR ''^'' then
            (case call Unary r of
               Some (Inr (e, r')) \<Rightarrow> Some (map_sum id (\<lambda>v. (v, r')) (power_value pw b e))
             | e \<Rightarrow> e)
          else Some (Inr (b, TOp c # r))
      | e \<Rightarrow> e)"

definition p_atom :: "routines \<Rightarrow> token list \<Rightarrow> parsed" where
  "p_atom call ts =
     (case ts of
        [] \<Rightarrow> Some (Inl Ends_Early)
      | TNum v t i # r \<Rightarrow> Some (Inr (v, r))
      | TLParen # r \<Rightarrow>
          (case call Expr r of
             Some (Inr (v, TRParen # r')) \<Rightarrow> Some (Inr (v, r'))
           | Some (Inr (v, r')) \<Rightarrow> Some (Inl Unclosed_Paren)
           | e \<Rightarrow> e)
      | _ \<Rightarrow> Some (Inl Unexpected_Operator))"

definition run_routine :: "(f64 \<Rightarrow> f64 \<Rightarrow> f64) \<Rightarrow> routines \<Rightarrow> routines" where
  "run_routine pw call k ts =
     (case k of
        Expr \<Rightarrow> p_expr call ts | Expr_Loop v \<Rightarrow> p_expr_loop call v ts
      | Term \<Rightarrow> p_term call ts | Term_Loop v \<Rightarrow> p_term_loop call v ts
      | Unary \<Rightarrow> p_unary call ts | Power \<Rightarrow> p_power pw call ts | Atom \<Rightarrow> p_atom call ts)"

primrec parse :: "(f64 \<Rightarrow> f64 \<Rightarrow> f64) \<Rightarrow> nat \<Rightarrow> routines" where
  "parse pw 0 = (\<lambda>k ts. None)"
| "parse pw (Suc n) = run_routine pw (parse pw n)"

definition evaluate_tokens :: "(f64 \<Rightarrow> f64 \<Rightarrow> f64) \<Rightarrow> token list \<Rightarrow> calc_error + f64" where
  "evaluate_tokens pw toks =
     (case parse pw (6 * length toks + 5) Expr toks of
        None \<Rightarrow> Inl Fuel_Spent
      | Some (Inl e) \<Rightarrow> Inl e
      | Some (Inr (v, r)) \<Rightarrow>
          if r \<noteq> [] then Inl Trailing_Input else if finite_value v then Inr v else Inl Not_Finite)"

definition evaluate :: "(f64 \<Rightarrow> f64 \<Rightarrow> f64) \<Rightarrow> string \<Rightarrow> calc_error + f64" where
  "evaluate pw expr = (case tokenize expr of Inl e \<Rightarrow> Inl e | Inr toks \<Rightarrow> evaluate_tokens pw toks)"

subsection \<open>The grammar and its values\<close>

text \<open>
  The grammar in the comments above the parser's methods: sums are sequences of terms read from the
  left, terms are sequences of signed factors, a power binds before a sign on its left and its
  exponent may carry signs and powers of its own.
\<close>

datatype ast = Num f64 | Add ast ast | Sub ast ast | Mul ast ast | Quot ast ast | Neg ast | Pos ast | Pow ast ast

inductive is_expr :: "token list \<Rightarrow> ast \<Rightarrow> bool"
  and is_term :: "token list \<Rightarrow> ast \<Rightarrow> bool"
  and is_unary :: "token list \<Rightarrow> ast \<Rightarrow> bool"
  and is_power :: "token list \<Rightarrow> ast \<Rightarrow> bool"
  and is_atom :: "token list \<Rightarrow> ast \<Rightarrow> bool"
where
  expr_term: "is_term xs a \<Longrightarrow> is_expr xs a"
| expr_add: "is_expr xs a \<Longrightarrow> is_term ys b \<Longrightarrow> is_expr (xs @ TOp (CHR ''+'') # ys) (Add a b)"
| expr_sub: "is_expr xs a \<Longrightarrow> is_term ys b \<Longrightarrow> is_expr (xs @ TOp (CHR ''-'') # ys) (Sub a b)"
| term_unary: "is_unary xs a \<Longrightarrow> is_term xs a"
| term_mul: "is_term xs a \<Longrightarrow> is_unary ys b \<Longrightarrow> is_term (xs @ TOp (CHR ''*'') # ys) (Mul a b)"
| term_div: "is_term xs a \<Longrightarrow> is_unary ys b \<Longrightarrow> is_term (xs @ TOp (CHR ''/'') # ys) (Quot a b)"
| unary_neg: "is_unary xs a \<Longrightarrow> is_unary (TOp (CHR ''-'') # xs) (Neg a)"
| unary_pos: "is_unary xs a \<Longrightarrow> is_unary (TOp (CHR ''+'') # xs) (Pos a)"
| unary_power: "is_power xs a \<Longrightarrow> is_unary xs a"
| power_atom: "is_atom xs a \<Longrightarrow> is_power xs a"
| power_pow: "is_atom xs a \<Longrightarrow> is_unary ys b \<Longrightarrow> is_power (xs @ TOp (CHR ''^'') # ys) (Pow a b)"
| atom_num: "is_atom [TNum v t i] (Num v)"
| atom_paren: "is_expr xs a \<Longrightarrow> is_atom (TLParen # xs @ [TRParen]) a"

definition checked :: "f64 \<Rightarrow> f64 option" where
  "checked v = (if finite_value v then Some v else None)"

text \<open>The value of a tree; \<open>None\<close> when an operation in it has none.\<close>

fun ast_value :: "(f64 \<Rightarrow> f64 \<Rightarrow> f64) \<Rightarrow> ast \<Rightarrow> f64 option" where
  "ast_value pw (Num v) = Some v"
| "ast_value pw (Add a b) = Option.bind (ast_value pw a) (\<lambda>x. Option.bind (ast_value pw b) (\<lambda>y. checked (f_add x y)))"
| "ast_value pw (Sub a b) = Option.bind (ast_value pw a) (\<lambda>x. Option.bind (ast_value pw b) (\<lambda>y. checked (f_sub x y)))"
| "ast_value pw (Mul a b) = Option.bind (ast_value pw a) (\<lambda>x. Option.bind (ast_value pw b) (\<lambda>y. checked (f_mul x y)))"
| "ast_value pw (Quot a b) = Option.bind (ast_value pw a) (\<lambda>x. Option.bind (ast_value pw b) (\<lambda>y.
     if f_eq y (Fin 0) then None else checked (f_div x y)))"
| "ast_value pw (Neg a) = map_option f_neg (ast_value pw a)"
| "ast_value pw (Pos a) = ast_value pw a"
| "ast_value pw (Pow a b) = Option.bind (ast_value pw a) (\<lambda>x. Option.bind (ast_value pw b) (\<lambda>y.
     case (x, y) of
       (Fin b, Fin e) \<Rightarrow> if \<bar>e\<bar> \<le> 100 \<and> (b < 0 \<longrightarrow> e = of_int \<lfloor>e\<rfloor>) \<and> (b = 0 \<longrightarrow> 0 \<le> e)
                       then checked (pw x y) else None
     | _ \<Rightarrow> None))"

lemma sum_value_iff:
  "sum_value (CHR ''+'') x y = Inr v \<longleftrightarrow> checked (f_add x y) = Some v"
  "sum_value (CHR ''-'') x y = Inr v \<longleftrightarrow> checked (f_sub x y) = Some v"
  by (auto simp: sum_value_def checked_def Let_def)

lemma product_value_iff:
  "product_value (CHR ''*'') x y = Inr v \<longleftrightarrow> checked (f_mul x y) = Some v"
  "product_value (CHR ''/'') x y = Inr v \<longleftrightarrow> \<not> f_eq y (Fin 0) \<and> checked (f_div x y) = Some v"
  by (auto simp: product_value_def checked_def Let_def)

lemma power_value_iff:
  "power_value pw x y = Inr v \<longleftrightarrow>
   (\<exists>b e. x = Fin b \<and> y = Fin e \<and> \<bar>e\<bar> \<le> 100 \<and> (b < 0 \<longrightarrow> e = of_int \<lfloor>e\<rfloor>) \<and> (b = 0 \<longrightarrow> 0 \<le> e)
      \<and> checked (pw x y) = Some v)"
  by (cases x; cases y) (auto simp: power_value_def checked_def max_exponent_def)

lemma ast_value_Pow:
  "ast_value pw (Pow a b) = Some v \<longleftrightarrow>
   (\<exists>x y. ast_value pw a = Some x \<and> ast_value pw b = Some y \<and> power_value pw x y = Inr v)"
proof (cases "ast_value pw a"; cases "ast_value pw b")
  fix x y assume "ast_value pw a = Some x" "ast_value pw b = Some y"
  then show ?thesis by (cases x; cases y) (auto simp: power_value_iff)
qed auto

subsection \<open>The parser reads the grammar\<close>

text \<open>What a routine has read when it consumed \<open>xs\<close> with value \<open>v\<close>.\<close>

fun reads :: "(f64 \<Rightarrow> f64 \<Rightarrow> f64) \<Rightarrow> routine \<Rightarrow> token list \<Rightarrow> f64 \<Rightarrow> bool" where
  "reads pw Expr xs v = (\<exists>a. is_expr xs a \<and> ast_value pw a = Some v)"
| "reads pw (Expr_Loop v0) xs v =
     (\<forall>ys a. is_expr ys a \<and> ast_value pw a = Some v0 \<longrightarrow> (\<exists>b. is_expr (ys @ xs) b \<and> ast_value pw b = Some v))"
| "reads pw Term xs v = (\<exists>a. is_term xs a \<and> ast_value pw a = Some v)"
| "reads pw (Term_Loop v0) xs v =
     (\<forall>ys a. is_term ys a \<and> ast_value pw a = Some v0 \<longrightarrow> (\<exists>b. is_term (ys @ xs) b \<and> ast_value pw b = Some v))"
| "reads pw Unary xs v = (\<exists>a. is_unary xs a \<and> ast_value pw a = Some v)"
| "reads pw Power xs v = (\<exists>a. is_power xs a \<and> ast_value pw a = Some v)"
| "reads pw Atom xs v = (\<exists>a. is_atom xs a \<and> ast_value pw a = Some v)"

definition sound :: "(f64 \<Rightarrow> f64 \<Rightarrow> f64) \<Rightarrow> routines \<Rightarrow> bool" where
  "sound pw call = (\<forall>k ts v r. call k ts = Some (Inr (v, r)) \<longrightarrow> (\<exists>xs. ts = xs @ r \<and> reads pw k xs v))"

lemma soundE:
  assumes "sound pw call" "call k ts = Some (Inr (v, r))"
  obtains xs where "ts = xs @ r" "reads pw k xs v"
  using assms unfolding sound_def by blast

named_theorems routine_defs
declare p_expr_def [routine_defs] p_expr_loop_def [routine_defs] p_term_def [routine_defs]
  p_term_loop_def [routine_defs] p_unary_def [routine_defs] p_power_def [routine_defs] p_atom_def [routine_defs]

lemma p_expr_sound:
  assumes "sound pw call" "p_expr call ts = Some (Inr (v, r))"
  shows "\<exists>xs. ts = xs @ r \<and> reads pw Expr xs v"
proof -
  obtain v0 r0 where t: "call Term ts = Some (Inr (v0, r0))" and l: "call (Expr_Loop v0) r0 = Some (Inr (v, r))"
    using assms(2) by (auto simp: p_expr_def split: option.splits sum.splits prod.splits)
  obtain xs where xs: "ts = xs @ r0" "reads pw Term xs v0" using soundE [OF assms(1) t] .
  obtain ys where ys: "r0 = ys @ r" "reads pw (Expr_Loop v0) ys v" using soundE [OF assms(1) l] .
  from xs(2) obtain a where "is_expr xs a" "ast_value pw a = Some v0" by (auto intro: expr_term)
  with ys(2) have "reads pw Expr (xs @ ys) v" by auto
  with xs(1) ys(1) show ?thesis by auto
qed

lemma p_term_sound:
  assumes "sound pw call" "p_term call ts = Some (Inr (v, r))"
  shows "\<exists>xs. ts = xs @ r \<and> reads pw Term xs v"
proof -
  obtain v0 r0 where t: "call Unary ts = Some (Inr (v0, r0))" and l: "call (Term_Loop v0) r0 = Some (Inr (v, r))"
    using assms(2) by (auto simp: p_term_def split: option.splits sum.splits prod.splits)
  obtain xs where xs: "ts = xs @ r0" "reads pw Unary xs v0" using soundE [OF assms(1) t] .
  obtain ys where ys: "r0 = ys @ r" "reads pw (Term_Loop v0) ys v" using soundE [OF assms(1) l] .
  from xs(2) obtain a where "is_term xs a" "ast_value pw a = Some v0" by (auto intro: term_unary)
  with ys(2) have "reads pw Term (xs @ ys) v" by auto
  with xs(1) ys(1) show ?thesis by auto
qed

lemma expr_loop_cases:
  assumes "p_expr_loop call v0 ts = Some (Inr (v, r))"
  obtains "r = ts" "v = v0"
  | c ts' x r0 v' where "ts = TOp c # ts'" "c = CHR ''+'' \<or> c = CHR ''-''" "call Term ts' = Some (Inr (x, r0))"
      "sum_value c v0 x = Inr v'" "call (Expr_Loop v') r0 = Some (Inr (v, r))"
  using assms by (auto simp: p_expr_loop_def split: list.splits token.splits option.splits sum.splits prod.splits if_splits)

lemma term_loop_cases:
  assumes "p_term_loop call v0 ts = Some (Inr (v, r))"
  obtains "r = ts" "v = v0"
  | c ts' x r0 v' where "ts = TOp c # ts'" "c = CHR ''*'' \<or> c = CHR ''/''" "call Unary ts' = Some (Inr (x, r0))"
      "product_value c v0 x = Inr v'" "call (Term_Loop v') r0 = Some (Inr (v, r))"
  using assms by (auto simp: p_term_loop_def split: list.splits token.splits option.splits sum.splits prod.splits if_splits)

lemma p_expr_loop_sound:
  assumes "sound pw call" "p_expr_loop call v0 ts = Some (Inr (v, r))"
  shows "\<exists>xs. ts = xs @ r \<and> reads pw (Expr_Loop v0) xs v"
  using assms(2)
proof (cases rule: expr_loop_cases)
  case (2 c ts' x r0 v')
  obtain xs where xs: "ts' = xs @ r0" "reads pw Term xs x" using soundE [OF assms(1) 2(3)] .
  obtain ys where ys: "r0 = ys @ r" "reads pw (Expr_Loop v') ys v" using soundE [OF assms(1) 2(5)] .
  obtain b where b: "is_term xs b" "ast_value pw b = Some x" using xs(2) by auto
  have "\<exists>d. is_expr (zs @ (TOp c # xs) @ ys) d \<and> ast_value pw d = Some v"
    if a: "is_expr zs a" "ast_value pw a = Some v0" for zs a
  proof -
    have "\<exists>d. is_expr (zs @ TOp c # xs) d \<and> ast_value pw d = Some v'"
      using 2(2,4) a b by (auto simp: sum_value_iff intro: expr_add expr_sub exI [of _ "Add a b"] exI [of _ "Sub a b"])
    with ys(2) show ?thesis by (metis append_assoc reads.simps(2))
  qed
  then have "reads pw (Expr_Loop v0) (TOp c # xs @ ys) v" by auto
  with 2(1) xs(1) ys(1) show ?thesis by (metis append_Cons append_assoc)
qed auto

lemma p_term_loop_sound:
  assumes "sound pw call" "p_term_loop call v0 ts = Some (Inr (v, r))"
  shows "\<exists>xs. ts = xs @ r \<and> reads pw (Term_Loop v0) xs v"
  using assms(2)
proof (cases rule: term_loop_cases)
  case (2 c ts' x r0 v')
  obtain xs where xs: "ts' = xs @ r0" "reads pw Unary xs x" using soundE [OF assms(1) 2(3)] .
  obtain ys where ys: "r0 = ys @ r" "reads pw (Term_Loop v') ys v" using soundE [OF assms(1) 2(5)] .
  obtain b where b: "is_unary xs b" "ast_value pw b = Some x" using xs(2) by auto
  have "\<exists>d. is_term (zs @ (TOp c # xs) @ ys) d \<and> ast_value pw d = Some v"
    if a: "is_term zs a" "ast_value pw a = Some v0" for zs a
  proof -
    have "\<exists>d. is_term (zs @ TOp c # xs) d \<and> ast_value pw d = Some v'"
      using 2(2,4) a b by (auto simp: product_value_iff intro: term_mul term_div exI [of _ "Mul a b"] exI [of _ "Quot a b"])
    with ys(2) show ?thesis by (metis append_assoc reads.simps(4))
  qed
  then have "reads pw (Term_Loop v0) (TOp c # xs @ ys) v" by auto
  with 2(1) xs(1) ys(1) show ?thesis by (metis append_Cons append_assoc)
qed auto

lemma p_unary_sound:
  assumes "sound pw call" "p_unary call ts = Some (Inr (v, r))"
  shows "\<exists>xs. ts = xs @ r \<and> reads pw Unary xs v"
proof (cases "\<exists>c ts'. ts = TOp c # ts' \<and> (c = CHR ''+'' \<or> c = CHR ''-'')")
  case True
  then obtain c ts' where ts: "ts = TOp c # ts'" and c: "c = CHR ''+'' \<or> c = CHR ''-''" by blast
  obtain x where x: "call Unary ts' = Some (Inr (x, r))" "v = (if c = CHR ''-'' then f_neg x else x)"
    using assms(2) ts c by (auto simp: p_unary_def split: option.splits sum.splits)
  obtain xs where xs: "ts' = xs @ r" "reads pw Unary xs x" using soundE [OF assms(1) x(1)] .
  from xs(2) c x(2) have "reads pw Unary (TOp c # xs) v"
    by (auto intro: unary_neg unary_pos exI [of _ "Neg a" for a] exI [of _ "Pos a" for a])
  with ts xs(1) show ?thesis by (intro exI [of _ "TOp c # xs"]) simp
next
  case False
  then have "call Power ts = Some (Inr (v, r))"
    using assms(2) by (auto simp: p_unary_def split: list.splits token.splits if_splits)
  from soundE [OF assms(1) this] show ?thesis by (metis reads.simps(5,6) unary_power)
qed

lemma p_power_sound:
  assumes "sound pw call" "p_power pw call ts = Some (Inr (v, r))"
  shows "\<exists>xs. ts = xs @ r \<and> reads pw Power xs v"
proof -
  obtain b r0 where b: "call Atom ts = Some (Inr (b, r0))"
    using assms(2) by (auto simp: p_power_def split: option.splits sum.splits)
  obtain xs a where xs: "ts = xs @ r0" "is_atom xs a" "ast_value pw a = Some b"
    using soundE [OF assms(1) b] by (metis reads.simps(7))
  show ?thesis
  proof (cases "\<exists>r1. r0 = TOp (CHR ''^'') # r1")
    case True
    then obtain r1 where r1: "r0 = TOp (CHR ''^'') # r1" by blast
    obtain e where e: "call Unary r1 = Some (Inr (e, r))" "power_value pw b e = Inr v"
      using assms(2) b r1
      by (auto simp: p_power_def map_sum_def split: option.splits sum.splits)
    obtain ys d where ys: "r1 = ys @ r" "is_unary ys d" "ast_value pw d = Some e"
      using soundE [OF assms(1) e(1)] by (metis reads.simps(5))
    have "is_power (xs @ TOp (CHR ''^'') # ys) (Pow a d)" "ast_value pw (Pow a d) = Some v"
      using xs ys e(2) by (simp_all only: power_pow ast_value_Pow) blast
    then have "reads pw Power (xs @ TOp (CHR ''^'') # ys) v" unfolding reads.simps by blast
    with xs(1) r1 ys(1) show ?thesis by (intro exI [of _ "xs @ TOp (CHR ''^'') # ys"]) simp
  next
    case False
    then have "r = r0" "v = b" using assms(2) b by (auto simp: p_power_def split: list.splits token.splits if_splits)
    with xs show ?thesis by (metis power_atom reads.simps(6))
  qed
qed

lemma p_atom_sound:
  assumes "sound pw call" "p_atom call ts = Some (Inr (v, r))"
  shows "\<exists>xs. ts = xs @ r \<and> reads pw Atom xs v"
proof (cases ts)
  case (Cons t ts')
  show ?thesis
  proof (cases t)
    case (TNum x w i)
    with Cons assms(2) have "v = x" "r = ts'" by (simp_all add: p_atom_def)
    with Cons TNum show ?thesis
      by (intro exI [of _ "[t]"]) (auto intro: atom_num exI [of _ "Num x"])
  next
    case TLParen
    have call: "call Expr ts' = Some (Inr (v, TRParen # r))"
      using Cons TLParen assms(2) by (auto simp: p_atom_def split: option.splits sum.splits list.splits token.splits)
    obtain xs a where xs: "ts' = xs @ TRParen # r" "is_expr xs a" "ast_value pw a = Some v"
      using soundE [OF assms(1) call] by (metis reads.simps(1))
    with Cons TLParen show ?thesis
      by (intro exI [of _ "TLParen # xs @ [TRParen]"]) (auto intro: atom_paren)
  qed (use Cons assms(2) in \<open>simp_all add: p_atom_def\<close>)
qed (use assms(2) in \<open>simp add: p_atom_def\<close>)

lemmas routines_sound = p_expr_sound p_expr_loop_sound p_term_sound p_term_loop_sound
  p_unary_sound p_power_sound p_atom_sound

lemma parse_sound: "sound pw (parse pw n)"
proof (induction n)
  case (Suc n)
  have "\<exists>xs. ts = xs @ r \<and> reads pw k xs v" if "run_routine pw (parse pw n) k ts = Some (Inr (v, r))" for k ts v r
    using that routines_sound [OF Suc] by (cases k) (simp_all only: run_routine_def routine.case)
  then show ?case by (simp add: sound_def)
qed (simp add: sound_def)

subsection \<open>Fuel\<close>

lemma run_routine_mono:
  assumes "\<And>k ts x. call k ts = Some x \<Longrightarrow> call' k ts = Some x" "run_routine pw call k ts = Some x"
  shows "run_routine pw call' k ts = Some x"
proof -
  have call: "call' k ts = call k ts" if "call k ts \<noteq> None" for k ts using that assms(1) by force
  show ?thesis
    using assms(2)
    by (cases k) (auto simp: run_routine_def routine_defs call split: option.splits sum.splits list.splits token.splits if_splits
        dest!: assms(1))
qed

lemma parse_Suc: "parse pw n k ts = Some x \<Longrightarrow> parse pw (Suc n) k ts = Some x"
proof (induction n arbitrary: k ts x)
  case (Suc n)
  from Suc.prems have "run_routine pw (parse pw n) k ts = Some x" by simp
  from run_routine_mono [OF Suc.IH this] show ?case by simp
qed simp

lemma parse_mono: "parse pw n k ts = Some x \<Longrightarrow> n \<le> m \<Longrightarrow> parse pw m k ts = Some x"
proof (induction m)
  case (Suc m)
  then show ?case using parse_Suc [of pw m k ts x] by (cases "n = Suc m") (auto simp del: parse.simps)
qed simp

text \<open>Each call either consumes a token or is one level further down the grammar.\<close>

fun depth_left :: "routine \<Rightarrow> nat" where
  "depth_left Expr = 5" | "depth_left Term = 4" | "depth_left Unary = 3" | "depth_left Power = 2"
| "depth_left Atom = 1" | "depth_left (Expr_Loop v) = 1" | "depth_left (Term_Loop v) = 1"

fun is_loop :: "routine \<Rightarrow> bool" where
  "is_loop (Expr_Loop v) = True" | "is_loop (Term_Loop v) = True" | "is_loop _ = False"

definition returns :: "routine \<Rightarrow> token list \<Rightarrow> parsed \<Rightarrow> bool" where
  "returns k ts p = (\<exists>res. p = Some res \<and>
     (\<forall>v r. res = Inr (v, r) \<longrightarrow> (if is_loop k then length r \<le> length ts else length r < length ts)))"

lemma returnsE:
  assumes "returns k ts p"
  obtains e where "p = Some (Inl e)" | v r where "p = Some (Inr (v, r))" "length r \<le> length ts" "\<not> is_loop k \<Longrightarrow> length r < length ts"
proof -
  obtain res where res: "p = Some res" "\<forall>v r. res = Inr (v, r) \<longrightarrow> (if is_loop k then length r \<le> length ts else length r < length ts)"
    using assms by (auto simp: returns_def)
  show ?thesis
  proof (cases res)
    case (Inr q)
    then obtain v r where q: "res = Inr (v, r)" by (cases q) auto
    show ?thesis using res that(2) [of v r] q by (auto split: if_splits)
  qed (use res that in auto)
qed

lemma returns_Inl [simp]: "returns k ts (Some (Inl e))"
  by (simp add: returns_def)

lemma returns_Inr [simp]: "returns k ts (Some (Inr (v, r))) \<longleftrightarrow> (if is_loop k then length r \<le> length ts else length r < length ts)"
  by (simp add: returns_def)

definition fueled :: "nat \<Rightarrow> routines \<Rightarrow> bool" where
  "fueled n call = (\<forall>k ts. 6 * length ts + depth_left k \<le> n \<longrightarrow> returns k ts (call k ts))"

lemma fueledD: "fueled n call \<Longrightarrow> 6 * length ts + depth_left k \<le> n \<Longrightarrow> returns k ts (call k ts)"
  by (simp add: fueled_def)

lemma loop_returns:
  assumes "fueled n call"
  shows "6 * length ts \<le> n \<Longrightarrow> returns (Expr_Loop v) ts (p_expr_loop call v ts)"
    and "6 * length ts \<le> n \<Longrightarrow> returns (Term_Loop v) ts (p_term_loop call v ts)"
proof -
  assume n: "6 * length ts \<le> n"
  have step: "returns (Expr_Loop v) ts (case call Term ts' of
      Some (Inr (x, r)) \<Rightarrow> (case sum_value c v x of Inl e \<Rightarrow> Some (Inl e) | Inr v' \<Rightarrow> call (Expr_Loop v') r) | e \<Rightarrow> e)"
    if "ts = TOp c # ts'" for c ts'
  proof -
    have "returns Term ts' (call Term ts')" using n that by (intro fueledD [OF assms]) simp
    then show ?thesis
    proof (cases rule: returnsE)
      case (2 x r)
      then have "returns (Expr_Loop v') r (call (Expr_Loop v') r)" for v'
        using n that by (intro fueledD [OF assms]) simp
      with 2 that show ?thesis by (auto simp: returns_def split: sum.splits) (meson le_trans less_imp_le_nat le_SucI)+
    qed simp
  qed
  show "returns (Expr_Loop v) ts (p_expr_loop call v ts)"
    using step by (auto simp: p_expr_loop_def split: list.splits token.splits)
next
  assume n: "6 * length ts \<le> n"
  have step: "returns (Term_Loop v) ts (case call Unary ts' of
      Some (Inr (x, r)) \<Rightarrow> (case product_value c v x of Inl e \<Rightarrow> Some (Inl e) | Inr v' \<Rightarrow> call (Term_Loop v') r) | e \<Rightarrow> e)"
    if "ts = TOp c # ts'" for c ts'
  proof -
    have "returns Unary ts' (call Unary ts')" using n that by (intro fueledD [OF assms]) simp
    then show ?thesis
    proof (cases rule: returnsE)
      case (2 x r)
      then have "returns (Term_Loop v') r (call (Term_Loop v') r)" for v'
        using n that by (intro fueledD [OF assms]) simp
      with 2 that show ?thesis by (auto simp: returns_def split: sum.splits) (meson le_trans less_imp_le_nat le_SucI)+
    qed simp
  qed
  show "returns (Term_Loop v) ts (p_term_loop call v ts)"
    using step by (auto simp: p_term_loop_def split: list.splits token.splits)
qed

lemma sequence_returns:
  assumes "fueled n call"
  shows "6 * length ts + 4 \<le> n \<Longrightarrow> returns Expr ts (p_expr call ts)"
    and "6 * length ts + 3 \<le> n \<Longrightarrow> returns Term ts (p_term call ts)"
proof -
  assume n: "6 * length ts + 4 \<le> n"
  then have "returns Term ts (call Term ts)" by (intro fueledD [OF assms]) simp
  then show "returns Expr ts (p_expr call ts)"
  proof (cases rule: returnsE)
    case (2 v r)
    then have "returns (Expr_Loop v) r (call (Expr_Loop v) r)" using n by (intro fueledD [OF assms]) simp
    with 2 show ?thesis by (auto simp: p_expr_def returns_def)
  qed (simp add: p_expr_def)
next
  assume n: "6 * length ts + 3 \<le> n"
  then have "returns Unary ts (call Unary ts)" by (intro fueledD [OF assms]) simp
  then show "returns Term ts (p_term call ts)"
  proof (cases rule: returnsE)
    case (2 v r)
    then have "returns (Term_Loop v) r (call (Term_Loop v) r)" using n by (intro fueledD [OF assms]) simp
    with 2 show ?thesis by (auto simp: p_term_def returns_def)
  qed (simp add: p_term_def)
qed

lemma unary_returns:
  assumes "fueled n call" "6 * length ts + 2 \<le> n"
  shows "returns Unary ts (p_unary call ts)"
proof -
  have power: "returns Unary ts (call Power ts)"
    using fueledD [OF assms(1), of ts Power] assms(2) by (simp add: returns_def)
  have sign: "returns Unary ts (case call Unary ts' of
      Some (Inr (v, r)) \<Rightarrow> Some (Inr (if c = CHR ''-'' then f_neg v else v, r)) | e \<Rightarrow> e)"
    if "ts = TOp c # ts'" for c ts'
  proof -
    have "returns Unary ts' (call Unary ts')" using assms(2) that by (intro fueledD [OF assms(1)]) simp
    then show ?thesis using that by (cases rule: returnsE) auto
  qed
  show ?thesis using power sign by (auto simp: p_unary_def split: list.splits token.splits)
qed

lemma power_returns:
  assumes "fueled n call" "6 * length ts + 1 \<le> n"
  shows "returns Power ts (p_power pw call ts)"
proof -
  have "returns Atom ts (call Atom ts)" using assms(2) by (intro fueledD [OF assms(1)]) simp
  then show ?thesis
  proof (cases rule: returnsE)
    case (2 b r)
    have "returns Power ts (case call Unary r' of
        Some (Inr (e, r2)) \<Rightarrow> Some (map_sum id (\<lambda>v. (v, r2)) (power_value pw b e)) | e \<Rightarrow> e)"
      if "r = TOp c # r'" for c r'
    proof -
      have "returns Unary r' (call Unary r')" using 2 that assms(2) by (intro fueledD [OF assms(1)]) simp
      then show ?thesis using 2 that by (cases rule: returnsE) (auto simp: returns_def map_sum_def split: sum.splits)
    qed
    with 2 show ?thesis by (auto simp: p_power_def split: list.splits token.splits)
  qed (simp add: p_power_def)
qed

lemma atom_returns:
  assumes "fueled n call" "6 * length ts \<le> n"
  shows "returns Atom ts (p_atom call ts)"
proof -
  have "returns Atom ts (case call Expr r of
      Some (Inr (v, TRParen # r')) \<Rightarrow> Some (Inr (v, r')) | Some (Inr (v, r')) \<Rightarrow> Some (Inl Unclosed_Paren) | e \<Rightarrow> e)"
    if "ts = t # r" for t r
  proof -
    have "returns Expr r (call Expr r)" using assms(2) that by (intro fueledD [OF assms(1)]) simp
    then show ?thesis using that by (cases rule: returnsE) (auto split: list.splits token.splits)
  qed
  then show ?thesis by (auto simp: p_atom_def split: list.splits token.splits)
qed

lemma parse_fueled: "fueled n (parse pw n)"
proof (induction n)
  case 0
  then show ?case by (auto simp: fueled_def elim: depth_left.elims)
next
  case (Suc n)
  have "returns k ts (run_routine pw (parse pw n) k ts)" if "6 * length ts + depth_left k \<le> Suc n" for k ts
    using that loop_returns [OF Suc, of ts] sequence_returns [OF Suc, of ts] unary_returns [OF Suc, of ts]
      power_returns [OF Suc, of ts] atom_returns [OF Suc, of ts]
    by (cases k) (simp_all add: run_routine_def)
  then show ?case by (simp add: fueled_def)
qed

subsection \<open>The grammar is parsed\<close>

text \<open>What follows a factor must not be a power sign, and what follows a term not a factor's sign.\<close>

fun ends_factor :: "token list \<Rightarrow> bool" where
  "ends_factor (TOp c # ts) = (c \<noteq> CHR ''^'')"
| "ends_factor _ = True"

fun ends_term :: "token list \<Rightarrow> bool" where
  "ends_term (TOp c # ts) = (c \<notin> {CHR ''^'', CHR ''*'', CHR ''/''})"
| "ends_term _ = True"

lemma ends_term_factor: "ends_term ts \<Longrightarrow> ends_factor ts"
  by (cases ts rule: ends_term.cases) auto

definition parses :: "(f64 \<Rightarrow> f64 \<Rightarrow> f64) \<Rightarrow> routine \<Rightarrow> token list \<Rightarrow> calc_error + f64 \<times> token list \<Rightarrow> bool" where
  "parses pw k ts x = (\<exists>n. parse pw n k ts = Some x)"

lemma parses_step: "run_routine pw (parse pw n) k ts = Some x \<Longrightarrow> parses pw k ts x"
  unfolding parses_def by (metis parse.simps(2))

lemma parses_two:
  assumes "parses pw k ts x" "parses pw k' ts' x'"
  obtains n where "parse pw n k ts = Some x" "parse pw n k' ts' = Some x'"
  using assms unfolding parses_def by (metis parse_mono nat_le_linear)

lemma term_loop_stops: "ends_term r \<Longrightarrow> parses pw (Term_Loop v) r (Inr (v, r))"
  by (rule parses_step [of pw 0]) (cases r rule: ends_term.cases; simp add: run_routine_def p_term_loop_def)

lemma atom_head: "is_atom xs a \<Longrightarrow> \<exists>t ts. xs = t # ts \<and> (\<forall>c. t \<noteq> TOp c)"
  by (cases rule: is_atom.cases) auto

lemma power_head: "is_power xs a \<Longrightarrow> \<not> (\<exists>c ts. xs @ r = TOp c # ts)"
  by (cases rule: is_power.cases) (auto dest!: atom_head)

lemma grammar_parsed:
  "is_expr xs a \<Longrightarrow> ast_value pw a = Some v \<Longrightarrow> ends_term r \<Longrightarrow> parses pw (Expr_Loop v) r x \<Longrightarrow> parses pw Expr (xs @ r) x"
  "is_term xs a \<Longrightarrow> ast_value pw a = Some v \<Longrightarrow> ends_factor r \<Longrightarrow> parses pw (Term_Loop v) r x \<Longrightarrow> parses pw Term (xs @ r) x"
  "is_unary xs a \<Longrightarrow> ast_value pw a = Some v \<Longrightarrow> ends_factor r \<Longrightarrow> parses pw Unary (xs @ r) (Inr (v, r))"
  "is_power xs a \<Longrightarrow> ast_value pw a = Some v \<Longrightarrow> ends_factor r \<Longrightarrow> parses pw Power (xs @ r) (Inr (v, r))"
  "is_atom xs a \<Longrightarrow> ast_value pw a = Some v \<Longrightarrow> parses pw Atom (xs @ r) (Inr (v, r))"
proof (induction arbitrary: v r x and v r x and v r x and v r x and v r x rule: is_expr_is_term_is_unary_is_power_is_atom.inducts)
  case (expr_term xs a)
  have "parses pw Term (xs @ r) (Inr (v, r))"
    using expr_term.IH [OF expr_term.prems(1) ends_term_factor term_loop_stops] expr_term.prems(2) by blast
  from this expr_term.prems(3) obtain n where
    "parse pw n Term (xs @ r) = Some (Inr (v, r))" "parse pw n (Expr_Loop v) r = Some x" by (rule parses_two)
  then show ?case by (intro parses_step [of pw n]) (simp add: run_routine_def p_expr_def)
next
  case (expr_add xs a ys b)
  obtain y z where y: "ast_value pw a = Some y" "ast_value pw b = Some z" "sum_value (CHR ''+'') y z = Inr v"
    using expr_add.prems(1) by (auto simp: bind_eq_Some_conv sum_value_iff)
  have "parses pw Term (ys @ r) (Inr (z, r))"
    using expr_add.IH(2) [OF y(2) ends_term_factor term_loop_stops] expr_add.prems(2) by blast
  from this expr_add.prems(3) obtain n where
    "parse pw n Term (ys @ r) = Some (Inr (z, r))" "parse pw n (Expr_Loop v) r = Some x" by (rule parses_two)
  then have "parses pw (Expr_Loop y) (TOp (CHR ''+'') # ys @ r) x"
    using y(3) by (intro parses_step [of pw n]) (simp add: run_routine_def p_expr_loop_def)
  from expr_add.IH(1) [OF y(1) _ this] show ?case by simp
next
  case (expr_sub xs a ys b)
  obtain y z where y: "ast_value pw a = Some y" "ast_value pw b = Some z" "sum_value (CHR ''-'') y z = Inr v"
    using expr_sub.prems(1) by (auto simp: bind_eq_Some_conv sum_value_iff)
  have "parses pw Term (ys @ r) (Inr (z, r))"
    using expr_sub.IH(2) [OF y(2) ends_term_factor term_loop_stops] expr_sub.prems(2) by blast
  from this expr_sub.prems(3) obtain n where
    "parse pw n Term (ys @ r) = Some (Inr (z, r))" "parse pw n (Expr_Loop v) r = Some x" by (rule parses_two)
  then have "parses pw (Expr_Loop y) (TOp (CHR ''-'') # ys @ r) x"
    using y(3) by (intro parses_step [of pw n]) (simp add: run_routine_def p_expr_loop_def)
  from expr_sub.IH(1) [OF y(1) _ this] show ?case by simp
next
  case (term_unary xs a)
  from term_unary.IH [OF term_unary.prems(1,2)] term_unary.prems(3) obtain n where
    "parse pw n Unary (xs @ r) = Some (Inr (v, r))" "parse pw n (Term_Loop v) r = Some x" by (rule parses_two)
  then show ?case by (intro parses_step [of pw n]) (simp add: run_routine_def p_term_def)
next
  case (term_mul xs a ys b)
  obtain y z where y: "ast_value pw a = Some y" "ast_value pw b = Some z" "product_value (CHR ''*'') y z = Inr v"
    using term_mul.prems(1) by (auto simp: bind_eq_Some_conv product_value_iff)
  from term_mul.IH(2) [OF y(2) term_mul.prems(2)] term_mul.prems(3) obtain n where
    "parse pw n Unary (ys @ r) = Some (Inr (z, r))" "parse pw n (Term_Loop v) r = Some x" by (rule parses_two)
  then have "parses pw (Term_Loop y) (TOp (CHR ''*'') # ys @ r) x"
    using y(3) by (intro parses_step [of pw n]) (simp add: run_routine_def p_term_loop_def)
  from term_mul.IH(1) [OF y(1) _ this] show ?case by simp
next
  case (term_div xs a ys b)
  obtain y z where y: "ast_value pw a = Some y" "ast_value pw b = Some z" "product_value (CHR ''/'') y z = Inr v"
    using term_div.prems(1) by (auto simp: bind_eq_Some_conv product_value_iff split: if_splits)
  from term_div.IH(2) [OF y(2) term_div.prems(2)] term_div.prems(3) obtain n where
    "parse pw n Unary (ys @ r) = Some (Inr (z, r))" "parse pw n (Term_Loop v) r = Some x" by (rule parses_two)
  then have "parses pw (Term_Loop y) (TOp (CHR ''/'') # ys @ r) x"
    using y(3) by (intro parses_step [of pw n]) (simp add: run_routine_def p_term_loop_def)
  from term_div.IH(1) [OF y(1) _ this] show ?case by simp
next
  case (unary_neg xs a)
  then obtain y where y: "ast_value pw a = Some y" "v = f_neg y" by auto
  from unary_neg.IH [OF y(1) unary_neg.prems(2)] obtain n where
    "parse pw n Unary (xs @ r) = Some (Inr (y, r))" unfolding parses_def by blast
  then show ?case using y(2) by (intro parses_step [of pw n]) (simp add: run_routine_def p_unary_def)
next
  case (unary_pos xs a)
  then have "parses pw Unary (xs @ r) (Inr (v, r))" by simp
  then obtain n where "parse pw n Unary (xs @ r) = Some (Inr (v, r))" unfolding parses_def by blast
  then show ?case by (intro parses_step [of pw n]) (simp add: run_routine_def p_unary_def)
next
  case (unary_power xs a)
  from unary_power.IH [OF unary_power.prems] obtain n where
    n: "parse pw n Power (xs @ r) = Some (Inr (v, r))" unfolding parses_def by blast
  have "\<not> (\<exists>c ts. xs @ r = TOp c # ts)" using unary_power.hyps by (rule power_head)
  with n show ?case
    by (intro parses_step [of pw n]) (auto simp: run_routine_def p_unary_def split: list.splits token.splits)
next
  case (power_atom xs a)
  from power_atom.IH [OF power_atom.prems(1), of r] obtain n where
    "parse pw n Atom (xs @ r) = Some (Inr (v, r))" unfolding parses_def by blast
  with power_atom.prems(2) show ?case
    by (intro parses_step [of pw n]) (cases r rule: ends_factor.cases; simp add: run_routine_def p_power_def)
next
  case (power_pow xs a ys b)
  obtain y z where y: "ast_value pw a = Some y" "ast_value pw b = Some z" "power_value pw y z = Inr v"
    using power_pow.prems(1) unfolding ast_value_Pow by blast
  from power_pow.IH(1) [OF y(1), of "TOp (CHR ''^'') # ys @ r"] power_pow.IH(2) [OF y(2) power_pow.prems(2)]
  obtain n where "parse pw n Atom (xs @ TOp (CHR ''^'') # ys @ r) = Some (Inr (y, TOp (CHR ''^'') # ys @ r))"
    "parse pw n Unary (ys @ r) = Some (Inr (z, r))" by (rule parses_two)
  with y(3) show ?case by (intro parses_step [of pw n]) (simp add: run_routine_def p_power_def)
next
  case (atom_num w t i)
  then show ?case by (intro parses_step [of pw 0]) (simp add: run_routine_def p_atom_def)
next
  case (atom_paren xs a)
  have "parses pw (Expr_Loop v) (TRParen # r) (Inr (v, TRParen # r))"
    by (rule parses_step [of pw 0]) (simp add: run_routine_def p_expr_loop_def)
  from atom_paren.IH [OF atom_paren.prems _ this] obtain n where
    "parse pw n Expr (xs @ TRParen # r) = Some (Inr (v, TRParen # r))" unfolding parses_def by auto
  then show ?case by (intro parses_step [of pw n]) (simp add: run_routine_def p_atom_def)
qed

subsection \<open>Evaluate\<close>

lemma map_sum_not_fuel [simp]: "map_sum id f y = Inl Fuel_Spent \<longleftrightarrow> y = Inl Fuel_Spent"
  by (cases y) auto

lemma read_number_not_fuel: "read_number s = Inl e \<Longrightarrow> e \<noteq> Fuel_Spent"
  by (auto simp: read_number_def split: option.splits)

lemma tokenize_at_fuel: "tokenize_at i s \<noteq> Inl Fuel_Spent"
proof (induction i s rule: tokenize_at.induct)
  case (2 i c s)
  then show ?case
    by (subst tokenize_at.simps)
      (simp only: map_sum_not_fuel Let_def split: if_split sum.split, simp, blast dest: read_number_not_fuel)
qed simp

lemma tokenize_returns: "tokenize s \<noteq> Inl Fuel_Spent"
  using tokenize_at_fuel [of 0 "replace_all operator_signs s"] by (auto simp: tokenize_def split: sum.splits if_splits)

lemma values_not_fuel [simp]:
  "sum_value c x y \<noteq> Inl Fuel_Spent" "product_value c x y \<noteq> Inl Fuel_Spent" "power_value pw x y \<noteq> Inl Fuel_Spent"
  by (auto simp: sum_value_def product_value_def power_value_def Let_def split: f64.splits)

lemma run_routine_not_fuel:
  assumes "\<And>k ts. call k ts \<noteq> Some (Inl Fuel_Spent)"
  shows "run_routine pw call k ts \<noteq> Some (Inl Fuel_Spent)"
proof
  assume *: "run_routine pw call k ts = Some (Inl Fuel_Spent)"
  show False
    using * assms by (cases k) (force simp: run_routine_def routine_defs split: option.splits sum.splits list.splits token.splits prod.splits if_splits)+
qed

lemma parse_not_fuel: "parse pw n k ts \<noteq> Some (Inl Fuel_Spent)"
proof (induction n arbitrary: k ts)
  case (Suc n)
  then show ?case by (simp add: run_routine_not_fuel)
qed simp

lemma evaluate_tokens_returns: "evaluate_tokens pw toks \<noteq> Inl Fuel_Spent"
proof -
  have "returns Expr toks (parse pw (6 * length toks + 5) Expr toks)"
    by (rule fueledD [OF parse_fueled]) simp
  with parse_not_fuel [of pw "6 * length toks + 5" Expr toks] show ?thesis
    by (auto simp: evaluate_tokens_def returns_def split: sum.splits if_splits)
qed

lemma evaluate_tokens_iff:
  "evaluate_tokens pw toks = Inr v \<longleftrightarrow> (\<exists>a. is_expr toks a \<and> ast_value pw a = Some v \<and> finite_value v)"
proof
  assume "evaluate_tokens pw toks = Inr v"
  then have p: "parse pw (6 * length toks + 5) Expr toks = Some (Inr (v, []))" and v: "finite_value v"
    by (auto simp: evaluate_tokens_def split: option.splits sum.splits if_splits)
  from soundE [OF parse_sound p] have "reads pw Expr toks v" by simp
  with v show "\<exists>a. is_expr toks a \<and> ast_value pw a = Some v \<and> finite_value v" by auto
next
  assume "\<exists>a. is_expr toks a \<and> ast_value pw a = Some v \<and> finite_value v"
  then obtain a where a: "is_expr toks a" "ast_value pw a = Some v" "finite_value v" by blast
  have "parses pw (Expr_Loop v) [] (Inr (v, []))"
    by (rule parses_step [of pw 0]) (simp add: run_routine_def p_expr_loop_def)
  from grammar_parsed(1) [OF a(1,2) _ this] obtain n where n: "parse pw n Expr toks = Some (Inr (v, []))"
    unfolding parses_def by auto
  obtain x where x: "parse pw (6 * length toks + 5) Expr toks = Some x"
    using fueledD [OF parse_fueled, of toks Expr "6 * length toks + 5" pw] by (auto simp: returns_def)
  have "x = Inr (v, [])" using n x parse_mono by (metis nat_le_linear option.inject)
  with x a(3) show "evaluate_tokens pw toks = Inr v" by (simp add: evaluate_tokens_def)
qed

text \<open>
  C18. Evaluation always returns: six units of fuel per token and five more are enough for the
  mutually recursive parser, whatever the text, so the outcome is a value or one of the errors the
  code reports.
\<close>
lemma evaluate_returns: "evaluate pw expr \<noteq> Inl Fuel_Spent"
  using tokenize_returns [of expr] evaluate_tokens_returns [of pw] by (auto simp: evaluate_def split: sum.splits)

text \<open>Tokenizer, parser and values put together.\<close>

lemma evaluate_iff:
  "evaluate pw expr = Inr v \<longleftrightarrow>
   (\<exists>toks a. tokenize expr = Inr toks \<and> is_expr toks a \<and> ast_value pw a = Some v \<and> finite_value v)"
  by (simp add: evaluate_def evaluate_tokens_iff split: sum.split)

text \<open>
  C15. The parser is the documented grammar: text evaluates to a value exactly when its tokens form an
  expression of the grammar whose tree has that value (every sum and product finite, no zero divisor,
  every power in the permitted range) and the value is finite.
\<close>
lemma evaluate_follows_grammar:
  "evaluate pw expr = Inr v \<longleftrightarrow>
   (\<exists>toks a. tokenize expr = Inr toks \<and> is_expr toks a \<and> ast_value pw a = Some v \<and> finite_value v)"
  by (rule evaluate_iff)

end
