(* ===== verification/Calc_Resolve.thy ===== *)
theory Calc_Resolve
  imports Calc_Eval
begin

text \<open>
  The rest of \<open>pkg/calc/calc.go\<close>: how a value is written (\<open>Format\<close>, \<open>plain\<close>), the operands of a
  set-up, \<open>Resolve\<close> (the one pass over an answer that works nested set-ups out from the inside) and
  \<open>Trace\<close> (which evidence block states an operand).
\<close>

subsection \<open>Writing numbers\<close>

definition pad_digits :: "nat \<Rightarrow> nat \<Rightarrow> string" where
  "pad_digits d n = (let s = digits_of n in replicate (d - length s) (CHR ''0'') @ s)"

text \<open>\<open>d\<close> decimals of \<open>n / 10 ^ d\<close>, and \<open>strconv.FormatFloat(v, 'f', d, 64)\<close>.\<close>

definition decimal_text :: "nat \<Rightarrow> nat \<Rightarrow> string" where
  "decimal_text d n = digits_of (n div 10 ^ d) @ (if d = 0 then [] else CHR ''.'' # pad_digits d (n mod 10 ^ d))"

fun format_fixed :: "nat \<Rightarrow> f64 \<Rightarrow> string" where
  "format_fixed d NaN = ''NaN''"
| "format_fixed d (Inf s) = (if s then ''-Inf'' else ''+Inf'')"
| "format_fixed d (Fin x) =
     (if x < 0 then ''-'' else []) @ decimal_text d (nat (round_half_even (\<bar>x\<bar> * 10 ^ d)))"

definition trim_right_byte :: "char \<Rightarrow> string \<Rightarrow> string" where
  "trim_right_byte c s = rev (dropWhile ((=) c) (rev s))"

fun group_rest :: "string \<Rightarrow> string" where
  "group_rest [] = []"
| "group_rest (c # s) = (if length (c # s) mod 3 = 0 then [CHR '','', c] else [c]) @ group_rest s"

definition group :: "string \<Rightarrow> string" where
  "group s =
     (let digits = trim_prefix s ''-'';
          grouped = (case digits of [] \<Rightarrow> [] | c # r \<Rightarrow> c # group_rest r)
      in if has_prefix s ''-'' then ''-'' @ grouped else grouped)"

definition cut_at :: "string \<Rightarrow> string \<Rightarrow> string \<times> string" where
  "cut_at s sep = (case str_index s sep of None \<Rightarrow> (s, []) | Some i \<Rightarrow> (take i s, drop (i + length sep) s))"

fun whole_below :: "rat \<Rightarrow> f64 \<Rightarrow> bool" where
  "whole_below limit (Fin x) = (x = of_int \<lfloor>x\<rfloor> \<and> \<bar>x\<bar> < limit)"
| "whole_below limit _ = False"

definition format_value :: "f64 \<Rightarrow> string" where
  "format_value v =
     (if whole_below (10 ^ 15) v then group (itoa (int64_of v))
      else let s = trim_right_byte (CHR ''.'') (trim_right_byte (CHR ''0'') (format_fixed 4 v));
               (int_part, frac) = cut_at s ''.''
           in group int_part @ (if frac = [] then [] else ''.'' @ frac))"

text \<open>
  \<open>strconv.FormatFloat(v, 'f', -1, 64)\<close>: the fewest significant digits that read back as \<open>v\<close>, the
  nearest such decimal. \<open>10 ^ (k - 1) \<le> x < 10 ^ k\<close> for the exponent \<open>k\<close> of \<open>x\<close>.
\<close>

definition pow10 :: "int \<Rightarrow> rat" where
  "pow10 e = (if 0 \<le> e then 10 ^ nat e else 1 / 10 ^ nat (- e))"

definition dec_exponent :: "rat \<Rightarrow> int" where
  "dec_exponent x =
     (if 1 \<le> x then int (length (digits_of (nat \<lfloor>x\<rfloor>)))
      else case find (\<lambda>z. 1 \<le> 10 ^ z * x) [0..<400] of Some z \<Rightarrow> 1 - int z | None \<Rightarrow> 0)"

definition decimals_near :: "rat \<Rightarrow> nat \<Rightarrow> rat list" where
  "decimals_near x p =
     (let u = pow10 (dec_exponent x - int p)
      in [of_int (round_half_even (x / u)) * u, of_int \<lfloor>x / u\<rfloor> * u, of_int \<lceil>x / u\<rceil> * u])"

definition decimals_by_length :: "rat \<Rightarrow> rat list" where
  "decimals_by_length x = concat (map (decimals_near x) [1..<18])"

definition shortest :: "rat \<Rightarrow> rat" where
  "shortest x =
     (if x = 0 then 0
      else case find (\<lambda>q. rnd q = Fin x) (decimals_by_length x) of Some q \<Rightarrow> q | None \<Rightarrow> x)"

definition whole_at :: "rat \<Rightarrow> nat \<Rightarrow> bool" where
  "whole_at q d = (q * 10 ^ d = of_int \<lfloor>q * 10 ^ d\<rfloor>)"

definition exact_decimal :: "rat \<Rightarrow> string" where
  "exact_decimal q =
     (let d = (case find (whole_at q) [0..<1100] of Some d \<Rightarrow> d | None \<Rightarrow> 1100)
      in decimal_text d (nat \<lfloor>q * 10 ^ d\<rfloor>))"

fun plain :: "f64 \<Rightarrow> string" where
  "plain (Fin x) = (if x < 0 then ''-'' else []) @ exact_decimal (shortest \<bar>x\<bar>)"
| "plain v = format_fixed 0 v"

subsection \<open>Operands\<close>

record operand =
  op_text :: string
  op_value :: f64
  op_evidence :: nat
  op_page :: int
  op_found :: bool
  op_derived :: bool
  op_pos :: nat

record calculation =
  expression :: string
  c_value :: "f64 option"
  display :: string
  c_error :: "calc_error option"
  c_operands :: "operand list"

definition is_op_token :: "token \<Rightarrow> bool" where
  "is_op_token t = (case t of TOp c \<Rightarrow> True | _ \<Rightarrow> False)"

text \<open>\<open>unarySign\<close>; an index below zero is out of the range of \<open>nat\<close> and handled by the caller's recursion.\<close>

definition unary_sign :: "token list \<Rightarrow> nat \<Rightarrow> bool" where
  "unary_sign toks i =
     (toks ! i \<in> {TOp (CHR ''+''), TOp (CHR ''-'')}
      \<and> (i = 0 \<or> is_op_token (toks ! (i - 1)) \<or> toks ! (i - 1) = TLParen))"

primrec signs_before :: "token list \<Rightarrow> nat \<Rightarrow> string \<times> f64 \<Rightarrow> string \<times> f64" where
  "signs_before toks 0 acc = acc"
| "signs_before toks (Suc j) acc =
     (if unary_sign toks j then
        signs_before toks j
          (case toks ! j of TOp c \<Rightarrow> (c # fst acc, if c = CHR ''-'' then f_neg (snd acc) else snd acc) | _ \<Rightarrow> acc)
      else acc)"

definition operand_at :: "token list \<Rightarrow> nat \<Rightarrow> operand list" where
  "operand_at toks i =
     (case toks ! i of
        TNum v s pos \<Rightarrow>
          (case signs_before toks i (s, v) of (t, x) \<Rightarrow>
             [\<lparr>op_text = t, op_value = x, op_evidence = 0, op_page = 0, op_found = False, op_derived = False, op_pos = pos\<rparr>])
      | _ \<Rightarrow> [])"

definition operands :: "string \<Rightarrow> calc_error + operand list" where
  "operands expr =
     (case tokenize expr of
        Inl e \<Rightarrow> Inl e
      | Inr toks \<Rightarrow> Inr (concat (map (operand_at toks) [0..<length toks])))"

text \<open>\<open>evaluate\<close>: one set-up as a calculation; \<open>derived\<close> holds the positions of inner results in it.\<close>

definition evaluate_setup :: "(f64 \<Rightarrow> f64 \<Rightarrow> f64) \<Rightarrow> string \<Rightarrow> int list \<Rightarrow> calculation" where
  "evaluate_setup pw expr derived =
     (let ops = (case operands expr of
                   Inl e \<Rightarrow> []
                 | Inr os \<Rightarrow> map (\<lambda>op. op\<lparr>op_derived := int (op_pos op) \<in> set derived\<rparr>) os)
      in case evaluate pw expr of
           Inl e \<Rightarrow> \<lparr>expression = expr, c_value = None, display = [], c_error = Some e, c_operands = ops\<rparr>
         | Inr v \<Rightarrow> \<lparr>expression = expr, c_value = Some v, display = format_value v, c_error = None, c_operands = ops\<rparr>)"

definition failed_setup :: "string \<Rightarrow> calc_error \<Rightarrow> calculation" where
  "failed_setup expr e = \<lparr>expression = expr, c_value = None, display = [], c_error = Some e, c_operands = []\<rparr>"

subsection \<open>Resolve\<close>

text \<open>An open set-up: where its \<open><<\<close> stands in the buffer and where inner results were written.\<close>

type_synonym open_setup = "nat \<times> nat list"

record resolve_state =
  rs_buf :: string
  rs_opens :: "open_setup list"
  rs_calcs :: "calculation list"

definition cut_setup :: "open_setup \<Rightarrow> string \<Rightarrow> string \<times> string \<times> int list" where
  "cut_setup op buf =
     (case op of (start, derived) \<Rightarrow>
        let raw = drop start buf;
            lead = length raw - length (dropWhile (\<lambda>c. c \<in> {CHR '' '', CHR 0x09, CHR 0x0A}) raw)
        in (take start buf, trim_space raw, map (\<lambda>d. int d - int start - int lead) derived))"

definition open_at :: "resolve_state \<Rightarrow> resolve_state" where
  "open_at st = st\<lparr>rs_opens := (length (rs_buf st), []) # rs_opens st\<rparr>"

definition close_at :: "(f64 \<Rightarrow> f64 \<Rightarrow> f64) \<Rightarrow> resolve_state \<Rightarrow> resolve_state" where
  "close_at pw st =
     (case rs_opens st of
        [] \<Rightarrow> st\<lparr>rs_calcs := rs_calcs st @ [failed_setup ''>>'' Close_Without_Open]\<rparr>
      | inner # opens \<Rightarrow>
          (case cut_setup inner (rs_buf st) of (buf, expr, derived) \<Rightarrow>
             let c = evaluate_setup pw expr derived;
                 calcs = rs_calcs st @ [c]
             in case (c_value c, opens) of
                  (None, _ # _) \<Rightarrow> \<lparr>rs_buf = buf @ ''('' @ expr @ '')'', rs_opens = opens, rs_calcs = calcs\<rparr>
                | (None, []) \<Rightarrow> \<lparr>rs_buf = buf @ expr @ '' (could not be computed)'', rs_opens = opens, rs_calcs = calcs\<rparr>
                | (Some v, (start, ds) # others) \<Rightarrow>
                    let p = plain v;
                        pos = (if has_prefix p ''-'' then Suc (length buf) else length buf)
                    in \<lparr>rs_buf = buf @ p, rs_opens = (start, ds @ [pos]) # others, rs_calcs = calcs\<rparr>
                | (Some v, []) \<Rightarrow> \<lparr>rs_buf = buf @ display c @ '' (= '' @ expr @ '')'', rs_opens = opens, rs_calcs = calcs\<rparr>))"

function resolve_loop :: "(f64 \<Rightarrow> f64 \<Rightarrow> f64) \<Rightarrow> string \<Rightarrow> resolve_state \<Rightarrow> resolve_state" where
  "resolve_loop pw [] st = st"
| "resolve_loop pw (c # s) st =
     (if has_prefix (c # s) ''<<'' then resolve_loop pw (drop 2 (c # s)) (open_at st)
      else if has_prefix (c # s) ''>>'' then resolve_loop pw (drop 2 (c # s)) (close_at pw st)
      else resolve_loop pw s (st\<lparr>rs_buf := rs_buf st @ [c]\<rparr>))"
  by pat_completeness auto
termination by (relation "measure (\<lambda>(pw, s, st). length s)") auto

text \<open>The loop over the set-ups no \<open>>>\<close> closed, innermost first.\<close>

primrec fail_open :: "open_setup list \<Rightarrow> string \<Rightarrow> calculation list \<Rightarrow> string \<times> calculation list" where
  "fail_open [] buf calcs = (buf, calcs)"
| "fail_open (inner # opens) buf calcs =
     (case cut_setup inner buf of (buf', expr, _) \<Rightarrow>
        fail_open opens (buf' @ expr @ '' (could not be computed)'') (calcs @ [failed_setup expr Open_Without_Close]))"

definition resolve :: "(f64 \<Rightarrow> f64 \<Rightarrow> f64) \<Rightarrow> string \<Rightarrow> string \<times> calculation list" where
  "resolve pw s =
     (let st = resolve_loop pw s \<lparr>rs_buf = [], rs_opens = [], rs_calcs = []\<rparr>
      in fail_open (rs_opens st) (rs_buf st) (rs_calcs st))"

subsection \<open>Trace\<close>

definition is_num_byte :: "char \<Rightarrow> bool" where
  "is_num_byte c = (is_ascii_digit c \<or> c = CHR ''.'' \<or> c = CHR '','')"

text \<open>\<open>free_before\<close> and \<open>free_after\<close> are the two conditions on a match at position \<open>i\<close>.\<close>

definition free_before :: "string \<Rightarrow> nat \<Rightarrow> bool" where
  "free_before s i = (i = 0 \<or> \<not> is_num_byte (s ! (i - 1)))"

definition free_after :: "string \<Rightarrow> nat \<Rightarrow> bool" where
  "free_after s e =
     (length s \<le> e \<or> \<not> is_num_byte (s ! e)
      \<or> (s ! e = CHR ''.'' \<or> s ! e = CHR '','') \<and> (length s \<le> e + 1 \<or> \<not> is_ascii_digit (s ! (e + 1))))"

function contains_from :: "string \<Rightarrow> string \<Rightarrow> nat \<Rightarrow> bool" where
  "contains_from s f start =
     (if length s < start then False
      else case str_index (drop start s) f of
             None \<Rightarrow> False
           | Some k \<Rightarrow> let i = start + k
                       in if free_before s i \<and> free_after s (i + length f) then True else contains_from s f (i + 1))"
  by pat_completeness auto
termination by (relation "measure (\<lambda>(s, f, start). Suc (length s) - start)") auto

declare contains_from.simps [simp del]

definition contains_token :: "string \<Rightarrow> string \<Rightarrow> bool" where
  "contains_token s f = contains_from s f 0"

definition number_forms :: "string \<Rightarrow> string list" where
  "number_forms digits =
     (let bare = filter (\<lambda>c. c \<noteq> CHR '','') digits
      in [digits, bare,
          case str_index bare ''.'' of
            Some i \<Rightarrow> group (take i bare) @ ''.'' @ drop (i + 1) bare
          | None \<Rightarrow> group bare])"

definition contains_number :: "string \<Rightarrow> string \<Rightarrow> bool" where
  "contains_number s written =
     (let digits = filter is_num_byte written
      in digits \<noteq> [] \<and> (\<exists>f \<in> set (number_forms digits). f \<noteq> [] \<and> contains_token s f))"

record evidence_source =
  src_page :: int
  src_text :: string

definition trace_operand :: "evidence_source list \<Rightarrow> operand \<Rightarrow> operand" where
  "trace_operand sources op =
     (if op_derived op then op
      else case find (\<lambda>i. contains_number (src_text (sources ! i)) (op_text op)) [0..<length sources] of
             None \<Rightarrow> op
           | Some i \<Rightarrow> op\<lparr>op_evidence := i + 1, op_page := src_page (sources ! i), op_found := True\<rparr>)"

definition trace :: "calculation list \<Rightarrow> evidence_source list \<Rightarrow> calculation list" where
  "trace calcs sources = map (\<lambda>c. c\<lparr>c_operands := map (trace_operand sources) (c_operands c)\<rparr>) calcs"

subsection \<open>Finding a number\<close>

definition stated_at :: "string \<Rightarrow> string \<Rightarrow> nat \<Rightarrow> bool" where
  "stated_at s f i \<longleftrightarrow> i + length f \<le> length s \<and> take (length f) (drop i s) = f
     \<and> free_before s i \<and> free_after s (i + length f)"

lemma contains_from_iff: "contains_from s f start \<longleftrightarrow> (\<exists>i \<ge> start. stated_at s f i)"
proof (induction s f start rule: contains_from.induct)
  case (1 s f start)
  show ?case
  proof (cases "str_index (drop start s) f")
    case None
    have "\<not> stated_at s f i" if "start \<le> i" for i
      using str_index_None [OF None, of "i - start"] that by (auto simp: stated_at_def)
    with None show ?thesis by (auto simp: contains_from.simps [of s f start])
  next
    case (Some k)
    have k: "start + k + length f \<le> length s \<or> length s < start" "take (length f) (drop (start + k) s) = f"
      using str_index_Some [OF Some] by (auto simp: add.commute)
    have least: "\<not> stated_at s f i" if "start \<le> i" "i < start + k" for i
      using str_index_least [OF Some, of "i - start"] that by (auto simp: stated_at_def)
    show ?thesis
    proof (cases "length s < start")
      case True
      then show ?thesis by (auto simp: contains_from.simps [of s f start] stated_at_def)
    next
      case False
      have here: "stated_at s f (start + k) \<longleftrightarrow> free_before s (start + k) \<and> free_after s (start + k + length f)"
        using k False by (auto simp: stated_at_def)
      have "(\<exists>i \<ge> start. stated_at s f i) \<longleftrightarrow> stated_at s f (start + k) \<or> (\<exists>i \<ge> start + k + 1. stated_at s f i)"
        using least by (metis add_leD1 le_add1 le_neq_implies_less not_less Suc_eq_plus1 Suc_leI)
      with False Some 1 [OF False Some refl] here show ?thesis
        by (auto simp: contains_from.simps [of s f start])
    qed
  qed
qed

lemma find_least:
  "find P [0..<n] = Some i \<longleftrightarrow> i < n \<and> P i \<and> (\<forall>j < i. \<not> P j)"
  by (auto simp: find_Some_iff)

lemma contains_token_iff: "contains_token s f \<longleftrightarrow> (\<exists>i. stated_at s f i)"
  by (simp add: contains_token_def contains_from_iff)

lemma contains_number_iff:
  "contains_number s written \<longleftrightarrow>
   filter is_num_byte written \<noteq> [] \<and> (\<exists>f \<in> set (number_forms (filter is_num_byte written)). f \<noteq> [] \<and> (\<exists>i. stated_at s f i))"
  by (simp add: contains_number_def contains_token_iff Let_def)

subsection \<open>Resolve works set-ups out from the inside\<close>

text \<open>The text as the marks the loop reacts to.\<close>

datatype mark = Open_Mark | Close_Mark | Byte_Mark char

function scan :: "string \<Rightarrow> mark list" where
  "scan [] = []"
| "scan (c # s) =
     (if has_prefix (c # s) ''<<'' then Open_Mark # scan (drop 2 (c # s))
      else if has_prefix (c # s) ''>>'' then Close_Mark # scan (drop 2 (c # s))
      else Byte_Mark c # scan s)"
  by pat_completeness auto
termination by (relation "measure length") auto

fun apply_mark :: "(f64 \<Rightarrow> f64 \<Rightarrow> f64) \<Rightarrow> mark \<Rightarrow> resolve_state \<Rightarrow> resolve_state" where
  "apply_mark pw Open_Mark st = open_at st"
| "apply_mark pw Close_Mark st = close_at pw st"
| "apply_mark pw (Byte_Mark c) st = st\<lparr>rs_buf := rs_buf st @ [c]\<rparr>"

lemma resolve_loop_scan: "resolve_loop pw s st = fold (apply_mark pw) (scan s) st"
  by (induction pw s st rule: resolve_loop.induct) simp_all

text \<open>
  A text whose marks are balanced is a list of pieces: bytes and set-ups, which hold pieces. Its
  meaning, by recursion on the pieces: what stands for a piece in the text around it, where inner
  results stand in that, and the calculations in the order they are recorded.
\<close>

datatype piece = Byte char | Setup "piece list"

fun piece_marks :: "piece \<Rightarrow> mark list" where
  "piece_marks (Byte c) = [Byte_Mark c]"
| "piece_marks (Setup ps) = Open_Mark # concat (map piece_marks ps) @ [Close_Mark]"

type_synonym rendered = "string \<times> nat list \<times> calculation list"

fun glue :: "rendered list \<Rightarrow> rendered" where
  "glue [] = ([], [], [])"
| "glue ((t, ds, cs) # rs) = (case glue rs of (t', ds', cs') \<Rightarrow> (t @ t', ds @ map ((+) (length t)) ds', cs @ cs'))"

definition render_setup :: "(f64 \<Rightarrow> f64 \<Rightarrow> f64) \<Rightarrow> bool \<Rightarrow> rendered \<Rightarrow> rendered" where
  "render_setup pw nested r =
     (case r of (raw, ds, cs) \<Rightarrow>
        let lead = length raw - length (dropWhile (\<lambda>c. c \<in> {CHR '' '', CHR 0x09, CHR 0x0A}) raw);
            expr = trim_space raw;
            c = evaluate_setup pw expr (map (\<lambda>d. int d - int lead) ds)
        in case c_value c of
             None \<Rightarrow> (if nested then ''('' @ expr @ '')'' else expr @ '' (could not be computed)'', [], cs @ [c])
           | Some v \<Rightarrow> if nested then (plain v, [if has_prefix (plain v) ''-'' then 1 else 0], cs @ [c])
                        else (display c @ '' (= '' @ expr @ '')'', [], cs @ [c]))"

fun render :: "(f64 \<Rightarrow> f64 \<Rightarrow> f64) \<Rightarrow> bool \<Rightarrow> piece \<Rightarrow> rendered" where
  "render pw nested (Byte c) = ([c], [], [])"
| "render pw nested (Setup ps) = render_setup pw nested (glue (map (render pw True) ps))"

definition add_rendered :: "rendered \<Rightarrow> resolve_state \<Rightarrow> resolve_state" where
  "add_rendered r st =
     (case r of (t, ds, cs) \<Rightarrow>
        \<lparr>rs_buf = rs_buf st @ t,
         rs_opens = (case rs_opens st of [] \<Rightarrow> [] | (s, d) # rest \<Rightarrow> (s, d @ map ((+) (length (rs_buf st))) ds) # rest),
         rs_calcs = rs_calcs st @ cs\<rparr>)"

lemma add_rendered_opens [simp]: "rs_opens (add_rendered r st) = [] \<longleftrightarrow> rs_opens st = []"
  by (cases r) (auto simp: add_rendered_def split: list.splits)

lemma add_rendered_glue: "add_rendered (glue (r # rs)) st = add_rendered (glue rs) (add_rendered r st)"
  by (cases r; cases "glue rs"; cases "rs_opens st") (auto simp: add_rendered_def)

lemma add_rendered_Nil [simp]: "add_rendered ([], [], []) st = st"
  by (cases st) (auto simp: add_rendered_def split: list.splits)

lemma close_rendered:
  "close_at pw (add_rendered r (open_at st)) = add_rendered (render_setup pw (rs_opens st \<noteq> []) r) st"
proof (cases r)
  case (fields raw ds cs)
  let ?lead = "length raw - length (dropWhile (\<lambda>c. c \<in> {CHR '' '', CHR 0x09, CHR 0x0A}) raw)"
  have cut: "cut_setup (length (rs_buf st), map ((+) (length (rs_buf st))) ds) (rs_buf st @ raw)
      = (rs_buf st, trim_space raw, map (\<lambda>d. int d - int ?lead) ds)"
    by (simp add: cut_setup_def Let_def)
  let ?c = "evaluate_setup pw (trim_space raw) (map (\<lambda>d. int d - int ?lead) ds)"
  show ?thesis
  proof (cases "rs_opens st")
    case Nil
    then show ?thesis using fields cut
      by (cases "c_value ?c") (auto simp: close_at_def add_rendered_def open_at_def render_setup_def Let_def)
  next
    case (Cons p rest)
    then show ?thesis using fields cut
      by (cases p; cases "c_value ?c") (auto simp: close_at_def add_rendered_def open_at_def render_setup_def Let_def)
  qed
qed

lemma fold_pieces:
  assumes "\<And>p st. p \<in> set ps \<Longrightarrow> fold (apply_mark pw) (piece_marks p) st = add_rendered (render pw (rs_opens st \<noteq> []) p) st"
  shows "fold (apply_mark pw) (concat (map piece_marks ps)) st = add_rendered (glue (map (render pw (rs_opens st \<noteq> [])) ps)) st"
  using assms
proof (induction ps arbitrary: st)
  case (Cons p ps)
  then show ?case by (simp add: add_rendered_glue del: glue.simps)
qed simp

lemma fold_piece: "fold (apply_mark pw) (piece_marks p) st = add_rendered (render pw (rs_opens st \<noteq> []) p) st"
proof (induction p arbitrary: st)
  case (Byte c)
  then show ?case by (cases st) (auto simp: add_rendered_def split: list.splits)
next
  case (Setup ps)
  have "rs_opens (open_at st) \<noteq> []" by (simp add: open_at_def)
  with fold_pieces [OF Setup, of ps "open_at st"] close_rendered [of pw "glue (map (render pw True) ps)" st]
  show ?case by simp
qed

lemma glue_top: "fst (snd (glue (map (render pw False) ps))) = []"
proof (induction ps)
  case (Cons p ps)
  have "fst (snd (render pw False p)) = []"
    by (cases p) (auto simp: render_setup_def Let_def split: prod.splits option.splits)
  with Cons show ?case by (cases "render pw False p"; cases "glue (map (render pw False) ps)") simp
qed simp

text \<open>The loop leaves what the pieces render to.\<close>

lemma resolve_rendered:
  assumes "scan s = concat (map piece_marks ps)"
  shows "resolve pw s = (case glue (map (render pw False) ps) of (text, _, calcs) \<Rightarrow> (text, calcs))"
proof -
  let ?st = "\<lparr>rs_buf = [], rs_opens = [], rs_calcs = []\<rparr>"
  have "resolve_loop pw s ?st = add_rendered (glue (map (render pw False) ps)) ?st"
    using fold_pieces [OF fold_piece, of pw ps ?st] by (simp add: resolve_loop_scan assms)
  then show ?thesis
    by (cases "glue (map (render pw False) ps)") (simp add: resolve_def add_rendered_def)
qed


text \<open>
  Tracing an operand: one that is not itself an inner result ends up found exactly when some
  evidence block states its number, and then the block recorded is the first that does. A block
  states a number when one of its written forms occurs in it as a whole number: not preceded by a
  digit, point or comma, and followed by none of these except a full stop or comma that ends it.
\<close>
lemma trace_finds_first:
  fixes sources :: "evidence_source list"
  assumes "i < length calcs" "j < length (c_operands (calcs ! i))"
    and op: "op = c_operands (calcs ! i) ! j" "\<not> op_derived op" "\<not> op_found op"
    and op': "op' = c_operands (trace calcs sources ! i) ! j"
  shows "(if op_found op'
      then (\<exists>k < length sources. op' = op\<lparr>op_evidence := k + 1, op_page := src_page (sources ! k), op_found := True\<rparr>
         \<and> contains_number (src_text (sources ! k)) (op_text op)
         \<and> (\<forall>l < k. \<not> contains_number (src_text (sources ! l)) (op_text op)))
      else op' = op \<and> (\<forall>src \<in> set sources. \<not> contains_number (src_text src) (op_text op)))
    \<and> (contains_number block (op_text op) \<longleftrightarrow> filter is_num_byte (op_text op) \<noteq> []
      \<and> (\<exists>f \<in> set (number_forms (filter is_num_byte (op_text op))). f \<noteq> [] \<and> (\<exists>k. stated_at block f k)))"
proof -
  have op': "op' = trace_operand sources op"
    using assms(1,2) op' op(1) by (simp add: trace_def)
  show ?thesis
    using op(2,3) contains_number_iff [of block "op_text op"] unfolding op' trace_operand_def [of sources op]
    by (auto simp: find_least find_None_iff in_set_conv_nth split: option.split)
qed

end
