(* ===== verification/Calc_Roundtrip.thy ===== *)
theory Calc_Roundtrip
  imports Calc_Resolve
begin

text \<open>
  Numbers written by \<open>plain\<close> are read back by the tokenizer as the same value, which is what lets an
  inner result feed the set-up around it; and two ways in which writing it as bare text is not
  enough, because what stands next to it changes how it is read.
\<close>

subsection \<open>Reading decimal text\<close>

lemma replace_all_id:
  assumes "\<forall>c \<in> set s. \<forall>(old, new) \<in> set ps. old \<noteq> [] \<longrightarrow> hd old \<noteq> c"
  shows "replace_all ps s = s"
  using assms
proof (induction ps s rule: replace_all.induct)
  case (2 ps c s)
  have "find (\<lambda>(old, new). old \<noteq> [] \<and> has_prefix (c # s) old) ps = None"
    using 2(3) by (auto simp: find_None_iff has_prefix_iff neq_Nil_conv)
  with 2 show ?case by simp
qed simp

lemma replace_operators_ascii: "list_all (\<lambda>c. c < CHR 0x80) s \<Longrightarrow> replace_all operator_signs s = s"
  by (rule replace_all_id) (auto simp: operator_signs_def list_all_iff less_char_def)

definition all_digits :: "string \<Rightarrow> bool" where
  "all_digits s = list_all is_ascii_digit s"

lemma digits_run_takeWhile:
  assumes "all_digits s" "t = [] \<or> \<not> is_ascii_digit (hd t)"
  shows "takeWhile is_ascii_digit (s @ t) = s"
  using assms by (cases t) (auto simp: all_digits_def list_all_iff takeWhile_append)

lemma point_not_digit [simp]: "\<not> is_ascii_digit (CHR ''.'')" "\<not> is_ascii_digit (CHR ''%'')" "\<not> is_ascii_digit (CHR '','')"
  by (simp_all add: is_ascii_digit_def)

lemma all_digits_digits_of [simp]: "all_digits (digits_of n)"
  using digits_of_digits by (simp add: all_digits_def list_all_iff)

lemma all_digits_pad [simp]: "all_digits (pad_digits d n)"
proof -
  have "is_ascii_digit (CHR ''0'')" by (simp add: is_ascii_digit_def)
  then show ?thesis using digits_of_digits [of n] by (auto simp: pad_digits_def all_digits_def list_all_iff Let_def)
qed

lemma takeWhile_all_digits [simp]: "all_digits s \<Longrightarrow> takeWhile is_ascii_digit s = s"
  using digits_run_takeWhile [of s "[]"] by simp

lemma dec_val_append: "dec_val (s @ t) = dec_val s * 10 ^ length t + dec_val t"
  by (induction t rule: rev_induct) (auto simp: dec_val_def algebra_simps)

lemma dec_val_zeros [simp]: "dec_val (replicate k (CHR ''0'')) = 0"
  by (induction k) (auto simp: dec_val_def digit_val_def)

lemma dec_val_pad [simp]: "dec_val (pad_digits d n) = int n"
  by (simp add: pad_digits_def Let_def dec_val_append)

lemma length_digits_of: "n < 10 ^ d \<Longrightarrow> 0 < d \<Longrightarrow> length (digits_of n) \<le> d"
proof (induction n arbitrary: d rule: digits_of.induct)
  case (1 n)
  show ?case
  proof (cases "n < 10")
    case True
    with 1 show ?thesis by (simp add: digits_of.simps [of n])
  next
    case False
    with 1 obtain e where e: "d = Suc e" "0 < e" by (cases d; cases "d - 1") auto
    with 1(2) have "n div 10 < 10 ^ e" by simp
    from 1(1) [OF False this e(2)] False e show ?thesis by (simp add: digits_of.simps [of n])
  qed
qed

lemma length_pad: "n < 10 ^ d \<Longrightarrow> 0 < d \<Longrightarrow> length (pad_digits d n) = d"
  using length_digits_of [of n d] by (simp add: pad_digits_def Let_def)

text \<open>Decimal text is digits, or digits, a point and at least one digit.\<close>

lemma decimal_text_cases:
  obtains "d = 0" "decimal_text d n = digits_of n"
  | "0 < d" "decimal_text d n = digits_of (n div 10 ^ d) @ CHR ''.'' # pad_digits d (n mod 10 ^ d)"
      "length (pad_digits d (n mod 10 ^ d)) = d"
  using length_pad [of "n mod 10 ^ d" d] by (cases "d = 0") (auto simp: decimal_text_def)

lemma match_digits_run:
  assumes "all_digits s" "s \<noteq> []" "t = [] \<or> (\<not> is_ascii_digit (hd t) \<and> hd t \<noteq> CHR '','')"
  shows "match_digits (s @ t) = length s"
proof -
  have run: "takeWhile is_ascii_digit (s @ t) = s" using assms by (intro digits_run_takeWhile) auto
  have "match_groups t = 0" using assms(3) by (cases t rule: match_groups.cases) auto
  with run assms(2) show ?thesis by (simp add: match_digits_def Let_def Suc_le_eq)
qed

lemma first_not_currency:
  assumes "is_ascii_digit c"
  shows "find (has_prefix (c # s)) currency_signs = None"
  using assms by (auto simp: find_None_iff currency_signs_def has_prefix_def is_ascii_digit_def)

lemma match_number_decimal: "match_number (decimal_text d n) = length (decimal_text d n)"
proof -
  obtain c s where cs: "decimal_text d n = c # s" "is_ascii_digit c"
    using digits_of_digits [of "n div 10 ^ d"] by (cases "digits_of (n div 10 ^ d)") (auto simp: decimal_text_def)
  have body: "match_body (decimal_text d n) = length (decimal_text d n)"
  proof (cases d n rule: decimal_text_cases)
    case 1
    then show ?thesis using match_digits_run [of "digits_of n" "[]"]
      by (simp add: match_body_def match_fraction_def)
  next
    case 2
    then have "pad_digits d (n mod 10 ^ d) \<noteq> []" by auto
    with 2 show ?thesis using match_digits_run [of "digits_of (n div 10 ^ d)" "CHR ''.'' # pad_digits d (n mod 10 ^ d)"]
      by (simp add: match_body_def match_fraction_def Let_def)
  qed
  then show ?thesis using first_not_currency [OF cs(2), of s] cs(1)
    by (simp add: match_number_def Let_def)
qed

lemma filter_all_digits: "all_digits s \<Longrightarrow> filter is_ascii_digit s = s"
  by (simp add: all_digits_def list_all_iff)

lemma decimal_text_chars: "c \<in> set (decimal_text d n) \<Longrightarrow> is_ascii_digit c \<or> c = CHR ''.''"
  using all_digits_pad [of d "n mod 10 ^ d"] digits_of_digits [of "n div 10 ^ d"]
  by (auto simp: decimal_text_def all_digits_def list_all_iff split: if_splits)

lemma decimal_rat_text: "decimal_rat (decimal_text d n) = of_nat n / 10 ^ d"
proof (cases d n rule: decimal_text_cases)
  case 1
  then show ?thesis
    by (simp add: decimal_rat_def Let_def dec_val_def [of "[]"])
next
  case 2
  let ?w = "digits_of (n div 10 ^ d)" and ?f = "pad_digits d (n mod 10 ^ d)"
  have run: "takeWhile is_ascii_digit (decimal_text d n) = ?w"
    unfolding 2(2) by (rule digits_run_takeWhile) simp_all
  have frac: "filter is_ascii_digit (drop (length ?w) (decimal_text d n)) = ?f"
    unfolding 2(2) by (simp add: filter_all_digits)
  have split: "of_nat n = (of_nat (n div 10 ^ d) * 10 ^ d + of_nat (n mod 10 ^ d) :: rat)"
  proof -
    have "of_nat n = (of_nat (n div 10 ^ d * 10 ^ d + n mod 10 ^ d) :: rat)" by (simp only: div_mult_mod_eq)
    then show ?thesis by (simp only: of_nat_add of_nat_mult of_nat_power of_nat_numeral)
  qed
  have "decimal_rat (decimal_text d n) = of_nat (n div 10 ^ d) + of_nat (n mod 10 ^ d) / 10 ^ d"
    unfolding decimal_rat_def Let_def run frac by (simp add: 2(3))
  also have "\<dots> = of_nat n / 10 ^ d"
    unfolding split by (simp only: add_divide_distrib nonzero_mult_div_cancel_right power_not_zero) simp
  finally show ?thesis .
qed

lemma decimal_text_visible:
  "decimal_text d n \<noteq> []" "c \<in> set (decimal_text d n) \<Longrightarrow> visible_ascii c"
proof -
  show "decimal_text d n \<noteq> []" by (simp add: decimal_text_def)
  have "visible_ascii (CHR ''.'')" by (simp add: visible_ascii_def less_char_def)
  then show "c \<in> set (decimal_text d n) \<Longrightarrow> visible_ascii c"
    using decimal_text_chars visible_digit by blast
qed

lemma has_suffix_last: "has_suffix s [c] \<longleftrightarrow> s \<noteq> [] \<and> last s = c"
proof (cases s rule: rev_cases)
  case (snoc ys y)
  then show ?thesis by (simp add: has_suffix_def)
qed (simp add: has_suffix_def)

lemma read_number_decimal: "rnd (of_nat n / 10 ^ d) = Fin x \<Longrightarrow> read_number (decimal_text d n) = Inr (Fin x)"
proof -
  assume x: "rnd (of_nat n / 10 ^ d) = Fin x"
  have keep: "filter (\<lambda>c. is_ascii_digit c \<or> c = CHR ''.'') (decimal_text d n) = decimal_text d n"
    using decimal_text_chars by (intro filter_True) blast
  have "last (decimal_text d n) \<noteq> CHR ''%''"
    using decimal_text_chars [OF last_in_set [OF decimal_text_visible(1)], of d n] by auto
  then show ?thesis
    by (simp add: read_number_def keep parse_decimal_def decimal_rat_text x has_suffix_last)
qed

lemma tokenize_at_decimal:
  assumes "rnd (of_nat n / 10 ^ d) = Fin x"
  shows "tokenize_at i (decimal_text d n) = Inr [TNum (Fin x) (decimal_text d n) i]"
proof -
  obtain c s where cs: "decimal_text d n = c # s" "is_ascii_digit c"
    using digits_of_digits [of "n div 10 ^ d"] by (cases "digits_of (n div 10 ^ d)") (auto simp: decimal_text_def)
  have trim: "trim_space (decimal_text d n) = decimal_text d n"
    using decimal_text_visible(1) [of d n] decimal_text_visible(2) [of _ d n]
    by (intro trim_space_visible_ends) auto
  have "c \<notin> {CHR '' '', CHR 0x09, CHR 0x0A, CHR ''*'', CHR ''+'', CHR ''-'', CHR ''/'', CHR ''^'', CHR ''('', CHR '')''}"
    using cs(2) by (auto simp: is_ascii_digit_def)
  then show ?thesis
    using match_number_decimal [of d n] read_number_decimal [OF assms] trim unfolding cs(1)
    by (simp add: Let_def)
qed

subsection \<open>The shortest decimal of a float64\<close>

lemma whole_atI: "q * 10 ^ d = of_int m \<Longrightarrow> whole_at q d"
  by (simp add: whole_at_def)

lemma whole_at_mult_pow10: "whole_at (of_int m * pow10 e) (nat (- e))"
proof (cases "0 \<le> e")
  case True
  then show ?thesis by (intro whole_atI [of _ _ "m * 10 ^ nat e"]) (simp add: pow10_def)
next
  case False
  then show ?thesis by (intro whole_atI [of _ _ m]) (simp add: pow10_def)
qed

lemma dec_exponent_bound: "- 400 \<le> dec_exponent x"
  by (auto simp: dec_exponent_def find_Some_iff split: option.split)

lemma decimals_near_whole:
  assumes "q \<in> set (decimals_near x p)" "p < 18"
  shows "\<exists>d < 1100. whole_at q d"
proof -
  obtain m where q: "q = of_int m * pow10 (dec_exponent x - int p)"
    using assms(1) by (auto simp: decimals_near_def Let_def)
  have "nat (- (dec_exponent x - int p)) < 1100" using dec_exponent_bound [of x] assms(2) by linarith
  with whole_at_mult_pow10 show ?thesis unfolding q by blast
qed

text \<open>A float64 is a multiple of \<open>2 ^ -1074\<close>, so it has at most 1074 decimals.\<close>

lemma pow2_whole:
  assumes "- int N \<le> k"
  shows "\<exists>a. pow2 k * 10 ^ N = (of_int a :: rat)"
proof (cases "0 \<le> k")
  case True
  then show ?thesis by (intro exI [of _ "2 ^ nat k * 10 ^ N"]) (simp add: pow2_def)
next
  case False
  let ?j = "nat (- k)"
  have "(10 :: rat) ^ N = (2 * 5) ^ N" by simp
  also have "\<dots> = 2 ^ (?j + (N - ?j)) * 5 ^ N" using assms by (simp only: power_mult_distrib) simp
  also have "\<dots> = 2 ^ ?j * (2 ^ (N - ?j) * 5 ^ N)" by (simp only: power_add mult.assoc)
  finally have "pow2 k * 10 ^ N = of_int (2 ^ (N - ?j) * 5 ^ N)" using False by (simp add: pow2_def)
  then show ?thesis by blast
qed

lemma rnd_multiple:
  assumes "rnd x = Fin x" "0 \<le> x"
  shows "\<exists>m k. - 1074 \<le> k \<and> x = of_int m * pow2 k"
proof (cases "x = 0")
  case True
  then show ?thesis by (intro exI [of _ 0]) auto
next
  case False
  with assms show ?thesis
    by (intro exI [of _ "round_half_even (\<bar>x\<bar> / pow2 (max (exponent_of \<bar>x\<bar>) (- 1022) - 52))"]
        exI [of _ "max (exponent_of \<bar>x\<bar>) (- 1022) - 52"]) (auto simp: rnd_def Let_def split: if_splits)
qed

lemma rnd_whole:
  assumes "rnd x = Fin x" "0 \<le> x"
  shows "\<exists>d < 1100. whole_at x d"
proof -
  obtain m k where k: "- 1074 \<le> k" and x: "x = of_int m * pow2 k" using rnd_multiple [OF assms] by blast
  define N :: nat where "N = 1074"
  have "- int N \<le> k" using k by (simp add: N_def)
  then obtain a where a: "pow2 k * 10 ^ N = (of_int a :: rat)" using pow2_whole by blast
  have "x * 10 ^ N = of_int (m * a)" unfolding x by (simp only: mult.assoc a of_int_mult)
  then have "whole_at x N" by (rule whole_atI)
  then show ?thesis by (intro exI [of _ N]) (simp add: N_def)
qed

lemma shortest_reads_back:
  assumes "rnd x = Fin x" "0 \<le> x"
  shows "rnd (shortest x) = Fin x \<and> (\<exists>d < 1100. whole_at (shortest x) d)"
proof (cases "x = 0")
  case True
  then show ?thesis by (auto simp: shortest_def whole_at_def intro: exI [of _ 0])
next
  case nz: False
  show ?thesis
  proof (cases "find (\<lambda>q. rnd q = Fin x) (decimals_by_length x)")
    case None
    with nz assms rnd_whole [OF assms] show ?thesis by (simp add: shortest_def)
  next
    case (Some q)
    then have q: "q \<in> set (decimals_by_length x)" "rnd q = Fin x" by (auto simp: find_Some_iff)
    then obtain p where "q \<in> set (decimals_near x p)" "p < 18" by (auto simp: decimals_by_length_def)
    from decimals_near_whole [OF this] nz Some q show ?thesis by (simp add: shortest_def)
  qed
qed

lemma rnd_nonneg: "rnd q = Fin x \<Longrightarrow> 0 < x \<Longrightarrow> 0 \<le> q"
proof (rule ccontr)
  assume r: "rnd q = Fin x" "0 < x" "\<not> 0 \<le> q"
  let ?u = "pow2 (max (exponent_of \<bar>q\<bar>) (- 1022) - 52)"
  have "0 \<le> \<bar>q\<bar> / ?u" by (simp add: pow2_def)
  then have "0 \<le> round_half_even (\<bar>q\<bar> / ?u)" using round_half_even_mono [of 0 "\<bar>q\<bar> / ?u"] round_half_even_of_int [of 0] by simp
  then have "0 \<le> of_int (round_half_even (\<bar>q\<bar> / ?u)) * ?u" by (simp add: pow2_def)
  with r show False by (auto simp: rnd_def Let_def split: if_splits)
qed

lemma exact_decimal_form:
  assumes "0 \<le> q" "\<exists>d < 1100. whole_at q d"
  shows "\<exists>d n. exact_decimal q = decimal_text d n \<and> of_nat n / 10 ^ d = q"
proof -
  obtain d where d: "find (whole_at q) [0..<1100] = Some d" "whole_at q d"
    using assms(2) by (cases "find (whole_at q) [0..<1100]") (auto simp: find_None_iff find_Some_iff)
  have "of_int \<lfloor>q * 10 ^ d\<rfloor> = q * 10 ^ d" using d(2) by (simp add: whole_at_def)
  moreover have "0 \<le> \<lfloor>q * 10 ^ d\<rfloor>" using assms(1) by simp
  ultimately have "of_nat (nat \<lfloor>q * 10 ^ d\<rfloor>) = q * 10 ^ d" using of_nat_nat [where 'a = rat] by metis
  then have "of_nat (nat \<lfloor>q * 10 ^ d\<rfloor>) / 10 ^ d = q" by simp
  with d(1) show ?thesis by (auto simp: exact_decimal_def)
qed

text \<open>What \<open>plain\<close> writes for a non-negative float64 is one number token with its value.\<close>

lemma plain_form:
  assumes "rnd x = Fin x" "0 \<le> x"
  obtains d n where "exact_decimal (shortest x) = decimal_text d n" "rnd (of_nat n / 10 ^ d) = Fin x"
proof -
  note s = shortest_reads_back [OF assms]
  have "0 \<le> shortest x"
    using s rnd_nonneg [of "shortest x" x] assms(2) by (cases "x = 0") (auto simp: shortest_def)
  with exact_decimal_form s that show ?thesis by metis
qed

lemma rnd_abs: "rnd x = Fin x \<Longrightarrow> rnd \<bar>x\<bar> = Fin \<bar>x\<bar>"
  by (auto simp: rnd_def Let_def abs_if split: if_splits)

lemma number_is_expr: "is_expr [TNum v t i] (Num v)" "is_expr [TOp (CHR ''-''), TNum v t i] (Neg (Num v))"
  by (intro expr_term term_unary unary_neg unary_power power_atom atom_num)+

lemma decimal_text_ascii: "list_all (\<lambda>c. c < CHR 0x80) (decimal_text d n)"
  using decimal_text_visible(2) by (auto simp: list_all_iff visible_ascii_def)

text \<open>
  C17. An inner result is written back so that it reads as itself: for every float64, the text \<open>plain\<close>
  produces evaluates to exactly that value.
\<close>
lemma plain_reads_back:
  assumes "rnd x = Fin x"
  shows "evaluate pw (plain (Fin x)) = Inr (Fin x)"
proof -
  obtain d n where form: "exact_decimal (shortest \<bar>x\<bar>) = decimal_text d n" and val: "rnd (of_nat n / 10 ^ d) = Fin \<bar>x\<bar>"
    using plain_form [OF rnd_abs [OF assms]] by auto
  note tok = tokenize_at_decimal [OF val]
  show ?thesis
  proof (cases "x < 0")
    case True
    then have plain: "plain (Fin x) = CHR ''-'' # decimal_text d n" using form by simp
    have ascii: "list_all (\<lambda>c. c < CHR 0x80) (CHR ''-'' # decimal_text d n)"
      using decimal_text_ascii by (simp add: less_char_def)
    have "tokenize (plain (Fin x)) = Inr [TOp (CHR ''-''), TNum (Fin \<bar>x\<bar>) (decimal_text d n) 1]"
      unfolding plain tokenize_def replace_operators_ascii [OF ascii] using tok [of 1] by simp
    then show ?thesis
      using number_is_expr(2) True unfolding evaluate_iff
      by (intro exI conjI) (assumption, assumption, simp_all)
  next
    case False
    then have plain: "plain (Fin x) = decimal_text d n" using form by simp
    have "tokenize (plain (Fin x)) = Inr [TNum (Fin \<bar>x\<bar>) (decimal_text d n) 0]"
      unfolding plain tokenize_def using tok [of 0] by (simp add: replace_operators_ascii decimal_text_ascii)
    then show ?thesis
      using number_is_expr(1) False unfolding evaluate_iff
      by (intro exI conjI) (assumption, assumption, simp_all)
  qed
qed

lemma shortest_digit:
  assumes "0 < n" "n < (10 :: int)"
  shows "shortest (of_int n) = of_int n"
proof -
  have e: "dec_exponent (of_int n) = 1" using assms by (simp add: dec_exponent_def digits_of.simps)
  have near: "decimals_near (of_int n) 1 = [of_int n, of_int n, of_int n]"
    by (simp add: decimals_near_def e pow10_def)
  have upt: "[1..<18] = 1 # [Suc 1..<18]" by (rule upt_conv_Cons) simp
  have all: "decimals_by_length (of_int n)
      = of_int n # of_int n # of_int n # concat (map (decimals_near (of_int n)) [Suc 1..<18])"
    unfolding decimals_by_length_def upt by (simp only: list.map concat.simps near append.simps)
  have r: "rnd (of_int n) = Fin (of_int n)" using assms by (intro rnd_of_int) simp
  have "find (\<lambda>q. rnd q = Fin (of_int n)) (decimals_by_length (of_int n)) = Some (of_int n)"
    unfolding all by (simp only: find.simps r if_True simp_thms)
  with assms show ?thesis by (simp add: shortest_def)
qed

lemma plain_digit:
  assumes "0 < n" "n < (10 :: int)"
  shows "plain (Fin (- of_int n)) = CHR ''-'' # digits_of (nat n)" "plain (Fin (of_int n)) = digits_of (nat n)"
proof -
  have "exact_decimal (of_int n) = digits_of (nat n)"
    unfolding exact_decimal_def upt_conv_Cons [of 0 1100, simplified]
    by (simp add: whole_at_def decimal_text_def del: upt_rec_numeral)
  with assms show "plain (Fin (- of_int n)) = CHR ''-'' # digits_of (nat n)" "plain (Fin (of_int n)) = digits_of (nat n)"
    by (simp_all add: shortest_digit abs_if)
qed

subsection \<open>Where bare text is not enough\<close>

text \<open>
  A negative inner result is written without parentheses. Under a power the grammar takes the sign
  off last, so \<open>(1 - 3) ** 2\<close>, set up as a nested calculation, comes out as \<open>-4\<close>.
\<close>

lemma evaluate_by_tree:
  "tokenize s = Inr toks \<Longrightarrow> is_expr toks a \<Longrightarrow> ast_value pw a = Some v \<Longrightarrow> finite_value v \<Longrightarrow> evaluate pw s = Inr v"
  unfolding evaluate_iff by blast

lemma rnd_minus_two: "rnd (- 2) = Fin (- 2)"
  using rnd_of_int [of "- 2"] by simp

lemmas tokenizing = tokenize_def replace_operators_ascii less_char_def match_number_def currency_signs_def has_prefix_def
  match_body_def match_digits_def match_fraction_def is_ascii_digit_def read_number_def parse_decimal_def
  decimal_rat_def dec_val_def digit_val_def has_suffix_last trim_space_visible_ends visible_ascii_def Let_def

lemma one_minus_three: "evaluate pw ''1 - 3'' = Inr (Fin (- 2))"
proof (rule evaluate_by_tree)
  show "tokenize ''1 - 3'' = Inr [TNum (Fin 1) ''1'' 0, TOp (CHR ''-''), TNum (Fin 3) ''3'' 4]"
    using rnd_numeral [of "num.Bit1 num.One"] by (simp add: tokenizing del: replace_all.simps)
  show "is_expr [TNum (Fin 1) ''1'' 0, TOp (CHR ''-''), TNum (Fin 3) ''3'' 4] (Sub (Num (Fin 1)) (Num (Fin 3)))"
    using expr_sub [OF number_is_expr(1) term_unary [OF unary_power [OF power_atom [OF atom_num]]]] by fastforce
  show "ast_value pw (Sub (Num (Fin 1)) (Num (Fin 3))) = Some (Fin (- 2))"
    by (simp add: f_sub_def rnd_minus_two checked_def)
qed simp

lemma minus_two_squared:
  assumes "pw (Fin 2) (Fin 2) = Fin 4"
  shows "evaluate pw ''-2 ** 2'' = Inr (Fin (- 4))"
proof (rule evaluate_by_tree)
  show "tokenize ''-2 ** 2'' = Inr [TOp (CHR ''-''), TNum (Fin 2) ''2'' 1, TOp (CHR ''^''), TNum (Fin 2) ''2'' 6]"
    using rnd_numeral [of "num.Bit0 num.One"] by (simp add: tokenizing del: replace_all.simps)
  have "is_power ([TNum (Fin 2) ''2'' 1] @ TOp (CHR ''^'') # [TNum (Fin 2) ''2'' 6]) (Pow (Num (Fin 2)) (Num (Fin 2)))"
    by (intro power_pow unary_power power_atom atom_num)
  then show "is_expr [TOp (CHR ''-''), TNum (Fin 2) ''2'' 1, TOp (CHR ''^''), TNum (Fin 2) ''2'' 6] (Neg (Pow (Num (Fin 2)) (Num (Fin 2))))"
    using expr_term [OF term_unary [OF unary_neg [OF unary_power]]] by simp
  show "ast_value pw (Neg (Pow (Num (Fin 2)) (Num (Fin 2)))) = Some (Fin (- 4))"
    by (simp add: assms checked_def)
qed simp

lemma thirty_two: "evaluate pw ''32'' = Inr (Fin 32)"
proof (rule evaluate_by_tree)
  show "tokenize ''32'' = Inr [TNum (Fin 32) ''32'' 0]"
    using rnd_numeral [of "num.Bit0 (num.Bit0 (num.Bit0 (num.Bit0 (num.Bit0 num.One))))"]
    by (simp add: tokenizing del: replace_all.simps)
qed (use number_is_expr in auto)

lemma one_plus_one: "evaluate pw ''1 + 1'' = Inr (Fin 2)"
proof (rule evaluate_by_tree)
  show "tokenize ''1 + 1'' = Inr [TNum (Fin 1) ''1'' 0, TOp (CHR ''+''), TNum (Fin 1) ''1'' 4]"
    by (simp add: tokenizing del: replace_all.simps)
  show "is_expr [TNum (Fin 1) ''1'' 0, TOp (CHR ''+''), TNum (Fin 1) ''1'' 4] (Add (Num (Fin 1)) (Num (Fin 1)))"
    using expr_add [OF number_is_expr(1) term_unary [OF unary_power [OF power_atom [OF atom_num]]]] by fastforce
  show "ast_value pw (Add (Num (Fin 1)) (Num (Fin 1))) = Some (Fin 2)"
    using rnd_numeral [of "num.Bit0 num.One"] by (simp add: checked_def)
qed simp

lemma evaluate_setup_value [simp]: "evaluate pw e = Inr v \<Longrightarrow> c_value (evaluate_setup pw e ds) = Some v"
  by (simp add: evaluate_setup_def Let_def)

lemma glue_bytes:
  "glue (map (render pw n) (map Byte t) @ rs) = (case glue rs of (u, ds, cs) \<Rightarrow> (t @ u, map ((+) (length t)) ds, cs))"
  by (induction t) (auto split: prod.splits simp: comp_def)

lemma render_value:
  assumes "r = (raw, ds, cs)" "evaluate pw (trim_space raw) = Inr v"
  shows "\<exists>t pos c. render_setup pw n r = (t, pos, cs @ [c]) \<and> c_value c = Some v \<and> (n \<longrightarrow> t = plain v)"
  using assms by (auto simp: render_setup_def Let_def)

lemma nested_values:
  assumes "scan s = concat (map piece_marks [Setup (map Byte before @ [Setup (map Byte inner)] @ map Byte after)])"
    and "evaluate pw (trim_space inner) = Inr v" "evaluate pw (trim_space (before @ plain v @ after)) = Inr w"
  shows "map c_value (snd (resolve pw s)) = [Some v, Some w]"
proof -
  have "glue (map (render pw True) (map Byte inner)) = (inner, [], [])"
    using glue_bytes [of pw True inner "[]"] by (simp del: map_map)
  from render_value [OF this assms(2), of True] obtain pos c where
    r: "render pw True (Setup (map Byte inner)) = (plain v, pos, [c])" and c: "c_value c = Some v" by auto
  have "glue (map (render pw True) (map Byte before @ [Setup (map Byte inner)] @ map Byte after))
      = (before @ plain v @ after, map ((+) (length before)) pos, [c])"
    using glue_bytes [of pw True after "[]"] by (simp add: glue_bytes r del: map_map render.simps(2))
  from render_value [OF this assms(3), of False] obtain t pos' d where
    "render pw False (Setup (map Byte before @ [Setup (map Byte inner)] @ map Byte after)) = (t, pos', [c] @ [d])"
    "c_value d = Some w" by auto
  then show ?thesis unfolding resolve_rendered [OF assms(1)] using c by simp
qed

lemma negative_result_under_power:
  assumes "pw (Fin 2) (Fin 2) = Fin 4" "pw (Fin (- 2)) (Fin 2) = Fin 4"
  shows "map c_value (snd (resolve pw ''<<<<1 - 3>> ** 2>>'')) = [Some (Fin (- 2)), Some (Fin (- 4))]"
proof (rule nested_values [where before = "[]" and inner = "''1 - 3''" and after = "'' ** 2''"])
  have "byte 50 = CHR ''2''" by code_simp
  then have "plain (Fin (- 2)) = ''-2''" using plain_digit(1) [of 2] by (simp add: digits_of.simps)
  then show "evaluate pw (trim_space ([] @ plain (Fin (- 2)) @ '' ** 2'')) = Inr (Fin (- 4))"
    using minus_two_squared [of pw] assms(1) by (simp add: trim_space_visible_ends visible_ascii_def less_char_def del: plain.simps)
qed (use one_minus_three in \<open>simp_all add: has_prefix_def trim_space_visible_ends visible_ascii_def less_char_def\<close>)

text \<open>
  An inner result written next to a digit becomes part of that number: \<open>3<<1 + 1>>\<close>, which is not
  arithmetic, yields \<open>32\<close> instead of a set-up that could not be computed.
\<close>

lemma inner_result_joins_digit:
  "map c_value (snd (resolve pw ''<<3<<1 + 1>>>>'')) = [Some (Fin 2), Some (Fin 32)]"
proof (rule nested_values [where before = "''3''" and inner = "''1 + 1''" and after = "[]"])
  have "byte 50 = CHR ''2''" by code_simp
  then have "plain (Fin 2) = ''2''" using plain_digit(2) [of 2] by (simp add: digits_of.simps)
  then show "evaluate pw (trim_space (''3'' @ plain (Fin 2) @ [])) = Inr (Fin 32)"
    using thirty_two [of pw] by (simp add: trim_space_visible_ends visible_ascii_def less_char_def del: plain.simps)
qed (use one_plus_one in \<open>simp_all add: has_prefix_def trim_space_visible_ends visible_ascii_def less_char_def\<close>)

lemma plain_reads_back_witness: "evaluate (\<lambda>x y. NaN) (plain (Fin (- 2))) = Inr (Fin (- 2))"
  by (rule plain_reads_back [OF rnd_minus_two])

subsection \<open>Witnesses\<close>


definition sample_calc :: calculation where
  "sample_calc = \<lparr>expression = ''12'', c_value = None, display = [], c_error = None,
     c_operands = [\<lparr>op_text = ''12'', op_value = Fin 12, op_evidence = 0, op_page = 0, op_found = False,
       op_derived = False, op_pos = 0\<rparr>]\<rparr>"

definition sample_sources :: "evidence_source list" where
  "sample_sources = [\<lparr>src_page = 3, src_text = ''1,234 and 312''\<rparr>, \<lparr>src_page = 7, src_text = ''Units 12.''\<rparr>]"

lemma trace_finds_first_witness:
  "\<exists>k < length sample_sources. op_page (c_operands (trace [sample_calc] sample_sources ! 0) ! 0) = src_page (sample_sources ! k)
     \<and> contains_number (src_text (sample_sources ! k)) ''12''"
proof -
  have found: "op_found (c_operands (trace [sample_calc] sample_sources ! 0) ! 0)" by code_simp
  let ?op = "c_operands sample_calc ! 0"
  have op: "\<not> op_derived ?op" "\<not> op_found ?op" "op_text ?op = ''12''" by (simp_all add: sample_calc_def)
  obtain k where "k < length sample_sources" "contains_number (src_text (sample_sources ! k)) (op_text ?op)"
    "c_operands (trace [sample_calc] sample_sources ! 0) ! 0
      = ?op\<lparr>op_evidence := k + 1, op_page := src_page (sample_sources ! k), op_found := True\<rparr>"
    using found trace_finds_first [of 0 "[sample_calc]" 0, OF _ _ _ op(1,2) refl, of sample_sources "[]"]
    by (auto simp: sample_calc_def)
  then show ?thesis using op(3) by (intro exI [of _ k]) simp
qed

end
