(* ===== verification/Judge_Rank.thy ===== *)
theory Judge_Rank
  imports Page_Ranges
begin

text \<open>
  The two judgements of \<open>pkg/retrieval/judgewalk.go\<close>: ranking the leaves of a table of contents and
  ranking pages, each as batches of questions sent to a Judge at the same time.

  The Judge is a parameter: it gets whether the shared context was cancelled, a request, and the
  state \<open>'w\<close> of the world, and answers with an error or a judgement (a probability for every
  question it answered, and what the call cost). The goroutines of one ranking are served in the
  order a schedule gives. The wordings of the questions are constants, one per constructor.
\<close>

subsection \<open>Data\<close>

record nav_leaf =
  nl_id :: string
  nl_title :: string
  nl_path :: string
  nl_start :: int
  nl_end :: int
  nl_summary :: string

record nav_page =
  np_number :: int
  np_text :: string
  np_leaf :: string

text \<open>\<open>LeafScore\<close> and \<open>PageScore\<close>.\<close>

record 'a scored =
  sc_item :: 'a
  sc_p :: f64

type_synonym leaf_score = "nav_leaf scored"
type_synonym page_score = "nav_page scored"

datatype nav_question =
    Leaf_Holds_Any string | Leaf_Holds_Answer string
  | Head_Holds_Any string | Head_Holds_Answer string
  | Page_States_Any string | Page_States_Answer string

datatype nav_item =
    Leaf_Item string string "string option" "string option"
  | Page_Item int string

text \<open>The state of a request is the question and the items by key; the questions are by the same keys.\<close>

record judge_request =
  jq_question :: string
  jq_items :: "(string \<times> nav_item) list"
  jq_questions :: "(string \<times> nav_question) list"

record verdict =
  jd_noul :: "string \<Rightarrow> f64 option"
  jd_input :: int
  jd_output :: int
  jd_total :: int
  jd_cost :: f64

type_synonym 'w judge = "bool \<Rightarrow> judge_request \<Rightarrow> 'w \<Rightarrow> (string + verdict) \<times> 'w"

record 'w navigator =
  jn_judge :: "'w judge option"
  jn_threshold :: f64
  jn_max_leaves :: int
  jn_max_pages :: int
  jn_coarse_pages :: int
  jn_head_chars :: int
  jn_no_follow :: bool
  jn_page_chars :: int
  jn_req_tokens :: int
  jn_skim_all :: bool
  jn_skim_all_max :: int
  jn_multipart :: bool
  jn_schedule :: "nat \<Rightarrow> nat list"
  jn_heads_first :: bool

text \<open>Zero selects the default.\<close>

definition threshold :: "'w navigator \<Rightarrow> f64" where
  "threshold n = (if f_lt (Fin 0) (jn_threshold n) then jn_threshold n else Fin (1 / 2))"

definition max_leaves :: "'w navigator \<Rightarrow> int" where
  "max_leaves n = (if 0 < jn_max_leaves n then jn_max_leaves n else 2 ^ 30)"

definition max_pages :: "'w navigator \<Rightarrow> int" where
  "max_pages n = (if 0 < jn_max_pages n then jn_max_pages n else 30)"

definition coarse_pages :: "'w navigator \<Rightarrow> int" where
  "coarse_pages n = (if 0 < jn_coarse_pages n then jn_coarse_pages n else 120)"

definition head_chars :: "'w navigator \<Rightarrow> int" where
  "head_chars n = (if 0 < jn_head_chars n then jn_head_chars n else 700)"

definition page_chars :: "'w navigator \<Rightarrow> int" where
  "page_chars n = (if 0 < jn_page_chars n then jn_page_chars n else 6000)"

definition skim_all_max :: "'w navigator \<Rightarrow> int" where
  "skim_all_max n = (if 0 < jn_skim_all_max n then jn_skim_all_max n else 400)"

definition req_tokens :: "'w navigator \<Rightarrow> int" where
  "req_tokens n = (if 0 < jn_req_tokens n then jn_req_tokens n else 24000)"

definition count_tokens :: "string \<Rightarrow> int" where
  "count_tokens s = int (length s) div 4 + 1"

definition judge_usage :: "verdict \<Rightarrow> usage" where
  "judge_usage j = \<lparr>input_tokens = jd_input j, output_tokens = jd_output j, usage_tokens = jd_total j,
     cost_usd = jd_cost j, llm_calls = 1\<rparr>"

subsection \<open>Sending the batches\<close>

text \<open>A question's key ends in the index of its candidate, which \<open>Sscanf\<close> reads back.\<close>

definition item_key :: "string \<Rightarrow> nat \<Rightarrow> string" where
  "item_key pre i = pre @ digits_of i"

definition key_index :: "string \<Rightarrow> string \<Rightarrow> nat" where
  "key_index pre k = nat (dec_val (drop (length pre) k))"

record sending =
  sd_probs :: "f64 list"
  sd_usage :: usage
  sd_requests :: int
  sd_error :: "string option"

text \<open>What a goroutine does under the lock when its call came back.\<close>

definition record_noul :: "string \<Rightarrow> verdict \<Rightarrow> string \<Rightarrow> f64 list \<Rightarrow> f64 list" where
  "record_noul pre j k probs = (case jd_noul j k of None \<Rightarrow> probs | Some p \<Rightarrow> probs[key_index pre k := p])"

definition batch_done :: "string \<Rightarrow> judge_request \<Rightarrow> string + verdict \<Rightarrow> sending \<Rightarrow> sending" where
  "batch_done pre req res st =
     (case res of
        Inl err \<Rightarrow> (case sd_error st of None \<Rightarrow> st\<lparr>sd_error := Some err\<rparr> | Some e \<Rightarrow> st)
      | Inr j \<Rightarrow> st\<lparr>sd_requests := sd_requests st + 1,
                  sd_usage := add_usage (sd_usage st) (judge_usage j),
                  sd_probs := fold (record_noul pre j) (map fst (jq_questions req)) (sd_probs st)\<rparr>)"

fun send_batches :: "string \<Rightarrow> 'w judge \<Rightarrow> judge_request list \<Rightarrow> nat list \<Rightarrow> sending \<Rightarrow> 'w \<Rightarrow> sending \<times> 'w" where
  "send_batches pre judge reqs [] st w = (st, w)"
| "send_batches pre judge reqs (i # order) st w =
     (case judge (sd_error st \<noteq> None) (reqs ! i) w of
        (res, w') \<Rightarrow> send_batches pre judge reqs order (batch_done pre (reqs ! i) res st) w')"

definition best_first :: "'a scored list \<Rightarrow> 'a scored list" where
  "best_first = stable_sort (\<lambda>a b. f_lt (sc_p b) (sc_p a))"

type_synonym ('w, 'a) ranking = "(string + 'a scored list) \<times> usage \<times> int \<times> 'w"

definition with_probs :: "'a list \<Rightarrow> f64 list \<Rightarrow> 'a scored list" where
  "with_probs xs probs = map2 (\<lambda>x p. \<lparr>sc_item = x, sc_p = p\<rparr>) xs probs"

text \<open>From the batches to the ranking; without a Judge there is only the error.\<close>

definition rank_candidates ::
    "'w navigator \<Rightarrow> string \<Rightarrow> 'a list \<Rightarrow> judge_request list \<Rightarrow> 'w \<Rightarrow> ('w, 'a) ranking" where
  "rank_candidates n pre xs reqs w =
     (case jn_judge n of
        None \<Rightarrow> (Inl ''judgewalk: no Judge configured'', no_usage, 0, w)
      | Some judge \<Rightarrow>
          (case send_batches pre judge reqs (jn_schedule n (length reqs))
                  \<lparr>sd_probs = replicate (length xs) (Fin 0), sd_usage = no_usage, sd_requests = 0, sd_error = None\<rparr> w of
             (st, w') \<Rightarrow>
               (case sd_error st of
                  Some err \<Rightarrow> (Inl err, sd_usage st, sd_requests st, w')
                | None \<Rightarrow> (Inr (best_first (with_probs xs (sd_probs st))), sd_usage st, sd_requests st, w'))))"

subsection \<open>Ranking leaves\<close>

definition leaf_prefix :: string where
  "leaf_prefix = ''l_''"

definition leaf_question :: "'w navigator \<Rightarrow> string \<Rightarrow> nav_question" where
  "leaf_question n qk = (if jn_multipart n then Leaf_Holds_Any qk else Leaf_Holds_Answer qk)"

definition leaf_item :: "nav_leaf \<Rightarrow> nav_item" where
  "leaf_item l =
     (let s = trim_space (nl_summary l)
      in Leaf_Item (nl_title l) (itoa (nl_start l) @ ''-'' @ itoa (nl_end l))
           (if nl_path l \<noteq> [] \<and> nl_path l \<noteq> nl_title l then Some (nl_path l) else None)
           (if s \<noteq> [] then Some (if length s > 300 then take 300 s else s) else None))"

definition nav_leaf_batch :: nat where
  "nav_leaf_batch = 120"

definition leaf_request :: "'w navigator \<Rightarrow> string \<Rightarrow> nav_leaf list \<Rightarrow> nat list \<Rightarrow> judge_request" where
  "leaf_request n query leaves idxs =
     \<lparr>jq_question = query,
      jq_items = map (\<lambda>i. (item_key leaf_prefix i, leaf_item (leaves ! i))) idxs,
      jq_questions = map (\<lambda>i. (item_key leaf_prefix i, leaf_question n (item_key leaf_prefix i))) idxs\<rparr>"

function leaf_batches :: "nat \<Rightarrow> nat \<Rightarrow> nat list list" where
  "leaf_batches start len =
     (if start < len then [start..<min (start + nav_leaf_batch) len] # leaf_batches (start + nav_leaf_batch) len else [])"
  by pat_completeness auto
termination by (relation "measure (\<lambda>(start, len). len - start)") (auto simp: nav_leaf_batch_def)

declare leaf_batches.simps [simp del]

definition rank_leaves :: "'w navigator \<Rightarrow> string \<Rightarrow> nav_leaf list \<Rightarrow> 'w \<Rightarrow> ('w, nav_leaf) ranking" where
  "rank_leaves n query leaves =
     rank_candidates n leaf_prefix leaves (map (leaf_request n query leaves) (leaf_batches 0 (length leaves)))"

subsection \<open>Ranking pages\<close>

definition page_prefix :: string where
  "page_prefix = ''p_''"

definition page_question :: "'w navigator \<Rightarrow> string \<Rightarrow> bool \<Rightarrow> nav_question" where
  "page_question n qk coarse =
     (if coarse \<and> jn_multipart n then Head_Holds_Any qk
      else if coarse then Head_Holds_Answer qk
      else if jn_multipart n then Page_States_Any qk
      else Page_States_Answer qk)"

definition shown_text :: "int \<Rightarrow> nav_page \<Rightarrow> string" where
  "shown_text limit p = (if int (length (np_text p)) > limit then take (nat limit) (np_text p) else np_text p)"

definition page_cost :: "int \<Rightarrow> nav_page \<Rightarrow> int" where
  "page_cost limit p = count_tokens (shown_text limit p) + 20"

text \<open>
  The inner loop: from \<open>end\<close> on, how far the batch goes. \<open>first\<close> is \<open>end = start\<close>: a page that alone
  exceeds the budget is a batch of its own.
\<close>

fun batch_end :: "int \<Rightarrow> int \<Rightarrow> nav_page list \<Rightarrow> bool \<Rightarrow> int \<Rightarrow> nat \<Rightarrow> nat" where
  "batch_end limit budget [] first used e = e"
| "batch_end limit budget (p # ps) first used e =
     (if \<not> first \<and> used + page_cost limit p > budget then e
      else batch_end limit budget ps False (used + page_cost limit p) (Suc e))"

lemma batch_end_ge: "e \<le> batch_end limit budget ps first used e"
  by (induction limit budget ps first used e rule: batch_end.induct) auto

lemma batch_end_gt: "ps \<noteq> [] \<Longrightarrow> e < batch_end limit budget ps True used e"
  using batch_end_ge [of "Suc e"] by (cases ps) (auto simp: Suc_le_eq)

lemma batch_end_le: "batch_end limit budget ps first used e \<le> e + length ps"
  by (induction limit budget ps first used e rule: batch_end.induct) auto

function page_batches :: "'w navigator \<Rightarrow> string \<Rightarrow> int \<Rightarrow> nav_page list \<Rightarrow> nat \<Rightarrow> nat list list" where
  "page_batches n query limit pages start =
     (if start < length pages
      then let e = batch_end limit (req_tokens n) (drop start pages) True (count_tokens query + 100) start
           in [start..<e] # page_batches n query limit pages e
      else [])"
  by pat_completeness auto
termination
proof (relation "measure (\<lambda>(n, query, limit, pages, start). length pages - start)", goal_cases)
  case (2 n query limit pages start x)
  then have "start < x" using batch_end_gt [of "drop start pages" start limit "req_tokens n" "count_tokens query + 100"] by simp
  with 2 show ?case by simp
qed simp

declare page_batches.simps [simp del]

definition page_request :: "'w navigator \<Rightarrow> string \<Rightarrow> int \<Rightarrow> bool \<Rightarrow> nav_page list \<Rightarrow> nat list \<Rightarrow> judge_request" where
  "page_request n query limit coarse pages idxs =
     \<lparr>jq_question = query,
      jq_items = map (\<lambda>i. (item_key page_prefix i, Page_Item (np_number (pages ! i)) (shown_text limit (pages ! i)))) idxs,
      jq_questions = map (\<lambda>i. (item_key page_prefix i, page_question n (item_key page_prefix i) coarse)) idxs\<rparr>"

definition rank_pages_at :: "'w navigator \<Rightarrow> string \<Rightarrow> nav_page list \<Rightarrow> int \<Rightarrow> bool \<Rightarrow> 'w \<Rightarrow> ('w, nav_page) ranking" where
  "rank_pages_at n query pages limit coarse =
     rank_candidates n page_prefix pages (map (page_request n query limit coarse pages) (page_batches n query limit pages 0))"

definition rank_pages :: "'w navigator \<Rightarrow> string \<Rightarrow> nav_page list \<Rightarrow> 'w \<Rightarrow> ('w, nav_page) ranking" where
  "rank_pages n query pages = rank_pages_at n query pages (page_chars n) False"

subsection \<open>The batches\<close>

lemma leaf_batches_concat: "concat (leaf_batches start len) = [start..<len]"
proof (induction start len rule: leaf_batches.induct)
  case (1 start len)
  show ?case
  proof (cases "start < len")
    case True
    have "[start..<min (start + nav_leaf_batch) len] @ [start + nav_leaf_batch..<len] = [start..<len]"
    proof (cases "start + nav_leaf_batch \<le> len")
      case True
      then show ?thesis using upt_add_eq_append [of start "start + nav_leaf_batch" "len - (start + nav_leaf_batch)"]
        by (simp add: min_def)
    qed (simp add: min_def)
    with True 1 show ?thesis by (simp add: leaf_batches.simps [of start])
  qed (simp add: leaf_batches.simps [of start])
qed

lemma page_batches_concat: "start \<le> length pages \<Longrightarrow> concat (page_batches n query limit pages start) = [start..<length pages]"
proof (induction n query limit pages start rule: page_batches.induct)
  case (1 n query limit pages start)
  let ?e = "batch_end limit (req_tokens n) (drop start pages) True (count_tokens query + 100) start"
  show ?case
  proof (cases "start < length pages")
    case True
    have e: "start \<le> ?e" "?e \<le> length pages"
      using batch_end_ge batch_end_le [of limit "req_tokens n" "drop start pages" True _ start] True by auto
    have "concat (page_batches n query limit pages ?e) = [?e..<length pages]"
      using 1(1) [OF True refl e(2)] .
    with True e show ?thesis
      using upt_add_eq_append [of start ?e "length pages - ?e"]
      by (simp add: page_batches.simps [of n query limit pages start] Let_def)
  next
    case False
    with 1(2) have "start = length pages" by simp
    then show ?thesis by (simp add: page_batches.simps [of n query limit pages "length pages"])
  qed
qed

lemma page_cost_pos: "0 < page_cost limit p"
  by (simp add: page_cost_def count_tokens_def pos_add_strict)

lemma batch_end_fit:
  "used \<le> budget \<Longrightarrow> used + sum_list (map (page_cost limit) (take (batch_end limit budget ps False used e - e) ps)) \<le> budget"
proof (induction ps arbitrary: used e)
  case (Cons p ps)
  show ?case
  proof (cases "used + page_cost limit p > budget")
    case False
    let ?e = "batch_end limit budget ps False (used + page_cost limit p) (Suc e)"
    have "?e - e = Suc (?e - Suc e)" using batch_end_ge [of "Suc e" limit budget ps False "used + page_cost limit p"] by simp
    with False Cons.IH [of "used + page_cost limit p" "Suc e"] show ?thesis by simp
  qed (use Cons.prems in simp)
qed simp

lemma batch_end_over: "used > budget \<Longrightarrow> batch_end limit budget ps False used e = e"
  using page_cost_pos [of limit] by (cases ps) (auto simp: add_strict_increasing2 intro: less_trans)

text \<open>The estimated size of a request's state: the question, a margin, and every page it holds.\<close>

definition request_size :: "string \<Rightarrow> int \<Rightarrow> nav_page list \<Rightarrow> nat list \<Rightarrow> int" where
  "request_size query limit pages idxs = count_tokens query + 100 + sum_list (map (\<lambda>i. page_cost limit (pages ! i)) idxs)"

lemma first_batch_fits:
  fixes query :: string and limit budget :: int
  assumes "start < length pages"
  defines "e \<equiv> batch_end limit budget (drop start pages) True (count_tokens query + 100) start"
  shows "e = Suc start \<or> request_size query limit pages [start..<e] \<le> budget"
proof -
  obtain p ps where ps: "drop start pages = p # ps" "p = pages ! start" "ps = drop (Suc start) pages"
    using assms(1) by (metis Cons_nth_drop_Suc)
  let ?u = "count_tokens query + 100 + page_cost limit p"
  have e: "e = batch_end limit budget ps False ?u (Suc start)" by (simp add: e_def ps(1))
  show ?thesis
  proof (cases "?u > budget")
    case True
    then show ?thesis using e batch_end_over by simp
  next
    case False
    have le: "Suc start \<le> e" "e \<le> length pages"
      using batch_end_ge [of "Suc start" limit budget ps False ?u] batch_end_le [of limit budget ps False ?u "Suc start"] assms(1) e ps(3)
      by auto
    have "map (\<lambda>i. page_cost limit (pages ! i)) [Suc start..<e] = map (page_cost limit) (take (e - Suc start) ps)"
      using le ps(3) by (intro nth_equalityI) auto
    moreover have "[start..<e] = start # [Suc start..<e]" using le by (simp add: upt_rec)
    ultimately have "request_size query limit pages [start..<e]
        = ?u + sum_list (map (page_cost limit) (take (e - Suc start) ps))"
      by (simp add: request_size_def ps(2))
    with batch_end_fit [of ?u budget limit ps "Suc start"] False e show ?thesis by simp
  qed
qed

lemma page_batches_fit:
  "\<forall>b \<in> set (page_batches n query limit pages start). b \<noteq> []
     \<and> (length b = 1 \<or> request_size query limit pages b \<le> req_tokens n)"
proof (induction n query limit pages start rule: page_batches.induct)
  case (1 n query limit pages start)
  let ?e = "batch_end limit (req_tokens n) (drop start pages) True (count_tokens query + 100) start"
  show ?case
  proof (cases "start < length pages")
    case True
    have "start < ?e" using True by (intro batch_end_gt) simp
    with first_batch_fits [OF True, of limit "req_tokens n" query] 1 [OF True refl] True show ?thesis
      by (auto simp: page_batches.simps [of n query limit pages start] Let_def)
  qed (simp add: page_batches.simps [of n query limit pages start])
qed

text \<open>A batch ends where the next page would exceed the budget.\<close>

lemma batch_end_stops:
  assumes "batch_end limit budget ps first used e - e < length ps" "first \<longrightarrow> e < batch_end limit budget ps first used e"
  shows "used + sum_list (map (page_cost limit) (take (Suc (batch_end limit budget ps first used e - e)) ps)) > budget"
  using assms
proof (induction limit budget ps first used e rule: batch_end.induct)
  case (2 limit budget p ps first used e)
  let ?e = "batch_end limit budget ps False (used + page_cost limit p) (Suc e)"
  show ?case
  proof (cases "\<not> first \<and> used + page_cost limit p > budget")
    case False
    then have e: "batch_end limit budget (p # ps) first used e = ?e" by (simp only: batch_end.simps if_False)
    have step: "?e - e = Suc (?e - Suc e)" using batch_end_ge [of "Suc e" limit budget ps False "used + page_cost limit p"] by simp
    then have "?e - Suc e < length ps" using "2.prems"(1) unfolding e by simp
    from "2.IH" [OF False this] show ?thesis unfolding e step by simp
  qed auto
qed simp

lemma page_batches_head: "start < length pages \<Longrightarrow> hd (hd (page_batches n query limit pages start)) = start"
  using batch_end_gt [of "drop start pages" start limit "req_tokens n" "count_tokens query + 100"]
  by (simp add: page_batches.simps [of n query limit pages start] Let_def)

lemma page_batches_full:
  "successively (\<lambda>b c. request_size query limit pages (b @ [hd c]) > req_tokens n) (page_batches n query limit pages start)"
proof (induction n query limit pages start rule: page_batches.induct)
  case (1 n query limit pages start)
  let ?e = "batch_end limit (req_tokens n) (drop start pages) True (count_tokens query + 100) start"
  let ?rest = "page_batches n query limit pages ?e"
  show ?case
  proof (cases "start < length pages")
    case True
    then have gt: "start < ?e" by (intro batch_end_gt) simp
    have unfold: "page_batches n query limit pages start = [start..<?e] # ?rest"
      using True by (simp add: page_batches.simps [of n query limit pages start] Let_def)
    have "?rest = [] \<or> request_size query limit pages ([start..<?e] @ [hd (hd ?rest)]) > req_tokens n"
    proof (cases "?e < length pages")
      case more: True
      have "count_tokens query + 100 + sum_list (map (page_cost limit) (take (Suc (?e - start)) (drop start pages))) > req_tokens n"
        using batch_end_stops [of limit "req_tokens n" "drop start pages" True "count_tokens query + 100" start] gt more by simp
      moreover have "take (Suc (?e - start)) (drop start pages) = map ((!) pages) ([start..<?e] @ [?e])"
        using more gt by (intro nth_equalityI) (auto simp: nth_append less_Suc_eq)
      ultimately show ?thesis using page_batches_head [OF more, of n query limit]
        by (simp add: request_size_def comp_def)
    qed (simp add: page_batches.simps [of n query limit pages ?e])
    moreover have "successively (\<lambda>b c. request_size query limit pages (b @ [hd c]) > req_tokens n) ?rest"
      using 1 [OF True refl] .
    ultimately show ?thesis unfolding unfold by (auto simp: successively_Cons)
  qed (simp add: page_batches.simps [of n query limit pages start])
qed

subsection \<open>What the batches record\<close>

lemma key_index_item_key [simp]: "key_index pre (item_key pre i) = i"
  by (simp add: key_index_def item_key_def)

lemma length_record [simp]: "length (fold (record_noul pre j) ks probs) = length probs"
  by (induction ks arbitrary: probs) (auto simp: record_noul_def split: option.splits)

lemma length_batch_done [simp]: "length (sd_probs (batch_done pre req res st)) = length (sd_probs st)"
  by (auto simp: batch_done_def split: sum.splits option.splits)

text \<open>A batch of the candidates \<open>idxs\<close> asks one question about each.\<close>

definition asks :: "string \<Rightarrow> judge_request \<Rightarrow> nat list \<Rightarrow> bool" where
  "asks pre req idxs \<longleftrightarrow> map fst (jq_questions req) = map (item_key pre) idxs"

definition noul_or_zero :: "verdict \<Rightarrow> string \<Rightarrow> f64" where
  "noul_or_zero j k = (case jd_noul j k of None \<Rightarrow> Fin 0 | Some p \<Rightarrow> p)"

lemma record_nouls:
  assumes "distinct idxs" "i < length probs" "i \<in> set idxs \<Longrightarrow> probs ! i = Fin 0"
  shows "fold (record_noul pre j) (map (item_key pre) idxs) probs ! i
    = (if i \<in> set idxs then noul_or_zero j (item_key pre i) else probs ! i)"
  using assms
proof (induction idxs arbitrary: probs)
  case (Cons k idxs)
  let ?probs = "record_noul pre j (item_key pre k) probs"
  have len: "length ?probs = length probs" by (simp add: record_noul_def split: option.split)
  have at: "?probs ! i = (if i = k then noul_or_zero j (item_key pre k) else probs ! i)"
    using Cons.prems(2,3) by (auto simp: record_noul_def noul_or_zero_def nth_list_update split: option.splits)
  show ?case
  proof (cases "i = k")
    case True
    with Cons.prems(1) have "i \<notin> set idxs" by simp
    then have "fold (record_noul pre j) (map (item_key pre) idxs) ?probs ! i = ?probs ! i"
      using Cons.IH [of ?probs] Cons.prems(1,2) len by simp
    with at True show ?thesis by simp
  next
    case False
    then have "fold (record_noul pre j) (map (item_key pre) idxs) ?probs ! i
        = (if i \<in> set idxs then noul_or_zero j (item_key pre i) else ?probs ! i)"
      using Cons.IH [of ?probs] Cons.prems len at by simp
    with at False show ?thesis by simp
  qed
qed simp

text \<open>A Judge whose answer depends on the request alone, and always comes.\<close>

definition answers :: "'w navigator \<Rightarrow> (judge_request \<Rightarrow> verdict) \<Rightarrow> bool" where
  "answers n f \<longleftrightarrow> jn_judge n = Some (\<lambda>cancelled req w. (Inr (f req), w))"

lemma batch_done_probs:
  assumes "asks pre req idxs" "distinct idxs" "i < length (sd_probs st)" "i \<in> set idxs \<Longrightarrow> sd_probs st ! i = Fin 0"
  shows "sd_probs (batch_done pre req (Inr j) st) ! i
    = (if i \<in> set idxs then noul_or_zero j (item_key pre i) else sd_probs st ! i)"
  using record_nouls [OF assms(2-4)] assms(1) by (simp add: batch_done_def asks_def)

lemma batch_done_error [simp]: "sd_error (batch_done pre req (Inr j) st) = sd_error st"
  by (simp add: batch_done_def)

abbreviation always :: "(judge_request \<Rightarrow> verdict) \<Rightarrow> 'w judge" where
  "always f \<equiv> (\<lambda>cancelled req w. (Inr (f req), w))"

lemma send_always [simp]:
  "length (sd_probs (fst (send_batches pre (always f) reqs order st w))) = length (sd_probs st)"
  "sd_error (fst (send_batches pre (always f) reqs order st w)) = sd_error st"
  by (induction order arbitrary: st) simp_all

lemma send_untouched:
  assumes "\<forall>b \<in> set order. asks pre (reqs ! b) (idxss b) \<and> distinct (idxss b) \<and> i \<notin> set (idxss b)" "i < length (sd_probs st)"
  shows "sd_probs (fst (send_batches pre (always f) reqs order st w)) ! i = sd_probs st ! i"
  using assms
proof (induction order arbitrary: st)
  case (Cons b order)
  have "sd_probs (batch_done pre (reqs ! b) (Inr (f (reqs ! b))) st) ! i = sd_probs st ! i"
    using Cons.prems by (subst batch_done_probs [where idxs = "idxss b"]) auto
  with Cons.IH [of "batch_done pre (reqs ! b) (Inr (f (reqs ! b))) st"] Cons.prems show ?case by simp
qed simp

lemma send_touched:
  assumes "distinct order" "\<forall>b \<in> set order. asks pre (reqs ! b) (idxss b) \<and> distinct (idxss b)"
    "b \<in> set order" "i \<in> set (idxss b)" "\<forall>c \<in> set order. i \<in> set (idxss c) \<longrightarrow> c = b"
    "i < length (sd_probs st)" "sd_probs st ! i = Fin 0"
  shows "sd_probs (fst (send_batches pre (always f) reqs order st w)) ! i = noul_or_zero (f (reqs ! b)) (item_key pre i)"
  using assms
proof (induction order arbitrary: st)
  case (Cons c order)
  let ?st = "batch_done pre (reqs ! c) (Inr (f (reqs ! c))) st"
  have here: "sd_probs ?st ! i = (if i \<in> set (idxss c) then noul_or_zero (f (reqs ! c)) (item_key pre i) else sd_probs st ! i)"
    using Cons.prems(2,6,7) by (intro batch_done_probs) simp_all
  have go: "send_batches pre (always f) reqs (c # order) st w = send_batches pre (always f) reqs order ?st w"
    by simp
  show ?case
  proof (cases "c = b")
    case True
    have "\<forall>d \<in> set order. asks pre (reqs ! d) (idxss d) \<and> distinct (idxss d) \<and> i \<notin> set (idxss d)"
    proof (intro ballI)
      fix d assume d: "d \<in> set order"
      then have "d \<noteq> b" using Cons.prems(1) True by auto
      then have "i \<notin> set (idxss d)" using Cons.prems(5) d by (meson list.set_intros(2))
      with Cons.prems(2) d show "asks pre (reqs ! d) (idxss d) \<and> distinct (idxss d) \<and> i \<notin> set (idxss d)" by simp
    qed
    then have "sd_probs (fst (send_batches pre (always f) reqs order ?st w)) ! i = sd_probs ?st ! i"
      using Cons.prems(6) by (intro send_untouched) simp_all
    moreover have "sd_probs ?st ! i = noul_or_zero (f (reqs ! b)) (item_key pre i)"
      using here Cons.prems(4) True by metis
    ultimately show ?thesis unfolding go by (rule trans)
  next
    case False
    then have "i \<notin> set (idxss c)" using Cons.prems(5) by (meson list.set_intros(1))
    from False have "b \<in> set order" using Cons.prems(3) by simp
    have zero: "sd_probs ?st ! i = Fin 0" using here \<open>i \<notin> set (idxss c)\<close> Cons.prems(7) by (simp only: if_False)
    have order: "distinct order" "\<forall>b \<in> set order. asks pre (reqs ! b) (idxss b) \<and> distinct (idxss b)"
      "\<forall>c \<in> set order. i \<in> set (idxss c) \<longrightarrow> c = b"
      using Cons.prems(1,2,5) by simp_all
    have len: "i < length (sd_probs ?st)" using Cons.prems(6) by simp
    show ?thesis unfolding go
      by (rule Cons.IH [OF order(1,2) \<open>b \<in> set order\<close> Cons.prems(4) order(3) len zero])
  qed
qed simp

lemma concat_unique:
  assumes "distinct (concat xss)" "b < length xss" "c < length xss" "i \<in> set (xss ! b)" "i \<in> set (xss ! c)"
  shows "c = b"
  using assms
proof (induction xss arbitrary: b c)
  case (Cons xs xss)
  have apart: "i \<notin> set xs" if "i \<in> set (xss ! k)" "k < length xss" for k
  proof -
    have "i \<in> set (concat xss)" using that nth_mem by force
    with Cons.prems(1) show ?thesis by auto
  qed
  show ?case
  proof (cases b)
    case 0
    then show ?thesis using apart Cons.prems(3-5) by (cases c) auto
  next
    case (Suc b')
    then obtain c' where "c = Suc c'" using apart [of b'] Cons.prems by (cases c) auto
    with Suc Cons.IH [of b' c'] Cons.prems show ?thesis by simp
  qed
qed simp

text \<open>The probability a candidate ends up with: the answer of the one batch that asks about it.\<close>

lemma rank_always:
  assumes judge: "answers n f" and sched: "schedule (jn_schedule n)"
    and asks: "\<forall>b < length reqs. asks pre (reqs ! b) (idxss ! b)" "length idxss = length reqs"
    and part: "concat idxss = [0..<length xs]"
    and probs: "length probs = length xs" "\<forall>b < length reqs. \<forall>i \<in> set (idxss ! b). probs ! i = noul_or_zero (f (reqs ! b)) (item_key pre i)"
  shows "fst (rank_candidates n pre xs reqs w) = Inr (best_first (with_probs xs probs))"
proof -
  let ?st = "\<lparr>sd_probs = replicate (length xs) (Fin 0), sd_usage = no_usage, sd_requests = 0, sd_error = None\<rparr>"
  let ?order = "jn_schedule n (length reqs)"
  obtain r w' where r: "send_batches pre (always f) reqs ?order ?st w = (r, w')" by force
  have order: "distinct ?order" "set ?order = {0..<length reqs}" using sched by (auto simp: schedule_def)
  have dist: "distinct (concat idxss)" using part by simp
  have bs: "\<forall>b \<in> set ?order. asks pre (reqs ! b) (idxss ! b) \<and> distinct (idxss ! b)"
    using order(2) asks dist by (auto simp: distinct_concat_iff)
  have "sd_probs r ! i = probs ! i" if i: "i < length xs" for i
  proof -
    have "i \<in> set (concat idxss)" using part i by simp
    then obtain b where b: "b < length idxss" "i \<in> set (idxss ! b)"
      by (metis in_set_conv_nth UN_E set_concat)
    have uniq: "\<forall>c \<in> set ?order. i \<in> set (idxss ! c) \<longrightarrow> c = b"
      using concat_unique [OF dist b(1) _ b(2)] order(2) asks(2) by simp
    have "b \<in> set ?order" using b(1) order(2) asks(2) by simp
    from send_touched [OF order(1) bs this b(2) uniq, of ?st f w] r i
    have "sd_probs r ! i = noul_or_zero (f (reqs ! b)) (item_key pre i)" by simp
    with probs(2) b asks(2) show ?thesis by simp
  qed
  moreover have "length (sd_probs r) = length xs" "sd_error r = None"
    using send_always [of pre f reqs ?order ?st w] r by simp_all
  ultimately have "sd_probs r = probs" "sd_error r = None"
    using probs(1) by (auto intro: nth_equalityI)
  with r judge show ?thesis by (simp add: rank_candidates_def answers_def)
qed

subsection \<open>Rankings\<close>

lemma set_best_first [simp]: "set (best_first xs) = set xs"
  by (simp add: best_first_def)

lemma length_best_first [simp]: "length (best_first xs) = length xs"
  by (simp add: best_first_def)

lemma mset_best_first [simp]: "mset (best_first xs) = mset xs"
  by (simp add: best_first_def)

lemma best_first_order:
  assumes "\<forall>x \<in> set xs. sc_p x \<noteq> NaN"
  shows "sorted_wrt (\<lambda>a b. f_le (sc_p b) (sc_p a)) (best_first xs)"
proof -
  have weak: "weak_order_on (set xs) (\<lambda>a b. f_lt (sc_p b) (sc_p a))"
    using assms f_lt_asym not_f_lt f_le_trans unfolding weak_order_on_def by metis
  have "sorted_wrt (\<lambda>a b. \<not> f_lt (sc_p a) (sc_p b)) (best_first xs)"
    using stable_sort_sorted [OF weak] by (simp add: best_first_def)
  then show ?thesis
    by (rule sorted_wrt_mono_rel [rotated]) (use assms not_f_lt in auto)
qed

lemma map_item_with_probs [simp]: "length xs = length probs \<Longrightarrow> map sc_item (with_probs xs probs) = xs"
  by (induction xs probs rule: list_induct2) (auto simp: with_probs_def)

lemma send_length:
  "length (sd_probs (fst (send_batches pre judge reqs order st w))) = length (sd_probs st)"
  by (induction order arbitrary: st w) (auto split: prod.splits)

text \<open>Whatever the Judge does, a ranking that comes back holds each candidate once.\<close>

lemma rank_candidates_mset:
  assumes "rank_candidates n pre xs reqs w = (Inr ss, u, k, w')"
  shows "mset (map sc_item ss) = mset xs"
proof -
  let ?st = "\<lparr>sd_probs = replicate (length xs) (Fin 0), sd_usage = no_usage, sd_requests = 0, sd_error = None\<rparr>"
  obtain judge where judge: "jn_judge n = Some judge" using assms by (cases "jn_judge n") (auto simp: rank_candidates_def)
  obtain st w1 where st: "send_batches pre judge reqs (jn_schedule n (length reqs)) ?st w = (st, w1)" by force
  have "length (sd_probs st) = length xs"
    using send_length [of pre judge reqs "jn_schedule n (length reqs)" ?st w] st by simp
  moreover have "ss = best_first (with_probs xs (sd_probs st))"
    using assms judge st by (auto simp: rank_candidates_def split: option.splits)
  ultimately show ?thesis by (metis mset_map mset_best_first map_item_with_probs)
qed

definition own_batch :: "nat list list \<Rightarrow> nat \<Rightarrow> nat list" where
  "own_batch bs i = hd (filter (\<lambda>b. i \<in> set b) bs)"

lemma own_batch_eq:
  assumes "distinct (concat bs)" "b < length bs" "i \<in> set (bs ! b)"
  shows "own_batch bs i = bs ! b"
proof -
  have "bs ! b \<in> set (filter (\<lambda>b. i \<in> set b) bs)" using assms(2,3) by simp
  then have "own_batch bs i \<in> set (filter (\<lambda>b. i \<in> set b) bs)"
    unfolding own_batch_def by (metis hd_in_set list.distinct(1) list.set_cases)
  then have own: "own_batch bs i \<in> set bs" "i \<in> set (own_batch bs i)" by simp_all
  then obtain c where c: "c < length bs" "own_batch bs i = bs ! c" by (metis in_set_conv_nth)
  with concat_unique [OF assms(1,2) c(1) assms(3)] own(2) show ?thesis by simp
qed

lemma own_batch_part:
  "concat bs = [0..<len] \<Longrightarrow> b < length bs \<Longrightarrow> i \<in> set (bs ! b) \<Longrightarrow> i < len \<and> own_batch bs i = bs ! b"
  using own_batch_eq [of bs b i] by (metis atLeastLessThan_iff distinct_upt nth_mem set_concat set_upt UN_I)

text \<open>The answer of a stateless Judge about page \<open>i\<close>: that of the request its batch is sent in.\<close>

definition page_prob :: "'w navigator \<Rightarrow> (judge_request \<Rightarrow> verdict) \<Rightarrow> string \<Rightarrow> nav_page list \<Rightarrow> int \<Rightarrow> bool \<Rightarrow> nat \<Rightarrow> f64" where
  "page_prob n f query pages limit coarse i =
     noul_or_zero (f (page_request n query limit coarse pages (own_batch (page_batches n query limit pages 0) i)))
       (item_key page_prefix i)"

lemma page_request_asks: "asks page_prefix (page_request n query limit coarse pages idxs) idxs"
  by (simp add: asks_def page_request_def comp_def)

lemma rank_pages_always:
  assumes "answers n f" "schedule (jn_schedule n)"
  shows "fst (rank_pages_at n query pages limit coarse w)
    = Inr (best_first (with_probs pages (map (page_prob n f query pages limit coarse) [0..<length pages])))"
proof -
  let ?bs = "page_batches n query limit pages 0"
  have part: "concat ?bs = [0..<length pages]" by (simp add: page_batches_concat)
  show ?thesis unfolding rank_pages_at_def
  proof (rule rank_always [OF assms, where idxss = ?bs])
    show "\<forall>b < length (map (page_request n query limit coarse pages) ?bs).
        asks page_prefix (map (page_request n query limit coarse pages) ?bs ! b) (?bs ! b)"
      by (simp add: page_request_asks)
    show "\<forall>b < length (map (page_request n query limit coarse pages) ?bs). \<forall>i \<in> set (?bs ! b).
        map (page_prob n f query pages limit coarse) [0..<length pages] ! i
        = noul_or_zero (f (map (page_request n query limit coarse pages) ?bs ! b)) (item_key page_prefix i)"
      using own_batch_part [OF part] by (simp add: page_prob_def)
  qed (simp_all add: part)
qed

text \<open>
  C4. Pages are put to the Judge in batches that partition them in order. A batch of more than one page is
  within the request budget by the code's own estimate (a single page may exceed it), and it ends only
  where the next page would exceed the budget. For a Judge that always answers, by the request alone,
  the ranking is the stable best-first order of each page's own answer, in whatever order the concurrent
  calls come back.
\<close>
lemma rank_pages_concurrent:
  assumes "answers n f" "schedule (jn_schedule n)"
  shows "fst (rank_pages_at n query pages limit coarse w)
      = Inr (best_first (with_probs pages (map (page_prob n f query pages limit coarse) [0..<length pages])))
    \<and> concat (page_batches n query limit pages 0) = [0..<length pages]
    \<and> list_all (\<lambda>b. length b = 1 \<or> request_size query limit pages b \<le> req_tokens n) (page_batches n query limit pages 0)
    \<and> successively (\<lambda>b c. request_size query limit pages (b @ [hd c]) > req_tokens n) (page_batches n query limit pages 0)"
  using rank_pages_always [OF assms] page_batches_fit [of n query limit pages 0] page_batches_full [where n = n and query = query and limit = limit and pages = pages and start = 0]
  by (simp add: page_batches_concat list_all_iff)

text \<open>
  The comment on \<open>RankPages\<close> promises a state under the budget. A page over the budget is sent all the
  same, in a request of its own.
\<close>

lemma lone_page_over_budget:
  "page_batches n query limit [p] 0 = [[0]]"
  by (simp add: page_batches.simps Let_def)

end
