(* ===== verification/Judge_Navigate.thy ===== *)
theory Judge_Navigate
  imports Judge_Rank Calc_Eval
begin

text \<open>
  \<open>Navigate\<close> of \<open>pkg/retrieval/judgewalk.go\<close>: rank the leaves, gather the pages of the best ones,
  choose by their heads which are read in full, rank those, take the evidence, and read once more
  where the evidence refers to a leaf that was not read. Reading a leaf's pages is the parameter
  \<open>load\<close>. The steps reported to \<open>OnStep\<close> are the list of them, in order.

  Two goroutines rank leaves and heads at the same time; \<open>jn_heads_first\<close> says which is served
  first. Letters are compared as ASCII letters.
\<close>

subsection \<open>References in a page\<close>

definition is_word_byte :: "char \<Rightarrow> bool" where
  "is_word_byte c = (is_ascii_digit c \<or> c = CHR ''_'' \<or> (CHR ''a'' \<le> c \<and> c \<le> CHR ''z'') \<or> (CHR ''A'' \<le> c \<and> c \<le> CHR ''Z''))"

definition lower_byte :: "char \<Rightarrow> char" where
  "lower_byte c = (if CHR ''A'' \<le> c \<and> c \<le> CHR ''Z'' then byte (of_char c + 32) else c)"

definition to_lower :: "string \<Rightarrow> string" where
  "to_lower s = map lower_byte s"

definition reference_labels :: "string list" where
  "reference_labels = [''note'', ''item'', ''part'', ''section'', ''schedule'']"

text \<open>
  A match of \<open>(?i)\b(note|item|part|section|schedule)\s+(\d+[a-c]?)\b\<close> at the start of \<open>s\<close>, after
  the byte \<open>before\<close>: the label, the number and the length. After the label only the longest run of
  spaces, the longest run of digits and a letter that is there can lead to a match.
\<close>

definition reference_at :: "char option \<Rightarrow> string \<Rightarrow> (string \<times> string \<times> nat) option" where
  "reference_at before s =
     (case find (\<lambda>l. to_lower (take (length l) s) = l) reference_labels of
        None \<Rightarrow> None
      | Some l \<Rightarrow>
          let r = drop (length l) s;
              sp = length (takeWhile regexp_space r);
              r1 = drop sp r;
              dg = length (takeWhile is_ascii_digit r1);
              r2 = drop dg r1;
              lt = (if r2 \<noteq> [] \<and> lower_byte (hd r2) \<in> {CHR ''a'', CHR ''b'', CHR ''c''} then 1 else 0);
              r3 = drop lt r2
          in if (case before of None \<Rightarrow> True | Some c \<Rightarrow> \<not> is_word_byte c) \<and> 0 < sp \<and> 0 < dg
               \<and> (r3 = [] \<or> \<not> is_word_byte (hd r3))
             then Some (take (length l) s, take (dg + lt) r1, length l + sp + dg + lt) else None)"

function find_references :: "char option \<Rightarrow> string \<Rightarrow> (string \<times> string) list" where
  "find_references before [] = []"
| "find_references before (c # s) =
     (case reference_at before (c # s) of
        Some (label, num, n) \<Rightarrow>
          if n = 0 then [] else (label, num) # find_references (Some ((c # s) ! (n - 1))) (drop n (c # s))
      | None \<Rightarrow> find_references (Some c) s)"
  by pat_completeness auto
termination by (relation "measure (\<lambda>(before, s). length s)") auto

definition names_leaf :: "string \<Rightarrow> nav_leaf \<Rightarrow> bool" where
  "names_leaf key l =
     (let t = to_lower (trim_space (nl_title l)); rest = drop (length key) t
      in has_prefix t key
         \<and> (rest = [] \<or> (hd rest < CHR ''0'' \<or> hd rest > CHR ''9'') \<and> (hd rest < CHR ''a'' \<or> hd rest > CHR ''z'')))"

definition referenced_leaves :: "string \<Rightarrow> nav_leaf list \<Rightarrow> nav_leaf list" where
  "referenced_leaves s leaves =
     (let keys = map (\<lambda>(label, num). to_lower label @ '' '' @ to_lower num) (find_references None s)
      in List.map_filter (\<lambda>key. find (names_leaf key) leaves) (dedup_by id [] keys))"

subsection \<open>Results and steps\<close>

record nav_result =
  nr_leaves :: "leaf_score list"
  nr_selected :: "nav_leaf list"
  nr_coarse :: "page_score list"
  nr_pages :: "page_score list"
  nr_evidence :: "page_score list"
  nr_followed :: "nav_leaf list"
  nr_usage :: usage
  nr_requests :: int

definition no_nav_result :: nav_result where
  "no_nav_result = \<lparr>nr_leaves = [], nr_selected = [], nr_coarse = [], nr_pages = [], nr_evidence = [],
     nr_followed = [], nr_usage = no_usage, nr_requests = 0\<rparr>"

record nav_step_section =
  ss_title :: string
  ss_path :: string
  ss_start :: int
  ss_end :: int
  ss_prob :: f64

record nav_step_page =
  sp_page :: int
  sp_prob :: f64

datatype nav_step =
    Structure_Step nat int
  | Sections_Step nat "nav_step_section list"
  | Skim_Step nat "nav_step_page list"
  | Read_Step nat "nav_step_page list" "nav_step_section list"
  | Pages_Step nat "nav_step_page list"
  | Follow_Step nat "nav_step_section list"

definition step_section :: "nav_leaf \<Rightarrow> f64 \<Rightarrow> nav_step_section" where
  "step_section l p = \<lparr>ss_title = nl_title l, ss_path = nl_path l, ss_start = nl_start l, ss_end = nl_end l, ss_prob = p\<rparr>"

definition step_sections :: "leaf_score list \<Rightarrow> nat \<Rightarrow> nav_step_section list" where
  "step_sections ls k = map (\<lambda>s. step_section (sc_item s) (sc_p s)) (take (min k (length ls)) ls)"

definition step_pages :: "page_score list \<Rightarrow> nat \<Rightarrow> nav_step_page list" where
  "step_pages ps k = map (\<lambda>s. \<lparr>sp_page = np_number (sc_item s), sp_prob = sc_p s\<rparr>) (take (min k (length ps)) ps)"

subsection \<open>Reading pages\<close>

type_synonym 'w loader = "nav_leaf \<Rightarrow> 'w \<Rightarrow> (string + nav_page list) \<times> 'w"

text \<open>The title in a load error is written without the escapes \<open>%q\<close> adds.\<close>

definition load_error :: "string \<Rightarrow> nav_leaf \<Rightarrow> string \<Rightarrow> string" where
  "load_error verb l err = ''judgewalk: '' @ verb @ '' '' @ CHR 0x22 # nl_title l @ [CHR 0x22] @ '': '' @ err"

text \<open>\<open>allLeafPages\<close>: every leaf's pages, each page number once, in page order.\<close>

fun all_leaf_pages_from :: "'w loader \<Rightarrow> nav_leaf list \<Rightarrow> nav_page list \<Rightarrow> 'w \<Rightarrow> (string + nav_page list) \<times> 'w" where
  "all_leaf_pages_from load [] pages w = (Inr pages, w)"
| "all_leaf_pages_from load (l # ls) pages w =
     (case load l w of
        (Inl err, w') \<Rightarrow> (Inl (load_error ''load'' l err), w')
      | (Inr ps, w') \<Rightarrow>
          all_leaf_pages_from load ls
            (pages @ map (\<lambda>p. p\<lparr>np_leaf := nl_id l\<rparr>) (dedup_by np_number (map np_number pages) ps)) w')"

definition all_leaf_pages :: "'w loader \<Rightarrow> nav_leaf list \<Rightarrow> 'w \<Rightarrow> (string + nav_page list) \<times> 'w" where
  "all_leaf_pages load leaves w =
     (case all_leaf_pages_from load leaves [] w of
        (Inl err, w') \<Rightarrow> (Inl err, w')
      | (Inr pages, w') \<Rightarrow> (Inr (stable_sort (\<lambda>p q. np_number p < np_number q) pages), w'))"

text \<open>One leaf's pages into the gathered ones: numbers seen before and pages past the cap are passed over.\<close>

fun gather_leaf :: "int \<Rightarrow> string \<Rightarrow> nav_page list \<Rightarrow> nav_page list \<Rightarrow> nav_page list" where
  "gather_leaf cap leaf [] pages = pages"
| "gather_leaf cap leaf (p # ps) pages =
     (if np_number p \<in> np_number ` set pages \<or> int (length pages) \<ge> cap then gather_leaf cap leaf ps pages
      else gather_leaf cap leaf ps (pages @ [p\<lparr>np_leaf := leaf\<rparr>]))"

fun gather ::
    "'w navigator \<Rightarrow> 'w loader \<Rightarrow> leaf_score list \<Rightarrow> nav_leaf list \<Rightarrow> nav_page list \<Rightarrow> 'w \<Rightarrow>
     (string + nav_leaf list \<times> nav_page list) \<times> 'w" where
  "gather n load [] selected pages w = (Inr (selected, pages), w)"
| "gather n load (ls # ranked) selected pages w =
     (if int (length selected) \<ge> max_leaves n \<or> int (length pages) \<ge> coarse_pages n then (Inr (selected, pages), w)
      else case load (sc_item ls) w of
             (Inl err, w') \<Rightarrow> (Inl (load_error ''load'' (sc_item ls) err), w')
           | (Inr ps, w') \<Rightarrow>
               let pages' = gather_leaf (coarse_pages n) (nl_id (sc_item ls)) ps pages
               in gather n load ranked
                    (if length pages < length pages' then selected @ [sc_item ls] else selected) pages' w')"

subsection \<open>Evidence\<close>

definition nav_min_evidence :: nat where
  "nav_min_evidence = 2"

definition fill_evidence :: "f64 \<Rightarrow> page_score list \<Rightarrow> page_score list" where
  "fill_evidence th scored =
     (let above = filter (\<lambda>s. f_le th (sc_p s)) scored
      in if length above < nav_min_evidence then take (min nav_min_evidence (length scored)) scored else above)"

text \<open>
  Following references. The evidence pages are gone through in order, and for each the leaves it
  names; a leaf is read once. \<open>read\<close> holds the IDs of the leaves read, \<open>seen\<close> the page numbers.
\<close>

fun follow_pages :: "int \<Rightarrow> string \<Rightarrow> nav_page list \<Rightarrow> int list \<times> nav_page list \<Rightarrow> int list \<times> nav_page list" where
  "follow_pages cap leaf [] acc = acc"
| "follow_pages cap leaf (p # ps) (seen, refs) =
     (if np_number p \<notin> set seen \<and> int (length refs) < cap
      then follow_pages cap leaf ps (np_number p # seen, refs @ [p\<lparr>np_leaf := leaf\<rparr>])
      else follow_pages cap leaf ps (seen, refs))"

record following =
  fo_read :: "string list"
  fo_seen :: "int list"
  fo_pages :: "nav_page list"
  fo_leaves :: "nav_leaf list"

fun follow_targets :: "int \<Rightarrow> 'w loader \<Rightarrow> nav_leaf list \<Rightarrow> following \<Rightarrow> 'w \<Rightarrow> (string + following) \<times> 'w" where
  "follow_targets cap load [] st w = (Inr st, w)"
| "follow_targets cap load (l # ls) st w =
     (if nl_id l \<in> set (fo_read st) then follow_targets cap load ls st w
      else case load l w of
             (Inl err, w') \<Rightarrow> (Inl (load_error ''follow'' l err), w')
           | (Inr ps, w') \<Rightarrow>
               (case follow_pages cap (nl_id l) ps (fo_seen st, fo_pages st) of
                  (seen, refs) \<Rightarrow>
                    follow_targets cap load ls
                      \<lparr>fo_read = nl_id l # fo_read st, fo_seen = seen, fo_pages = refs, fo_leaves = fo_leaves st @ [l]\<rparr> w'))"

subsection \<open>Navigate\<close>

text \<open>Errors of a ranking are wrapped with what was being ranked.\<close>

definition wrap :: "string \<Rightarrow> string \<Rightarrow> string" where
  "wrap what err = ''judgewalk: '' @ what @ '': '' @ err"

definition add_cost :: "usage \<Rightarrow> int \<Rightarrow> nav_result \<Rightarrow> nav_result" where
  "add_cost u k res = res\<lparr>nr_usage := add_usage (nr_usage res) u, nr_requests := nr_requests res + k\<rparr>"

text \<open>The ranking of the leaves, with the heads of all pages when \<open>SkimAll\<close> applies.\<close>

type_synonym first_pass = "leaf_score list \<times> page_score list option \<times> nav_result"

definition skim_both :: "'w navigator \<Rightarrow> string \<Rightarrow> nav_leaf list \<Rightarrow> nav_page list \<Rightarrow> 'w \<Rightarrow> (string + first_pass) \<times> 'w" where
  "skim_both n query leaves all w =
     (let rank = rank_leaves n query leaves; skim = rank_pages_at n query all (head_chars n) True;
          ((ranked, lu, lr), (heads, hu, hr), w') =
            (if jn_heads_first n
             then (case skim w of (h, hu, hr, w1) \<Rightarrow> (case rank w1 of (r, lu, lr, w2) \<Rightarrow> ((r, lu, lr), (h, hu, hr), w2)))
             else (case rank w of (r, lu, lr, w1) \<Rightarrow> (case skim w1 of (h, hu, hr, w2) \<Rightarrow> ((r, lu, lr), (h, hu, hr), w2))))
      in case (ranked, heads) of
           (Inl err, _) \<Rightarrow> (Inl (wrap ''rank leaves'' err), w')
         | (Inr _, Inl err) \<Rightarrow> (Inl (wrap ''rank page heads'' err), w')
         | (Inr r, Inr h) \<Rightarrow>
             (Inr (r, Some h, (add_cost hu (lr + hr) (add_cost lu 0 no_nav_result))\<lparr>nr_coarse := h\<rparr>), w'))"

definition rank_first :: "'w navigator \<Rightarrow> string \<Rightarrow> nav_leaf list \<Rightarrow> 'w \<Rightarrow> (string + first_pass) \<times> 'w" where
  "rank_first n query leaves w =
     (case rank_leaves n query leaves w of
        (Inl err, u, k, w') \<Rightarrow> (Inl (wrap ''rank leaves'' err), w')
      | (Inr ranked, u, k, w') \<Rightarrow> (Inr (ranked, None, add_cost u k no_nav_result), w'))"

definition first_ranking :: "'w navigator \<Rightarrow> string \<Rightarrow> nav_leaf list \<Rightarrow> 'w loader \<Rightarrow> 'w \<Rightarrow> (string + first_pass) \<times> 'w" where
  "first_ranking n query leaves load w =
     (if jn_skim_all n
      then (case all_leaf_pages load leaves w of
              (Inl err, w') \<Rightarrow> (Inl err, w')
            | (Inr all, w') \<Rightarrow>
                if int (length all) > max_pages n \<and> int (length all) \<le> skim_all_max n
                then skim_both n query leaves all w' else rank_first n query leaves w')
      else rank_first n query leaves w)"

definition by_number :: "nav_page list \<Rightarrow> nav_page list" where
  "by_number = stable_sort (\<lambda>p q. np_number p < np_number q)"

text \<open>The score of a page by its number: the last head with it, zero when there is none.\<close>

definition head_score :: "page_score list \<Rightarrow> int \<Rightarrow> f64" where
  "head_score heads k = (case find (\<lambda>h. np_number (sc_item h) = k) (rev heads) of None \<Rightarrow> Fin 0 | Some h \<Rightarrow> sc_p h)"

text \<open>
  \<open>xs[:k]\<close> panics when \<open>xs\<close> is too short for it, and so does a slice past the length here, also where
  spare capacity would let Go read on.
\<close>

definition prefix_slice :: "int \<Rightarrow> 'a list \<Rightarrow> string + 'a list" where
  "prefix_slice k xs =
     (if 0 \<le> k \<and> k \<le> int (length xs) then Inr (take (nat k) xs) else Inl ''panic: slice bounds out of range'')"

lemma prefix_slice_ok: "0 \<le> k \<Longrightarrow> k \<le> int (length xs) \<Longrightarrow> prefix_slice k xs = Inr (take (nat k) xs)"
  by (simp add: prefix_slice_def)

definition choose_pages ::
    "'w navigator \<Rightarrow> string \<Rightarrow> page_score list option \<Rightarrow> nav_page list \<Rightarrow> nav_result \<Rightarrow> 'w \<Rightarrow>
     (string + nav_page list \<times> nav_result) \<times> 'w" where
  "choose_pages n query heads pages out w =
     (let m = max_pages n
      in if int (length pages) \<le> m then (Inr (pages, out), w)
         else case heads of
                Some hs \<Rightarrow>
                  (case prefix_slice m (stable_sort (\<lambda>p q. f_lt (head_score hs (np_number q)) (head_score hs (np_number p))) pages) of
                     Inl panic \<Rightarrow> (Inl panic, w)
                   | Inr best \<Rightarrow> (Inr (by_number best, out), w))
              | None \<Rightarrow>
                  (case rank_pages_at n query pages (head_chars n) True w of
                     (Inl err, u, k, w') \<Rightarrow> (Inl (wrap ''rank page heads'' err), w')
                   | (Inr hs, u, k, w') \<Rightarrow>
                       (case prefix_slice m hs of
                          Inl panic \<Rightarrow> (Inl panic, w')
                        | Inr best \<Rightarrow> (Inr (by_number (map sc_item best), (add_cost u k out)\<lparr>nr_coarse := hs\<rparr>), w'))))"

definition read_step :: "nav_page list \<Rightarrow> nav_leaf list \<Rightarrow> nav_step" where
  "read_step pages selected =
     Read_Step (length pages) (map (\<lambda>p. \<lparr>sp_page = np_number p, sp_prob = Fin 0\<rparr>) pages)
       (map (\<lambda>l. step_section l (Fin 0)) selected)"

definition follow_references ::
    "'w navigator \<Rightarrow> string \<Rightarrow> nav_leaf list \<Rightarrow> 'w loader \<Rightarrow> int list \<Rightarrow> nav_result \<Rightarrow> nav_step list \<Rightarrow> 'w \<Rightarrow>
     (string + nav_result) \<times> nav_step list \<times> 'w" where
  "follow_references n query leaves load seen out steps w =
     (case follow_targets (max_pages n) load
             (concat (map (\<lambda>ev. referenced_leaves (np_text (sc_item ev)) leaves) (nr_evidence out)))
             \<lparr>fo_read = map nl_id (nr_selected out), fo_seen = seen, fo_pages = [], fo_leaves = []\<rparr> w of
        (Inl err, w') \<Rightarrow> (Inl err, steps, w')
      | (Inr st, w') \<Rightarrow>
          let out = out\<lparr>nr_followed := fo_leaves st\<rparr>
          in if fo_pages st = [] then (Inr out, steps, w')
             else let steps = steps @ [Follow_Step (length (fo_pages st)) (map (\<lambda>l. step_section l (Fin 0)) (fo_leaves st))]
                  in case rank_pages n query (fo_pages st) w' of
                       (Inl err, u, k, w'') \<Rightarrow> (Inl (wrap ''rank referenced pages'' err), steps, w'')
                     | (Inr more_pages, u, k, w'') \<Rightarrow>
                         let pages = best_first (nr_pages out @ more_pages)
                         in (Inr ((add_cost u k out)\<lparr>nr_pages := pages, nr_evidence := fill_evidence (threshold n) pages\<rparr>), steps, w''))"

definition last_page :: "nav_leaf list \<Rightarrow> int" where
  "last_page leaves = fold (\<lambda>l m. max m (nl_end l)) leaves 0"

definition navigate ::
    "'w navigator \<Rightarrow> string \<Rightarrow> nav_leaf list \<Rightarrow> 'w loader \<Rightarrow> 'w \<Rightarrow> (string + nav_result) \<times> nav_step list \<times> 'w" where
  "navigate n query leaves load w =
     (if leaves = [] then (Inr no_nav_result, [], w)
      else let steps = [Structure_Step (length leaves) (last_page leaves)]
      in case first_ranking n query leaves load w of
        (Inl err, w1) \<Rightarrow> (Inl err, steps, w1)
      | (Inr (ranked, heads, out), w1) \<Rightarrow>
          let out = out\<lparr>nr_leaves := ranked\<rparr>;
              steps = steps @ [Sections_Step (length ranked) (step_sections ranked 6)]
                @ (case heads of None \<Rightarrow> [] | Some hs \<Rightarrow> [Skim_Step (length hs) (step_pages hs 8)])
          in case gather n load ranked [] [] w1 of
               (Inl err, w2) \<Rightarrow> (Inl err, steps, w2)
             | (Inr (selected, gathered), w2) \<Rightarrow>
                 let out = out\<lparr>nr_selected := selected\<rparr>
                 in if gathered = [] then (Inr out, steps, w2)
                    else case choose_pages n query heads gathered out w2 of
                      (Inl err, w3) \<Rightarrow> (Inl err, steps, w3)
                    | (Inr (pages, out), w3) \<Rightarrow>
                        let steps = steps @ [read_step pages selected]
                        in case rank_pages n query pages w3 of
                             (Inl err, u, k, w4) \<Rightarrow> (Inl (wrap ''rank pages'' err), steps, w4)
                           | (Inr scored, u, k, w4) \<Rightarrow>
                               let out = (add_cost u k out)\<lparr>nr_pages := scored, nr_evidence := fill_evidence (threshold n) scored\<rparr>;
                                   steps = steps @ [Pages_Step (length scored) (step_pages scored 8)]
                               in if jn_no_follow n then (Inr out, steps, w4)
                                  else follow_references n query leaves load (map np_number gathered) out steps w4)"

subsection \<open>What is gathered\<close>

text \<open>The pages gathered so far, under a cap: each number once, from the leaves \<open>ids\<close>.\<close>

definition gathered_ok :: "int \<Rightarrow> string set \<Rightarrow> nav_page list \<Rightarrow> bool" where
  "gathered_ok cap ids pages \<longleftrightarrow> distinct (map np_number pages) \<and> int (length pages) \<le> cap \<and> np_leaf ` set pages \<subseteq> ids"

lemma gathered_okD:
  "gathered_ok cap ids pages \<Longrightarrow> distinct (map np_number pages)"
  "gathered_ok cap ids pages \<Longrightarrow> int (length pages) \<le> cap"
  "gathered_ok cap ids pages \<Longrightarrow> np_leaf ` set pages \<subseteq> ids"
  by (simp_all add: gathered_ok_def)

lemma gathered_ok_mono: "gathered_ok cap ids pages \<Longrightarrow> ids \<subseteq> ids' \<Longrightarrow> gathered_ok cap ids' pages"
  by (auto simp: gathered_ok_def)

lemma gathered_ok_add:
  "gathered_ok cap ids pages \<Longrightarrow> np_number p \<notin> np_number ` set pages \<Longrightarrow> int (length pages) < cap \<Longrightarrow> leaf \<in> ids \<Longrightarrow>
   gathered_ok cap ids (pages @ [p\<lparr>np_leaf := leaf\<rparr>])"
  by (auto simp: gathered_ok_def)

lemma gather_leaf_ok:
  "gathered_ok cap ids pages \<Longrightarrow> leaf \<in> ids \<Longrightarrow> gathered_ok cap ids (gather_leaf cap leaf ps pages)"
proof (induction ps arbitrary: pages)
  case (Cons p ps)
  show ?case
  proof (cases "np_number p \<in> np_number ` set pages \<or> int (length pages) \<ge> cap")
    case True
    show ?thesis unfolding gather_leaf.simps if_P [OF True] by (rule Cons.IH [OF Cons.prems])
  next
    case False
    then have "gathered_ok cap ids (pages @ [p\<lparr>np_leaf := leaf\<rparr>])"
      using Cons.prems by (intro gathered_ok_add) auto
    then show ?thesis unfolding gather_leaf.simps if_not_P [OF False] using Cons.prems(2) by (rule Cons.IH)
  qed
qed simp

lemma gather_leaf_extends: "\<exists>new. gather_leaf cap leaf ps pages = pages @ new"
  by (induction cap leaf ps pages rule: gather_leaf.induct) auto

lemma gather_ok:
  assumes "gather n load ranked selected pages w = (Inr (selected', pages'), w')"
    and "gathered_ok (coarse_pages n) (nl_id ` set selected) pages" "int (length selected) \<le> max_leaves n"
    and "length selected \<le> length pages"
  shows "gathered_ok (coarse_pages n) (nl_id ` set selected') pages' \<and> int (length selected') \<le> max_leaves n
    \<and> length selected' \<le> length pages' \<and> set selected' \<subseteq> set selected \<union> sc_item ` set ranked"
  using assms
proof (induction ranked arbitrary: selected pages w)
  case (Cons ls ranked)
  show ?case
  proof (cases "int (length selected) \<ge> max_leaves n \<or> int (length pages) \<ge> coarse_pages n")
    case False
    obtain v w1 where v: "load (sc_item ls) w = (v, w1)" by force
    then obtain ps where ps: "v = Inr ps" using Cons.prems(1) False by (cases v) auto
    let ?pages = "gather_leaf (coarse_pages n) (nl_id (sc_item ls)) ps pages"
    let ?sel = "if length pages < length ?pages then selected @ [sc_item ls] else selected"
    have "gathered_ok (coarse_pages n) (nl_id ` set ?sel) ?pages"
    proof (cases "length pages < length ?pages")
      case True
      then have "gathered_ok (coarse_pages n) (nl_id ` set ?sel) pages"
        using Cons.prems(2) by (intro gathered_ok_mono [OF Cons.prems(2)]) auto
      with True show ?thesis by (intro gather_leaf_ok) simp_all
    next
      case False
      then have "?pages = pages" using gather_leaf_extends [of "coarse_pages n" "nl_id (sc_item ls)" ps pages] by auto
      with Cons.prems(2) show ?thesis by simp
    qed
    moreover have "gather n load ranked ?sel ?pages w1 = (Inr (selected', pages'), w')"
      using Cons.prems(1) False v ps by (simp add: Let_def)
    moreover have "length ?sel \<le> length ?pages"
      using Cons.prems(4) gather_leaf_extends [of "coarse_pages n" "nl_id (sc_item ls)" ps pages] by auto
    ultimately show ?thesis using Cons.IH [of ?sel ?pages w1] Cons.prems(3) False by (auto split: if_splits)
  qed (use Cons.prems in auto)
qed simp

subsection \<open>What is read\<close>

lemma mset_by_number [simp]: "mset (by_number ps) = mset ps"
  by (simp add: by_number_def)

lemma by_number_simps [simp]: "set (by_number ps) = set ps" "length (by_number ps) = length ps"
  "distinct (map np_number (by_number ps)) = distinct (map np_number ps)"
  by (simp_all add: by_number_def)

lemma max_pages_pos: "0 < max_pages n"
  by (simp add: max_pages_def)

lemma coarse_pages_pos: "0 < coarse_pages n"
  by (simp add: coarse_pages_def)

lemma take_part:
  assumes "mset ps = mset pages" "distinct (map np_number pages)"
  shows "set (take m ps) \<subseteq> set pages" "distinct (map np_number (take m ps))"
proof -
  show "set (take m ps) \<subseteq> set pages" using set_take_subset [of m ps] mset_eq_setD [OF assms(1)] by simp
  have "distinct (map np_number ps)" using assms by (metis mset_map mset_eq_imp_distinct_iff)
  then show "distinct (map np_number (take m ps))" by (simp add: take_map [symmetric])
qed

lemma rank_pages_at_mset:
  assumes "rank_pages_at n query pages limit coarse w = (Inr ss, u, k, w')"
  shows "mset (map sc_item ss) = mset pages"
  using assms unfolding rank_pages_at_def by (rule rank_candidates_mset)

lemma choose_pages_ok:
  assumes "choose_pages n query heads pages out w = (Inr (pages', out'), w')" "distinct (map np_number pages)" "pages \<noteq> []"
  shows "set pages' \<subseteq> set pages \<and> distinct (map np_number pages') \<and> int (length pages') \<le> max_pages n \<and> pages' \<noteq> []
    \<and> nr_selected out' = nr_selected out \<and> nr_leaves out' = nr_leaves out \<and> nr_followed out' = nr_followed out
    \<and> length (nr_coarse out') \<le> max (length (nr_coarse out)) (length pages)"
proof -
  let ?m = "nat (max_pages n)"
  have m: "0 < ?m" "int ?m = max_pages n" "0 \<le> max_pages n" using max_pages_pos [of n] by simp_all
  show ?thesis
  proof (cases "int (length pages) \<le> max_pages n")
    case True
    with assms m show ?thesis by (auto simp: choose_pages_def Let_def)
  next
    case long: False
    show ?thesis
    proof (cases heads)
      case (Some hs)
      let ?s = "stable_sort (\<lambda>p q. f_lt (head_score hs (np_number q)) (head_score hs (np_number p))) pages"
      have "prefix_slice (max_pages n) ?s = Inr (take ?m ?s)" using long m by (intro prefix_slice_ok) simp_all
      then have "pages' = by_number (take ?m ?s)" "out' = out"
        using assms(1) long Some by (simp_all add: choose_pages_def Let_def)
      with take_part [of ?s pages ?m] assms(2,3) m long show ?thesis by (auto simp flip: length_greater_0_conv)
    next
      case None
      obtain hs u k w1 where hs: "rank_pages_at n query pages (head_chars n) True w = (Inr hs, u, k, w1)"
        using assms(1) long None
        by (cases "rank_pages_at n query pages (head_chars n) True w") (auto simp: choose_pages_def Let_def split: sum.splits)
      have ms: "mset (map sc_item hs) = mset pages"
        using hs by (rule rank_pages_at_mset)
      have len: "length hs = length pages" using arg_cong [OF ms, of size] by simp
      have "prefix_slice (max_pages n) hs = Inr (take ?m hs)" using long len m by (intro prefix_slice_ok) simp_all
      then have "pages' = by_number (take ?m (map sc_item hs))" "out' = (add_cost u k out)\<lparr>nr_coarse := hs\<rparr>"
        using assms(1) long None hs by (simp_all add: choose_pages_def take_map)
      then show ?thesis using take_part [OF ms assms(2), of ?m] assms(3) m long len
        by (auto simp: add_cost_def simp flip: length_greater_0_conv)
    qed
  qed
qed

lemma rank_pages_mset: "rank_pages n query pages w = (Inr ss, u, k, w') \<Longrightarrow> mset (map sc_item ss) = mset pages"
  unfolding rank_pages_def by (rule rank_pages_at_mset)

text \<open>The pages of followed leaves: new numbers, outside \<open>A\<close>, from the leaves \<open>ids\<close>.\<close>

definition follow_ok :: "int \<Rightarrow> int set \<Rightarrow> string set \<Rightarrow> int list \<times> nav_page list \<Rightarrow> bool" where
  "follow_ok cap A ids acc \<longleftrightarrow> gathered_ok cap ids (snd acc) \<and> A \<union> np_number ` set (snd acc) \<subseteq> set (fst acc)
     \<and> A \<inter> np_number ` set (snd acc) = {}"

lemma follow_pages_ok: "follow_ok cap A ids acc \<Longrightarrow> leaf \<in> ids \<Longrightarrow> follow_ok cap A ids (follow_pages cap leaf ps acc)"
proof (induction ps arbitrary: acc)
  case (Cons p ps)
  obtain seen refs where acc: "acc = (seen, refs)" by force
  show ?case
  proof (cases "np_number p \<notin> set seen \<and> int (length refs) < cap")
    case True
    then have "np_number p \<notin> np_number ` set refs" "np_number p \<notin> A"
      using Cons.prems(1) by (auto simp: follow_ok_def acc)
    then have "follow_ok cap A ids (np_number p # seen, refs @ [p\<lparr>np_leaf := leaf\<rparr>])"
      using Cons.prems True gathered_ok_add [of cap ids refs p leaf] by (auto simp: follow_ok_def acc)
    from Cons.IH [OF this Cons.prems(2)] True show ?thesis by (simp add: acc)
  next
    case False
    then show ?thesis using Cons.IH [OF Cons.prems] by (simp only: acc follow_pages.simps if_False)
  qed
qed simp

lemma follow_targets_ok:
  assumes "follow_targets cap load ls st w = (Inr st', w')" "follow_ok cap A (nl_id ` set (fo_leaves st)) (fo_seen st, fo_pages st)"
    "set (fo_leaves st) \<union> set ls \<subseteq> L"
  shows "follow_ok cap A (nl_id ` set (fo_leaves st')) (fo_seen st', fo_pages st') \<and> set (fo_leaves st') \<subseteq> L"
  using assms
proof (induction ls arbitrary: st w)
  case (Cons l ls)
  show ?case
  proof (cases "nl_id l \<in> set (fo_read st)")
    case True
    with Cons.prems Cons.IH [of st w] show ?thesis by simp
  next
    case False
    obtain v w1 where v: "load l w = (v, w1)" by force
    then obtain ps where ps: "v = Inr ps" using Cons.prems(1) False by (cases v) auto
    obtain seen refs where fo: "follow_pages cap (nl_id l) ps (fo_seen st, fo_pages st) = (seen, refs)" by force
    have "follow_ok cap A (insert (nl_id l) (nl_id ` set (fo_leaves st))) (fo_seen st, fo_pages st)"
      using Cons.prems(2) by (auto simp: follow_ok_def intro: gathered_ok_mono)
    then have "follow_ok cap A (insert (nl_id l) (nl_id ` set (fo_leaves st))) (seen, refs)"
      using follow_pages_ok [of cap A _ _ "nl_id l" ps] fo by (metis insertI1)
    with Cons.prems False v ps fo
      Cons.IH [of "\<lparr>fo_read = nl_id l # fo_read st, fo_seen = seen, fo_pages = refs, fo_leaves = fo_leaves st @ [l]\<rparr>" w1]
    show ?thesis by simp
  qed
qed simp

text \<open>A leaf is followed once, and only if it was not selected.\<close>

lemma follow_targets_once:
  assumes "follow_targets cap load ls st w = (Inr st', w')"
    "distinct (map nl_id (fo_leaves st))" "nl_id ` set (fo_leaves st) \<union> A \<subseteq> set (fo_read st)"
    "A \<inter> nl_id ` set (fo_leaves st) = {}"
  shows "distinct (map nl_id (fo_leaves st')) \<and> A \<inter> nl_id ` set (fo_leaves st') = {}"
  using assms
proof (induction ls arbitrary: st w)
  case (Cons l ls)
  show ?case
  proof (cases "nl_id l \<in> set (fo_read st)")
    case True
    with Cons.prems Cons.IH [of st w] show ?thesis by simp
  next
    case False
    obtain v w1 where v: "load l w = (v, w1)" by force
    then obtain ps where ps: "v = Inr ps" using Cons.prems(1) False by (cases v) auto
    obtain seen refs where fo: "follow_pages cap (nl_id l) ps (fo_seen st, fo_pages st) = (seen, refs)" by force
    let ?st = "\<lparr>fo_read = nl_id l # fo_read st, fo_seen = seen, fo_pages = refs, fo_leaves = fo_leaves st @ [l]\<rparr>"
    have "follow_targets cap load ls ?st w1 = (Inr st', w')" using Cons.prems(1) False v ps fo by simp
    moreover have "distinct (map nl_id (fo_leaves ?st))" "nl_id ` set (fo_leaves ?st) \<union> A \<subseteq> set (fo_read ?st)"
      "A \<inter> nl_id ` set (fo_leaves ?st) = {}"
      using Cons.prems(2-4) False by auto
    ultimately show ?thesis by (rule Cons.IH)
  qed
qed simp

subsection \<open>The evidence\<close>

lemma fill_evidence_subset: "set (fill_evidence th s) \<subseteq> set s"
  by (auto simp: fill_evidence_def Let_def dest: in_set_takeD)

lemma fill_evidence_some: "s \<noteq> [] \<Longrightarrow> fill_evidence th s \<noteq> []"
  by (auto simp: fill_evidence_def Let_def nav_min_evidence_def)

lemma fill_evidence_gate:
  "list_all (\<lambda>e. f_le th (sc_p e)) (fill_evidence th s) \<or> fill_evidence th s = take 2 s"
  by (auto simp: fill_evidence_def Let_def nav_min_evidence_def list_all_iff min_def)

lemma fill_evidence_keeps_above: "x \<in> set s \<Longrightarrow> f_le th (sc_p x) \<Longrightarrow> 2 \<le> length (filter (\<lambda>e. f_le th (sc_p e)) s) \<Longrightarrow> x \<in> set (fill_evidence th s)"
  by (simp add: fill_evidence_def Let_def nav_min_evidence_def)

lemma fill_evidence_sorted: "sorted_wrt P s \<Longrightarrow> sorted_wrt P (fill_evidence th s)"
  by (simp add: fill_evidence_def Let_def sorted_wrt_filter sorted_wrt_take)

lemma rank_candidates_best_first:
  assumes "rank_candidates n pre xs reqs w = (Inr ss, u, k, w')"
  shows "\<exists>y. ss = best_first y"
  using assms by (auto simp: rank_candidates_def split: option.splits prod.splits)

text \<open>
  What holds of every result of \<open>Navigate\<close>, under a limit on the pages judged in full. The heads the
  coarse pass may read are those of the gathered pages, or with \<open>SkimAll\<close> those of the whole document.
\<close>

definition head_limit :: "'w navigator \<Rightarrow> int" where
  "head_limit n = (if jn_skim_all n then max (coarse_pages n) (skim_all_max n) else coarse_pages n)"

definition nav_ok :: "'w navigator \<Rightarrow> nav_leaf list \<Rightarrow> int \<Rightarrow> nav_result \<Rightarrow> bool" where
  "nav_ok n leaves limit r \<longleftrightarrow>
     mset (map sc_item (nr_leaves r)) = mset leaves
     \<and> set (nr_selected r) \<union> set (nr_followed r) \<subseteq> set leaves
     \<and> int (length (nr_selected r)) \<le> min (max_leaves n) (coarse_pages n)
     \<and> distinct (map nl_id (nr_followed r)) \<and> nl_id ` set (nr_selected r) \<inter> nl_id ` set (nr_followed r) = {}
     \<and> int (length (nr_coarse r)) \<le> head_limit n
     \<and> distinct (map np_number (map sc_item (nr_pages r))) \<and> int (length (nr_pages r)) \<le> limit
     \<and> np_leaf ` set (map sc_item (nr_pages r)) \<subseteq> nl_id ` (set (nr_selected r) \<union> set (nr_followed r))
     \<and> (\<exists>y. nr_pages r = best_first y) \<and> nr_evidence r = fill_evidence (threshold n) (nr_pages r)"

lemma head_limit_ge: "coarse_pages n \<le> head_limit n" "0 < head_limit n"
  using coarse_pages_pos [of n] by (auto simp: head_limit_def)

lemma first_ranking_ok:
  assumes "first_ranking n query leaves load w = (Inr (ranked, heads, out), w')"
  shows "mset (map sc_item ranked) = mset leaves \<and> nr_selected out = [] \<and> nr_followed out = [] \<and> nr_pages out = [] \<and> nr_evidence out = []
    \<and> int (length (nr_coarse out)) \<le> head_limit n"
proof -
  have rank: "mset (map sc_item r) = mset leaves" if "rank_leaves n query leaves w1 = (Inr r, u, k, w2)" for r u k w1 w2
    using that unfolding rank_leaves_def by (rule rank_candidates_mset)
  have len: "length h = length all" if "rank_pages_at n query all (head_chars n) True w1 = (Inr h, u, k, w2)" for all h u k w1 w2
    using arg_cong [OF rank_pages_at_mset [OF that], of size] by simp
  have single: ?thesis if "rank_first n query leaves w1 = (Inr (ranked, heads, out), w')" for w1
    using that rank head_limit_ge(2) [of n] by (auto simp: rank_first_def add_cost_def no_nav_result_def split: prod.splits sum.splits)
  have both: ?thesis if "skim_both n query leaves all w1 = (Inr (ranked, heads, out), w')" "int (length all) \<le> head_limit n" for all w1
    using that rank len by (auto simp: skim_both_def Let_def add_cost_def no_nav_result_def split: prod.splits sum.splits if_splits)
  show ?thesis
    using assms single both by (auto simp: first_ranking_def head_limit_def split: if_splits prod.splits sum.splits)
qed

lemma referenced_leaves_subset: "set (referenced_leaves s leaves) \<subseteq> set leaves"
  by (auto simp: referenced_leaves_def Let_def set_map_filter find_Some_iff)

lemma nav_ok_mono: "nav_ok n leaves a r \<Longrightarrow> a \<le> b \<Longrightarrow> nav_ok n leaves b r"
  by (simp add: nav_ok_def)

lemma follow_references_ok:
  assumes run: "follow_references n query leaves load seen out steps w = (Inr r, steps', w')"
    and ok: "nav_ok n leaves (max_pages n) out" and seen: "np_number ` set (map sc_item (nr_pages out)) \<subseteq> set seen"
    and none: "nr_followed out = []"
  shows "nav_ok n leaves (2 * max_pages n) r"
proof -
  let ?A = "np_number ` set (map sc_item (nr_pages out))"
  let ?targets = "concat (map (\<lambda>ev. referenced_leaves (np_text (sc_item ev)) leaves) (nr_evidence out))"
  let ?st = "\<lparr>fo_read = map nl_id (nr_selected out), fo_seen = seen, fo_pages = [], fo_leaves = []\<rparr>"
  obtain v w1 where v: "follow_targets (max_pages n) load ?targets ?st w = (v, w1)" by force
  then obtain st where st: "v = Inr st" using run by (cases v) (auto simp: follow_references_def)
  have once: "distinct (map nl_id (fo_leaves st))" "nl_id ` set (nr_selected out) \<inter> nl_id ` set (fo_leaves st) = {}"
    using follow_targets_once [of "max_pages n" load ?targets ?st w st w1 "nl_id ` set (nr_selected out)"] v st by simp_all
  have "set ?targets \<subseteq> set leaves" using referenced_leaves_subset by auto
  then have fo: "follow_ok (max_pages n) ?A (nl_id ` set (fo_leaves st)) (fo_seen st, fo_pages st)" "set (fo_leaves st) \<subseteq> set leaves"
    using follow_targets_ok [of "max_pages n" load ?targets ?st w st w1 ?A "set leaves"] v st seen max_pages_pos [of n]
    by (auto simp: follow_ok_def gathered_ok_def)
  show ?thesis
  proof (cases "fo_pages st = []")
    case True
    with run v st have r: "r = out\<lparr>nr_followed := fo_leaves st\<rparr>" by (simp add: follow_references_def Let_def)
    have "np_leaf ` set (map sc_item (nr_pages out)) \<subseteq> nl_id ` (set (nr_selected out) \<union> set (nr_followed out))"
      using ok by (simp only: nav_ok_def)
    moreover have "\<dots> \<subseteq> nl_id ` (set (nr_selected r) \<union> set (nr_followed r))"
      unfolding r none by (intro image_mono) simp
    ultimately have "np_leaf ` set (map sc_item (nr_pages r)) \<subseteq> nl_id ` (set (nr_selected r) \<union> set (nr_followed r))"
      unfolding r by simp
    with ok fo(2) once max_pages_pos [of n] show ?thesis unfolding nav_ok_def r by simp
  next
    case False
    obtain res u k w2 where res: "rank_pages n query (fo_pages st) w1 = (res, u, k, w2)" by (metis prod_cases4)
    then obtain ss where ss: "res = Inr ss" using run v st False by (cases res) (auto simp: follow_references_def Let_def)
    let ?pages = "best_first (nr_pages out @ ss)"
    have r: "r = (add_cost u k (out\<lparr>nr_followed := fo_leaves st\<rparr>))\<lparr>nr_pages := ?pages, nr_evidence := fill_evidence (threshold n) ?pages\<rparr>"
      using run v st False res ss by (simp add: follow_references_def Let_def)
    have ms: "mset (map sc_item ss) = mset (fo_pages st)" using res ss by (intro rank_pages_mset) simp
    have fp: "distinct (map np_number (fo_pages st))" "int (length (fo_pages st)) \<le> max_pages n"
      "np_leaf ` set (fo_pages st) \<subseteq> nl_id ` set (fo_leaves st)" "?A \<inter> np_number ` set (fo_pages st) = {}"
      using fo(1) by (auto simp: follow_ok_def gathered_ok_def)
    have items: "mset (map sc_item ?pages) = mset (map sc_item (nr_pages out) @ fo_pages st)"
      using ms by (metis mset_append mset_best_first mset_map map_append image_mset_union)
    have "distinct (map np_number (map sc_item (nr_pages out) @ fo_pages st))"
      using ok fp(1,4) by (auto simp: nav_ok_def)
    then have "distinct (map np_number (map sc_item ?pages))"
      using items by (metis mset_map mset_eq_imp_distinct_iff)
    moreover have "length ?pages = length (nr_pages out) + length (fo_pages st)"
      using arg_cong [OF items, of size] by simp
    moreover have "set (map sc_item ?pages) = set (map sc_item (nr_pages out)) \<union> set (fo_pages st)"
      using mset_eq_setD [OF items] by simp
    ultimately show ?thesis
      using ok fo(2) fp(2,3) once none unfolding r nav_ok_def by (auto simp: add_cost_def image_Un)
  qed
qed

lemma navigate_ok:
  assumes "navigate n query leaves load w = (Inr r, steps, w')" "leaves \<noteq> []"
  shows "nav_ok n leaves (if jn_no_follow n then max_pages n else 2 * max_pages n) r"
proof -
  obtain v w1 where v: "first_ranking n query leaves load w = (v, w1)" by force
  then obtain ranked heads out where fr: "v = Inr (ranked, heads, out)"
    using assms by (cases v) (auto simp: navigate_def Let_def)
  note first = first_ranking_ok [OF v [unfolded fr]]
  obtain g w2 where g: "gather n load ranked [] [] w1 = (g, w2)" by force
  then obtain selected gathered where ga: "g = Inr (selected, gathered)"
    using assms v fr by (cases g) (auto simp: navigate_def Let_def)
  have "gathered_ok (coarse_pages n) {} []" "(0::int) \<le> max_leaves n"
    using coarse_pages_pos [of n] by (auto simp: gathered_ok_def max_leaves_def)
  with gather_ok [OF g [unfolded ga]] have
    gather: "gathered_ok (coarse_pages n) (nl_id ` set selected) gathered"
      "int (length selected) \<le> max_leaves n" "length selected \<le> length gathered"
      "set selected \<subseteq> sc_item ` set ranked" by auto
  then have few: "int (length selected) \<le> min (max_leaves n) (coarse_pages n)" "int (length gathered) \<le> coarse_pages n"
    by (auto simp: gathered_ok_def)
  have sel: "set selected \<subseteq> set leaves"
    using gather(4) first mset_eq_setD [of "map sc_item ranked" leaves] by simp
  let ?out = "out\<lparr>nr_leaves := ranked, nr_selected := selected\<rparr>"
  show ?thesis
  proof (cases "gathered = []")
    case True
    then have r: "r = ?out" using assms v fr g ga by (simp add: navigate_def Let_def)
    have "best_first [] = ([] :: page_score list)" by (simp add: best_first_def stable_sort_def)
    then show ?thesis unfolding r nav_ok_def
      using first few(1) sel max_pages_pos [of n] by (auto simp: fill_evidence_def intro!: exI [of _ "[]"])
  next
    case False
    obtain c w3 where c: "choose_pages n query heads gathered ?out w2 = (c, w3)" by force
    then obtain pages out' where ch: "c = Inr (pages, out')"
      using assms v fr g ga False by (cases c) (auto simp: navigate_def Let_def)
    note chosen = choose_pages_ok [OF c [unfolded ch] gathered_okD(1) [OF gather(1)] False]
    obtain res u k w4 where res: "rank_pages n query pages w3 = (res, u, k, w4)" by (metis prod_cases4)
    then obtain ss where ss: "res = Inr ss"
      using assms v fr g ga False c ch by (cases res) (auto simp: navigate_def Let_def)
    let ?r = "(add_cost u k out')\<lparr>nr_pages := ss, nr_evidence := fill_evidence (threshold n) ss\<rparr>"
    have ms: "mset (map sc_item ss) = mset pages" using res ss by (intro rank_pages_mset) simp
    have "\<exists>y. ss = best_first y"
      using res ss rank_candidates_best_first unfolding rank_pages_def rank_pages_at_def by fast
    moreover have "distinct (map np_number (map sc_item ss))" using ms chosen by (metis mset_map mset_eq_imp_distinct_iff)
    moreover have "length ss = length pages" "set (map sc_item ss) = set pages"
      using arg_cong [OF ms, of size] mset_eq_setD [OF ms] by simp_all
    moreover have "np_leaf ` set pages \<subseteq> nl_id ` set selected"
      using chosen gathered_okD(3) [OF gather(1)] by (meson image_mono subset_trans)
    moreover have "int (length (nr_coarse out')) \<le> head_limit n"
      using chosen first few(2) head_limit_ge(1) [of n] by auto
    ultimately have ok: "nav_ok n leaves (max_pages n) ?r"
      using chosen few(1) first sel unfolding nav_ok_def add_cost_def by auto
    show ?thesis
    proof (cases "jn_no_follow n")
      case True
      then have "r = ?r" using assms v fr g ga False c ch res ss by (simp add: navigate_def Let_def)
      with ok True show ?thesis by simp
    next
      case follow: False
      have "\<exists>st. follow_references n query leaves load (map np_number gathered) ?r st w4 = (Inr r, steps, w')"
        using assms v fr g ga False c ch res ss follow by (auto simp: navigate_def Let_def)
      then obtain st where "follow_references n query leaves load (map np_number gathered) ?r st w4 = (Inr r, steps, w')" by blast
      from follow_references_ok [OF this ok] follow show ?thesis
        using chosen \<open>set (map sc_item ss) = set pages\<close> first by (auto simp: add_cost_def)
    qed
  qed
qed

text \<open>
  C3. Navigation stays inside these limits, whatever the Judge answers. It ranks exactly the given
  leaves and selects some of them, at most \<open>MaxLeaves\<close> and at most as many as \<open>CoarsePages\<close>; the heads it
  reads for the coarse pass are at most \<open>CoarsePages\<close>, or with \<open>SkimAll\<close> at most the larger of that and
  \<open>SkimAllMaxPages\<close>. It judges each page number in full at most once, at most \<open>MaxPages\<close> of them without
  following references and at most twice that with it; every page judged in full comes from a leaf it
  selected or followed. The leaves it follows are leaves of the contents, each followed once, none with the
  ID of a selected one.
\<close>
lemma navigate_bounded:
  assumes "navigate n query leaves load w = (Inr r, steps, w')" "leaves \<noteq> []"
  shows "mset (map sc_item (nr_leaves r)) = mset leaves
    \<and> set (nr_selected r) \<union> set (nr_followed r) \<subseteq> set leaves
    \<and> int (length (nr_selected r)) \<le> min (max_leaves n) (coarse_pages n)
    \<and> distinct (map nl_id (nr_followed r)) \<and> nl_id ` set (nr_selected r) \<inter> nl_id ` set (nr_followed r) = {}
    \<and> int (length (nr_coarse r)) \<le> (if jn_skim_all n then max (coarse_pages n) (skim_all_max n) else coarse_pages n)
    \<and> distinct (map np_number (map sc_item (nr_pages r)))
    \<and> int (length (nr_pages r)) \<le> (if jn_no_follow n then max_pages n else 2 * max_pages n)
    \<and> np_leaf ` set (map sc_item (nr_pages r)) \<subseteq> nl_id ` (set (nr_selected r) \<union> set (nr_followed r))"
  using navigate_ok [OF assms] by (simp only: nav_ok_def head_limit_def)

text \<open>
  The evidence consists of judged pages and is empty only when no page was judged. It is every
  page at or above the threshold when there are at least two of those, and otherwise the two best
  pages; with no NaN among the probabilities it is in best-first order.
\<close>
lemma navigate_evidence:
  assumes "navigate n query leaves load w = (Inr r, steps, w')" "leaves \<noteq> []"
  shows "set (nr_evidence r) \<subseteq> set (nr_pages r) \<and> (nr_evidence r = [] \<longleftrightarrow> nr_pages r = [])
    \<and> (if 2 \<le> length (filter (\<lambda>e. f_le (threshold n) (sc_p e)) (nr_pages r))
        then nr_evidence r = filter (\<lambda>e. f_le (threshold n) (sc_p e)) (nr_pages r)
        else nr_evidence r = take 2 (nr_pages r))
    \<and> (list_all (\<lambda>e. sc_p e \<noteq> NaN) (nr_pages r) \<longrightarrow>
        sorted_wrt (\<lambda>a b. f_le (sc_p b) (sc_p a)) (nr_pages r) \<and> sorted_wrt (\<lambda>a b. f_le (sc_p b) (sc_p a)) (nr_evidence r))"
proof -
  obtain y where y: "nr_pages r = best_first y" and ev: "nr_evidence r = fill_evidence (threshold n) (nr_pages r)"
    using navigate_ok [OF assms] by (auto simp only: nav_ok_def)
  have sorted: "sorted_wrt (\<lambda>a b. f_le (sc_p b) (sc_p a)) (nr_pages r)" if "list_all (\<lambda>e. sc_p e \<noteq> NaN) (nr_pages r)"
    using best_first_order [of y] that y by (simp add: list_all_iff)
  have gate: "if 2 \<le> length (filter (\<lambda>e. f_le (threshold n) (sc_p e)) (nr_pages r))
        then nr_evidence r = filter (\<lambda>e. f_le (threshold n) (sc_p e)) (nr_pages r)
        else nr_evidence r = take 2 (nr_pages r)"
    unfolding ev by (auto simp: fill_evidence_def Let_def nav_min_evidence_def min_def)
  show ?thesis
    using sorted gate fill_evidence_subset [of "threshold n" "nr_pages r"] fill_evidence_some [of "nr_pages r" "threshold n"]
      fill_evidence_sorted [of "\<lambda>a b. f_le (sc_p b) (sc_p a)" "nr_pages r" "threshold n"] ev
    by (auto simp: fill_evidence_def)
qed

subsection \<open>Navigation returns\<close>

text \<open>A Judge that always answers, whatever its answers depend on.\<close>

definition judged :: "'w navigator \<Rightarrow> bool" where
  "judged n \<longleftrightarrow> (\<exists>judge. jn_judge n = Some judge \<and> (\<forall>c req w. \<exists>j w'. judge c req w = (Inr j, w')))"

lemma send_judged:
  assumes "\<forall>c req w. \<exists>j w'. judge c req w = (Inr j, w')"
  shows "sd_error (fst (send_batches pre judge reqs order st w)) = sd_error st"
proof (induction order arbitrary: st w)
  case (Cons i order)
  obtain j w1 where "judge (sd_error st \<noteq> None) (reqs ! i) w = (Inr j, w1)" using assms by blast
  with Cons show ?case by simp
qed simp

lemma rank_answers:
  assumes "judged n"
  shows "\<exists>ss u k w'. rank_candidates n pre xs reqs w = (Inr ss, u, k, w')"
proof -
  let ?st = "\<lparr>sd_probs = replicate (length xs) (Fin 0), sd_usage = no_usage, sd_requests = 0, sd_error = None\<rparr>"
  obtain judge where judge: "jn_judge n = Some judge" "\<forall>c req w. \<exists>j w'. judge c req w = (Inr j, w')"
    using assms unfolding judged_def by blast
  obtain st w1 where st: "send_batches pre judge reqs (jn_schedule n (length reqs)) ?st w = (st, w1)" by force
  with send_judged [OF judge(2), of pre reqs "jn_schedule n (length reqs)" ?st w] have "sd_error st = None" by simp
  with st judge(1) show ?thesis by (simp add: rank_candidates_def)
qed

lemma rank_leaves_answers: "judged n \<Longrightarrow> \<exists>ss u k w'. rank_leaves n query leaves w = (Inr ss, u, k, w')"
  unfolding rank_leaves_def by (rule rank_answers)

lemma rank_pages_answers: "judged n \<Longrightarrow> \<exists>ss u k w'. rank_pages_at n query pages limit coarse w = (Inr ss, u, k, w')"
  unfolding rank_pages_at_def by (rule rank_answers)

text \<open>A loader that never fails.\<close>

definition loads :: "'w loader \<Rightarrow> bool" where
  "loads load \<longleftrightarrow> (\<forall>l w. \<exists>ps w'. load l w = (Inr ps, w'))"

lemma all_leaf_pages_loads: "loads load \<Longrightarrow> \<exists>ps w'. all_leaf_pages load leaves w = (Inr ps, w')"
proof -
  assume load: "loads load"
  have "\<exists>ps w'. all_leaf_pages_from load ls pages w = (Inr ps, w')" for ls pages w
  proof (induction ls arbitrary: pages w)
    case (Cons l ls)
    obtain ps w1 where "load l w = (Inr ps, w1)" using load unfolding loads_def by blast
    with Cons show ?case by simp
  qed simp
  from this [of leaves "[]" w] show ?thesis by (auto simp: all_leaf_pages_def)
qed

lemma gather_loads: "loads load \<Longrightarrow> \<exists>g w'. gather n load ranked selected pages w = (Inr g, w')"
proof (induction ranked arbitrary: selected pages w)
  case (Cons ls ranked)
  obtain ps w1 where "load (sc_item ls) w = (Inr ps, w1)" using Cons.prems unfolding loads_def by blast
  with Cons show ?case by (simp add: Let_def)
qed simp

lemma follow_loads: "loads load \<Longrightarrow> \<exists>st' w'. follow_targets cap load ls st w = (Inr st', w')"
proof (induction ls arbitrary: st w)
  case (Cons l ls)
  obtain ps w1 where "load l w = (Inr ps, w1)" using Cons.prems unfolding loads_def by blast
  with Cons show ?case by (simp split: prod.split)
qed simp

lemma first_ranking_returns:
  assumes "judged n" "loads load"
  shows "\<exists>x w'. first_ranking n query leaves load w = (Inr x, w')"
proof -
  have single: "\<exists>x w'. rank_first n query leaves w = (Inr x, w')" for w
  proof -
    obtain ss u k w1 where "rank_leaves n query leaves w = (Inr ss, u, k, w1)" using rank_leaves_answers [OF assms(1)] by blast
    then show ?thesis by (simp add: rank_first_def)
  qed
  have both: "\<exists>x w'. skim_both n query leaves all w = (Inr x, w')" for all w
  proof (cases "jn_heads_first n")
    case True
    obtain hs u k w1 where h: "rank_pages_at n query all (head_chars n) True w = (Inr hs, u, k, w1)"
      using rank_pages_answers [OF assms(1)] by blast
    obtain ls u' k' w2 where "rank_leaves n query leaves w1 = (Inr ls, u', k', w2)" using rank_leaves_answers [OF assms(1)] by blast
    with h True show ?thesis by (simp add: skim_both_def Let_def)
  next
    case False
    obtain ls u' k' w1 where l: "rank_leaves n query leaves w = (Inr ls, u', k', w1)" using rank_leaves_answers [OF assms(1)] by blast
    obtain hs u k w2 where "rank_pages_at n query all (head_chars n) True w1 = (Inr hs, u, k, w2)"
      using rank_pages_answers [OF assms(1)] by blast
    with l False show ?thesis by (simp add: skim_both_def Let_def)
  qed
  obtain ps w1 where "all_leaf_pages load leaves w = (Inr ps, w1)" using all_leaf_pages_loads [OF assms(2)] by blast
  with single both show ?thesis by (simp add: first_ranking_def)
qed

lemma choose_pages_returns:
  assumes "judged n"
  shows "\<exists>x w'. choose_pages n query heads pages out w = (Inr x, w')"
proof -
  obtain hs u k w1 where hs: "rank_pages_at n query pages (head_chars n) True w = (Inr hs, u, k, w1)"
    using rank_pages_answers [OF assms] by blast
  then have "length hs = length pages" using arg_cong [OF rank_pages_at_mset, of n query pages _ _ w hs u k w1 size] by simp
  then show ?thesis using hs max_pages_pos [of n]
    by (auto simp: choose_pages_def Let_def prefix_slice_def split: option.split)
qed

lemma follow_references_returns:
  assumes "judged n" "loads load"
  shows "\<exists>r steps' w'. follow_references n query leaves load seen out steps w = (Inr r, steps', w')"
proof -
  let ?targets = "concat (map (\<lambda>ev. referenced_leaves (np_text (sc_item ev)) leaves) (nr_evidence out))"
  obtain st w1 where st: "follow_targets (max_pages n) load ?targets
      \<lparr>fo_read = map nl_id (nr_selected out), fo_seen = seen, fo_pages = [], fo_leaves = []\<rparr> w = (Inr st, w1)"
    using follow_loads [OF assms(2)] by blast
  obtain ss u k w2 where "rank_pages n query (fo_pages st) w1 = (Inr ss, u, k, w2)"
    using rank_pages_answers [OF assms(1)] unfolding rank_pages_def by blast
  with st show ?thesis by (simp add: follow_references_def Let_def)
qed


end
