(* ===== verification/Judge_Strategy.thy ===== *)
theory Judge_Strategy
  imports Judge_Navigate Selection Toc_Tree
begin

text \<open>
  \<open>JudgeWalkStrategy\<close> of \<open>pkg/retrieval/judgewalk.go\<close>: navigation over the persisted contents and
  pages of a document, or else over its section tree, as a strategy. The stores and the decoding of
  the persisted contents are parameters. A store's error and its empty answer are both \<open>None\<close> where
  the code treats them alike.
\<close>

subsection \<open>The strategy's surroundings\<close>

record 'w judge_env =
  je_navigator :: "'w navigator"
  je_load_body :: "(string \<Rightarrow> 'w \<Rightarrow> (string + string) \<times> 'w) option"
  je_toc :: "(document_id \<Rightarrow> 'w \<Rightarrow> string option \<times> 'w) option"
  je_pages :: "(document_id \<Rightarrow> 'w \<Rightarrow> nav_page list option \<times> 'w) option"
  je_decode_toc :: "string \<Rightarrow> toc_node list option"

record 'w nav_inputs =
  ni_leaves :: "nav_leaf list"
  ni_load :: "'w loader"
  ni_pages :: "nav_page list"
  ni_ordinal :: bool

definition max_runner_ups :: nat where
  "max_runner_ups = 8"

text \<open>The loop stops once it has kept eight.\<close>

definition runner_ups :: "nav_result \<Rightarrow> page_score list" where
  "runner_ups nav =
     (let key = (\<lambda>s. (np_leaf (sc_item s), np_number (sc_item s)))
      in take max_runner_ups (dedup_by key (map key (nr_evidence nav)) (nr_pages nav)))"

subsection \<open>Inputs from persisted contents\<close>

text \<open>The map from numbers to pages: the last page with a number stays.\<close>

definition page_numbered :: "nav_page list \<Rightarrow> int \<Rightarrow> nav_page option" where
  "page_numbered pages k = find (\<lambda>p. np_number p = k) (rev pages)"

definition pages_in_range :: "nav_page list \<Rightarrow> 'w loader" where
  "pages_in_range pages leaf w = (Inr (List.map_filter (page_numbered pages) [nl_start leaf..nl_end leaf]), w)"

definition sorted_pages :: "nav_page list \<Rightarrow> nav_page list" where
  "sorted_pages pages = stable_sort (\<lambda>p q. np_number p < np_number q) pages"

definition arrow :: string where
  "arrow = '' > ''"

fun toc_leaves_at :: "string \<Rightarrow> toc_node \<Rightarrow> nav_leaf list" where
  "toc_leaves_at path (TOC d ns) =
     (let p = (if path \<noteq> [] then path @ arrow @ toc_title d else toc_title d)
      in if ns \<noteq> [] then concat (map (toc_leaves_at p) ns)
         else if 0 < start_page d \<and> start_page d \<le> end_page d
           then [\<lparr>nl_id = node_id d, nl_title = toc_title d, nl_path = p, nl_start = start_page d,
                  nl_end = end_page d, nl_summary = toc_summary d\<rparr>]
           else [])"

definition persisted_nav_inputs :: "(string \<Rightarrow> toc_node list option) \<Rightarrow> string \<Rightarrow> nav_page list \<Rightarrow> 'w nav_inputs option" where
  "persisted_nav_inputs decode raw pages =
     (case decode raw of
        None \<Rightarrow> None
      | Some ns \<Rightarrow>
          let leaves = concat (map (toc_leaves_at []) ns)
          in if ns = [] \<or> pages = [] \<or> leaves = [] then None
             else Some \<lparr>ni_leaves = leaves, ni_load = pages_in_range pages, ni_pages = sorted_pages pages, ni_ordinal = False\<rparr>)"

definition paged_nav_inputs :: "string \<Rightarrow> nav_page list \<Rightarrow> 'w nav_inputs option" where
  "paged_nav_inputs name pages =
     (if pages = [] then None
      else let ps = sorted_pages pages
           in Some \<lparr>ni_leaves = [\<lparr>nl_id = ''doc'', nl_title = name, nl_path = name, nl_start = np_number (ps ! 0),
                       nl_end = np_number (ps ! (length ps - 1)), nl_summary = []\<rparr>],
                    ni_load = pages_in_range ps, ni_pages = ps, ni_ordinal = False\<rparr>)"

subsection \<open>Inputs from the section tree\<close>

definition numbered_section :: "doc_section \<Rightarrow> int \<Rightarrow> page_entry" where
  "numbered_section s n = \<lparr>pe_id = sec_id s, pe_title = title (data s), pe_summary = summary (data s),
     pe_ref = content_ref (data s), pe_start = n, pe_end = n\<rparr>"

definition nav_sections :: "tree \<Rightarrow> page_entry list \<times> bool" where
  "nav_sections t =
     (let s = flatten_sections_by_page t
      in if s \<noteq> [] then (s, False)
         else let (n, sections) = walk_root (\<lambda>s (n, out).
                    (True, if trim_space (content_ref (data s)) = [] then (n, out)
                           else (n + 1, out @ [numbered_section s (n + 1)]))) (tree_root t) (0, [])
              in (sections, sections \<noteq> []))"

fun section_paths_at :: "string \<Rightarrow> doc_section \<Rightarrow> (section_id \<Rightarrow> string option) \<Rightarrow> section_id \<Rightarrow> string option" where
  "section_paths_at before (Section d cs) m =
     (let p = (if before \<noteq> [] \<and> title d \<noteq> [] then before @ arrow @ title d
               else if before \<noteq> [] then before else title d)
      in fold (section_paths_at p) cs (m(sid d \<mapsto> p)))"

definition section_paths :: "tree \<Rightarrow> section_id \<Rightarrow> string option" where
  "section_paths t =
     (case tree_root t of None \<Rightarrow> Map.empty | Some r \<Rightarrow> fold (section_paths_at []) (children r) Map.empty)"

definition section_leaf :: "(section_id \<Rightarrow> string option) \<Rightarrow> page_entry \<Rightarrow> nav_leaf" where
  "section_leaf paths e = \<lparr>nl_id = pe_id e, nl_title = pe_title e,
     nl_path = (case paths (pe_id e) of None \<Rightarrow> [] | Some p \<Rightarrow> p),
     nl_start = pe_start e, nl_end = pe_end e, nl_summary = pe_summary e\<rparr>"

text \<open>The last section with an ID, or a blank one.\<close>

definition section_by_id :: "page_entry list \<Rightarrow> string \<Rightarrow> page_entry" where
  "section_by_id sections i =
     (case find (\<lambda>e. pe_id e = i) (rev sections) of
        Some e \<Rightarrow> e
      | None \<Rightarrow> \<lparr>pe_id = [], pe_title = [], pe_summary = [], pe_ref = [], pe_start = 0, pe_end = 0\<rparr>)"

text \<open>
  Cutting a body. The loop cuts at the last newline of the window when that is not in its first
  half; a cut is never at the start of a trimmed body, so each round shortens it and its length is
  fuel enough. \<open>None\<close> would be a loop that does not end.
\<close>

fun cut_body :: "nat \<Rightarrow> nat \<Rightarrow> string \<Rightarrow> string list option" where
  "cut_body 0 limit body = None"
| "cut_body (Suc n) limit body =
     (if length body > limit
      then let cut = (case last_index_byte (take limit body) (CHR 0x0A) of
                        Some i \<Rightarrow> if i < limit div 2 then limit else i
                      | None \<Rightarrow> limit)
           in map_option ((#) (take cut body)) (cut_body n limit (trim_space (drop cut body)))
      else Some (if body \<noteq> [] then [body] else []))"

definition chunk_body :: "string \<Rightarrow> int \<Rightarrow> int \<Rightarrow> int \<Rightarrow> nav_page list option" where
  "chunk_body body start end limit =
     (let body = trim_space body
      in if body = [] then Some []
         else let limit = (if limit \<le> 0 then 6000 else limit)
              in map_option (\<lambda>chunks.
                   let span = (if end - start + 1 < 1 then 1 else end - start + 1)
                   in map (\<lambda>(i, c). \<lparr>np_number = (let page = start + (int i * span) div int (length chunks)
                                                      in if page > end then end else page),
                                    np_text = c, np_leaf = []\<rparr>) (enumerate 0 chunks))
                 (cut_body (Suc (length body)) (nat limit) body))"

definition section_load :: "'w judge_env \<Rightarrow> page_entry list \<Rightarrow> 'w loader" where
  "section_load env sections leaf w =
     (let sec = section_by_id sections (nl_id leaf)
      in case je_load_body env of
           None \<Rightarrow> (Inr [], w)
         | Some load \<Rightarrow>
             if pe_ref sec = [] then (Inr [], w)
             else case load (pe_ref sec) w of
                    (Inl err, w') \<Rightarrow> (Inl err, w')
                  | (Inr b, w') \<Rightarrow>
                      (Inr (the (chunk_body b (pe_start sec) (pe_end sec) (page_chars (je_navigator env)))), w'))"

definition section_tree_nav_inputs :: "'w judge_env \<Rightarrow> tree \<Rightarrow> 'w nav_inputs option" where
  "section_tree_nav_inputs env t =
     (if tree_root t = None then None
      else case nav_sections t of
             (sections, by_place) \<Rightarrow>
               let leaves = map (section_leaf (section_paths t)) sections
               in if leaves = [] then None
                  else Some \<lparr>ni_leaves = leaves, ni_load = section_load env sections, ni_pages = [], ni_ordinal = by_place\<rparr>)"

subsection \<open>The strategy\<close>

text \<open>\<open>if ev.P > conf[id]\<close>, where a missing confidence reads as zero.\<close>

definition raise_confidence :: "f64 \<Rightarrow> section_id \<Rightarrow> (section_id \<Rightarrow> f64 option) \<Rightarrow> section_id \<Rightarrow> f64 option" where
  "raise_confidence p i conf =
     (if f_lt (case conf i of None \<Rightarrow> Fin 0 | Some c \<Rightarrow> c) p then conf(i \<mapsto> p) else conf)"

definition evidence_of :: "nav_leaf list \<Rightarrow> page_score \<Rightarrow> evidence_page" where
  "evidence_of leaves s = \<lparr>ev_page = np_number (sc_item s),
     ev_title = (case find (\<lambda>l. nl_id l = np_leaf (sc_item s)) (rev leaves) of None \<Rightarrow> [] | Some l \<Rightarrow> nl_title l),
     ev_text = np_text (sc_item s), ev_confidence = sc_p s\<rparr>"

definition best_probability :: "page_score list \<Rightarrow> f64" where
  "best_probability evidence = (if evidence = [] then Fin 0 else sc_p (evidence ! 0))"

definition page_sections :: "page_entry list \<Rightarrow> page_score \<Rightarrow> section_id list" where
  "page_sections sections s =
     sections_overlapping sections [(np_number (sc_item s), np_number (sc_item s))]"

definition persisted_result :: "tree \<Rightarrow> nav_leaf list \<Rightarrow> nav_result \<Rightarrow> result" where
  "persisted_result t leaves nav =
     (let sections = flatten_sections_by_page t;
          ids = dedup_by id [] (concat (map (page_sections sections) (nr_evidence nav)));
          conf = fold (\<lambda>ev. fold (raise_confidence (sc_p ev)) (page_sections sections ev)) (nr_evidence nav) Map.empty
      in empty_result\<lparr>selected_ids := ids, confidences := conf, res_confidence := best_probability (nr_evidence nav),
           cited_pages := ranges_to_pairs (map (\<lambda>ev. (np_number (sc_item ev), np_number (sc_item ev))) (nr_evidence nav)),
           evidence_pages := map (evidence_of leaves) (nr_evidence nav),
           runner_up_pages := map (evidence_of leaves) (runner_ups nav),
           model_used := ''judge'', res_usage := nr_usage nav, hops_taken := nr_requests nav\<rparr>)"

definition select_on_persisted_pages ::
    "'w judge_env \<Rightarrow> tree \<Rightarrow> string \<Rightarrow> 'w \<Rightarrow> result option \<times> nav_step list \<times> 'w" where
  "select_on_persisted_pages env t query w =
     (case (je_toc env, je_pages env) of
        (Some get_toc, Some load_pages) \<Rightarrow>
          (case get_toc (doc_id t) w of
             (None, w1) \<Rightarrow> (None, [], w1)
           | (Some raw, w1) \<Rightarrow>
               if raw = [] then (None, [], w1)
               else case load_pages (doc_id t) w1 of
                 (None, w2) \<Rightarrow> (None, [], w2)
               | (Some pages, w2) \<Rightarrow>
                   if pages = [] then (None, [], w2)
                   else case persisted_nav_inputs (je_decode_toc env) raw pages of
                     None \<Rightarrow> (None, [], w2)
                   | Some inputs \<Rightarrow>
                       (case navigate (je_navigator env\<lparr>jn_skim_all := True\<rparr>) query (ni_leaves inputs) (ni_load inputs) w2 of
                          (Inl err, steps, w3) \<Rightarrow> (None, steps, w3)
                        | (Inr nav, steps, w3) \<Rightarrow> (Some (persisted_result t (ni_leaves inputs) nav), steps, w3)))
      | _ \<Rightarrow> (None, [], w))"

definition section_tree_result :: "page_entry list \<Rightarrow> bool \<Rightarrow> nav_result \<Rightarrow> result" where
  "section_tree_result sections by_place nav =
     (let leaf = (\<lambda>s. np_leaf (sc_item s));
          ids = dedup_by id [] (map leaf (nr_evidence nav));
          conf = fold (\<lambda>ev. raise_confidence (sc_p ev) (leaf ev)) (nr_evidence nav) Map.empty;
          ranges = map (\<lambda>i. (pe_start (section_by_id sections i), pe_end (section_by_id sections i))) ids
      in empty_result\<lparr>selected_ids := ids,
           runner_up_ids := dedup_by id ids (map leaf (runner_ups nav)),
           confidences := conf, res_confidence := best_probability (nr_evidence nav),
           cited_pages := ranges_to_pairs (if by_place then [] else ranges),
           model_used := ''judge'', res_usage := nr_usage nav, hops_taken := nr_requests nav\<rparr>)"

definition select_on_section_tree ::
    "'w judge_env \<Rightarrow> tree \<Rightarrow> string \<Rightarrow> 'w \<Rightarrow> (string + result) \<times> nav_step list \<times> 'w" where
  "select_on_section_tree env t query w =
     (case nav_sections t of
        (sections, by_place) \<Rightarrow>
          (case navigate (je_navigator env) query (map (section_leaf (section_paths t)) sections) (section_load env sections) w of
             (Inl err, steps, w') \<Rightarrow> (Inl err, steps, w')
           | (Inr nav, steps, w') \<Rightarrow> (Inr (section_tree_result sections by_place nav), steps, w')))"

definition judge_walk_run :: "'w judge_env \<Rightarrow> tree \<Rightarrow> string \<Rightarrow> 'w \<Rightarrow> (string + result) \<times> nav_step list \<times> 'w" where
  "judge_walk_run env t query w =
     (if tree_root t = None then (Inr empty_result, [], w)
      else case select_on_persisted_pages env t query w of
             (Some r, steps, w1) \<Rightarrow> (Inr r, steps, w1)
           | (None, steps, w1) \<Rightarrow>
               (case select_on_section_tree env t query w1 of (r, steps', w2) \<Rightarrow> (r, steps @ steps', w2)))"

text \<open>\<open>SelectWithCost\<close>, without the reported steps.\<close>

definition judge_walk_select :: "'w judge_env \<Rightarrow> tree \<Rightarrow> string \<Rightarrow> context_budget \<Rightarrow> 'w \<Rightarrow> (string + result) \<times> 'w" where
  "judge_walk_select env t query budget w = (case judge_walk_run env t query w of (r, steps, w') \<Rightarrow> (r, w'))"

subsection \<open>The sections of a document\<close>

definition place_step :: "doc_section \<Rightarrow> int \<times> page_entry list \<Rightarrow> int \<times> page_entry list" where
  "place_step s acc = (if trim_space (content_ref (data s)) = [] then acc
     else (fst acc + 1, snd acc @ [numbered_section s (fst acc + 1)]))"

lemma nav_sections_places:
  "nav_sections t = (if flatten_sections_by_page t \<noteq> [] then (flatten_sections_by_page t, False)
     else (let s = snd (fold place_step (tree_sections t) (0, [])) in (s, s \<noteq> [])))"
proof -
  have "(\<lambda>s (n, out). (True, if trim_space (content_ref (data s)) = [] then (n, out)
        else (n + 1, out @ [numbered_section s (n + 1)]))) = (\<lambda>s acc. (True, place_step s acc))"
    by (auto simp: place_step_def fun_eq_iff)
  moreover have "walk_root (\<lambda>s acc. (True, place_step s acc)) (tree_root t) (0, []) = fold place_step (tree_sections t) (0, [])"
    by (subst walk_root_all) simp_all
  ultimately show ?thesis by (simp add: nav_sections_def Let_def case_prod_unfold)
qed

lemma place_step_ids: "pe_id ` set (snd (place_step s acc)) \<subseteq> insert (sec_id s) (pe_id ` set (snd acc))"
  by (auto simp: place_step_def numbered_section_def)

lemma fold_place_ids: "pe_id ` set (snd (fold place_step xs acc)) \<subseteq> sec_id ` set xs \<union> pe_id ` set (snd acc)"
proof (induction xs arbitrary: acc)
  case (Cons x xs)
  from Cons [of "place_step x acc"] place_step_ids [of x acc] show ?case by (auto simp del: image_subset_iff)
qed simp

lemma nav_sections_known: "pe_id ` set (fst (nav_sections t)) \<subseteq> sec_id ` set (tree_sections t)"
proof -
  have "pe_id ` set (flatten_sections_by_page t) \<subseteq> sec_id ` set (tree_sections t)"
    by (auto simp: flatten_by_page_set entry_of_def)
  with fold_place_ids [of "tree_sections t" "(0, [])"] show ?thesis by (simp add: nav_sections_places Let_def)
qed

lemma raise_fold_dom:
  "dom (fold (raise_confidence p) is conf) \<subseteq> dom conf \<union> set is"
proof (induction "is" arbitrary: conf)
  case (Cons i "is")
  have one: "dom (raise_confidence p i conf) \<subseteq> insert i (dom conf)" by (auto simp: raise_confidence_def)
  have "dom (fold (raise_confidence p) (i # is) conf) \<subseteq> dom (raise_confidence p i conf) \<union> set is"
    using Cons [of "raise_confidence p i conf"] by (simp only: fold_simps)
  also have "\<dots> \<subseteq> dom conf \<union> set (i # is)" using one by (simp only: list.set) blast
  finally show ?case .
qed simp

lemma persisted_result_known:
  "set (selected_ids (persisted_result t leaves nav)) \<subseteq> sec_id ` set (tree_sections t)
   \<and> distinct (selected_ids (persisted_result t leaves nav))
   \<and> dom (confidences (persisted_result t leaves nav)) \<subseteq> set (selected_ids (persisted_result t leaves nav))"
proof -
  let ?ps = "page_sections (flatten_sections_by_page t)"
  have known: "set (?ps ev) \<subseteq> sec_id ` set (tree_sections t)" for ev
    unfolding page_sections_def sections_overlapping_set by (auto simp: flatten_by_page_set entry_of_def)
  have "dom (fold (\<lambda>ev. fold (raise_confidence (sc_p ev)) (?ps ev)) evs conf) \<subseteq> dom conf \<union> set (concat (map ?ps evs))" for evs conf
  proof (induction evs arbitrary: conf)
    case (Cons ev evs)
    from Cons [of "fold (raise_confidence (sc_p ev)) (?ps ev) conf"] raise_fold_dom [of "sc_p ev" "?ps ev" conf]
    show ?case by auto
  qed simp
  from this [of "nr_evidence nav" Map.empty]
  have "dom (confidences (persisted_result t leaves nav)) \<subseteq> set (selected_ids (persisted_result t leaves nav))"
    by (simp add: persisted_result_def Let_def seen_simps)
  moreover have "set (selected_ids (persisted_result t leaves nav)) = (\<Union>ev \<in> set (nr_evidence nav). set (?ps ev))"
    by (simp add: persisted_result_def Let_def seen_simps)
  moreover have "distinct (selected_ids (persisted_result t leaves nav))"
    by (simp add: persisted_result_def Let_def seen_simps)
  ultimately show ?thesis using known by (simp add: UN_subset_iff)
qed

lemma section_tree_result_known:
  assumes "set (map (\<lambda>s. np_leaf (sc_item s)) (nr_evidence nav)) \<subseteq> S"
  shows "set (selected_ids (section_tree_result sections by_place nav)) \<subseteq> S
   \<and> distinct (selected_ids (section_tree_result sections by_place nav))
   \<and> dom (confidences (section_tree_result sections by_place nav)) \<subseteq> set (selected_ids (section_tree_result sections by_place nav))"
proof -
  have "dom (fold (\<lambda>ev. raise_confidence (sc_p ev) (np_leaf (sc_item ev))) evs conf)
      \<subseteq> dom conf \<union> set (map (\<lambda>s. np_leaf (sc_item s)) evs)" for evs conf
  proof (induction evs arbitrary: conf)
    case (Cons ev evs)
    have "dom (raise_confidence (sc_p ev) (np_leaf (sc_item ev)) conf) \<subseteq> insert (np_leaf (sc_item ev)) (dom conf)"
      by (auto simp: raise_confidence_def)
    with Cons [of "raise_confidence (sc_p ev) (np_leaf (sc_item ev)) conf"] show ?case by auto
  qed simp
  from this [of "nr_evidence nav" Map.empty] assms show ?thesis
    by (auto simp: section_tree_result_def Let_def seen_simps)
qed

lemma select_on_section_tree_known:
  assumes "select_on_section_tree env t query w = (Inr r, steps, w')"
  shows "set (selected_ids r) \<subseteq> sec_id ` set (tree_sections t) \<and> distinct (selected_ids r)
    \<and> dom (confidences r) \<subseteq> set (selected_ids r)"
proof -
  obtain sections by_place where ns: "nav_sections t = (sections, by_place)" by force
  let ?leaves = "map (section_leaf (section_paths t)) sections"
  obtain nav where nav: "navigate (je_navigator env) query ?leaves (section_load env sections) w = (Inr nav, steps, w')"
    and r: "r = section_tree_result sections by_place nav"
    using assms by (auto simp: select_on_section_tree_def ns split: prod.splits sum.splits)
  have leaves: "nl_id ` set ?leaves \<subseteq> sec_id ` set (tree_sections t)"
    using nav_sections_known [of t] by (auto simp: ns section_leaf_def)
  have "set (map (\<lambda>s. np_leaf (sc_item s)) (nr_evidence nav)) \<subseteq> sec_id ` set (tree_sections t)"
  proof (cases "?leaves = []")
    case True
    then have "nav = no_nav_result" using nav by (simp add: navigate_def)
    then show ?thesis by (simp add: no_nav_result_def)
  next
    case False
    note ok = navigate_ok [OF nav False]
    have "set (nr_evidence nav) \<subseteq> set (nr_pages nav)"
      using ok fill_evidence_subset by (auto simp only: nav_ok_def)
    moreover have "np_leaf ` set (map sc_item (nr_pages nav)) \<subseteq> nl_id ` set ?leaves"
      using ok image_mono [of "set (nr_selected nav) \<union> set (nr_followed nav)" "set ?leaves" nl_id]
      unfolding nav_ok_def by (meson subset_trans)
    ultimately show ?thesis using leaves by fastforce
  qed
  then show ?thesis unfolding r by (rule section_tree_result_known)
qed

lemma select_on_persisted_known:
  assumes "select_on_persisted_pages env t query w = (Some r, steps, w')"
  shows "set (selected_ids r) \<subseteq> sec_id ` set (tree_sections t) \<and> distinct (selected_ids r)
    \<and> dom (confidences r) \<subseteq> set (selected_ids r)"
proof -
  have "\<exists>leaves nav. r = persisted_result t leaves nav"
    using assms by (auto simp: select_on_persisted_pages_def split: option.splits prod.splits if_splits sum.splits)
  then show ?thesis using persisted_result_known by metis
qed

lemma judge_walk_ids:
  assumes "judge_walk_select env t query budget w = (Inr r, w')"
  shows "set (selected_ids r) \<subseteq> sec_id ` set (tree_sections t) \<and> distinct (selected_ids r)
    \<and> dom (confidences r) \<subseteq> set (selected_ids r)"
proof (cases "tree_root t = None")
  case True
  with assms show ?thesis by (auto simp: judge_walk_select_def judge_walk_run_def empty_result_def)
next
  case False
  obtain p steps w1 where p: "select_on_persisted_pages env t query w = (p, steps, w1)" by (metis prod_cases3)
  show ?thesis
  proof (cases p)
    case None
    obtain r' steps' w2 where st: "select_on_section_tree env t query w1 = (r', steps', w2)" by (metis prod_cases3)
    with assms False p None have "r' = Inr r" by (simp add: judge_walk_select_def judge_walk_run_def)
    with select_on_section_tree_known st show ?thesis by metis
  next
    case (Some r')
    with assms False p have "r' = r" by (simp add: judge_walk_select_def judge_walk_run_def)
    with select_on_persisted_known p Some show ?thesis by metis
  qed
qed

interpretation judge_walk: strategy "judge_walk_select env" for env :: "'w judge_env"
proof
  fix t query budget and w w' :: 'w and r
  assume "judge_walk_select env t query budget w = (Inr r, w')"
  note ids = judge_walk_ids [OF this]
  show "set (selected_ids r) \<subseteq> sec_id ` set (tree_sections t)" using ids by blast
  show "distinct (selected_ids r)" using ids by blast
  show "dom (confidences r) \<subseteq> set (selected_ids r)" using ids by blast
qed

subsection \<open>Cutting a body into units\<close>

definition cut_point :: "nat \<Rightarrow> string \<Rightarrow> nat" where
  "cut_point limit body =
     (case last_index_byte (take limit body) (CHR 0x0A) of Some i \<Rightarrow> if i < limit div 2 then limit else i | None \<Rightarrow> limit)"

lemma cut_point_bounds:
  assumes "0 < limit" "limit < length body" "hd body \<noteq> CHR 0x0A"
  shows "0 < cut_point limit body" "cut_point limit body \<le> limit"
proof -
  have at: "i < limit \<and> body ! i = CHR 0x0A" if "last_index_byte (take limit body) (CHR 0x0A) = Some i" for i
    using last_index_byte_Some [OF that] nth_take [of i limit body] by auto
  then have "0 < i" if "last_index_byte (take limit body) (CHR 0x0A) = Some i" for i
    using that assms by (metis gr0I hd_conv_nth less_zeroE list.size(3))
  with at assms(1) show "0 < cut_point limit body" "cut_point limit body \<le> limit"
    by (auto simp: cut_point_def split: option.split)
qed

lemma cut_body_Suc:
  "cut_body (Suc n) limit body =
     (if length body > limit
      then map_option ((#) (take (cut_point limit body) body)) (cut_body n limit (trim_space (drop (cut_point limit body) body)))
      else Some (if body \<noteq> [] then [body] else []))"
  by (simp only: cut_body.simps cut_point_def Let_def)

lemma head_of_trimmed: "trim_space s \<noteq> [] \<Longrightarrow> hd (trim_space s) \<noteq> CHR 0x0A"
  using trim_space_head [of s "hd (trim_space s)" "tl (trim_space s)"] by (auto simp: ascii_spaces_def)

text \<open>
  The units of a text in order, with nothing but white space before, between and after them. White
  space is what \<open>TrimSpace\<close> takes it to be, of any width in bytes.
\<close>

definition blank :: "string \<Rightarrow> bool" where
  "blank s \<longleftrightarrow> (\<exists>rs. set rs \<subseteq> set space_runes \<and> s = concat rs)"

inductive woven :: "string list \<Rightarrow> string \<Rightarrow> bool" where
  last_gap: "blank g \<Longrightarrow> woven [] g"
| next_unit: "blank g \<Longrightarrow> woven cs s \<Longrightarrow> woven (c # cs) (g @ c @ s)"

lemma blank_Nil: "blank []"
  unfolding blank_def by (intro exI [of _ "[]"]) simp

lemma blank_append: "blank s \<Longrightarrow> blank u \<Longrightarrow> blank (s @ u)"
  unfolding blank_def by (elim exE conjE) (metis concat_append le_sup_iff set_append)

lemma woven_before: "woven cs s \<Longrightarrow> blank p \<Longrightarrow> woven cs (p @ s)"
proof (induction rule: woven.induct)
  case (next_unit g cs s c)
  then show ?case using woven.next_unit [of "p @ g" cs s c] by (simp add: blank_append)
qed (auto intro: woven.intros blank_append)

lemma woven_after: "woven cs s \<Longrightarrow> blank q \<Longrightarrow> woven cs (s @ q)"
proof (induction rule: woven.induct)
  case (next_unit g cs s c)
  then show ?case using woven.next_unit [of g cs "s @ q" c] by simp
qed (auto intro: woven.intros blank_append)

lemma trim_left_removes: "\<exists>ps. set ps \<subseteq> set rs \<and> s = concat ps @ trim_left_runes rs s"
proof (induction rs s rule: trim_left_runes.induct)
  case (1 rs s)
  show ?case
  proof (cases "find (\<lambda>r. r \<noteq> [] \<and> has_prefix s r) rs")
    case None
    then show ?thesis by (intro exI [of _ "[]"]) (simp add: trim_left_runes.simps [of rs s])
  next
    case (Some r)
    then have r: "r \<in> set rs" "has_prefix s r" by (auto simp: find_Some_iff)
    then obtain u where u: "s = r @ u" by (auto simp: has_prefix_iff)
    obtain ps where ps: "set ps \<subseteq> set rs" "u = concat ps @ trim_left_runes rs u" using 1 [OF Some] u by auto
    have "trim_left_runes rs s = trim_left_runes rs u" by (subst trim_left_runes.simps) (use Some u in simp)
    with ps r(1) u show ?thesis by (intro exI [of _ "r # ps"]) simp
  qed
qed

lemma trim_space_removes: "\<exists>p q. blank p \<and> blank q \<and> s = p @ trim_space s @ q"
proof -
  obtain ps where ps: "set ps \<subseteq> set space_runes" "s = concat ps @ trim_left_space s"
    using trim_left_removes [of space_runes s] by (auto simp: trim_left_space_def)
  obtain qs where qs: "set qs \<subseteq> set (map rev space_runes)"
      "rev (trim_left_space s) = concat qs @ trim_left_runes (map rev space_runes) (rev (trim_left_space s))"
    using trim_left_removes by metis
  then have left: "trim_left_space s = trim_space s @ rev (concat qs)"
    by (metis rev_append rev_rev_ident trim_right_space_def trim_space_def)
  have "rev (concat qs) = concat (map rev (rev qs))" by (simp add: rev_concat rev_map)
  moreover have "set (map rev (rev qs)) \<subseteq> set space_runes" using qs(1) by auto
  ultimately have "blank (rev (concat qs))" unfolding blank_def by blast
  moreover have "blank (concat ps)" using ps(1) unfolding blank_def by blast
  moreover have "s = concat ps @ trim_space s @ rev (concat qs)" using ps(2) left by simp
  ultimately show ?thesis by blast
qed

lemma woven_trimmed: "woven cs (trim_space s) \<Longrightarrow> woven cs s"
  using trim_space_removes [of s] woven_before woven_after by metis

lemma cut_body_ok:
  assumes "length body < n" "0 < limit" "body \<noteq> [] \<longrightarrow> hd body \<noteq> CHR 0x0A"
  shows "\<exists>cs. cut_body n limit body = Some cs \<and> list_all (\<lambda>c. c \<noteq> [] \<and> length c \<le> limit) cs \<and> woven cs body"
  using assms(1,3)
proof (induction n arbitrary: body)
  case (Suc n)
  show ?case
  proof (cases "length body > limit")
    case True
    let ?cut = "cut_point limit body" and ?rest = "trim_space (drop (cut_point limit body) body)"
    have ne: "body \<noteq> []" using True by auto
    have cut: "0 < ?cut" "?cut \<le> limit" using cut_point_bounds [OF assms(2) True] Suc.prems(2) ne by auto
    have "length ?rest \<le> length body - ?cut" using length_trim_space_le [of "drop ?cut body"] by simp
    then have "length ?rest < n" using cut(1) True Suc.prems(1) by simp
    from Suc.IH [OF this] head_of_trimmed obtain cs where cs: "cut_body n limit ?rest = Some cs"
      "list_all (\<lambda>c. c \<noteq> [] \<and> length c \<le> limit) cs" "woven cs ?rest" by metis
    have "woven (take ?cut body # cs) body"
      using next_unit [OF blank_Nil woven_trimmed [OF cs(3)], of "take ?cut body"] by simp
    with True cs cut ne show ?thesis unfolding cut_body_Suc by auto
  next
    case False
    have "woven [body] body" using next_unit [OF blank_Nil last_gap [OF blank_Nil], of body] by simp
    with False last_gap [OF blank_Nil] show ?thesis unfolding cut_body_Suc by auto
  qed
qed simp

lemma zdiv_mono1_weak: "a \<le> b \<Longrightarrow> 0 \<le> k \<Longrightarrow> a div k \<le> b div (k :: int)"
  by (cases "k = 0") (auto intro: zdiv_mono1)

text \<open>The number of a unit is inside the range of its section.\<close>

definition unit_number :: "int \<Rightarrow> int \<Rightarrow> nat \<Rightarrow> nat \<Rightarrow> int" where
  "unit_number start end k i =
     min end (start + (int i * max 1 (end - start + 1)) div int k)"

lemma chunk_body_alt:
  "chunk_body body start end limit =
     (if trim_space body = [] then Some []
      else map_option (\<lambda>cs. map (\<lambda>(i, c). \<lparr>np_number = unit_number start end (length cs) i, np_text = c, np_leaf = []\<rparr>) (enumerate 0 cs))
             (cut_body (Suc (length (trim_space body))) (nat (if limit \<le> 0 then 6000 else limit)) (trim_space body)))"
proof -
  have "(if start + int i * (if end - start + 1 < 1 then 1 else end - start + 1) div int k > end then end
      else start + int i * (if end - start + 1 < 1 then 1 else end - start + 1) div int k) = unit_number start end k i" for i k
    by (auto simp: unit_number_def min_def max_def)
  then show ?thesis by (simp only: chunk_body_def Let_def)
qed

lemma unit_number_range:
  assumes "start \<le> end"
  shows "start \<le> unit_number start end k i" "unit_number start end k i \<le> end"
  using assms by (auto simp: unit_number_def pos_imp_zdiv_nonneg_iff div_int_pos_iff min_def max_def)

lemma unit_number_mono: "i \<le> j \<Longrightarrow> unit_number start end k i \<le> unit_number start end k j"
  unfolding unit_number_def
  by (intro min.mono order.refl add_left_mono zdiv_mono1_weak mult_right_mono) auto

definition unit_limit :: "int \<Rightarrow> int" where
  "unit_limit limit = (if limit \<le> 0 then 6000 else limit)"

definition units_of :: "int \<Rightarrow> int \<Rightarrow> string list \<Rightarrow> nav_page list" where
  "units_of start end cs =
     map (\<lambda>(i, c). \<lparr>np_number = unit_number start end (length cs) i, np_text = c, np_leaf = []\<rparr>) (enumerate 0 cs)"

lemma chunk_body_cut:
  "chunk_body body start end limit =
     (if trim_space body = [] then Some []
      else map_option (units_of start end) (cut_body (Suc (length (trim_space body))) (nat (unit_limit limit)) (trim_space body)))"
  by (simp only: chunk_body_alt units_of_def [abs_def] unit_limit_def)

lemma units_of_text: "map np_text (units_of start end cs) = cs"
  by (simp add: units_of_def case_prod_unfold comp_def)

lemma units_of_number: "map np_number (units_of start end cs) = map (unit_number start end (length cs)) [0..<length cs]"
proof -
  have "map np_number (units_of start end cs) = map (unit_number start end (length cs)) (map fst (enumerate 0 cs))"
    unfolding units_of_def map_map by (rule map_cong) auto
  then show ?thesis by simp
qed

lemma cut_trimmed:
  "\<exists>cs. cut_body (Suc (length (trim_space body))) (nat (unit_limit limit)) (trim_space body) = Some cs
    \<and> list_all (\<lambda>c. c \<noteq> [] \<and> int (length c) \<le> unit_limit limit) cs \<and> woven cs body"
proof -
  have pos: "0 < unit_limit limit" by (simp add: unit_limit_def)
  then have limit: "0 < nat (unit_limit limit)" by simp
  have head: "trim_space body \<noteq> [] \<longrightarrow> hd (trim_space body) \<noteq> CHR 0x0A" using head_of_trimmed by blast
  obtain cs where cs: "cut_body (Suc (length (trim_space body))) (nat (unit_limit limit)) (trim_space body) = Some cs"
      "list_all (\<lambda>c. c \<noteq> [] \<and> length c \<le> nat (unit_limit limit)) cs" "woven cs (trim_space body)"
    using cut_body_ok [OF lessI limit head] by (elim exE conjE)
  have "list_all (\<lambda>c. c \<noteq> [] \<and> int (length c) \<le> unit_limit limit) cs"
    using cs(2) pos by (simp only: list_all_iff) (metis nat_int nat_le_eq_zle order_less_imp_le)
  with cs(1) woven_trimmed [OF cs(3)] show ?thesis by metis
qed

lemma units_of_ok:
  assumes "list_all (\<lambda>c. c \<noteq> [] \<and> int (length c) \<le> m) cs"
  shows "list_all (\<lambda>u. np_text u \<noteq> [] \<and> int (length (np_text u)) \<le> m) (units_of start end cs)
    \<and> (start \<le> end \<longrightarrow> list_all (\<lambda>u. start \<le> np_number u \<and> np_number u \<le> end) (units_of start end cs))
    \<and> sorted (map np_number (units_of start end cs))"
proof -
  have "list_all (\<lambda>c. c \<noteq> [] \<and> int (length c) \<le> m) (map np_text (units_of start end cs))"
    unfolding units_of_text by (rule assms(1))
  moreover have "start \<le> end \<Longrightarrow> list_all (\<lambda>k. start \<le> k \<and> k \<le> end) (map np_number (units_of start end cs))"
    unfolding units_of_number using unit_number_range by (simp add: list_all_iff)
  moreover have "sorted (map np_number (units_of start end cs))"
    unfolding units_of_number by (simp add: sorted_wrt_map unit_number_mono sorted_wrt_mono_rel [OF _ sorted_upt])
  ultimately show ?thesis by (simp add: list.pred_map comp_def)
qed

text \<open>
  C29. Any section body is cut into page-sized units, and cutting always ends: no unit is empty or longer
  than the limit in bytes (6000 when it is not positive), the body is the units in order with nothing but
  white space before, between and after them, and their page numbers ascend, within the page range of
  the section when that range does not end before it starts.
\<close>
lemma chunk_body_units:
  "\<exists>us. chunk_body body start end limit = Some us
    \<and> list_all (\<lambda>u. np_text u \<noteq> [] \<and> int (length (np_text u)) \<le> (if limit \<le> 0 then 6000 else limit)) us
    \<and> woven (map np_text us) body
    \<and> sorted (map np_number us)
    \<and> (start \<le> end \<longrightarrow> list_all (\<lambda>u. start \<le> np_number u \<and> np_number u \<le> end) us)"
proof (cases "trim_space body = []")
  case True
  have "woven [] body" by (rule woven_trimmed) (simp add: True last_gap blank_Nil)
  with True show ?thesis by (simp add: chunk_body_cut)
next
  case False
  obtain cs where cs: "cut_body (Suc (length (trim_space body))) (nat (unit_limit limit)) (trim_space body) = Some cs"
      "list_all (\<lambda>c. c \<noteq> [] \<and> int (length c) \<le> unit_limit limit) cs" "woven cs body"
    using cut_trimmed by blast
  have "chunk_body body start end limit = Some (units_of start end cs)"
    unfolding chunk_body_cut cs(1) using False by simp
  with units_of_ok [OF cs(2), of start "end"] cs(3) show ?thesis
    unfolding unit_limit_def [symmetric] by (intro exI [of _ "units_of start end cs"]) (simp add: units_of_text)
qed

text \<open>
  The cut is a byte offset: without a newline in the second half of the window it can fall inside a
  character, here between the two bytes of an accented letter.
\<close>

lemma chunk_body_cuts_a_character:
  "map_option (map np_text) (chunk_body [CHR ''a'', CHR 0xC3, CHR 0xA9] 1 1 2) = Some [[CHR ''a'', CHR 0xC3], [CHR 0xA9]]"
  by code_simp

text \<open>
  All units of a section of one page have that page's number, and gathering passes over a number it
  has seen: of such a section only the first unit is ever judged.
\<close>

lemma gather_leaf_same_number:
  "pages \<noteq> [] \<Longrightarrow> \<forall>u \<in> set us. np_number u \<in> np_number ` set pages \<Longrightarrow> gather_leaf cap leaf us pages = pages"
  by (induction us) auto

lemma one_page_section_loses_units:
  assumes "chunk_body body p p limit = Some (u # us)" "1 \<le> cap"
  shows "gather_leaf cap leaf (u # us) [] = [u\<lparr>np_leaf := leaf\<rparr>]"
proof -
  have same: "unit_number p p k i = p" for k i using unit_number_range [of p p k i] by simp
  obtain cs where us: "u # us = units_of p p cs"
    using assms(1) unfolding chunk_body_cut by (metis list.distinct(1) map_option_eq_Some option.inject)
  then have "\<forall>k \<in> set (map np_number (u # us)). k = p" unfolding us units_of_number by (simp add: same)
  then have "\<forall>v \<in> set (u # us). np_number v = p" by simp
  with assms(2) show ?thesis by (simp add: gather_leaf_same_number)
qed

end
