(* ===== verification/Judge_Samples.thy ===== *)
theory Judge_Samples
  imports Judge_Strategy
begin

text \<open>
  The properties of the Judge navigation at concrete inputs: navigation of a document of one leaf with
  one page, the ranking of two pages whose calls come back last first, and the strategy on a small tree.
\<close>

definition sample_verdict :: verdict where
  "sample_verdict = \<lparr>jd_noul = (\<lambda>k. Some (Fin (3 / 4))), jd_input = 9, jd_output = 1, jd_total = 10, jd_cost = Fin 0\<rparr>"

definition sample_navigator :: "unit navigator" where
  "sample_navigator = \<lparr>jn_judge = Some (\<lambda>cancelled req w. (Inr sample_verdict, w)), jn_threshold = Fin 0,
     jn_max_leaves = 0, jn_max_pages = 0, jn_coarse_pages = 0, jn_head_chars = 0, jn_no_follow = True,
     jn_page_chars = 0, jn_req_tokens = 0, jn_skim_all = True, jn_skim_all_max = 0, jn_multipart = False,
     jn_schedule = in_order, jn_heads_first = False\<rparr>"

definition sample_leaf :: nav_leaf where
  "sample_leaf = \<lparr>nl_id = ''a'', nl_title = ''A'', nl_path = ''A'', nl_start = 1, nl_end = 1, nl_summary = []\<rparr>"

definition sample_page :: nav_page where
  "sample_page = \<lparr>np_number = 1, np_text = ''total 5'', np_leaf = []\<rparr>"

definition sample_load :: "unit loader" where
  "sample_load l w = (Inr [sample_page], w)"

lemma sample_answers: "answers sample_navigator (\<lambda>req. sample_verdict)"
  by (simp add: answers_def sample_navigator_def)

lemma sample_judged: "judged sample_navigator"
  by (auto simp: judged_def sample_navigator_def)

lemma sample_loads: "loads sample_load"
  by (simp add: loads_def sample_load_def)

lemma sample_schedule: "schedule (jn_schedule sample_navigator)"
  by (simp add: sample_navigator_def schedule_in_order)

text \<open>Two pages in batches of their own, the calls coming back last first.\<close>

definition picky_verdict :: verdict where
  "picky_verdict = sample_verdict\<lparr>jd_noul := (\<lambda>k. Some (Fin (if k = ''p_1'' then 9 / 10 else 1 / 10)))\<rparr>"

definition backward_navigator :: "unit navigator" where
  "backward_navigator = sample_navigator\<lparr>jn_judge := Some (\<lambda>cancelled req w. (Inr picky_verdict, w)),
     jn_schedule := (\<lambda>n. rev [0..<n]), jn_req_tokens := 1\<rparr>"

lemma rank_pages_concurrent_witness:
  "fst (rank_pages_at backward_navigator ''q'' [sample_page, sample_page\<lparr>np_number := 2\<rparr>] 100 False ())
      = Inr [\<lparr>sc_item = sample_page\<lparr>np_number := 2\<rparr>, sc_p = Fin (9 / 10)\<rparr>, \<lparr>sc_item = sample_page, sc_p = Fin (1 / 10)\<rparr>]
    \<and> concat (page_batches backward_navigator ''q'' 100 [sample_page, sample_page\<lparr>np_number := 2\<rparr>] 0) = [0, 1]"
proof -
  let ?ps = "[sample_page, sample_page\<lparr>np_number := 2\<rparr>]"
  have "answers backward_navigator (\<lambda>req. picky_verdict)" by (simp add: answers_def backward_navigator_def)
  moreover have "schedule (jn_schedule backward_navigator)" by (simp add: schedule_def backward_navigator_def)
  ultimately have r: "fst (rank_pages_at backward_navigator ''q'' ?ps 100 False ())
      = Inr (best_first (with_probs ?ps (map (page_prob backward_navigator (\<lambda>req. picky_verdict) ''q'' ?ps 100 False) [0..<length ?ps])))
    \<and> concat (page_batches backward_navigator ''q'' 100 ?ps 0) = [0..<length ?ps]"
    using rank_pages_concurrent [of backward_navigator "\<lambda>req. picky_verdict" "''q''" ?ps 100 False "()"] by blast
  have "item_key page_prefix 0 = ''p_0''" "item_key page_prefix 1 = ''p_1''" by code_simp+
  then have "map (page_prob backward_navigator (\<lambda>req. picky_verdict) ''q'' ?ps 100 False) [0..<length ?ps] = [Fin (1 / 10), Fin (9 / 10)]"
    by (simp add: page_prob_def noul_or_zero_def picky_verdict_def upt_rec)
  with r show ?thesis
    by (simp add: best_first_def with_probs_def stable_sort_def upt_rec)
qed


definition sample_scored :: page_score where
  "sample_scored = \<lparr>sc_item = sample_page\<lparr>np_leaf := ''a''\<rparr>, sc_p = Fin (3 / 4)\<rparr>"

lemma stable_sort_one: "stable_sort lt [x] = [x]"
  by (simp add: stable_sort_def)

lemma sample_rank_leaves:
  "\<exists>u k. rank_leaves sample_navigator ''q'' [sample_leaf] () = (Inr [\<lparr>sc_item = sample_leaf, sc_p = Fin (3 / 4)\<rparr>], u, k, ())"
  by (simp add: rank_leaves_def rank_candidates_def sample_navigator_def leaf_batches.simps in_order_def nav_leaf_batch_def
      batch_done_def leaf_request_def record_noul_def sample_verdict_def key_index_def item_key_def best_first_def
      with_probs_def upt_rec stable_sort_one)

lemmas sample_defs = sample_navigator_def in_order_def batch_done_def record_noul_def sample_verdict_def key_index_def
  item_key_def best_first_def with_probs_def upt_rec stable_sort_one

lemma sample_rank_pages:
  "\<exists>u k. rank_pages sample_navigator ''q'' [sample_page\<lparr>np_leaf := ''a''\<rparr>] () = (Inr [sample_scored], u, k, ())"
  by (simp add: rank_pages_def rank_pages_at_def rank_candidates_def page_batches.simps page_request_def sample_scored_def sample_defs)

lemma run_on_sample:
  assumes load: "\<And>w. load sample_leaf w = (Inr [sample_page], w)"
  shows "\<exists>r steps. navigate sample_navigator ''q'' [sample_leaf] load () = (Inr r, steps, ())
    \<and> nr_pages r = [sample_scored] \<and> nr_evidence r = [sample_scored]"
proof -
  obtain u k where l: "rank_leaves sample_navigator ''q'' [sample_leaf] () = (Inr [\<lparr>sc_item = sample_leaf, sc_p = Fin (3 / 4)\<rparr>], u, k, ())"
    using sample_rank_leaves by blast
  obtain u' k' where p: "rank_pages sample_navigator ''q'' [sample_page\<lparr>np_leaf := ''a''\<rparr>] () = (Inr [sample_scored], u', k', ())"
    using sample_rank_pages by blast
  have conf: "jn_skim_all sample_navigator" "jn_no_follow sample_navigator" "max_leaves sample_navigator = 2 ^ 30"
    "coarse_pages sample_navigator = 120" "max_pages sample_navigator = 30" "threshold sample_navigator = Fin (1 / 2)"
    by (simp_all add: sample_navigator_def max_leaves_def coarse_pages_def max_pages_def threshold_def)
  have id: "nl_id sample_leaf = ''a''" by (simp add: sample_leaf_def)
  show ?thesis
    by (simp add: navigate_def first_ranking_def all_leaf_pages_def stable_sort_one rank_first_def l conf load id choose_pages_def p fill_evidence_def
        nav_min_evidence_def sample_scored_def)
qed

lemmas sample_run = run_on_sample [of sample_load, OF sample_load_def]

lemma navigate_bounded_witness:
  "\<exists>r steps w'. navigate sample_navigator ''q'' [sample_leaf] sample_load () = (Inr r, steps, w')
    \<and> nr_pages r = [sample_scored] \<and> int (length (nr_pages r)) \<le> max_pages sample_navigator"
proof -
  obtain r steps where r: "navigate sample_navigator ''q'' [sample_leaf] sample_load () = (Inr r, steps, ())" "nr_pages r = [sample_scored]"
    using sample_run by blast
  from navigate_bounded [OF r(1)] have "int (length (nr_pages r)) \<le> max_pages sample_navigator"
    by (simp add: sample_navigator_def)
  with r show ?thesis by blast
qed

lemma navigate_evidence_witness:
  "\<exists>r steps w'. navigate sample_navigator ''q'' [sample_leaf] sample_load () = (Inr r, steps, w')
    \<and> nr_evidence r = [sample_scored] \<and> set (nr_evidence r) \<subseteq> set (nr_pages r)"
proof -
  obtain r steps where r: "navigate sample_navigator ''q'' [sample_leaf] sample_load () = (Inr r, steps, ())" "nr_evidence r = [sample_scored]"
    using sample_run by blast
  from navigate_evidence [OF r(1)] have "set (nr_evidence r) \<subseteq> set (nr_pages r)" by simp
  with r show ?thesis by blast
qed

lemma chunk_body_units_witness:
  "\<exists>us. chunk_body ''ab cd'' 2 3 4 = Some us \<and> woven (map np_text us) ''ab cd''
    \<and> map np_text us = [''ab c'', ''d''] \<and> list_all (\<lambda>u. 2 \<le> np_number u \<and> np_number u \<le> 3) us"
proof -
  obtain us where us: "chunk_body ''ab cd'' 2 3 4 = Some us" "woven (map np_text us) ''ab cd''"
      "list_all (\<lambda>u. 2 \<le> np_number u \<and> np_number u \<le> 3) us"
    using chunk_body_units [of "''ab cd''" 2 3 4] by auto
  moreover have "map_option (map np_text) (chunk_body ''ab cd'' 2 3 4) = Some [''ab c'', ''d'']" by code_simp
  ultimately show ?thesis by auto
qed

text \<open>
  The Judge navigation selects only sections of the document, each once, and gives confidences
  only to sections it selected, whichever of its two sources it read and whatever the Judge and the
  stores answer.
\<close>
lemma judge_walk_selects_known:
  assumes "judge_walk_select env t query budget w = (Inr r, w')"
  shows "set (selected_ids r) \<subseteq> sec_id ` set (tree_sections t) \<and> distinct (selected_ids r)
    \<and> dom (confidences r) \<subseteq> set (selected_ids r)"
  using judge_walk.known [OF assms] judge_walk.once [OF assms] judge_walk.confident [OF assms] by blast

definition sample_budget :: context_budget where
  "sample_budget = \<lparr>model_name = ''m'', max_tokens = 0, reserved_for_prompt = 0, max_parallel_calls = 1\<rparr>"

definition sample_judge_env :: "unit judge_env" where
  "sample_judge_env = \<lparr>je_navigator = sample_navigator, je_load_body = None,
     je_toc = Some (\<lambda>d w. (Some ''[]'', w)), je_pages = Some (\<lambda>d w. (Some [sample_page], w)),
     je_decode_toc = (\<lambda>s. Some [TOC \<lparr>node_id = ''a'', toc_structure = [], toc_title = ''A'', start_page = 1,
       end_page = 1, toc_summary = []\<rparr> []])\<rparr>"

lemma sample_nav_inputs:
  "persisted_nav_inputs (je_decode_toc sample_judge_env) ''[]'' [sample_page]
   = Some \<lparr>ni_leaves = [sample_leaf], ni_load = (pages_in_range [sample_page] :: unit loader), ni_pages = [sample_page], ni_ordinal = False\<rparr>"
  by (simp add: persisted_nav_inputs_def sample_judge_env_def sample_leaf_def sorted_pages_def stable_sort_one)

lemma sample_pages_in_range: "pages_in_range [sample_page] sample_leaf w = (Inr [sample_page], w)"
  by (simp add: pages_in_range_def sample_leaf_def sample_page_def page_numbered_def List.map_filter_def)

lemma judge_walk_selects_known_witness:
  "\<exists>r w'. judge_walk_select sample_judge_env sample_tree ''q'' sample_budget () = (Inr r, w')
    \<and> evidence_pages r \<noteq> [] \<and> set (selected_ids r) \<subseteq> sec_id ` set (tree_sections sample_tree)"
proof -
  obtain nav steps where nav: "navigate sample_navigator ''q'' [sample_leaf] (pages_in_range [sample_page]) () = (Inr nav, steps, ())"
    and ev: "nr_evidence nav = [sample_scored]" using run_on_sample sample_pages_in_range by metis
  have env: "je_navigator sample_judge_env\<lparr>jn_skim_all := True\<rparr> = sample_navigator"
    by (simp add: sample_judge_env_def sample_navigator_def)
  have "select_on_persisted_pages sample_judge_env sample_tree ''q'' ()
      = (Some (persisted_result sample_tree [sample_leaf] nav), steps, ())"
    unfolding select_on_persisted_pages_def env using nav sample_nav_inputs by (simp add: sample_judge_env_def)
  then have run: "judge_walk_select sample_judge_env sample_tree ''q'' sample_budget ()
      = (Inr (persisted_result sample_tree [sample_leaf] nav), ())"
    by (simp add: judge_walk_select_def judge_walk_run_def sample_tree_def)
  have "evidence_pages (persisted_result sample_tree [sample_leaf] nav) \<noteq> []"
    by (simp add: persisted_result_def Let_def ev)
  with judge_walk_selects_known [OF run] run show ?thesis by blast
qed

end
