(* ===== verification/Agentic.thy ===== *)
theory Agentic
  imports Tree_Walk Selection
begin

text \<open>
  The agentic strategy (\<open>pkg/retrieval/agentic.go\<close>): a bounded conversation in which the model asks
  for the outline, for the children of a section or for a section's body until it picks sections.

  The model, the content fetcher, JSON, \<open>strconv.Quote\<close>, \<open>strings.ToLower\<close>, SHA-256 and the two
  constant prompt texts are fields of the environment.
\<close>

subsection \<open>Actions\<close>

record agentic_action =
  ga_action :: string
  ga_level :: int
  ga_section :: string
  ga_picked_ids :: "string list"
  ga_picks :: "selection_pick list"
  ga_reasoning :: string

datatype agentic_role = Agent_System | Agent_User | Agent_Assistant

type_synonym agentic_message = "agentic_role \<times> string"

record 'w agentic_env =
  ge_llm :: "string \<Rightarrow> agentic_message list \<Rightarrow> 'w \<Rightarrow> (string + llm_reply) \<times> 'w"
  ge_fetch :: "(string \<Rightarrow> 'w \<Rightarrow> (string + string) \<times> 'w) option"
  ge_decode :: "string \<Rightarrow> agentic_action option"
  ge_quote :: "string \<Rightarrow> string"
  ge_lower :: "string \<Rightarrow> string"
  ge_sha :: "string \<Rightarrow> string"
  ge_system :: string
  ge_help :: string
  ge_max_hops :: int
  ge_model_override :: string

definition parse_agentic :: "'w agentic_env \<Rightarrow> string \<Rightarrow> agentic_action option" where
  "parse_agentic env raw =
     (let raw = trim_space raw
      in if raw = [] then None
         else case ge_decode env (isolate_object (strip_fences raw)) of
                None \<Rightarrow> None
              | Some a \<Rightarrow>
                  let tag = ge_lower env (trim_space (ga_action a))
                  in if tag = [] then None
                     else Some (a\<lparr>ga_action := tag, ga_section := trim_space (ga_section a)\<rparr>))"

text \<open>The map from IDs to views: the last section with an ID.\<close>

definition index_sections :: "section_view list \<Rightarrow> section_id \<Rightarrow> section_view option" where
  "index_sections sections i = find (\<lambda>sv. sv_id sv = i) (rev sections)"

definition filter_to_tree_ids :: "string list \<Rightarrow> (section_id \<Rightarrow> section_view option) \<Rightarrow> section_id list" where
  "filter_to_tree_ids raw by_id =
     dedup_by id [] (filter (\<lambda>i. i \<noteq> [] \<and> by_id i \<noteq> None) (map trim_space raw))"

text \<open>The picks of a \<open>done\<close>: known sections, the first pick of each, its confidence clamped.\<close>

definition known_picks :: "selection_pick list \<Rightarrow> (section_id \<Rightarrow> section_view option) \<Rightarrow> selection_pick list" where
  "known_picks picks by_id =
     dedup_by (\<lambda>p. trim_space (pick_id p)) []
       (filter (\<lambda>p. trim_space (pick_id p) \<noteq> [] \<and> by_id (trim_space (pick_id p)) \<noteq> None) picks)"

definition collect_done_picks ::
    "agentic_action \<Rightarrow> (section_id \<Rightarrow> section_view option) \<Rightarrow> section_id list \<times> (section_id \<Rightarrow> f64 option)" where
  "collect_done_picks act by_id =
     (if ga_picks act \<noteq> []
      then let ps = known_picks (ga_picks act) by_id
           in (map (\<lambda>p. trim_space (pick_id p)) ps, pick_confidences ps)
      else (filter_to_tree_ids (ga_picked_ids act) by_id, Map.empty))"

subsection \<open>Observations\<close>

definition default_outline_level :: int where
  "default_outline_level = 1"

definition render_outline :: "tree_view \<Rightarrow> int \<Rightarrow> string" where
  "render_outline view depth =
     (let depth = (if depth \<le> 0 then default_outline_level else depth)
      in concat (map write_section_line (filter (\<lambda>sv. \<not> sv_depth sv > depth) (view_sections view))))"

definition render_expand :: "(section_id \<Rightarrow> section_view option) \<Rightarrow> string \<Rightarrow> string option" where
  "render_expand by_id i =
     (case by_id i of
        None \<Rightarrow> None
      | Some sv \<Rightarrow>
          if sv_children sv = []
          then Some (''['' @ sv_id sv @ ''] '' @ sv_title sv @ '' is a leaf (no children). Use read to fetch its body.'')
          else Some (concat (map write_section_line (List.map_filter by_id (sv_children sv)))))"

definition render_read :: "'w agentic_env \<Rightarrow> tree \<Rightarrow> section_id \<Rightarrow> 'w \<Rightarrow> string option \<times> 'w" where
  "render_read env t i w =
     (case find_by_id t i of
        None \<Rightarrow> (None, w)
      | Some sec \<Rightarrow>
          let d = data sec
          in case (ge_fetch env, content_ref d) of
               (Some fetch, c # ref) \<Rightarrow>
                 (case fetch (c # ref) w of
                    (Inl err, w') \<Rightarrow> (Some (''error reading section '' @ sid d @ '': '' @ err), w')
                  | (Inr bytes, w') \<Rightarrow>
                      let body = trim_space bytes
                      in (Some (if body = [] \<and> summary d \<noteq> []
                                then ''section '' @ sid d @ '' body was empty; summary:'' @ eol @ summary d
                                else ''section '' @ sid d @ '' ('' @ title d @ ''):'' @ eol @ body), w'))
             | _ \<Rightarrow>
                 (if summary d \<noteq> []
                  then Some (''section '' @ sid d @ '' ('' @ title d @ '') has no body content; summary:'' @ eol @ summary d)
                  else None, w))"

definition wrap_observation :: "string \<Rightarrow> string \<Rightarrow> string" where
  "wrap_observation act body = ''Observation ('' @ act @ ''):'' @ eol @ body @ eol @ eol @ ''Next JSON action?''"

definition initial_user_prompt :: "'w agentic_env \<Rightarrow> tree_view \<Rightarrow> string \<Rightarrow> string" where
  "initial_user_prompt env view query =
     (if view_title view \<noteq> [] then ''Document: '' @ view_title view @ eol @ eol else [])
     @ ''Initial outline (depth='' @ itoa default_outline_level @ ''):'' @ eol
     @ render_outline view default_outline_level @ eol @ ''User query:'' @ eol @ query
     @ eol @ eol @ ''Reply with a JSON action. The actions you may use are:'' @ eol @ ge_help env"

subsection \<open>The loop\<close>

record 'w agentic_state =
  gs_world :: 'w
  gs_msgs :: "agentic_message list"
  gs_usage :: usage
  gs_hops :: int

datatype 'w agentic_outcome =
    Agent_Failed string 'w
  | Agent_Done result 'w
  | Agent_Going "'w agentic_state"

record agentic_run =
  gr_tree :: tree
  gr_view :: tree_view
  gr_model :: string

definition observe :: "string \<Rightarrow> 'w agentic_state \<Rightarrow> 'w agentic_state" where
  "observe txt st = st\<lparr>gs_msgs := gs_msgs st @ [(Agent_User, txt)]\<rparr>"

definition agentic_result :: "'w agentic_env \<Rightarrow> agentic_run \<Rightarrow> section_id list \<Rightarrow>
    (section_id \<Rightarrow> f64 option) \<Rightarrow> string \<Rightarrow> 'w agentic_state \<Rightarrow> result" where
  "agentic_result env run ids confs why st =
     empty_result\<lparr>selected_ids := ids, confidences := filter_confidences confs ids, reasoning := why,
       model_used := gr_model run, res_usage := gs_usage st, hops_taken := gs_hops st,
       trace_token := compute_trace_token (ge_sha env) (doc_id (gr_tree run)) ''1'' (gr_model run) ids\<rparr>"

definition retry_text :: string where
  "retry_text = ''Your last reply was not a valid JSON action. Reply with EXACTLY one JSON object: {\"action\":\"outline|expand|read|done\", ...}. No prose, no markdown fences.''"

definition agentic_expand :: "'w agentic_env \<Rightarrow> agentic_run \<Rightarrow> agentic_action \<Rightarrow> 'w agentic_state \<Rightarrow> 'w agentic_state" where
  "agentic_expand env run act st =
     (case render_expand (index_sections (view_sections (gr_view run))) (ga_section act) of
        None \<Rightarrow> observe (wrap_observation ''expand'' (''unknown section_id '' @ ge_quote env (ga_section act)
                  @ ''. Use outline or pick an ID from a previous observation.'')) st
      | Some obs \<Rightarrow> observe (wrap_observation ''expand'' obs) st)"

definition agentic_read :: "'w agentic_env \<Rightarrow> agentic_run \<Rightarrow> agentic_action \<Rightarrow> 'w agentic_state \<Rightarrow> 'w agentic_state" where
  "agentic_read env run act st =
     (case render_read env (gr_tree run) (ga_section act) (gs_world st) of
        (None, w) \<Rightarrow> observe (wrap_observation ''read'' (''unknown section_id '' @ ge_quote env (ga_section act)
                  @ '' or no content available.'')) (st\<lparr>gs_world := w\<rparr>)
      | (Some obs, w) \<Rightarrow> observe (wrap_observation ''read'' obs) (st\<lparr>gs_world := w\<rparr>))"

definition agentic_dispatch :: "'w agentic_env \<Rightarrow> agentic_run \<Rightarrow> agentic_action \<Rightarrow> 'w agentic_state \<Rightarrow> 'w agentic_outcome" where
  "agentic_dispatch env run act st =
     (if ga_action act = ''done''
      then (case collect_done_picks act (index_sections (view_sections (gr_view run))) of
              (ids, confs) \<Rightarrow> Agent_Done (agentic_result env run ids confs (ga_reasoning act) st) (gs_world st))
      else if ga_action act = ''outline''
      then Agent_Going (observe (wrap_observation ''outline'' (render_outline (gr_view run)
             (if ga_level act \<le> 0 then default_outline_level else ga_level act))) st)
      else if ga_action act = ''expand'' then Agent_Going (agentic_expand env run act st)
      else if ga_action act = ''read'' then Agent_Going (agentic_read env run act st)
      else Agent_Going (observe (wrap_observation (ga_action act) (''unsupported action '' @ ge_quote env (ga_action act)
             @ ''. Use one of: outline, expand, read, done.'')) st))"

definition agentic_turn :: "'w agentic_env \<Rightarrow> agentic_run \<Rightarrow> int \<Rightarrow> 'w agentic_state \<Rightarrow> 'w agentic_outcome" where
  "agentic_turn env run hop st =
     (case ge_llm env (gr_model run) (gs_msgs st) (gs_world st) of
        (Inl err, w) \<Rightarrow> Agent_Failed (''agentic hop '' @ itoa (hop + 1) @ '': '' @ err) w
      | (Inr resp, w) \<Rightarrow>
          let st = \<lparr>gs_world = w, gs_msgs = gs_msgs st @ [(Agent_Assistant, rep_content resp)],
                gs_usage = add_usage (gs_usage st) (one_call resp), gs_hops = gs_hops st + 1\<rparr>
          in case parse_agentic env (rep_content resp) of
               None \<Rightarrow> Agent_Going (observe retry_text st)
             | Some act \<Rightarrow> agentic_dispatch env run act st)"

fun agentic_loop :: "'w agentic_env \<Rightarrow> agentic_run \<Rightarrow> nat \<Rightarrow> int \<Rightarrow> 'w agentic_state \<Rightarrow> 'w agentic_outcome" where
  "agentic_loop env run 0 hop st = Agent_Going st"
| "agentic_loop env run (Suc n) hop st =
     (case agentic_turn env run hop st of
        Agent_Going st' \<Rightarrow> agentic_loop env run n (hop + 1) st'
      | out \<Rightarrow> out)"

definition agentic_start :: "'w agentic_env \<Rightarrow> agentic_run \<Rightarrow> string \<Rightarrow> 'w \<Rightarrow> 'w agentic_state" where
  "agentic_start env run query w =
     \<lparr>gs_world = w, gs_msgs = [(Agent_System, ge_system env), (Agent_User, initial_user_prompt env (gr_view run) query)],
      gs_usage = no_usage, gs_hops = 0\<rparr>"

definition agentic_select :: "'w agentic_env \<Rightarrow> tree \<Rightarrow> string \<Rightarrow> context_budget \<Rightarrow> 'w \<Rightarrow> (string + result) \<times> 'w" where
  "agentic_select env t query budget w =
     (if tree_root t = None then (Inr empty_result, w)
      else let run = \<lparr>gr_tree = t, gr_view = build_view t,
                 gr_model = (if ge_model_override env = [] then model_name budget else ge_model_override env)\<rparr>
           in case agentic_loop env run (nat (resolve_limit (ge_max_hops env) 6)) 0 (agentic_start env run query w) of
                Agent_Failed err w' \<Rightarrow> (Inl err, w')
              | Agent_Done r w' \<Rightarrow> (Inr r, w')
              | Agent_Going st \<Rightarrow> (Inr (agentic_result env run [] Map.empty [] st), gs_world st))"

subsection \<open>What a run selects\<close>

lemma index_sections_known: "index_sections sections i \<noteq> None \<Longrightarrow> i \<in> sv_id ` set sections"
  by (auto simp: index_sections_def find_Some_iff dest: nth_mem) (metis image_eqI length_rev nth_mem set_rev)

lemma dom_pick_confidences: "dom (pick_confidences ps) \<subseteq> (\<lambda>p. trim_space (pick_id p)) ` set ps"
proof -
  have "dom (fold (\<lambda>p m. case pick_confidence p of None \<Rightarrow> m
          | Some c \<Rightarrow> m(trim_space (pick_id p) \<mapsto> clamp_pick c)) ps m)
      \<subseteq> (\<lambda>p. trim_space (pick_id p)) ` set ps \<union> dom m" for m :: "section_id \<Rightarrow> f64 option"
  proof (induction ps arbitrary: m)
    case (Cons p ps)
    let ?m = "case pick_confidence p of None \<Rightarrow> m | Some c \<Rightarrow> m(trim_space (pick_id p) \<mapsto> clamp_pick c)"
    have "dom ?m \<subseteq> insert (trim_space (pick_id p)) (dom m)" by (auto split: option.split)
    with Cons [of ?m] show ?case by (simp only: fold_simps comp_def list.set image_insert) blast
  qed simp
  from this [of Map.empty] show ?thesis by (simp add: pick_confidences_def)
qed

lemma collect_done_known:
  assumes "collect_done_picks act (index_sections sections) = (ids, confs)"
  shows "set ids \<subseteq> sv_id ` set sections \<and> distinct ids \<and> dom confs \<subseteq> set ids"
proof (cases "ga_picks act = []")
  case True
  with assms have ids: "ids = filter_to_tree_ids (ga_picked_ids act) (index_sections sections)" "confs = Map.empty"
    by (auto simp: collect_done_picks_def)
  show ?thesis unfolding ids using index_sections_known by (auto simp: filter_to_tree_ids_def seen_simps)
next
  case False
  let ?ps = "known_picks (ga_picks act) (index_sections sections)"
  from False assms have ids: "ids = map (\<lambda>p. trim_space (pick_id p)) ?ps" "confs = pick_confidences ?ps"
    by (auto simp: collect_done_picks_def Let_def)
  have "trim_space (pick_id p) \<in> sv_id ` set sections" if "p \<in> set ?ps" for p
    using that index_sections_known dedup_by_subset by (fastforce simp: known_picks_def)
  moreover have "distinct ids" unfolding ids known_picks_def by (rule dedup_by_distinct)
  ultimately show ?thesis using dom_pick_confidences [of ?ps] by (auto simp: ids(1,2))
qed

text \<open>One turn costs one hop; it ends the run only with a result made from known picks.\<close>

definition picked_result :: "'w agentic_env \<Rightarrow> agentic_run \<Rightarrow> int \<Rightarrow> result \<Rightarrow> bool" where
  "picked_result env run k r \<longleftrightarrow> (\<exists>act ids confs why st.
     collect_done_picks act (index_sections (view_sections (gr_view run))) = (ids, confs)
     \<and> r = agentic_result env run ids confs why st \<and> gs_hops st = k)"

lemma observe_hops [simp]: "gs_hops (observe txt st) = gs_hops st"
  by (simp add: observe_def)

lemma agentic_expand_hops [simp]: "gs_hops (agentic_expand env run act st) = gs_hops st"
  by (simp add: agentic_expand_def split: option.split)

lemma agentic_read_hops [simp]: "gs_hops (agentic_read env run act st) = gs_hops st"
  by (simp add: agentic_read_def split: option.split prod.split)

lemma agentic_dispatch_hops:
  "case agentic_dispatch env run act st of
     Agent_Failed err w \<Rightarrow> False
   | Agent_Done r w \<Rightarrow> picked_result env run (gs_hops st) r
   | Agent_Going st' \<Rightarrow> gs_hops st' = gs_hops st"
proof (cases "ga_action act = ''done''")
  case True
  obtain ids confs where picks: "collect_done_picks act (index_sections (view_sections (gr_view run))) = (ids, confs)" by force
  then have "picked_result env run (gs_hops st) (agentic_result env run ids confs (ga_reasoning act) st)"
    unfolding picked_result_def by blast
  with True picks show ?thesis by (simp add: agentic_dispatch_def)
next
  case False
  then show ?thesis by (simp add: agentic_dispatch_def)
qed

lemma agentic_turn_hops:
  "case agentic_turn env run hop st of
     Agent_Failed err w \<Rightarrow> True
   | Agent_Done r w \<Rightarrow> picked_result env run (gs_hops st + 1) r
   | Agent_Going st' \<Rightarrow> gs_hops st' = gs_hops st + 1"
proof -
  obtain res w where call: "ge_llm env (gr_model run) (gs_msgs st) (gs_world st) = (res, w)" by force
  show ?thesis
  proof (cases res)
    case (Inr resp)
    let ?st = "\<lparr>gs_world = w, gs_msgs = gs_msgs st @ [(Agent_Assistant, rep_content resp)],
                gs_usage = add_usage (gs_usage st) (one_call resp), gs_hops = gs_hops st + 1\<rparr>"
    show ?thesis
    proof (cases "parse_agentic env (rep_content resp)")
      case (Some act)
      with agentic_dispatch_hops [where env = env and run = run and act = act and st = ?st] show ?thesis
        by (simp add: agentic_turn_def call Inr split: agentic_outcome.splits)
    qed (simp add: agentic_turn_def call Inr)
  qed (simp add: agentic_turn_def call)
qed

lemma agentic_loop_hops:
  "case agentic_loop env run n hop st of
     Agent_Failed err w \<Rightarrow> True
   | Agent_Done r w \<Rightarrow> \<exists>k \<le> gs_hops st + int n. picked_result env run k r
   | Agent_Going st' \<Rightarrow> gs_hops st' = gs_hops st + int n"
proof (induction n arbitrary: hop st)
  case (Suc n)
  note turn = agentic_turn_hops [where env = env and run = run and hop = hop and st = st]
  show ?case
  proof (cases "agentic_turn env run hop st")
    case (Agent_Done r w)
    with turn have "picked_result env run (gs_hops st + 1) r" by simp
    with Agent_Done show ?thesis by (auto intro!: exI [of _ "gs_hops st + 1"])
  next
    case (Agent_Going st')
    with turn Suc [where hop = "hop + 1" and st = st'] show ?thesis by (auto simp: algebra_simps split: agentic_outcome.splits)
  qed simp
qed simp

lemma agentic_outcome:
  assumes "agentic_select env t query budget w = (Inr r, w')"
  shows "set (selected_ids r) \<subseteq> sec_id ` set (tree_sections t) \<and> distinct (selected_ids r)
    \<and> dom (confidences r) \<subseteq> set (selected_ids r) \<and> hops_taken r \<le> resolve_limit (ge_max_hops env) 6"
proof (cases "tree_root t = None")
  case True
  with assms show ?thesis by (auto simp: agentic_select_def resolve_limit_def empty_result_def)
next
  case False
  define run where "run = \<lparr>gr_tree = t, gr_view = build_view t,
     gr_model = (if ge_model_override env = [] then model_name budget else ge_model_override env)\<rparr>"
  define limit where "limit = resolve_limit (ge_max_hops env) 6"
  have limit: "0 < limit" by (simp add: limit_def resolve_limit_def)
  have start: "gs_hops (agentic_start env run query w) = 0" by (simp add: agentic_start_def)
  note loop = agentic_loop_hops [where env = env and run = run and n = "nat limit" and hop = 0
    and st = "agentic_start env run query w", unfolded start]
  have sel: "agentic_select env t query budget w =
      (case agentic_loop env run (nat limit) 0 (agentic_start env run query w) of
                Agent_Failed err w' \<Rightarrow> (Inl err, w')
              | Agent_Done r w' \<Rightarrow> (Inr r, w')
              | Agent_Going st \<Rightarrow> (Inr (agentic_result env run [] Map.empty [] st), gs_world st))"
    unfolding agentic_select_def Let_def run_def [symmetric] limit_def [symmetric] using False by (simp only: if_False)
  show ?thesis
  proof (cases "agentic_loop env run (nat limit) 0 (agentic_start env run query w)")
    case (Agent_Failed err w2)
    with assms sel show ?thesis by simp
  next
    case (Agent_Done r2 w2)
    with assms sel loop obtain k act ids confs why st where
      "collect_done_picks act (index_sections (view_sections (build_view t))) = (ids, confs)"
      "r = agentic_result env run ids confs why st" "gs_hops st \<le> limit"
      using limit by (auto simp: picked_result_def run_def)
    with collect_done_known [OF this(1)] show ?thesis
      by (auto simp: agentic_result_def dom_filter_confidences view_ids_set limit_def)
  next
    case (Agent_Going st)
    with assms sel loop limit show ?thesis
      by (auto simp: agentic_result_def filter_confidences_def limit_def)
  qed
qed

interpretation agentic: strategy "agentic_select env" for env :: "'w agentic_env"
proof
  fix t query budget and w w' :: 'w and r
  assume "agentic_select env t query budget w = (Inr r, w')"
  note ids = agentic_outcome [OF this]
  show "set (selected_ids r) \<subseteq> sec_id ` set (tree_sections t)" using ids by blast
  show "distinct (selected_ids r)" using ids by blast
  show "dom (confidences r) \<subseteq> set (selected_ids r)" using ids by blast
qed

text \<open>
  A run that uses up its hops selects nothing: the picks are only ever set by the action that ends it.
\<close>

lemma agentic_out_of_hops:
  assumes "tree_root t \<noteq> None" "\<forall>msgs w. \<exists>resp w'. ge_llm env m msgs w = (Inr resp, w') \<and> parse_agentic env (rep_content resp) = None"
    and "m = (if ge_model_override env = [] then model_name budget else ge_model_override env)"
  shows "\<exists>r w'. agentic_select env t query budget w = (Inr r, w') \<and> selected_ids r = []"
proof -
  define run where "run = \<lparr>gr_tree = t, gr_view = build_view t, gr_model = m\<rparr>"
  have turn: "\<exists>st'. agentic_turn env run hop st = Agent_Going st'" for hop st
  proof -
    obtain resp w' where "ge_llm env m (gs_msgs st) (gs_world st) = (Inr resp, w')" "parse_agentic env (rep_content resp) = None"
      using assms(2) by blast
    then show ?thesis by (simp add: agentic_turn_def run_def)
  qed
  have "\<exists>st'. agentic_loop env run n hop st = Agent_Going st'" for n hop st
  proof (induction n arbitrary: hop st)
    case (Suc n)
    obtain st' where "agentic_turn env run hop st = Agent_Going st'" using turn by blast
    with Suc show ?case by simp
  qed simp
  then obtain st' where "agentic_loop env run (nat (resolve_limit (ge_max_hops env) 6)) 0 (agentic_start env run query w) = Agent_Going st'"
    by blast
  with assms(1,3) show ?thesis by (simp add: agentic_select_def run_def agentic_result_def)
qed

end
