(* ===== verification/Strategy_Compose.thy ===== *)
theory Strategy_Compose
  imports Agentic Chunked_Tree Judge_Strategy
begin

text \<open>
  Strategies made from strategies: the fallback (\<open>pkg/retrieval/fallback.go\<close>), the router by size
  (\<open>auto.go\<close>), the decomposer (\<open>decompose.go\<close>), the public names (\<open>public_name.go\<close>), and the choice of
  the server's strategy by its configured name (\<open>buildStrategy\<close> of \<open>cmd/server/main.go\<close>).

  Every strategy here reports costs, so \<open>selectWithCost\<close> and the type tests around it are the call of
  the strategy itself. \<open>ctx.Err()\<close> is a reading of the world.
\<close>

type_synonym ('w, 'e) select_fun = "tree \<Rightarrow> string \<Rightarrow> context_budget \<Rightarrow> 'w \<Rightarrow> ('e + result) \<times> 'w"

subsection \<open>Falling back\<close>

text \<open>What \<open>errors.As\<close> and \<open>errors.Is\<close> find in the chain of an error.\<close>

datatype error_class = Class_Auth | Class_Gateway | Class_Other

record error_chain =
  ec_model_unavailable :: "bool option"
  ec_not_configured :: "bool option"
  ec_llm :: "(int \<times> error_class) option"
  ec_deadline :: bool

definition provider_unavailable :: "error_chain \<Rightarrow> bool" where
  "provider_unavailable c =
     (if ec_model_unavailable c = Some True then True
      else case ec_llm c of
             None \<Rightarrow> False
           | Some (status, cls) \<Rightarrow>
               if status = 402 \<or> status = 401 \<or> status = 403 then True
               else if status \<ge> 500 then True
               else cls = Class_Auth \<or> cls = Class_Gateway)"

datatype fallback_log = Log_Debug | Log_Error int

definition fell_back :: "error_chain \<Rightarrow> fallback_log" where
  "fell_back c =
     (if ec_not_configured c = Some True then Log_Debug
      else Log_Error (case ec_llm c of None \<Rightarrow> 0 | Some (status, cls) \<Rightarrow> status))"

definition public_error :: "string \<Rightarrow> ('e \<Rightarrow> error_chain) \<Rightarrow> ('e \<Rightarrow> string) \<Rightarrow> 'e \<Rightarrow> string" where
  "public_error stage chain text_of e =
     (if ec_not_configured (chain e) = Some True then text_of e
      else if provider_unavailable (chain e) then stage @ '' is temporarily unavailable; please retry shortly''
      else if ec_deadline (chain e) then stage @ '' timed out; please retry''
      else stage @ '' failed'')"

definition fallback_run ::
    "('e \<Rightarrow> error_chain) \<Rightarrow> ('w \<Rightarrow> bool) \<Rightarrow> ('w, 'e) select_fun \<Rightarrow> ('w, 'e) select_fun option \<Rightarrow> tree \<Rightarrow> string \<Rightarrow>
     context_budget \<Rightarrow> 'w \<Rightarrow> ('e + result) \<times> fallback_log list \<times> 'w" where
  "fallback_run chain ctx_err primary backup t query budget w =
     (case primary t query budget w of
        (Inr r, w') \<Rightarrow> (Inr r, [], w')
      | (Inl e, w') \<Rightarrow>
          (case backup of
             None \<Rightarrow> (Inl e, [], w')
           | Some f \<Rightarrow>
               if \<not> provider_unavailable (chain e) \<or> ctx_err w' then (Inl e, [], w')
               else case f t query budget w' of (res, w'') \<Rightarrow> (res, [fell_back (chain e)], w'')))"

definition fallback_select ::
    "('e \<Rightarrow> error_chain) \<Rightarrow> ('w \<Rightarrow> bool) \<Rightarrow> ('w, 'e) select_fun \<Rightarrow> ('w, 'e) select_fun option \<Rightarrow> ('w, 'e) select_fun" where
  "fallback_select chain ctx_err primary backup t query budget w =
     (case fallback_run chain ctx_err primary backup t query budget w of (res, lg, w') \<Rightarrow> (res, w'))"

subsection \<open>Routing by size\<close>

definition sum_leaf_tokens :: "tree \<Rightarrow> int" where
  "sum_leaf_tokens t = sum_list (map sv_tokens (filter (\<lambda>sv. sv_children sv = []) (view_sections (build_view t))))"

definition has_page_metadata :: "tree \<Rightarrow> bool" where
  "has_page_metadata t = list_ex (\<lambda>sv. sv_page_start sv > 0 \<or> sv_page_end sv > 0) (view_sections (build_view t))"

definition auto_pick :: "'s option \<Rightarrow> 's option \<Rightarrow> int \<Rightarrow> tree \<Rightarrow> context_budget \<Rightarrow> 's option" where
  "auto_pick small large single_pass_max t budget =
     (if \<not> has_page_metadata t then (if small \<noteq> None then small else large)
      else let threshold = (if single_pass_max \<le> 0 then available budget else single_pass_max)
           in if threshold > 0 \<and> sum_leaf_tokens t \<le> threshold
              then (if small \<noteq> None then small else large)
              else (if large \<noteq> None then large else small))"

definition auto_select ::
    "('w, 'e) select_fun option \<Rightarrow> ('w, 'e) select_fun option \<Rightarrow> int \<Rightarrow> ('w, 'e) select_fun" where
  "auto_select small large single_pass_max t query budget w =
     (case auto_pick small large single_pass_max t budget of
        None \<Rightarrow> (Inr empty_result, w)
      | Some s \<Rightarrow> s t query budget w)"

subsection \<open>Multi-hop questions\<close>

record plan =
  pl_intent :: string
  pl_entities :: "string list"
  pl_areas :: "string list"
  pl_multi_hop :: bool
  pl_questions :: "string list"

text \<open>What is gathered so far; a nil map of confidences is the empty one.\<close>

record decomposed =
  dc_ids :: "section_id list"
  dc_confidences :: "section_id \<Rightarrow> f64 option"
  dc_usage :: usage

text \<open>\<open>runOnce\<close>: an error comes with no usage.\<close>

definition run_once ::
    "('w, 'e) select_fun \<Rightarrow> tree \<Rightarrow> string \<Rightarrow> context_budget \<Rightarrow> 'w \<Rightarrow> ('e + decomposed) \<times> 'w" where
  "run_once s t query budget w =
     (case s t query budget w of
        (Inl e, w') \<Rightarrow> (Inl e, w')
      | (Inr r, w') \<Rightarrow> (Inr \<lparr>dc_ids = selected_ids r, dc_confidences = confidences r, dc_usage = res_usage r\<rparr>, w'))"

definition add_sub :: "decomposed \<Rightarrow> decomposed \<Rightarrow> decomposed" where
  "add_sub acc sub =
     \<lparr>dc_ids = dc_ids acc @ dedup_by id (dc_ids acc) (dc_ids sub),
      dc_confidences = merge_confidence (dc_confidences acc) (dc_confidences sub),
      dc_usage = add_usage (dc_usage acc) (dc_usage sub)\<rparr>"

datatype 'e decompose_error = Whole_Question 'e | Sub_Question string 'e

text \<open>The sub-questions in order; an error, with the question it belongs to, ends the run with what there is.\<close>

fun run_subs ::
    "('w, 'e) select_fun \<Rightarrow> tree \<Rightarrow> context_budget \<Rightarrow> string list \<Rightarrow> decomposed \<Rightarrow> 'w \<Rightarrow>
     decomposed \<times> 'e decompose_error option \<times> 'w" where
  "run_subs s t budget [] acc w = (acc, None, w)"
| "run_subs s t budget (q # qs) acc w =
     (case run_once s t q budget w of
        (Inl e, w') \<Rightarrow> (acc\<lparr>dc_usage := add_usage (dc_usage acc) no_usage\<rparr>, Some (Sub_Question q e), w')
      | (Inr sub, w') \<Rightarrow> run_subs s t budget qs (add_sub acc sub) w')"

definition nothing_found :: decomposed where
  "nothing_found = \<lparr>dc_ids = [], dc_confidences = Map.empty, dc_usage = no_usage\<rparr>"

definition decomposed_select ::
    "('w, 'e) select_fun \<Rightarrow> tree \<Rightarrow> plan option \<Rightarrow> string \<Rightarrow> context_budget \<Rightarrow> 'w \<Rightarrow>
     decomposed \<times> 'e decompose_error option \<times> 'w" where
  "decomposed_select s t pl query budget w =
     (case pl of
        Some p \<Rightarrow>
          if pl_multi_hop p \<and> pl_questions p \<noteq> [] then run_subs s t budget (pl_questions p) nothing_found w
          else (case run_once s t query budget w of
                  (Inl e, w') \<Rightarrow> (nothing_found, Some (Whole_Question e), w')
                | (Inr d, w') \<Rightarrow> (d, None, w'))
      | None \<Rightarrow>
          (case run_once s t query budget w of
             (Inl e, w') \<Rightarrow> (nothing_found, Some (Whole_Question e), w')
           | (Inr d, w') \<Rightarrow> (d, None, w')))"

subsection \<open>Names\<close>

definition public_name :: "string \<Rightarrow> string" where
  "public_name n = (if n = ''judgewalk'' then ''navigate'' else n)"

definition internal_name :: "string \<Rightarrow> string" where
  "internal_name n = (if n = ''navigate'' then ''judgewalk'' else n)"

subsection \<open>The server's strategy\<close>

text \<open>\<open>SelectWithCost\<close> of the page-navigation loop, without its events.\<close>

definition tree_walk_plain :: "'w tw_env \<Rightarrow> tw_config \<Rightarrow> ('w, string) select_fun" where
  "tree_walk_plain env cfg t query budget w = (case tree_walk_select env cfg t query budget w of (res, evs, w') \<Rightarrow> (res, w'))"

record 'w server_env =
  sv_select :: "'w select_env"
  sv_tokenizer :: "'w tokenizer"
  sv_agentic :: "'w agentic_env"
  sv_walk :: "'w tw_env"
  sv_walk_config :: tw_config
  sv_judge :: "'w judge_env option"
  sv_chain :: "string \<Rightarrow> error_chain"
  sv_ctx_err :: "'w \<Rightarrow> bool"

definition build_strategy :: "'w server_env \<Rightarrow> string \<Rightarrow> ('w, string) select_fun" where
  "build_strategy env name =
     (let walk = tree_walk_plain (sv_walk env) (sv_walk_config env)
      in if name = ''judgewalk''
         then (case sv_judge env of
                 None \<Rightarrow> walk
               | Some j \<Rightarrow> fallback_select (sv_chain env) (sv_ctx_err env) (judge_walk_select j) (Some walk))
         else if name = ''single-pass'' then single_pass_select (sv_select env)
         else if name = ''chunked-tree'' then chunked_select (sv_select env) (sv_tokenizer env) in_order
         else if name = ''agentic'' then agentic_select (sv_agentic env)
         else if name = ''treewalk'' then walk
         else if name = ''auto'' then auto_select (Some (single_pass_select (sv_select env))) (Some walk) 0
         else chunked_select (sv_select env) (sv_tokenizer env) in_order)"

subsection \<open>Wrappers keep the contract\<close>

text \<open>
  Two strategies that keep the contract: every wrapper around them keeps it as well.
\<close>

locale strategy_pair = first: strategy first_select + second: strategy second_select
  for first_select second_select :: "('w, 'e) select_fun"
begin

lemma fallback_cases:
  assumes "fallback_select chain ctx_err first_select (Some second_select) t query budget w = (Inr r, w')"
  obtains "first_select t query budget w = (Inr r, w')"
  | w1 where "second_select t query budget w1 = (Inr r, w')"
proof -
  obtain res w1 where p: "first_select t query budget w = (res, w1)" by force
  show thesis
  proof (cases res)
    case (Inl e)
    with p assms have "second_select t query budget w1 = (Inr r, w')"
      by (auto simp: fallback_select_def fallback_run_def split: if_splits prod.splits)
    then show thesis by (rule that(2))
  next
    case (Inr r')
    with p assms have "first_select t query budget w = (Inr r, w')" by (simp add: fallback_select_def fallback_run_def)
    then show thesis by (rule that(1))
  qed
qed

lemma auto_cases:
  assumes "auto_select (Some first_select) (Some second_select) m t query budget w = (Inr r, w')"
  obtains "first_select t query budget w = (Inr r, w')" | "second_select t query budget w = (Inr r, w')"
  using assms by (auto simp: auto_select_def auto_pick_def Let_def split: if_splits)

end

sublocale strategy_pair \<subseteq> fallback: strategy "fallback_select chain ctx_err first_select (Some second_select)"
  for chain :: "'e \<Rightarrow> error_chain" and ctx_err :: "'w \<Rightarrow> bool"
proof
  fix t query budget and w w' :: 'w and r
  assume run: "fallback_select chain ctx_err first_select (Some second_select) t query budget w = (Inr r, w')"
  show "set (selected_ids r) \<subseteq> sec_id ` set (tree_sections t)"
    by (rule fallback_cases [OF run]; erule first.known second.known)
  show "distinct (selected_ids r)"
    by (rule fallback_cases [OF run]; erule first.once second.once)
  show "dom (confidences r) \<subseteq> set (selected_ids r)"
    by (rule fallback_cases [OF run]; erule first.confident second.confident)
qed

sublocale strategy_pair \<subseteq> auto: strategy "auto_select (Some first_select) (Some second_select) m" for m :: int
proof
  fix t query budget and w w' :: 'w and r
  assume run: "auto_select (Some first_select) (Some second_select) m t query budget w = (Inr r, w')"
  show "set (selected_ids r) \<subseteq> sec_id ` set (tree_sections t)"
    by (rule auto_cases [OF run]; erule first.known second.known)
  show "distinct (selected_ids r)"
    by (rule auto_cases [OF run]; erule first.once second.once)
  show "dom (confidences r) \<subseteq> set (selected_ids r)"
    by (rule auto_cases [OF run]; erule first.confident second.confident)
qed

subsection \<open>The page-navigation loop as a strategy\<close>

lemma tw_turn_finished:
  assumes "tw_turn env run hop st = Finished r st'"
  shows "\<exists>answer cited conf st2. r = finish env run answer cited conf st2"
  using assms by (auto simp: tw_turn_def do_done_def Let_def split: sum.splits prod.splits option.splits if_splits)

lemma tw_loop_finished:
  "tw_loop env run n hop st = Finished r st' \<Longrightarrow> \<exists>answer cited conf st2. r = finish env run answer cited conf st2"
proof (induction n arbitrary: hop st)
  case (Suc n)
  then show ?case using tw_turn_finished by (cases "tw_turn env run hop st") (simp_all, blast)
qed simp

lemma tree_walk_plain_cases:
  assumes "tree_walk_plain env cfg t query budget w = (Inr r, w')"
  obtains "r = empty_result" | answer cited conf st where "r = finish env (start_run cfg t budget) answer cited conf st"
proof (cases "tree_root t = None")
  case True
  with assms that(1) show thesis by (simp add: tree_walk_plain_def tree_walk_select_def)
next
  case False
  let ?run = "start_run cfg t budget" and ?start = "start_state t query (start_run cfg t budget) w"
  let ?n = "nat (resolve_limit (cfg_max_hops cfg) 8)"
  show thesis
  proof (cases "tw_loop env ?run ?n 0 ?start")
    case (Failed err st)
    with assms False show thesis by (simp add: tree_walk_plain_def tree_walk_select_def Let_def)
  next
    case (Finished res st)
    with assms False have "res = r" by (simp add: tree_walk_plain_def tree_walk_select_def Let_def)
    with tw_loop_finished [OF Finished] that(2) show thesis by blast
  next
    case (Going st)
    obtain x st2 where "force_done env ?run st = (x, st2)" by (cases "force_done env ?run st")
    moreover obtain answer cited conf where "x = (answer, cited, conf)" by (cases x)
    ultimately have f: "force_done env ?run st = ((answer, cited, conf), st2)" by simp
    with assms False Going have "r = finish env ?run answer cited conf st2"
      by (simp add: tree_walk_plain_def tree_walk_select_def Let_def)
    then show thesis by (rule that(2))
  qed
qed

lemma dom_confidence_map: "dom (confidence_map ids c) \<subseteq> set ids"
proof -
  have "dom (fold (\<lambda>i m. m(i \<mapsto> c)) is m) \<subseteq> set is \<union> dom m" for "is" and m :: "section_id \<Rightarrow> f64 option"
  proof (induction "is" arbitrary: m)
    case (Cons i "is")
    from Cons [of "m(i \<mapsto> c)"] show ?case by auto
  qed simp
  from this [of ids Map.empty] show ?thesis by (simp add: confidence_map_def)
qed

interpretation tree_walk: strategy "tree_walk_plain env cfg" for env :: "'w tw_env" and cfg :: tw_config
proof
  fix t query budget and w w' :: 'w and r
  assume run: "tree_walk_plain env cfg t query budget w = (Inr r, w')"
  have sections: "pe_id ` set (run_sections (start_run cfg t budget)) \<subseteq> sec_id ` set (tree_sections t)"
    by (auto simp: start_run_def Let_def flatten_by_page_set entry_of_def)
  show "set (selected_ids r) \<subseteq> sec_id ` set (tree_sections t)"
    by (rule tree_walk_plain_cases [OF run])
      (use sections in \<open>auto simp: finish_def Let_def sections_overlapping_set\<close>)
  show "distinct (selected_ids r)"
    by (rule tree_walk_plain_cases [OF run]) (auto simp: finish_def Let_def sections_overlapping_distinct)
  show "dom (confidences r) \<subseteq> set (selected_ids r)"
    by (rule tree_walk_plain_cases [OF run]) (use dom_confidence_map in \<open>auto simp: finish_def Let_def\<close>)
qed

interpretation judge_or_walk: strategy_pair "judge_walk_select j" "tree_walk_plain env cfg"
  for j :: "'w judge_env" and env :: "'w tw_env" and cfg :: tw_config
  by unfold_locales

interpretation single_or_walk: strategy_pair "single_pass_select e" "tree_walk_plain env cfg"
  for e :: "'w select_env" and env :: "'w tw_env" and cfg :: tw_config
  by unfold_locales

lemma build_strategy_lawful: "strategy (build_strategy env name)" for env :: "'w server_env"
proof -
  note laws = tree_walk.strategy_axioms judge_or_walk.fallback.strategy_axioms single_pass.strategy_axioms
    chunked.strategy_axioms agentic.strategy_axioms single_or_walk.auto.strategy_axioms
  show ?thesis unfolding build_strategy_def Let_def
    by (cases "sv_judge env") (simp_all only: laws option.case split: if_split, simp_all add: laws)
qed

text \<open>
  C1. Whatever strategy the server is configured with, and whatever the models, the stores and the
  fallback do, a query selects only sections of its document, each once, and states confidences only
  for sections it selected.
\<close>
lemma server_strategy_selects_known:
  assumes "build_strategy env name t query budget w = (Inr r, w')"
  shows "set (selected_ids r) \<subseteq> sec_id ` set (tree_sections t) \<and> distinct (selected_ids r)
    \<and> dom (confidences r) \<subseteq> set (selected_ids r)"
  using strategy.known [OF build_strategy_lawful assms] strategy.once [OF build_strategy_lawful assms]
    strategy.confident [OF build_strategy_lawful assms] by blast

subsection \<open>Decomposition\<close>

context strategy
begin

lemma run_once_known:
  assumes "run_once select t query budget w = (Inr d, w')"
  shows "set (dc_ids d) \<subseteq> sec_id ` set (tree_sections t) \<and> distinct (dc_ids d) \<and> dom (dc_confidences d) \<subseteq> set (dc_ids d)"
  using assms known once confident by (fastforce simp: run_once_def split: prod.splits sum.splits)

text \<open>What has been gathered keeps the contract while the sub-questions are asked.\<close>

lemma run_subs_known:
  assumes "run_subs select t budget qs acc w = (d, e, w')"
    and "set (dc_ids acc) \<subseteq> sec_id ` set (tree_sections t)" "distinct (dc_ids acc)" "dom (dc_confidences acc) \<subseteq> set (dc_ids acc)"
  shows "set (dc_ids d) \<subseteq> sec_id ` set (tree_sections t) \<and> distinct (dc_ids d) \<and> dom (dc_confidences d) \<subseteq> set (dc_ids d)"
  using assms
proof (induction qs arbitrary: acc w)
  case (Cons q qs)
  obtain res w1 where run: "run_once select t q budget w = (res, w1)" by force
  show ?case
  proof (cases res)
    case (Inl e')
    with Cons.prems(1) run have "d = acc\<lparr>dc_usage := add_usage (dc_usage acc) no_usage\<rparr>" by simp
    with Cons.prems(2-4) show ?thesis by simp
  next
    case (Inr sub)
    with run_once_known run have sub: "set (dc_ids sub) \<subseteq> sec_id ` set (tree_sections t)" "dom (dc_confidences sub) \<subseteq> set (dc_ids sub)"
      by blast+
    have ids: "set (dc_ids (add_sub acc sub)) = set (dc_ids acc) \<union> set (dc_ids sub)"
      using dedup_by_keys [of id "dc_ids acc" "dc_ids sub"] by (auto simp: add_sub_def)
    have "distinct (dc_ids (add_sub acc sub))"
      using Cons.prems(3) dedup_by_keys [of id "dc_ids acc" "dc_ids sub"] by (auto simp: add_sub_def seen_simps)
    moreover have "dom (dc_confidences (add_sub acc sub)) \<subseteq> set (dc_ids (add_sub acc sub))"
      unfolding ids using Cons.prems(4) sub(2)
      by (fastforce simp: add_sub_def merge_confidence_def dom_def split: option.splits)
    ultimately show ?thesis using Cons.IH [of "add_sub acc sub" w1] Cons.prems run Inr sub(1) ids by simp
  qed
qed simp

lemma decomposed_known:
  assumes "decomposed_select select t pl query budget w = (d, e, w')"
  shows "set (dc_ids d) \<subseteq> sec_id ` set (tree_sections t) \<and> distinct (dc_ids d) \<and> dom (dc_confidences d) \<subseteq> set (dc_ids d)"
proof -
  have one: ?thesis if "(case run_once select t query budget w of
      (Inl e, w') \<Rightarrow> (nothing_found, Some (Whole_Question e), w') | (Inr d, w') \<Rightarrow> (d, None, w')) = (d, e, w')"
    using that run_once_known [of t query budget w] by (auto simp: nothing_found_def split: prod.splits sum.splits)
  have "set (dc_ids nothing_found) \<subseteq> sec_id ` set (tree_sections t)" "distinct (dc_ids nothing_found)"
    "dom (dc_confidences nothing_found) \<subseteq> set (dc_ids nothing_found)" by (simp_all add: nothing_found_def)
  with one run_subs_known [of t budget _ nothing_found w d e w'] assms show ?thesis
    by (cases pl) (auto simp only: decomposed_select_def option.case split: if_splits)
qed

end

text \<open>The answers to the sub-questions, one after the other, up to the first that fails.\<close>

fun ask_all :: "('w, 'e) select_fun \<Rightarrow> tree \<Rightarrow> context_budget \<Rightarrow> string list \<Rightarrow> 'w \<Rightarrow> result list" where
  "ask_all s t budget [] w = []"
| "ask_all s t budget (q # qs) w =
     (case s t q budget w of
        (Inl e, w') \<Rightarrow> []
      | (Inr r, w') \<Rightarrow> r # ask_all s t budget qs w')"

lemma dedup_append: "dedup_by id seen (xs @ ys) = dedup_by id seen xs @ dedup_by id (rev (dedup_by id seen xs) @ seen) ys"
  by (induction "id :: 'a \<Rightarrow> 'a" seen xs rule: dedup_by.induct) auto

lemma dedup_cong: "set seen = set seen' \<Longrightarrow> dedup_by key seen xs = dedup_by key seen' xs"
proof (induction xs arbitrary: seen seen')
  case (Cons x xs)
  have "dedup_by key (key x # seen) xs = dedup_by key (key x # seen') xs"
    by (rule Cons.IH) (simp add: Cons.prems)
  moreover have "dedup_by key seen xs = dedup_by key seen' xs" by (rule Cons.IH [OF Cons.prems])
  ultimately show ?case by (simp only: dedup_by.simps Cons.prems)
qed simp

definition best_in :: "f64 set \<Rightarrow> f64 option \<Rightarrow> bool" where
  "best_in C m \<longleftrightarrow> (\<forall>c. m = Some c \<longrightarrow> c \<in> C \<and> (\<forall>c' \<in> C. \<not> f_lt c c')) \<and> (m = None \<longrightarrow> C = {})"

lemma best_in_merge:
  assumes best: "best_in C (m i)"
  shows "best_in (C \<union> set_option (r i)) (merge_confidence m r i)"
proof (cases "r i")
  case None
  with best show ?thesis by (simp add: merge_confidence_def)
next
  case r: (Some c1)
  show ?thesis
  proof (cases "m i")
    case None
    with r best show ?thesis by (simp add: merge_confidence_def best_in_def)
  next
    case (Some c0)
    with best have c0: "c0 \<in> C" "\<forall>c' \<in> C. \<not> f_lt c0 c'" by (simp_all add: best_in_def)
    show ?thesis
    proof (cases "f_lt c0 c1")
      case True
      with c0 have "\<forall>c' \<in> C. \<not> f_lt c1 c'" using f_lt_trans by blast
      with True r Some show ?thesis by (simp add: merge_confidence_def best_in_def)
    next
      case False
      with c0 r Some show ?thesis by (simp add: merge_confidence_def best_in_def)
    qed
  qed
qed

abbreviation given_confidences :: "result list \<Rightarrow> section_id \<Rightarrow> f64 set" where
  "given_confidences rs i \<equiv> (\<Union>r \<in> set rs. set_option (confidences r i))"

lemma run_subs_union:
  assumes "run_subs s t budget qs acc w = (d, None, w')" "\<forall>i. best_in (C i) (dc_confidences acc i)"
  shows "length (ask_all s t budget qs w) = length qs
    \<and> dc_ids d = dc_ids acc @ dedup_by id (dc_ids acc) (concat (map selected_ids (ask_all s t budget qs w)))
    \<and> (\<forall>i. best_in (C i \<union> given_confidences (ask_all s t budget qs w) i) (dc_confidences d i))"
  using assms
proof (induction qs arbitrary: acc w C)
  case Nil
  then show ?case by simp
next
  case (Cons q qs)
  obtain res w1 where run: "s t q budget w = (res, w1)" by force
  with Cons.prems(1) obtain r where r: "res = Inr r" by (cases res) (simp_all add: run_once_def)
  define sub where "sub = \<lparr>dc_ids = selected_ids r, dc_confidences = confidences r, dc_usage = res_usage r\<rparr>"
  have step: "run_subs s t budget qs (add_sub acc sub) w1 = (d, None, w')"
    using Cons.prems(1) run r by (simp add: run_once_def sub_def)
  have sub: "dc_ids (add_sub acc sub) = dc_ids acc @ dedup_by id (dc_ids acc) (selected_ids r)"
    "dc_confidences (add_sub acc sub) = merge_confidence (dc_confidences acc) (confidences r)"
    by (simp_all add: add_sub_def sub_def)
  have "\<forall>i. best_in (C i \<union> set_option (confidences r i)) (dc_confidences (add_sub acc sub) i)"
    unfolding sub(2) using Cons.prems(2) best_in_merge by blast
  from Cons.IH [OF step this] have ih: "length (ask_all s t budget qs w1) = length qs"
    "dc_ids d = dc_ids (add_sub acc sub) @ dedup_by id (dc_ids (add_sub acc sub)) (concat (map selected_ids (ask_all s t budget qs w1)))"
    "\<forall>i. best_in (C i \<union> set_option (confidences r i) \<union> given_confidences (ask_all s t budget qs w1) i) (dc_confidences d i)"
    by blast+
  have all: "ask_all s t budget (q # qs) w = r # ask_all s t budget qs w1" using run r by simp
  have "dc_ids d = dc_ids acc @ dedup_by id (dc_ids acc) (selected_ids r @ concat (map selected_ids (ask_all s t budget qs w1)))"
    unfolding ih(2) sub(1) dedup_append append_assoc by (subst dedup_cong [of "dc_ids acc @ dedup_by id (dc_ids acc) (selected_ids r)"
        "rev (dedup_by id (dc_ids acc) (selected_ids r)) @ dc_ids acc"]) (auto simp only: set_append set_rev)
  with ih(1) show ?case unfolding all using ih(3) by (simp only: list.size list.map concat.simps list.set UN_insert Un_assoc simp_thms)
qed

text \<open>
  A multi-hop question is answered by one retrieval per sub-question, in order; the selection is
  the union of theirs in first-seen order, and a section's confidence is one that no sub-answer beat.
\<close>
lemma decomposed_is_union:
  assumes "decomposed_select s t (Some p) query budget w = (d, None, w')" "pl_multi_hop p" "pl_questions p \<noteq> []"
  shows "length (ask_all s t budget (pl_questions p) w) = length (pl_questions p)
    \<and> dc_ids d = dedup_by id [] (concat (map selected_ids (ask_all s t budget (pl_questions p) w)))
    \<and> (\<forall>i c. dc_confidences d i = Some c \<longrightarrow>
        c \<in> (\<Union>r \<in> set (ask_all s t budget (pl_questions p) w). set_option (confidences r i))
        \<and> (\<forall>c' \<in> (\<Union>r \<in> set (ask_all s t budget (pl_questions p) w). set_option (confidences r i)). \<not> f_lt c c'))"
proof -
  have "run_subs s t budget (pl_questions p) nothing_found w = (d, None, w')"
    using assms by (simp add: decomposed_select_def)
  moreover have "\<forall>i. best_in {} (dc_confidences nothing_found i)" by (simp add: best_in_def nothing_found_def)
  ultimately have "length (ask_all s t budget (pl_questions p) w) = length (pl_questions p)"
    "dc_ids d = dedup_by id [] (concat (map selected_ids (ask_all s t budget (pl_questions p) w)))"
    "best_in (given_confidences (ask_all s t budget (pl_questions p) w) i) (dc_confidences d i)" for i
    using run_subs_union [of s t budget "pl_questions p" nothing_found w d w' "\<lambda>i. {}"] by (simp_all add: nothing_found_def)
  then show ?thesis unfolding best_in_def by blast
qed

subsection \<open>A sample run\<close>

definition sample_agentic :: "unit agentic_env" where
  "sample_agentic = \<lparr>ge_llm = (\<lambda>m msgs w. (Inr \<lparr>rep_content = ''x'', rep_usage = no_usage\<rparr>, w)), ge_fetch = None,
     ge_decode = (\<lambda>s. Some \<lparr>ga_action = ''done'', ga_level = 0, ga_section = [], ga_picked_ids = [''a'', ''nowhere'', ''a''],
       ga_picks = [], ga_reasoning = []\<rparr>),
     ge_quote = id, ge_lower = id, ge_sha = id, ge_system = [], ge_help = [], ge_max_hops = 0, ge_model_override = []\<rparr>"

definition sample_server :: "unit server_env" where
  "sample_server = \<lparr>sv_select = sample_select_env, sv_tokenizer = None, sv_agentic = sample_agentic,
     sv_walk = \<lparr>llm_complete = (\<lambda>m msgs w. (Inl ''off'', w)), page_loader = None, toc_provider = None,
       parse_action = (\<lambda>s. None), marshal_toc = (\<lambda>ns. []), quote = id, sha_hex = id\<rparr>,
     sv_walk_config = \<lparr>cfg_max_hops = 0, cfg_page_limit = 0, cfg_max_citations = 0, cfg_model_override = []\<rparr>,
     sv_judge = None, sv_chain = (\<lambda>e. \<lparr>ec_model_unavailable = None, ec_not_configured = None, ec_llm = None, ec_deadline = False\<rparr>),
     sv_ctx_err = (\<lambda>w. False)\<rparr>"

definition sample_query_budget :: context_budget where
  "sample_query_budget = \<lparr>model_name = ''m'', max_tokens = 0, reserved_for_prompt = 0, max_parallel_calls = 1\<rparr>"

lemma sample_trims: "trim_space ''x'' = ''x''" "trim_space ''a'' = ''a''" "trim_space ''done'' = ''done''" "trim_space ''nowhere'' = ''nowhere''"
  by (rule trim_space_visible_ends; simp add: visible_ascii_def less_char_def)+

lemma sample_agentic_run:
  "\<exists>r. agentic_select sample_agentic sample_tree q b () = (Inr r, ()) \<and> selected_ids r = [''a'']"
proof -
  have parse: "parse_agentic sample_agentic ''x'' = Some \<lparr>ga_action = ''done'', ga_level = 0, ga_section = [],
      ga_picked_ids = [''a'', ''nowhere'', ''a''], ga_picks = [], ga_reasoning = []\<rparr>"
    by (simp add: parse_agentic_def sample_trims) (simp add: sample_agentic_def sample_trims)
  have ids: "map sv_id (view_sections (build_view sample_tree)) = [''r'', ''a'', ''b'', ''c'', ''d'']"
    by (simp add: view_ids tree_sections_def sample_defs)
  have "index_sections (view_sections (build_view sample_tree)) ''a'' \<noteq> None"
    "index_sections (view_sections (build_view sample_tree)) ''nowhere'' = None"
    using ids by (auto simp: index_sections_def find_None_iff map_eq_Cons_conv)
  then have picks: "collect_done_picks \<lparr>ga_action = ''done'', ga_level = 0, ga_section = [],
      ga_picked_ids = [''a'', ''nowhere'', ''a''], ga_picks = [], ga_reasoning = []\<rparr>
      (index_sections (view_sections (build_view sample_tree))) = ([''a''], Map.empty)"
    by (simp add: collect_done_picks_def filter_to_tree_ids_def sample_trims)
  have llm: "ge_llm sample_agentic m msgs w = (Inr \<lparr>rep_content = ''x'', rep_usage = no_usage\<rparr>, w)"
    "ge_model_override sample_agentic = []" "ge_max_hops sample_agentic = 0" for m msgs w
    by (simp_all add: sample_agentic_def)
  have "nat (resolve_limit 0 6) = Suc 5" by (simp add: resolve_limit_def)
  then have loop: "agentic_loop env run (nat (resolve_limit 0 6)) 0 st
      = (case agentic_turn env run 0 st of Agent_Going st' \<Rightarrow> agentic_loop env run 5 (0 + 1) st' | out \<Rightarrow> out)"
    for env :: "unit agentic_env" and run st by (simp only: agentic_loop.simps)
  have root: "tree_root sample_tree \<noteq> None" by (simp add: sample_tree_def)
  show ?thesis
    by (simp add: agentic_select_def root llm loop agentic_turn_def agentic_start_def parse agentic_dispatch_def picks agentic_result_def Let_def)
qed

lemma server_strategy_selects_known_witness:
  "\<exists>r w'. build_strategy sample_server ''agentic'' sample_tree ''q'' sample_query_budget () = (Inr r, w')
    \<and> selected_ids r = [''a''] \<and> distinct (selected_ids r)"
proof -
  obtain r where r: "agentic_select sample_agentic sample_tree ''q'' sample_query_budget () = (Inr r, ())" "selected_ids r = [''a'']"
    using sample_agentic_run by blast
  then have run: "build_strategy sample_server ''agentic'' sample_tree ''q'' sample_query_budget () = (Inr r, ())"
    by (simp add: build_strategy_def sample_server_def)
  with server_strategy_selects_known [OF run] r(2) show ?thesis by blast
qed

definition sample_plan :: plan where
  "sample_plan = \<lparr>pl_intent = [], pl_entities = [], pl_areas = [], pl_multi_hop = True, pl_questions = [''p'', ''q'']\<rparr>"

lemma decomposed_is_union_witness:
  "\<exists>d. decomposed_select (agentic_select sample_agentic) sample_tree (Some sample_plan) ''p and q'' sample_query_budget () = (d, None, ())
    \<and> dc_ids d = dedup_by id [] (concat (map selected_ids
        (ask_all (agentic_select sample_agentic) sample_tree sample_query_budget (pl_questions sample_plan) ())))"
proof -
  obtain r1 r2 where r: "agentic_select sample_agentic sample_tree ''p'' sample_query_budget () = (Inr r1, ())"
    "agentic_select sample_agentic sample_tree ''q'' sample_query_budget () = (Inr r2, ())"
    using sample_agentic_run by metis
  then obtain d where d: "decomposed_select (agentic_select sample_agentic) sample_tree (Some sample_plan) ''p and q'' sample_query_budget () = (d, None, ())"
    by (simp add: decomposed_select_def sample_plan_def run_once_def)
  from decomposed_is_union [OF d] d show ?thesis by (simp add: sample_plan_def)
qed

end
