(* ===== verification/Strategy_Cache.thy ===== *)
theory Strategy_Cache
  imports Cache_LRU Strategy_Compose
begin

text \<open>
  The clients of the cache: the caching wrapper of a strategy (\<open>pkg/retrieval/cached.go\<close>), the store of
  replayable responses (\<open>replay.go\<close>) with the endpoint that reads it (\<open>handleReplay\<close> of
  \<open>internal/api/server.go\<close>), and the planner (\<open>plan.go\<close>). All are verified against the interface
  \<open>ttl_cache\<close>, through its interpretation on the LRU.

  The clock is a reading of the world. Values are copied by value, so \<open>cloneResult\<close> and
  \<open>clonePlan\<close> are the identity. \<open>None\<close> is a call that does not return.
\<close>

definition cache_key_text :: "string \<Rightarrow> string \<Rightarrow> string \<Rightarrow> string \<Rightarrow> string" where
  "cache_key_text doc query name model = doc @ [nul] @ query @ [nul] @ name @ [nul] @ model"

definition cache_key :: "(string \<Rightarrow> string) \<Rightarrow> string \<Rightarrow> string \<Rightarrow> string \<Rightarrow> string \<Rightarrow> string" where
  "cache_key sha doc query name model = sha (cache_key_text doc query name model)"

text \<open>The separator may occur in the question only.\<close>

lemma cache_key_text_inject:
  assumes "cache_key_text d q n m = cache_key_text d' q' n' m'"
    and "nul \<notin> set d" "nul \<notin> set d'" "nul \<notin> set n" "nul \<notin> set n'" "nul \<notin> set m" "nul \<notin> set m'"
  shows "d = d' \<and> q = q' \<and> n = n' \<and> m = m'"
proof -
  have rest: "d = d' \<and> q @ [nul] @ n @ [nul] @ m = q' @ [nul] @ n' @ [nul] @ m'"
    using split_at_nul [of d d' "q @ [nul] @ n @ [nul] @ m" "q' @ [nul] @ n' @ [nul] @ m'"] assms(1-3)
    by (simp add: cache_key_text_def)
  then have "rev m @ nul # (rev n @ nul # rev q) = rev m' @ nul # (rev n' @ nul # rev q')"
    by (metis append.assoc append_Cons append_Nil rev.simps rev_append)
  then have "rev m = rev m' \<and> rev n @ nul # rev q = rev n' @ nul # rev q'"
    using split_at_nul [of "rev m" "rev m'"] assms(6,7) by simp
  moreover from this have "rev n = rev n' \<and> rev q = rev q'" using split_at_nul [of "rev n" "rev n'" "rev q" "rev q'"] assms(4,5) by simp
  ultimately show ?thesis using rest by simp
qed

subsection \<open>A cached strategy\<close>

record ('w, 'e) cached_env =
  cd_inner :: "('w, 'e) select_fun"
  cd_name :: string
  cd_ttl :: go_duration
  cd_sha :: "string \<Rightarrow> string"
  cd_now :: "'w \<Rightarrow> go_time"

definition cached_ttl :: "go_duration \<Rightarrow> go_duration" where
  "cached_ttl ttl = (if ttl = 0 then 600000000000 else ttl)"

definition question_key :: "('w, 'e) cached_env \<Rightarrow> tree \<Rightarrow> string \<Rightarrow> context_budget \<Rightarrow> string" where
  "question_key env t query budget = cache_key (cd_sha env) (doc_id t) query (cd_name env) (model_name budget)"

definition served_result :: "('w, 'e) cached_env \<Rightarrow> tree \<Rightarrow> context_budget \<Rightarrow> result \<Rightarrow> result" where
  "served_result env t budget r =
     r\<lparr>reasoning := ''cached'', res_usage := no_usage, hops_taken := 0,
       model_used := (if model_used r = [] then model_name budget else model_used r),
       trace_token := (if trace_token r = []
         then compute_trace_token (cd_sha env) (doc_id t) ''1'' (model_name budget) (selected_ids r) else trace_token r)\<rparr>"

definition cached_select ::
    "('w, 'e) cached_env \<Rightarrow> tree \<Rightarrow> string \<Rightarrow> context_budget \<Rightarrow> result lru \<times> 'w \<Rightarrow> (('e + result) \<times> (result lru \<times> 'w)) option" where
  "cached_select env t query budget s =
     (case s of (c, w) \<Rightarrow>
        let key = question_key env t query budget
        in case lru_get (cd_now env w) key c of
             (Some r, c1) \<Rightarrow> Some (Inr (served_result env t budget r), (c1, w))
           | (None, c1) \<Rightarrow>
               (case cd_inner env t query budget w of
                  (Inl e, w1) \<Rightarrow> Some (Inl e, (c1, w1))
                | (Inr r, w1) \<Rightarrow>
                    map_option (\<lambda>c2. (Inr r, (c2, w1))) (lru_set (cd_now env w1) key r (cached_ttl (cd_ttl env)) c1)))"

text \<open>What the inner strategy found during a call.\<close>

type_synonym found = "document_id \<times> string \<times> string \<times> result"

definition found_by :: "('w, 'e) cached_env \<Rightarrow> tree \<Rightarrow> string \<Rightarrow> context_budget \<Rightarrow> result lru \<times> 'w \<Rightarrow> found list" where
  "found_by env t query budget s =
     (case s of (c, w) \<Rightarrow>
        (case fst (lru_get (cd_now env w) (question_key env t query budget) c) of
           Some r \<Rightarrow> []
         | None \<Rightarrow> (case fst (cd_inner env t query budget w) of
                     Inl e \<Rightarrow> []
                   | Inr r \<Rightarrow> [(doc_id t, query, model_name budget, r)])))"

text \<open>
  The life of a cached strategy: it starts empty, answers questions, is cleared; in between anything
  else may happen in the world, time above all. \<open>h\<close> is what its inner strategy has found so far.
\<close>

inductive cached_run :: "('w, 'e) cached_env \<Rightarrow> found list \<Rightarrow> result lru \<times> 'w \<Rightarrow> bool" for env where
  fresh: "cached_run env [] (new_lru n, w)"
| asked: "cached_run env h s \<Longrightarrow> cached_select env t query budget s = Some (res, s')
    \<Longrightarrow> cached_run env (h @ found_by env t query budget s) s'"
| cleared: "cached_run env h (c, w) \<Longrightarrow> cached_run env h (lru_clear c, w)"
| elsewhere: "cached_run env h (c, w) \<Longrightarrow> cached_run env h (c, w')"

definition entry_found :: "('w, 'e) cached_env \<Rightarrow> found list \<Rightarrow> string \<Rightarrow> result \<Rightarrow> bool" where
  "entry_found env h key r \<longleftrightarrow>
     (\<exists>d q m. (d, q, m, r) \<in> set h \<and> key = cache_key (cd_sha env) d q (cd_name env) m)"

lemma lru_clear_view: "lru_view (lru_clear c) = Map.empty"
  by (simp add: lru_view_def abs_lru_def lru_clear_def)

lemma lru_inv_clear: "lru_inv c \<Longrightarrow> lru_inv (lru_clear c)"
  by (auto simp: lru_inv_def index_ok_def lru_clear_def)

lemma lru_new_view: "lru_view (new_lru n) = Map.empty"
  by (simp add: lru_view_def abs_lru_def new_lru_def)

lemma all_held_mono: "lru.all_held P c \<Longrightarrow> (\<And>k v. P k v \<Longrightarrow> Q k v) \<Longrightarrow> lru.all_held Q c"
  by (auto simp: lru.all_held_def)

lemma entry_found_mono: "entry_found env h k r \<Longrightarrow> entry_found env (h @ h') k r"
  by (auto simp: entry_found_def)

text \<open>The call returns, keeps the cache's invariant, and stores only what was found.\<close>

lemma cached_select_step:
  assumes "lru_inv c" "lru.all_held (entry_found env h) c"
  shows "\<exists>res c' w'. cached_select env t query budget (c, w) = Some (res, (c', w')) \<and> lru_inv c'
    \<and> lru.all_held (entry_found env (h @ found_by env t query budget (c, w))) c'"
proof -
  let ?key = "question_key env t query budget" and ?now = "cd_now env w"
  obtain hit c1 where get: "lru_get ?now ?key c = (hit, c1)" by force
  have c1: "lru_inv c1" using lru.get_ok [OF assms(1), of ?now ?key] get by simp
  have held1: "lru.all_held (entry_found env h) c1" using lru.all_held_get [OF assms, of ?now ?key] get by simp
  show ?thesis
  proof (cases hit)
    case (Some r)
    with get c1 held1 show ?thesis by (simp add: cached_select_def found_by_def)
  next
    case None
    obtain res w1 where inner: "cd_inner env t query budget w = (res, w1)" by force
    show ?thesis
    proof (cases res)
      case (Inl e)
      with None get inner c1 held1 show ?thesis by (simp add: cached_select_def found_by_def)
    next
      case (Inr r)
      have found: "found_by env t query budget (c, w) = [(doc_id t, query, model_name budget, r)]"
        by (simp add: found_by_def get None inner Inr)
      obtain c2 where put: "lru_set (cd_now env w1) ?key r (cached_ttl (cd_ttl env)) c1 = Some c2" "lru_inv c2"
        using lru.put_ok [OF c1] by blast
      have "lru.all_held (entry_found env (h @ found_by env t query budget (c, w))) c1"
        by (rule all_held_mono [OF held1]) (rule entry_found_mono)
      moreover have "entry_found env (h @ found_by env t query budget (c, w)) ?key r"
        by (auto simp: entry_found_def found question_key_def)
      ultimately have "lru.all_held (entry_found env (h @ found_by env t query budget (c, w))) c2"
        using lru.all_held_put [OF c1 _ _ put(1)] by blast
      moreover have "cached_select env t query budget (c, w) = Some (Inr r, (c2, w1))"
        by (simp add: cached_select_def get None inner Inr put(1))
      ultimately show ?thesis using put(2) by blast
    qed
  qed
qed

lemma cached_run_inv: "cached_run env h s \<Longrightarrow> lru_inv (fst s) \<and> lru.all_held (entry_found env h) (fst s)"
proof (induction rule: cached_run.induct)
  case (fresh n w)
  then show ?case by (simp add: lru_inv_new lru.all_held_def lru_new_view)
next
  case (asked h s t query budget res s')
  obtain c w where s: "s = (c, w)" by force
  obtain res1 c1 w1 where run: "cached_select env t query budget (c, w) = Some (res1, (c1, w1))" and
      "lru_inv c1" "lru.all_held (entry_found env (h @ found_by env t query budget (c, w))) c1"
    using cached_select_step [OF asked.IH [unfolded s fst_conv, THEN conjunct1] asked.IH [unfolded s fst_conv, THEN conjunct2],
      of t query budget w] by (elim exE conjE)
  moreover have "s' = (c1, w1)" using asked.hyps(2) [unfolded s run] by simp
  ultimately show ?case by (simp add: s)
next
  case (cleared h c w)
  then show ?case by (simp add: lru_inv_clear lru.all_held_def lru_clear_view)
qed simp

lemma cached_hit:
  assumes "fst (lru_get (cd_now env w) (question_key env t query budget) c) = Some r"
    and "cached_select env t query budget (c, w) = Some (res, (c', w'))"
  shows "res = Inr (served_result env t budget r) \<and> w' = w"
  using assms by (cases "lru_get (cd_now env w) (question_key env t query budget) c") (simp add: cached_select_def)

lemma cached_miss:
  assumes "fst (lru_get (cd_now env w) (question_key env t query budget) c) = None"
    and "cached_select env t query budget (c, w) = Some (res, (c', w'))"
  shows "(res, w') = cd_inner env t query budget w"
  using assms
  by (cases "lru_get (cd_now env w) (question_key env t query budget) c"; cases "cd_inner env t query budget w";
      cases "fst (cd_inner env t query budget w)")
     (auto simp: cached_select_def)

text \<open>
  C20. A cached strategy always returns. Unless two different questions have colliding hashes, it
  either passes on what the inner strategy answers now, or serves an answer the inner strategy once
  gave to this very question on this document with this model, at no cost.
\<close>
lemma cached_serves_what_was_found:
  assumes "cached_run env h (c, w)"
    and "\<forall>(d, q, m, r) \<in> set h. cd_sha env (cache_key_text d q (cd_name env) m)
          = cd_sha env (cache_key_text (doc_id t) query (cd_name env) (model_name budget))
        \<longrightarrow> cache_key_text d q (cd_name env) m = cache_key_text (doc_id t) query (cd_name env) (model_name budget)"
    and "\<forall>(d, q, m, r) \<in> set h. nul \<notin> set d \<and> nul \<notin> set m"
    and "nul \<notin> set (cd_name env)" "nul \<notin> set (doc_id t)" "nul \<notin> set (model_name budget)"
  shows "\<exists>res c' w'. cached_select env t query budget (c, w) = Some (res, (c', w'))
    \<and> ((res, w') = cd_inner env t query budget w
       \<or> w' = w \<and> (\<exists>r. (doc_id t, query, model_name budget, r) \<in> set h \<and> res = Inr (served_result env t budget r)))"
proof -
  note inv = cached_run_inv [OF assms(1), unfolded fst_conv, THEN conjunct1]
    cached_run_inv [OF assms(1), unfolded fst_conv, THEN conjunct2]
  let ?key = "question_key env t query budget" and ?now = "cd_now env w"
  obtain res c' w' where run: "cached_select env t query budget (c, w) = Some (res, (c', w'))"
    using cached_select_step [OF inv, of t query budget w] by (elim exE conjE)
  have "(res, w') = cd_inner env t query budget w
       \<or> w' = w \<and> (\<exists>r. (doc_id t, query, model_name budget, r) \<in> set h \<and> res = Inr (served_result env t budget r))"
  proof (cases "fst (lru_get ?now ?key c)")
    case None
    with cached_miss [OF this run] show ?thesis by simp
  next
    case (Some r)
    have "entry_found env h ?key r" by (rule lru.hit_held [OF inv Some])
    then obtain d q m where found: "(d, q, m, r) \<in> set h" "cache_key (cd_sha env) d q (cd_name env) m = ?key"
      by (auto simp: entry_found_def)
    have "cache_key_text d q (cd_name env) m = cache_key_text (doc_id t) query (cd_name env) (model_name budget)"
      using bspec [OF assms(2) found(1)] found(2) by (simp add: cache_key_def question_key_def)
    moreover have "nul \<notin> set d" "nul \<notin> set m" using bspec [OF assms(3) found(1)] by simp_all
    ultimately have "d = doc_id t \<and> q = query \<and> m = model_name budget"
      using cache_key_text_inject [of d q "cd_name env" m "doc_id t" query "cd_name env" "model_name budget"] assms(4-6) by simp
    moreover have "res = Inr (served_result env t budget r) \<and> w' = w" by (rule cached_hit [OF Some run])
    ultimately show ?thesis using found(1) by blast
  qed
  with run show ?thesis by blast
qed

subsection \<open>Replaying responses\<close>

record replay_entry =
  rp_document :: document_id
  rp_query :: string
  rp_model :: string
  rp_ids :: "section_id list"
  rp_response :: string
  rp_created :: go_time

definition replay_ttl :: "go_duration \<Rightarrow> go_duration" where
  "replay_ttl ttl = (if ttl \<le> 0 then 86400000000000 else ttl)"

definition replay_get :: "go_time \<Rightarrow> string \<Rightarrow> replay_entry lru \<Rightarrow> replay_entry option \<times> replay_entry lru" where
  "replay_get now token c = (if token = [] then (None, c) else lru_get now token c)"

definition replay_put :: "go_time \<Rightarrow> go_duration \<Rightarrow> string \<Rightarrow> replay_entry \<Rightarrow> replay_entry lru \<Rightarrow> replay_entry lru option" where
  "replay_put now ttl token e c = (if token = [] then Some c else lru_set now token e (replay_ttl ttl) c)"

text \<open>A response goes out and into the store; the bytes of both are the same.\<close>

definition write_with_replay ::
    "go_time \<Rightarrow> go_duration \<Rightarrow> string \<Rightarrow> string \<Rightarrow> replay_entry \<Rightarrow> replay_entry lru \<Rightarrow> string \<times> replay_entry lru option" where
  "write_with_replay now ttl raw token e c =
     (raw, if token \<noteq> [] then replay_put now ttl token (e\<lparr>rp_response := raw, rp_created := now\<rparr>) c else Some c)"

datatype replay_reply =
    Missing_Fields
  | Unknown_Token
  | Other_Document
  | Other_Query
  | Replayed string

definition handle_replay :: "go_time \<Rightarrow> string \<Rightarrow> string \<Rightarrow> document_id \<Rightarrow> replay_entry lru \<Rightarrow> replay_reply \<times> replay_entry lru" where
  "handle_replay now token query doc c =
     (if token = [] \<or> query = [] \<or> doc = [] then (Missing_Fields, c)
      else case replay_get now token c of
             (None, c') \<Rightarrow> (Unknown_Token, c')
           | (Some e, c') \<Rightarrow>
               (if rp_document e \<noteq> doc then Other_Document
                else if rp_query e \<noteq> query then Other_Query
                else Replayed (rp_response e), c'))"

text \<open>The life of the store, with the responses that went out: token, question, document, bytes.\<close>

type_synonym sent = "string \<times> string \<times> document_id \<times> string"

inductive replay_run :: "sent list \<Rightarrow> replay_entry lru \<Rightarrow> bool" where
  fresh: "replay_run [] (new_lru n)"
| answered: "replay_run h c \<Longrightarrow> write_with_replay now ttl raw token e c = (out, Some c')
    \<Longrightarrow> replay_run (h @ [(token, rp_query e, rp_document e, out)]) c'"
| replayed: "replay_run h c \<Longrightarrow> handle_replay now token query doc c = (reply, c') \<Longrightarrow> replay_run h c'"

definition entry_sent :: "sent list \<Rightarrow> string \<Rightarrow> replay_entry \<Rightarrow> bool" where
  "entry_sent h token e \<longleftrightarrow> (token, rp_query e, rp_document e, rp_response e) \<in> set h"

lemma replay_run_inv: "replay_run h c \<Longrightarrow> lru_inv c \<and> lru.all_held (entry_sent h) c"
proof (induction rule: replay_run.induct)
  case (fresh n)
  then show ?case by (simp add: lru_inv_new lru.all_held_def lru_new_view)
next
  case (answered h c now ttl raw token e out c')
  let ?e = "e\<lparr>rp_response := raw, rp_created := now\<rparr>" and ?h = "h @ [(token, rp_query e, rp_document e, out)]"
  have out: "out = raw" using answered.hyps(2) by (simp add: write_with_replay_def)
  have held: "lru.all_held (entry_sent ?h) c"
    by (rule all_held_mono [OF answered.IH [THEN conjunct2]]) (simp add: entry_sent_def)
  show ?case
  proof (cases "token = []")
    case True
    with answered.hyps(2) have "c' = c" by (simp add: write_with_replay_def)
    with answered.IH held show ?thesis by simp
  next
    case False
    then have put: "lru_set now token ?e (replay_ttl ttl) c = Some c'"
      using answered.hyps(2) [unfolded out] by (simp add: write_with_replay_def replay_put_def out)
    have "entry_sent ?h token ?e" by (simp add: entry_sent_def out)
    then have "lru.all_held (entry_sent ?h) c'"
      by (rule lru.all_held_put [OF answered.IH [THEN conjunct1] held _ put])
    moreover have "lru_inv c'" using lru.put_ok [OF answered.IH [THEN conjunct1], of now token ?e "replay_ttl ttl"] put by simp
    ultimately show ?thesis by blast
  qed
next
  case (replayed h c now token query doc reply c')
  note inv = replayed.IH [THEN conjunct1] replayed.IH [THEN conjunct2]
  have "c' = c \<or> c' = snd (lru_get now token c)"
    using replayed.hyps(2) by (cases "lru_get now token c"; cases "fst (lru_get now token c)")
      (auto simp: handle_replay_def replay_get_def split: if_splits)
  then show ?case using inv lru.get_ok [OF inv(1), of now token] lru.all_held_get [OF inv, of now token] by auto
qed

text \<open>
  C21. A replay never invents: bytes it returns were sent before, under this token, as the response to
  this question on this document, whatever has been stored, replayed and evicted in between.
\<close>
lemma replay_returns_what_was_sent:
  assumes "replay_run h c" "handle_replay now token query doc c = (Replayed raw, c')"
  shows "(token, query, doc, raw) \<in> set h"
proof -
  note inv = replay_run_inv [OF assms(1)]
  obtain e where "fst (lru_get now token c) = Some e" "rp_document e = doc" "rp_query e = query" "rp_response e = raw"
    using assms(2) by (auto simp: handle_replay_def replay_get_def split: if_splits prod.splits option.splits)
  with inv lru.hit_held [of c "entry_sent h" now token e] show ?thesis by (auto simp: entry_sent_def)
qed

text \<open>Within its time to live a response replays, unless something else was stored in between.\<close>

lemma response_replays:
  assumes "lru_inv c" "token \<noteq> []" "rp_query e \<noteq> []" "rp_document e \<noteq> []"
    and "write_with_replay now ttl raw token e c = (out, Some c')" "later \<le> now + replay_ttl ttl"
  shows "fst (handle_replay later token (rp_query e) (rp_document e) c') = Replayed raw"
proof -
  have put: "lru_set now token (e\<lparr>rp_response := raw, rp_created := now\<rparr>) (replay_ttl ttl) c = Some c'"
    using assms(2,5) by (auto simp: write_with_replay_def replay_put_def)
  from lru.get_after_put [OF assms(1) put assms(6)] obtain c2 where
    "lru_get later token c' = (Some (e\<lparr>rp_response := raw, rp_created := now\<rparr>), c2)" by (metis prod.collapse)
  with assms(2-4) show ?thesis by (simp add: handle_replay_def replay_get_def)
qed

text \<open>
  A replay token does not depend on the question, so a second question with the same selection takes
  over the token, and the first response can no longer be replayed.
\<close>

lemma replay_lost_to_same_selection:
  assumes "lru_inv c" "rp_query e1 \<noteq> []" "rp_query e2 \<noteq> rp_query e1" "rp_document e1 = doc" "rp_document e2 = doc" "doc \<noteq> []"
    and token: "token = compute_trace_token sha doc ''1'' model ids" "token \<noteq> []"
    and "write_with_replay t1 ttl raw1 token e1 c = (o1, Some c1)" "write_with_replay t2 ttl raw2 token e2 c1 = (o2, Some c2)"
    and "t3 \<le> t2 + replay_ttl ttl"
  shows "fst (handle_replay t3 token (rp_query e1) doc c2) = Other_Query"
proof -
  have put1: "lru_set t1 token (e1\<lparr>rp_response := raw1, rp_created := t1\<rparr>) (replay_ttl ttl) c = Some c1"
    using assms(8,9) by (auto simp: write_with_replay_def replay_put_def)
  have "lru_inv c1" using lru.put_ok [OF assms(1), of t1 token "e1\<lparr>rp_response := raw1, rp_created := t1\<rparr>" "replay_ttl ttl"] put1 by simp
  moreover have put2: "lru_set t2 token (e2\<lparr>rp_response := raw2, rp_created := t2\<rparr>) (replay_ttl ttl) c1 = Some c2"
    using assms(8,10) by (auto simp: write_with_replay_def replay_put_def)
  ultimately obtain c3 where "lru_get t3 token c2 = (Some (e2\<lparr>rp_response := raw2, rp_created := t2\<rparr>), c3)"
    using lru.get_after_put [OF _ put2 assms(11)] by (metis prod.collapse)
  with assms(2-6,8) show ?thesis by (simp add: handle_replay_def replay_get_def)
qed

subsection \<open>Planning\<close>

definition trim_strings :: "string list \<Rightarrow> string list" where
  "trim_strings xs = filter (\<lambda>s. s \<noteq> []) (map trim_space xs)"

definition parse_plan :: "(string \<Rightarrow> plan option) \<Rightarrow> string \<Rightarrow> plan option" where
  "parse_plan unmarshal raw =
     (let raw = trim_space raw
      in if raw = [] then None
         else case unmarshal (isolate_object (strip_fences raw)) of
                None \<Rightarrow> None
              | Some p \<Rightarrow>
                  let qs = trim_strings (pl_questions p)
                  in Some \<lparr>pl_intent = trim_space (pl_intent p), pl_entities = trim_strings (pl_entities p),
                       pl_areas = trim_strings (pl_areas p),
                       pl_multi_hop = (if pl_multi_hop p \<and> qs = [] then False else pl_multi_hop p), pl_questions = qs\<rparr>)"

definition build_planning_prompt :: "string \<Rightarrow> string" where
  "build_planning_prompt query = ''User query:'' @ eol @ query @ eol @ eol
     @ ''Return a JSON object with fields: intent (string), entities (array of strings), expected_doc_areas (array of strings), is_multi_hop (boolean), sub_questions (array of strings).''"

record 'w planner =
  pn_llm :: "'w llm option"
  pn_model :: string
  pn_max_retries :: int
  pn_unmarshal :: "string \<Rightarrow> plan option"
  pn_sha :: "string \<Rightarrow> string"
  pn_system :: string
  pn_now :: "'w \<Rightarrow> go_time"

definition planning_request :: "'w planner \<Rightarrow> string \<Rightarrow> llm_request" where
  "planning_request p query =
     \<lparr>req_model = pn_model p, req_messages = [(System, pn_system p), (User, build_planning_prompt query)], req_max_tokens = 512\<rparr>"

definition run_planning :: "'w planner \<Rightarrow> 'w llm \<Rightarrow> string \<Rightarrow> int \<Rightarrow> 'w \<Rightarrow> ((string + plan option) \<times> usage) \<times> 'w" where
  "run_planning p llm query max_retries w =
     (case attempts llm (parse_plan (pn_unmarshal p)) (planning_request p query) (nat (max_retries + 1)) True no_usage w of
        ((Inl err, u), w') \<Rightarrow> ((Inl (''planner llm call: '' @ err), u), w')
      | ((Inr pl, u), w') \<Rightarrow> ((Inr pl, u), w'))"

definition planning_key :: "'w planner \<Rightarrow> string \<Rightarrow> string" where
  "planning_key p query = cache_key (pn_sha p) ''planner'' query ''plan'' (pn_model p)"

text \<open>
  \<open>Plan\<close>: the lookup before and after taking the lock, then the model. The outcome is an error or a
  plan or none, and the usage.
\<close>

definition plan_query ::
    "'w planner \<Rightarrow> string \<Rightarrow> plan lru \<times> 'w \<Rightarrow> (((string + plan option) \<times> usage) \<times> (plan lru \<times> 'w)) option" where
  "plan_query p query s =
     (case (pn_llm p, s) of
        (None, s) \<Rightarrow> Some ((Inr None, no_usage), s)
      | (Some llm, (c, w)) \<Rightarrow>
          let query = trim_space query; key = planning_key p query
          in if query = [] then Some ((Inr None, no_usage), (c, w))
             else case lru_get (pn_now p w) key c of
               (Some pl, c1) \<Rightarrow> Some ((Inr (Some pl), no_usage), (c1, w))
             | (None, c1) \<Rightarrow>
                 (case lru_get (pn_now p w) key c1 of
                    (Some pl, c2) \<Rightarrow> Some ((Inr (Some pl), no_usage), (c2, w))
                  | (None, c2) \<Rightarrow>
                      let retries = (if pn_max_retries p \<le> 0 then 2 else pn_max_retries p)
                      in case run_planning p llm query retries w of
                           ((Inr (Some pl), u), w1) \<Rightarrow>
                             map_option (\<lambda>c3. ((Inr (Some pl), u), (c3, w1))) (lru_set (pn_now p w1) key pl 21600000000000 c2)
                         | (out, w1) \<Rightarrow> Some (out, (c2, w1))))"

text \<open>A plan as the rest of the engine relies on it.\<close>

definition plan_ok :: "plan \<Rightarrow> bool" where
  "plan_ok p \<longleftrightarrow> (pl_multi_hop p \<longrightarrow> pl_questions p \<noteq> [])
     \<and> list_all (\<lambda>s. s \<noteq> [] \<and> hd s \<notin> set ascii_spaces) (pl_entities p @ pl_areas p @ pl_questions p)"

lemma trim_strings_ok: "list_all (\<lambda>s. s \<noteq> [] \<and> hd s \<notin> set ascii_spaces) (trim_strings xs)"
  using trim_space_head by (auto simp: trim_strings_def list_all_iff neq_Nil_conv)

lemma parse_plan_ok: "parse_plan unmarshal raw = Some p \<Longrightarrow> plan_ok p"
  using trim_strings_ok by (auto simp: parse_plan_def plan_ok_def Let_def split: if_splits option.splits)

lemma run_planning_ok:
  assumes "run_planning p llm query k w = ((Inr (Some pl), u), w')"
  shows "plan_ok pl"
proof -
  obtain s where "parse_plan (pn_unmarshal p) s = Some pl"
    using assms attempts_parsed by (fastforce simp: run_planning_def split: prod.splits sum.splits)
  then show ?thesis by (rule parse_plan_ok)
qed

text \<open>
  A planner that holds only well-formed plans always returns, keeps that so, and hands out only
  well-formed plans: no text in them is empty or starts with a space, and a question is called
  multi-hop only together with its sub-questions.
\<close>
lemma plans_are_well_formed:
  assumes "lru_inv c" "lru.all_held (\<lambda>k. plan_ok) c"
  shows "\<exists>out u c' w'. plan_query p query (c, w) = Some ((out, u), (c', w')) \<and> lru_inv c'
    \<and> lru.all_held (\<lambda>k. plan_ok) c' \<and> (case out of Inr (Some pl) \<Rightarrow> plan_ok pl | _ \<Rightarrow> True)"
proof (cases "pn_llm p = None \<or> trim_space query = []")
  case True
  with assms show ?thesis by (auto simp: plan_query_def split: option.split)
next
  case False
  then obtain llm where llm: "pn_llm p = Some llm" and q: "trim_space query \<noteq> []" by auto
  let ?q = "trim_space query" and ?now = "pn_now p w"
  let ?key = "planning_key p ?q"
  obtain r1 c1 where g1: "lru_get ?now ?key c = (r1, c1)" by force
  have c1: "lru_inv c1" "lru.all_held (\<lambda>k. plan_ok) c1"
    using lru.get_ok [OF assms(1), of ?now ?key] lru.all_held_get [OF assms, of ?now ?key] g1 by simp_all
  obtain r2 c2 where g2: "lru_get ?now ?key c1 = (r2, c2)" by force
  have c2: "lru_inv c2" "lru.all_held (\<lambda>k. plan_ok) c2"
    using lru.get_ok [OF c1(1), of ?now ?key] lru.all_held_get [OF c1, of ?now ?key] g2 by simp_all
  have hits: "r1 = Some pl \<Longrightarrow> plan_ok pl" "r2 = Some pl \<Longrightarrow> plan_ok pl" for pl
    using lru.hit_held [OF assms, of ?now ?key pl] lru.hit_held [OF c1, of ?now ?key pl] g1 g2 by simp_all
  consider pl where "r1 = Some pl" | pl where "r1 = None" "r2 = Some pl" | "r1 = None" "r2 = None"
    by (cases r1; cases r2) auto
  then show ?thesis
  proof cases
    case (1 pl)
    with llm q g1 c1 hits show ?thesis by (simp add: plan_query_def)
  next
    case (2 pl)
    with llm q g1 g2 c2 hits show ?thesis by (simp add: plan_query_def)
  next
    case 3
    let ?k = "if pn_max_retries p \<le> 0 then 2 else pn_max_retries p"
    obtain out u w1 where run: "run_planning p llm ?q ?k w = ((out, u), w1)" by (metis prod.exhaust)
    show ?thesis
    proof (cases "\<exists>pl. out = Inr (Some pl)")
      case True
      then obtain pl where pl: "out = Inr (Some pl)" by blast
      have ok: "plan_ok pl" by (rule run_planning_ok [OF run [unfolded pl]])
      obtain c3 where put: "lru_set (pn_now p w1) ?key pl 21600000000000 c2 = Some c3" "lru_inv c3"
        using lru.put_ok [OF c2(1)] by blast
      have "lru.all_held (\<lambda>k. plan_ok) c3" using lru.all_held_put [OF c2 ok put(1)] .
      moreover have "plan_query p query (c, w) = Some ((Inr (Some pl), u), (c3, w1))"
        using 3 llm q g1 g2 run pl put(1) by (simp add: plan_query_def)
      ultimately show ?thesis using put(2) ok by auto
    next
      case False
      then have "plan_query p query (c, w) = Some ((out, u), (c2, w1))"
        using 3 llm q g1 g2 run by (auto simp: plan_query_def split: sum.split option.split)
      with False c2 show ?thesis by (auto split: sum.split option.split)
    qed
  qed
qed

subsection \<open>Concrete runs\<close>

definition sample_cached :: "(int, unit) cached_env" where
  "sample_cached = \<lparr>cd_inner = (\<lambda>t query budget w. (Inr (empty_result\<lparr>selected_ids := [''a'']\<rparr>), w + 1)),
     cd_name = ''single-pass'', cd_ttl = 0, cd_sha = id, cd_now = id\<rparr>"

lemma lru_get_new: "lru_get now k (new_lru n) = (None, (new_lru n)\<lparr>misses := 1\<rparr>)"
  by (simp add: lru_get_def new_lru_def)

lemma cached_serves_what_was_found_witness:
  "\<exists>c. cached_run sample_cached [(doc_id sample_tree, ''q'', ''m'', empty_result\<lparr>selected_ids := [''a'']\<rparr>)] (c, 1)
    \<and> (\<exists>res c' w'. cached_select sample_cached sample_tree ''q'' sample_query_budget (c, 1) = Some (res, (c', w'))
      \<and> ((res, w') = cd_inner sample_cached sample_tree ''q'' sample_query_budget 1
         \<or> res = Inr (served_result sample_cached sample_tree sample_query_budget (empty_result\<lparr>selected_ids := [''a'']\<rparr>))))"
proof -
  let ?r = "empty_result\<lparr>selected_ids := [''a'']\<rparr>"
  let ?h = "[(doc_id sample_tree, ''q'', ''m'', ?r)]"
  have fresh: "cached_run sample_cached [] (new_lru 8, 0)" by (rule cached_run.fresh)
  have found: "found_by sample_cached sample_tree ''q'' sample_query_budget (new_lru 8, 0) = ?h"
    by (simp add: found_by_def lru_get_new) (simp add: sample_cached_def sample_query_budget_def)
  have "\<exists>c2. lru_set 1 k v d ((new_lru 8)\<lparr>misses := 1\<rparr>) = Some c2" for k and v :: result and d
    using lru.put_ok [of "(new_lru 8)\<lparr>misses := 1\<rparr>" 1 k v d] lru.get_ok [OF lru_inv_new, of 0 k 8] by (auto simp: lru_get_new)
  then obtain c where "cached_select sample_cached sample_tree ''q'' sample_query_budget (new_lru 8, 0) = Some (Inr ?r, (c, 1))"
  proof -
    assume put: "\<And>k (v :: result) d. \<exists>c2. lru_set 1 k v d ((new_lru 8)\<lparr>misses := 1\<rparr>) = Some c2"
      and thesis: "\<And>c. cached_select sample_cached sample_tree ''q'' sample_query_budget (new_lru 8, 0) = Some (Inr ?r, (c, 1)) \<Longrightarrow> thesis"
    obtain c2 where "lru_set 1 (question_key sample_cached sample_tree ''q'' sample_query_budget) ?r (cached_ttl 0)
        ((new_lru 8)\<lparr>misses := 1\<rparr>) = Some c2" using put by blast
    then show thesis by (intro thesis [of c2]) (simp add: cached_select_def lru_get_new, simp add: sample_cached_def)
  qed
  from cached_run.asked [OF fresh this] have run: "cached_run sample_cached ?h (c, 1)" by (simp add: found)
  have "nul \<notin> set (doc_id sample_tree)" "nul \<notin> set ''m''" "nul \<notin> set ''single-pass''"
    by (simp_all add: sample_tree_def)
  then show ?thesis
    using cached_serves_what_was_found [OF run, of sample_tree "''q''" sample_query_budget] run
    by (auto simp: sample_cached_def sample_query_budget_def)
qed

lemma replay_returns_what_was_sent_witness:
  "\<exists>h c c'. replay_run h c \<and> handle_replay 5 ''t'' ''q'' ''d'' c = (Replayed ''body'', c') \<and> (''t'', ''q'', ''d'', ''body'') \<in> set h"
proof -
  let ?e = "\<lparr>rp_document = ''d'', rp_query = ''q'', rp_model = ''m'', rp_ids = [], rp_response = [], rp_created = 0\<rparr>"
  have fresh: "replay_run [] (new_lru 8)" by (rule replay_run.fresh)
  obtain c where "lru_set 1 ''t'' (?e\<lparr>rp_response := ''body'', rp_created := 1\<rparr>) (replay_ttl 0) (new_lru 8) = Some c"
    using lru.put_ok [OF lru_inv_new, of 1 "''t''" "?e\<lparr>rp_response := ''body'', rp_created := 1\<rparr>" "replay_ttl 0" 8]
    by (elim exE conjE)
  then have put: "write_with_replay 1 0 ''body'' ''t'' ?e (new_lru 8) = (''body'', Some c)"
    by (simp add: write_with_replay_def replay_put_def)
  note run = replay_run.answered [OF fresh put]
  obtain c' where "handle_replay 5 ''t'' ''q'' ''d'' c = (Replayed ''body'', c')"
    using response_replays [OF lru_inv_new _ _ _ put, of 5]
    by (cases "handle_replay 5 ''t'' ''q'' ''d'' c", auto simp: replay_ttl_def)
  with replay_returns_what_was_sent [OF run this] run show ?thesis by blast
qed

definition sample_planner :: "unit planner" where
  "sample_planner = \<lparr>pn_llm = Some (\<lambda>r w. (Inr \<lparr>rep_content = ''x'', rep_usage = no_usage\<rparr>, w)), pn_model = ''m'',
     pn_max_retries = 0, pn_unmarshal = (\<lambda>s. Some (sample_plan\<lparr>pl_questions := []\<rparr>)), pn_sha = id, pn_system = [], pn_now = (\<lambda>w. 0)\<rparr>"

lemma plans_are_well_formed_witness:
  "lru.all_held (\<lambda>k. plan_ok) (new_lru 8)
   \<and> (\<exists>out u c' w'. plan_query sample_planner ''q'' (new_lru 8, ()) = Some ((out, u), (c', w')) \<and> lru_inv c'
       \<and> lru.all_held (\<lambda>k. plan_ok) c')"
proof -
  have held: "lru.all_held (\<lambda>k. plan_ok) (new_lru 8)" by (simp add: lru.all_held_def lru_new_view)
  from plans_are_well_formed [OF lru_inv_new held, of sample_planner "''q''" "()"] held show ?thesis by blast
qed

end
