(* ===== verification/Parsed_Section.thy ===== *)
theory Parsed_Section
  imports Go_Strings
begin

text \<open>
  The outline every parser produces (\<open>pkg/parser/parser.go\<close>) and the builder that nests a flat list of
  headings (\<open>pkg/parser/hierarchy.go\<close>). A nil map of metadata is the empty one.

  The builder's stack holds pointers to the open ancestors. Here it holds each open section with the
  children it has so far; a section leaves the stack for its parent's children when it is popped, which
  is when nothing can be appended to it any more.
\<close>

record section_head =
  ps_level :: int
  ps_title :: string
  ps_content :: string
  ps_start :: int
  ps_end :: int
  ps_meta :: "string \<Rightarrow> string option"

datatype parsed = Parsed section_head "parsed list"

fun head_of :: "parsed \<Rightarrow> section_head" where
  "head_of (Parsed h cs) = h"

fun children_of :: "parsed \<Rightarrow> parsed list" where
  "children_of (Parsed h cs) = cs"

record page_text =
  pg_number :: int
  pg_text :: string

record parsed_doc =
  pd_title :: string
  pd_sections :: "parsed list"
  pd_pages :: "page_text list"

fun flatten_parsed :: "parsed list \<Rightarrow> parsed list" where
  "flatten_parsed [] = []"
| "flatten_parsed (Parsed h cs # ss) = Parsed h cs # flatten_parsed cs @ flatten_parsed ss"

text \<open>The sections without their children, in document order.\<close>

fun preorder :: "parsed list \<Rightarrow> section_head list" where
  "preorder [] = []"
| "preorder (Parsed h cs # ss) = h # preorder cs @ preorder ss"

lemma preorder_flatten: "preorder ss = map head_of (flatten_parsed ss)"
  by (induction ss rule: preorder.induct) auto

lemma preorder_append [simp]: "preorder (xs @ ys) = preorder xs @ preorder ys"
  by (induction xs rule: preorder.induct) auto

subsection \<open>Nesting by level\<close>

record flat_section =
  fl_level :: int
  fl_title :: string
  fl_content :: string

definition drop_empty_preamble :: "flat_section list \<Rightarrow> flat_section list" where
  "drop_empty_preamble fs =
     (case fs of
        f # g # rest \<Rightarrow> if fl_level f = 0 \<and> trim_space (fl_content f) = [] then g # rest else fs
      | _ \<Rightarrow> fs)"

definition derive_title :: "flat_section list \<Rightarrow> string" where
  "derive_title fs =
     (case find (\<lambda>f. fl_level f = 1) fs of
        Some f \<Rightarrow> fl_title f
      | None \<Rightarrow> (case fs of f # _ \<Rightarrow> fl_title f | [] \<Rightarrow> []))"

text \<open>The section a flat entry becomes; an empty preamble becomes none.\<close>

definition flat_head :: "flat_section \<Rightarrow> section_head option" where
  "flat_head f =
     (if fl_level f = 0
      then if trim_space (fl_content f) = [] then None
           else Some \<lparr>ps_level = 1, ps_title = ''Introduction'', ps_content = fl_content f, ps_start = 0, ps_end = 0, ps_meta = Map.empty\<rparr>
      else Some \<lparr>ps_level = fl_level f, ps_title = fl_title f, ps_content = fl_content f, ps_start = 0, ps_end = 0, ps_meta = Map.empty\<rparr>)"

type_synonym open_sections = "(section_head \<times> parsed list) list"

fun hang_section :: "section_head \<Rightarrow> open_sections \<Rightarrow> open_sections" where
  "hang_section sec ((h, cs) # (h', cs') # rest) =
     (if ps_level h \<ge> ps_level sec then hang_section sec ((h', cs' @ [Parsed h cs]) # rest)
      else (sec, []) # (h, cs) # (h', cs') # rest)"
| "hang_section sec stack = (sec, []) # stack"

fun close_sections :: "open_sections \<Rightarrow> parsed list" where
  "close_sections [] = []"
| "close_sections [(h, cs)] = cs"
| "close_sections ((h, cs) # (h', cs') # rest) = close_sections ((h', cs' @ [Parsed h cs]) # rest)"

definition no_section :: section_head where
  "no_section = \<lparr>ps_level = 0, ps_title = [], ps_content = [], ps_start = 0, ps_end = 0, ps_meta = Map.empty\<rparr>"

definition nest_heads :: "section_head list \<Rightarrow> parsed list" where
  "nest_heads hs = close_sections (fold hang_section hs [(no_section, [])])"

definition build_sections :: "flat_section list \<Rightarrow> parsed list" where
  "build_sections fs = nest_heads (List.map_filter flat_head fs)"

text \<open>
  The outline a list of headings means: what is below a section is deeper than it, and of two siblings
  the later one is not deeper (it would belong below the earlier one).
\<close>

fun outline_ok :: "parsed list \<Rightarrow> bool" where
  "outline_ok [] = True"
| "outline_ok (Parsed h cs # ss) \<longleftrightarrow>
     list_all (\<lambda>d. ps_level h < ps_level d) (preorder cs) \<and> outline_ok cs \<and> outline_ok ss
     \<and> (case ss of [] \<Rightarrow> True | s # _ \<Rightarrow> ps_level (head_of s) \<le> ps_level h)"

lemma outline_ok_snoc:
  "outline_ok ss \<Longrightarrow> outline_ok [s] \<Longrightarrow> (ss \<noteq> [] \<Longrightarrow> ps_level (head_of s) \<le> ps_level (head_of (last ss)))
   \<Longrightarrow> outline_ok (ss @ [s])"
proof (induction ss rule: outline_ok.induct)
  case (2 h cs ss)
  then show ?case by (cases ss; cases s) auto
qed simp

text \<open>
  The open sections: what is closed below each is in order, every open one is deeper than those
  under it, and its closed children are no shallower than the open child.
\<close>

fun stack_ok :: "open_sections \<Rightarrow> bool" where
  "stack_ok [] = False"
| "stack_ok [(h, cs)] \<longleftrightarrow> outline_ok cs"
| "stack_ok ((h, cs) # (h', cs') # rest) \<longleftrightarrow>
     outline_ok cs \<and> list_all (\<lambda>d. ps_level h < ps_level d) (preorder cs) \<and> (rest \<noteq> [] \<longrightarrow> ps_level h' < ps_level h)
     \<and> (cs' \<noteq> [] \<longrightarrow> ps_level h \<le> ps_level (head_of (last cs')))
     \<and> stack_ok ((h', cs') # rest)"

text \<open>Everything on the stack, in document order, without the root.\<close>

fun stack_order :: "open_sections \<Rightarrow> section_head list" where
  "stack_order [] = []"
| "stack_order [(h, cs)] = preorder cs"
| "stack_order ((h, cs) # rest) = stack_order rest @ h # preorder cs"

lemma close_once:
  assumes "stack_ok ((h, cs) # (h', cs') # rest)"
  shows "stack_ok ((h', cs' @ [Parsed h cs]) # rest)"
    and "stack_order ((h', cs' @ [Parsed h cs]) # rest) = stack_order ((h, cs) # (h', cs') # rest)"
proof -
  have out: "outline_ok (cs' @ [Parsed h cs])" using assms by (cases rest) (auto intro: outline_ok_snoc)
  have deep: "list_all (\<lambda>d. ps_level h < ps_level d) (preorder cs)" "rest \<noteq> [] \<longrightarrow> ps_level h' < ps_level h"
    using assms by simp_all
  then have "rest \<noteq> [] \<longrightarrow> list_all (\<lambda>d. ps_level h' < ps_level d) (preorder cs)"
    by (auto simp: list_all_iff dest!: bspec)
  with out deep(2) assms show "stack_ok ((h', cs' @ [Parsed h cs]) # rest)"
    by (cases rest) auto
  show "stack_order ((h', cs' @ [Parsed h cs]) # rest) = stack_order ((h, cs) # (h', cs') # rest)"
    by (cases rest) simp_all
qed

lemma hang_section_ok:
  assumes "stack_ok stack" "snd (hd stack) = [] \<or> ps_level sec \<le> ps_level (head_of (last (snd (hd stack))))"
  shows "stack_ok (hang_section sec stack) \<and> stack_order (hang_section sec stack) = stack_order stack @ [sec]
    \<and> snd (hd (hang_section sec stack)) = []"
  using assms
proof (induction sec stack rule: hang_section.induct)
  case (1 sec h cs h' cs' rest)
  show ?case
  proof (cases "ps_level h \<ge> ps_level sec")
    case True
    note closed = close_once [OF 1(2)]
    have "stack_ok (hang_section sec ((h', cs' @ [Parsed h cs]) # rest))
      \<and> stack_order (hang_section sec ((h', cs' @ [Parsed h cs]) # rest)) = stack_order ((h', cs' @ [Parsed h cs]) # rest) @ [sec]
      \<and> snd (hd (hang_section sec ((h', cs' @ [Parsed h cs]) # rest))) = []"
      using True closed(1) by (intro 1(1)) simp_all
    with True closed(2) show ?thesis by simp
  next
    case False
    with 1(2,3) show ?thesis by auto
  qed
qed auto

lemma hang_sections_ok:
  assumes "stack_ok stack" "snd (hd stack) = []"
  shows "stack_ok (fold hang_section hs stack) \<and> stack_order (fold hang_section hs stack) = stack_order stack @ hs"
  using assms
proof (induction hs arbitrary: stack)
  case (Cons sec hs)
  note hung = hang_section_ok [OF Cons.prems(1) disjI1 [OF Cons.prems(2)], of sec]
  from Cons.IH [of "hang_section sec stack"] hung show ?case by simp
qed simp

lemma close_sections_ok: "stack_ok stack \<Longrightarrow> outline_ok (close_sections stack) \<and> preorder (close_sections stack) = stack_order stack"
proof (induction stack rule: close_sections.induct)
  case (3 h cs h' cs' rest)
  from close_once [OF "3.prems"] "3.IH" show ?case by simp
qed simp_all

lemma nest_heads_ok: "outline_ok (nest_heads hs) \<and> preorder (nest_heads hs) = hs"
  using hang_sections_ok [of "[(no_section, [])]" hs] close_sections_ok [of "fold hang_section hs [(no_section, [])]"]
  by (simp add: nest_heads_def)

text \<open>An outline is determined by its sections in document order.\<close>

lemma outline_siblings:
  "outline_ok (Parsed h cs # ss) \<Longrightarrow> list_all (\<lambda>d. ps_level (head_of d) \<le> ps_level h) ss"
proof (induction ss arbitrary: h cs)
  case (Cons s ss)
  obtain h' cs' where s: "s = Parsed h' cs'" by (cases s)
  have "ps_level h' \<le> ps_level h" "list_all (\<lambda>d. ps_level (head_of d) \<le> ps_level h') ss"
    using Cons s by auto
  then show ?case unfolding s by (auto simp: list_all_iff intro: order_trans)
qed simp

lemma outline_split:
  assumes "outline_ok (Parsed h cs # ss)"
  shows "preorder cs = takeWhile (\<lambda>d. ps_level h < ps_level d) (preorder cs @ preorder ss)"
proof -
  have "list_all (\<lambda>d. ps_level h < ps_level d) (preorder cs)" using assms by simp
  moreover have "takeWhile (\<lambda>d. ps_level h < ps_level d) (preorder ss) = []"
    using assms by (cases ss rule: preorder.cases) auto
  ultimately show ?thesis by (simp add: takeWhile_append2 list_all_iff)
qed

lemma outline_unique: "outline_ok xs \<Longrightarrow> outline_ok ys \<Longrightarrow> preorder xs = preorder ys \<Longrightarrow> xs = ys"
proof (induction xs arbitrary: ys rule: preorder.induct)
  case 1
  then show ?case by (cases ys rule: preorder.cases) auto
next
  case (2 h cs ss)
  from "2.prems"(3) obtain cs' ss' where ys: "ys = Parsed h cs' # ss'" and
    eq: "preorder cs @ preorder ss = preorder cs' @ preorder ss'"
    by (cases ys rule: preorder.cases) auto
  have "preorder cs = preorder cs'"
    using outline_split [OF "2.prems"(1)] outline_split [OF "2.prems"(2) [unfolded ys]] eq by simp
  with eq have "preorder cs = preorder cs'" "preorder ss = preorder ss'" by simp_all
  with "2.IH"(1) [of cs'] "2.IH"(2) [of ss'] "2.prems"(1,2) show ?case by (simp add: ys)
qed

text \<open>
  C35. The section builder makes exactly the outline its headings mean: the one tree that has them in
  this order, with only deeper sections below a section and no deeper sibling after one.
\<close>
lemma build_sections_is_the_outline:
  "(outline_ok ss \<and> preorder ss = List.map_filter flat_head fs) = (ss = build_sections fs)"
proof -
  have "outline_ok (build_sections fs) \<and> preorder (build_sections fs) = List.map_filter flat_head fs"
    by (simp add: build_sections_def nest_heads_ok)
  then show ?thesis using outline_unique by metis
qed

end
