(* ===== verification/Pdf_Rows.thy ===== *)
theory Pdf_Rows
  imports Parsed_Section Float64
begin

text \<open>
  Rows of text from the words of a PDF page (\<open>extractPDFRows\<close> of \<open>pkg/parser/pdf.go\<close>) and the tests on
  single rows: letter spacing, boilerplate, headings, usable text. The words of a page come from the PDF
  library and are a parameter. So are \<open>strings.ToLower\<close>, which needs the Unicode tables, and the order in
  which \<open>sort.Slice\<close> leaves equal elements.
\<close>

record pdf_word =
  wd_text :: string
  wd_font :: string
  wd_size :: f64
  wd_x0 :: f64
  wd_y1 :: f64
  wd_upright :: bool
  wd_direction :: string

record pdf_row =
  pr_page :: int
  pr_size :: f64
  pr_bold :: bool
  pr_text :: string

record row_bucket =
  rb_y :: f64
  rb_max :: f64
  rb_words :: "pdf_word list"

record row_env =
  re_lower :: "string \<Rightarrow> string"
  re_sort_buckets :: "row_bucket list \<Rightarrow> row_bucket list"
  re_sort_words :: "pdf_word list \<Rightarrow> pdf_word list"

subsection \<open>Tests on rows\<close>

definition looks_letter_spaced :: "string \<Rightarrow> bool" where
  "looks_letter_spaced s =
     (let s = trim_space s; parts = str_fields s
      in \<not> length s < 5 \<and> \<not> length parts < 4
         \<and> length (filter (\<lambda>p. length p \<le> 1) parts) * 2 \<ge> length parts)"

text \<open>\<open>regexp\<close>'s \<open>\s\<close>, and \<open>multiSpaceRe.Split(s, -1)\<close>: the parts between runs of two or more of them.\<close>

definition re_space :: "char \<Rightarrow> bool" where
  "re_space c = (c \<in> {CHR 0x09, CHR 0x0A, CHR 0x0C, CHR 0x0D, CHR 0x20})"

function multi_space_split :: "string \<Rightarrow> string \<Rightarrow> string list" where
  "multi_space_split cur [] = [cur]"
| "multi_space_split cur (c # s) =
     (if 2 \<le> length (takeWhile re_space (c # s)) then cur # multi_space_split [] (dropWhile re_space (c # s))
      else multi_space_split (cur @ [c]) s)"
  by pat_completeness auto
termination
proof (relation "measure (\<lambda>(cur, s). length s)", goal_cases)
  case (2 cur c s)
  then have "re_space c" by (auto split: if_splits)
  then show ?case using length_dropWhile_le [of re_space s] by simp
qed simp_all

definition collapse_letter_spacing :: "string \<Rightarrow> string" where
  "collapse_letter_spacing s =
     (if \<not> looks_letter_spaced s then s
      else join (map (\<lambda>g. if list_ex (\<lambda>p. length p > 1) (str_fields g) then g else concat (str_fields g)) (multi_space_split [] s)) '' '')"

definition is_rotated_run :: "row_env \<Rightarrow> bool \<Rightarrow> string \<Rightarrow> bool" where
  "is_rotated_run env upright direction =
     (if \<not> upright then True else let d = re_lower env direction in d = ''ttb'' \<or> d = ''btt'')"

definition is_bold_font :: "row_env \<Rightarrow> string \<Rightarrow> bool" where
  "is_bold_font env font =
     (let f = re_lower env font in str_contains f ''bold'' \<or> str_contains f ''-bd'' \<or> str_contains f '',bd'')"

definition is_repeated_marker_line :: "string \<Rightarrow> bool" where
  "is_repeated_marker_line s =
     (let fields = str_fields s
      in \<not> length fields < 3
         \<and> list_ex (\<lambda>f. rune_count f \<le> 2 \<and> count_list fields f * 100 \<ge> length fields * 60) fields)"

definition boilerplate_signatures :: "string list" where
  "boilerplate_signatures =
     [''hereby grants permission'', ''provided proper attribution is provided'', ''solely for use in journalistic'',
      ''all rights reserved'', ''is licensed under a creative commons'', ''licensed under cc by'',
      ''this work is licensed under'', ''permission to make digital or hard copies'',
      ''copyright held by the owner'', ''preprint. under review'', ''preprint submitted to'']"

definition boilerplate_fragments :: "string list" where
  "boilerplate_fragments = [''scholarly works'', ''journalistic or'', ''or scholarly'']"

definition is_boilerplate_line :: "row_env \<Rightarrow> string \<Rightarrow> bool" where
  "is_boilerplate_line env s =
     (let low = re_lower env (trim_space s)
      in is_repeated_marker_line low \<or> list_ex (str_contains low) boilerplate_signatures
         \<or> (has_prefix low ''arxiv:'' \<and> length low > 6 \<and> is_ascii_digit (low ! 6))
         \<or> (length (str_fields low) \<le> 4 \<and> list_ex (str_contains low) boilerplate_fragments))"

text \<open>
  \<open>^(\d+(?:\.\d+)*)\.?\s+\S\<close>: the number is read greedily, and what follows a shorter number could
  not match, so the match is deterministic. The result is the number of dots.
\<close>

function number_dots :: "string \<Rightarrow> nat \<times> string" where
  "number_dots (d # c # s) =
     (if d = CHR ''.'' \<and> is_ascii_digit c then (case number_dots (dropWhile is_ascii_digit s) of (n, rest) \<Rightarrow> (Suc n, rest))
      else (0, d # c # s))"
| "number_dots [d] = (0, [d])"
| "number_dots [] = (0, [])"
  by pat_completeness auto
termination
proof (relation "measure length", goal_cases)
  case (2 d c s)
  show ?case using length_dropWhile_le [of is_ascii_digit s] by simp
qed simp

definition numbered_prefix :: "string \<Rightarrow> nat option" where
  "numbered_prefix s =
     (if takeWhile is_ascii_digit s = [] then None
      else case number_dots (dropWhile is_ascii_digit s) of
             (n, rest) \<Rightarrow>
               let rest = trim_prefix rest ''.''
               in if takeWhile re_space rest \<noteq> [] \<and> dropWhile re_space rest \<noteq> [] then Some n else None)"

definition numbered_heading_depth :: "string \<Rightarrow> int option" where
  "numbered_heading_depth s =
     map_option (\<lambda>n. let depth = int n + 1 in if depth > 6 then 6 else depth) (numbered_prefix (trim_space s))"

definition looks_like_heading :: "string \<Rightarrow> bool" where
  "looks_like_heading s =
     (let words = str_fields s
      in if words = [] \<or> length words > 25 then False else \<not> has_suffix s '','')"

text \<open>\<open>(letters, doubled, prev)\<close>: the loop of \<open>hasRepeatedAdjacentChars\<close> over the lowered text.\<close>

fun doubled_letters :: "string \<Rightarrow> nat \<Rightarrow> nat \<Rightarrow> char option \<Rightarrow> nat \<times> nat" where
  "doubled_letters [] letters doubled prev = (letters, doubled)"
| "doubled_letters (c # s) letters doubled prev =
     (if byte_in 97 122 c
      then doubled_letters s (letters + 1) (if prev = Some c then doubled + 1 else doubled) (Some c)
      else doubled_letters s letters doubled None)"

definition has_repeated_adjacent_chars :: "row_env \<Rightarrow> string \<Rightarrow> bool" where
  "has_repeated_adjacent_chars env s =
     (case doubled_letters (re_lower env s) 0 0 None of
        (letters, doubled) \<Rightarrow> if letters < 4 then False else doubled * 100 div letters > 30)"

definition rows_look_like_usable_text :: "row_env \<Rightarrow> pdf_row list \<Rightarrow> bool" where
  "rows_look_like_usable_text env rows =
     (5 \<le> length (filter (\<lambda>r. let t = trim_space (pr_text r) in \<not> length t < 4 \<and> \<not> has_repeated_adjacent_chars env t) rows))"

subsection \<open>Rows of a page\<close>

definition f_abs :: "f64 \<Rightarrow> f64" where
  "f_abs x = (if f_lt x (Fin 0) then f_neg x else x)"

text \<open>A word joins the first bucket within two points of its top edge, or opens one.\<close>

fun add_word :: "pdf_word \<Rightarrow> row_bucket list \<Rightarrow> row_bucket list" where
  "add_word wd [] = [\<lparr>rb_y = wd_y1 wd, rb_max = (if f_lt (Fin 0) (wd_size wd) then wd_size wd else Fin 0), rb_words = [wd]\<rparr>]"
| "add_word wd (b # bs) =
     (if f_lt (f_abs (f_sub (rb_y b) (wd_y1 wd))) (Fin 2)
      then b\<lparr>rb_words := rb_words b @ [wd], rb_max := (if f_lt (rb_max b) (wd_size wd) then wd_size wd else rb_max b)\<rparr> # bs
      else b # add_word wd bs)"

definition page_buckets :: "row_env \<Rightarrow> pdf_word list \<Rightarrow> row_bucket list" where
  "page_buckets env words = fold add_word (filter (\<lambda>wd. \<not> is_rotated_run env (wd_upright wd) (wd_direction wd)) words) []"

definition row_of_bucket :: "row_env \<Rightarrow> int \<Rightarrow> row_bucket \<Rightarrow> pdf_row option" where
  "row_of_bucket env page b =
     (let words = re_sort_words env (rb_words b);
          glyphs = (\<lambda>wd. rune_count (trim_space (wd_text wd)));
          total = sum_list (map glyphs words);
          bold = sum_list (map glyphs (filter (\<lambda>wd. is_bold_font env (wd_font wd)) words));
          text = collapse_letter_spacing (trim_space (join (map wd_text words) '' ''))
      in if text = [] \<or> is_boilerplate_line env text then None
         else Some \<lparr>pr_page = page, pr_size = rb_max b, pr_bold = (total > 0 \<and> bold * 2 > total), pr_text = text\<rparr>)"

text \<open>The pages in order, \<open>None\<close> for one that cannot be read.\<close>

fun rows_from :: "row_env \<Rightarrow> int \<Rightarrow> pdf_word list option list \<Rightarrow> pdf_row list" where
  "rows_from env n [] = []"
| "rows_from env n (p # ps) =
     (case p of None \<Rightarrow> [] | Some words \<Rightarrow> List.map_filter (row_of_bucket env n) (re_sort_buckets env (page_buckets env words)))
     @ rows_from env (n + 1) ps"

definition extract_pdf_rows :: "row_env \<Rightarrow> pdf_word list option list \<Rightarrow> pdf_row list" where
  "extract_pdf_rows env pages = rows_from env 1 pages"

text \<open>Rows come out page by page.\<close>

lemma rows_from_pages: "sorted (map pr_page (rows_from env n ps)) \<and> list_all (\<lambda>r. n \<le> pr_page r) (rows_from env n ps)"
proof (induction env n ps rule: rows_from.induct)
  case (2 env n p ps)
  have "list_all (\<lambda>r. pr_page r = n) (List.map_filter (row_of_bucket env n) bs)" for bs
    by (auto simp: list_all_iff set_map_filter row_of_bucket_def Let_def split: if_splits)
  then have first: "list_all (\<lambda>r. pr_page r = n)
      (case p of None \<Rightarrow> [] | Some words \<Rightarrow> List.map_filter (row_of_bucket env n) (re_sort_buckets env (page_buckets env words)))"
    (is "list_all _ ?first") by (cases p) simp_all
  moreover have "list_all (\<lambda>r. pr_page r = n) xs \<Longrightarrow> map pr_page xs = replicate (length xs) n" for xs by (induction xs) auto
  ultimately have "map pr_page ?first = replicate (length ?first) n" by blast
  then have "sorted (map pr_page ?first)" by simp
  with 2 first show ?case by (auto simp: sorted_append list_all_iff)
qed simp

lemma extract_pdf_rows_pages: "sorted (map pr_page (extract_pdf_rows env pages)) \<and> list_all (\<lambda>r. 0 < pr_page r) (extract_pdf_rows env pages)"
  using rows_from_pages [of env 1 pages] by (simp add: extract_pdf_rows_def list_all_iff) fastforce

end
