(* ===== verification/Section_Shape.thy ===== *)
theory Section_Shape
  imports Parsed_Section "HOL-Library.Sublist"
begin

text \<open>
  What the PDF parser does to its section tree (\<open>pkg/parser/pdf.go\<close>): folding empty leaves into their
  siblings, page ranges from the leaves up, cutting oversized leaves, and the cap on the number of leaves.
  Lengths are in bytes, as in the code. A tree position (\<open>*[]Section\<close> in the search for the smallest
  pair) is the path of child indices to the sibling list.
\<close>

abbreviation newline :: string where
  "newline \<equiv> [CHR 0x0A]"

definition min_non_zero :: "int \<Rightarrow> int \<Rightarrow> int" where
  "min_non_zero a b = (if a = 0 then b else if b = 0 then a else if a < b then a else b)"

subsection \<open>Folding empty leaves\<close>

definition empty_leaf :: "parsed \<Rightarrow> bool" where
  "empty_leaf s = (children_of s = [] \<and> trim_space (ps_content (head_of s)) = [])"

definition bold_before :: "string list \<Rightarrow> string" where
  "bold_before ts = concat (map (\<lambda>t. ''**'' @ t @ ''**'' @ newline @ newline) ts)"

definition bold_after :: "string list \<Rightarrow> string" where
  "bold_after ts = concat (map (\<lambda>t. newline @ newline @ ''**'' @ t @ ''**'') ts)"

definition take_pending :: "string list \<Rightarrow> int \<Rightarrow> int \<Rightarrow> section_head \<Rightarrow> section_head" where
  "take_pending ts ps pe h =
     (if ts = [] then h
      else h\<lparr>ps_content := trim_space (bold_before ts @ ps_content h), ps_start := min_non_zero ps (ps_start h),
             ps_end := (if pe > ps_end h then pe else ps_end h)\<rparr>)"

definition leave_pending :: "string list \<Rightarrow> int \<Rightarrow> int \<Rightarrow> section_head \<Rightarrow> section_head" where
  "leave_pending ts ps pe h =
     h\<lparr>ps_content := trim_space (ps_content h @ bold_after ts), ps_end := (if pe > ps_end h then pe else ps_end h),
       ps_start := min_non_zero ps (ps_start h)\<rparr>"

text \<open>The walk over the siblings: what is emitted, and the titles still pending with their pages.\<close>

fun fold_walk :: "parsed list \<Rightarrow> string list \<Rightarrow> int \<Rightarrow> int \<Rightarrow> parsed list \<times> string list \<times> int \<times> int" where
  "fold_walk [] ts ps pe = ([], ts, ps, pe)"
| "fold_walk (Parsed h cs # ss) ts ps pe =
     (if empty_leaf (Parsed h cs)
      then let t = trim_space (ps_title h)
           in if t \<noteq> [] then fold_walk ss (ts @ [t]) (min_non_zero ps (ps_start h)) (if ps_end h > pe then ps_end h else pe)
              else fold_walk ss ts ps pe
      else case (if ts = [] then fold_walk ss ts ps pe else fold_walk ss [] 0 0) of
             (out, rest) \<Rightarrow> (Parsed (take_pending ts ps pe h) cs # out, rest))"

definition fold_siblings :: "parsed list \<Rightarrow> parsed list" where
  "fold_siblings ss =
     (if \<not> list_ex empty_leaf ss \<or> list_all empty_leaf ss then ss
      else case fold_walk ss [] 0 0 of
             (out, ts, ps, pe) \<Rightarrow>
               if ts \<noteq> [] \<and> out \<noteq> []
               then butlast out @ [Parsed (leave_pending ts ps pe (head_of (last out))) (children_of (last out))]
               else out)"

fun fold_children :: "parsed list \<Rightarrow> parsed list" where
  "fold_children [] = []"
| "fold_children (Parsed h cs # ss) = Parsed h (fold_siblings (fold_children cs)) # fold_children ss"

definition fold_empty_leaf_sections :: "parsed list \<Rightarrow> parsed list" where
  "fold_empty_leaf_sections ss = fold_siblings (fold_children ss)"

subsection \<open>Page ranges\<close>

definition join_start :: "int \<Rightarrow> int \<Rightarrow> int" where
  "join_start p acc = (if p > 0 \<and> (acc = 0 \<or> p < acc) then p else acc)"

definition join_end :: "int \<Rightarrow> int \<Rightarrow> int" where
  "join_end p acc = (if p > acc then p else acc)"

fun propagate_pages :: "parsed list \<Rightarrow> int \<Rightarrow> int \<Rightarrow> parsed list \<times> int \<times> int" where
  "propagate_pages [] mn mx = ([], mn, mx)"
| "propagate_pages (Parsed h cs # ss) mn mx =
     (case propagate_pages cs 0 0 of
        (cs', cmin, cmax) \<Rightarrow>
          let cmin = join_start (ps_start h) cmin; cmax = join_end (ps_end h) cmax;
              h' = h\<lparr>ps_start := (if cmin > 0 then cmin else ps_start h), ps_end := (if cmax > 0 then cmax else ps_end h)\<rparr>
          in case propagate_pages ss (join_start (ps_start h') mn) (join_end (ps_end h') mx) of
               (ss', r) \<Rightarrow> (Parsed h' cs' # ss', r))"

definition propagate_section_pages :: "parsed list \<Rightarrow> parsed list" where
  "propagate_section_pages ss = fst (propagate_pages ss 0 0)"

subsection \<open>The cap on leaves\<close>

fun count_leaf_sections :: "parsed list \<Rightarrow> nat" where
  "count_leaf_sections [] = 0"
| "count_leaf_sections (Parsed h cs # ss) = (if cs = [] then 1 else count_leaf_sections cs) + count_leaf_sections ss"

definition is_table_leaf :: "section_head \<Rightarrow> bool" where
  "is_table_leaf h = (ps_meta h ''table'' = Some ''true'')"

definition join_absorbed :: "string \<Rightarrow> string \<Rightarrow> string \<Rightarrow> string" where
  "join_absorbed survivor absorbed_title absorbed_body =
     (let b = trim_space survivor;
          t = trim_space absorbed_title;
          b = (if t \<noteq> [] then b @ (if b \<noteq> [] then newline @ newline else []) @ ''**'' @ t @ ''**'' else b);
          body = trim_space absorbed_body
      in if body \<noteq> [] then b @ (if b \<noteq> [] then newline @ newline else []) @ body else b)"

text \<open>\<open>absorbChildIntoParent\<close>; merging two leaves does the same to the first of them.\<close>

definition absorb :: "section_head \<Rightarrow> section_head \<Rightarrow> section_head" where
  "absorb h c =
     h\<lparr>ps_content := join_absorbed (ps_content h) (ps_title c) (ps_content c),
       ps_start := min_non_zero (ps_start h) (ps_start c), ps_end := (if ps_end c > ps_end h then ps_end c else ps_end h)\<rparr>"

fun lone_leaf :: "parsed list \<Rightarrow> section_head option" where
  "lone_leaf [Parsed c []] = (if is_table_leaf c then None else Some c)"
| "lone_leaf ss = None"

fun collapse_single_leaf_parents :: "parsed list \<Rightarrow> parsed list" where
  "collapse_single_leaf_parents [] = []"
| "collapse_single_leaf_parents (Parsed h cs # ss) =
     (let cs' = collapse_single_leaf_parents cs
      in case lone_leaf cs' of Some c \<Rightarrow> Parsed (absorb h c) [] | None \<Rightarrow> Parsed h cs') # collapse_single_leaf_parents ss"

fun collapse_one :: "parsed list \<Rightarrow> parsed list option" where
  "collapse_one [] = None"
| "collapse_one (Parsed h cs # ss) =
     (case lone_leaf cs of
        Some c \<Rightarrow> Some (Parsed (absorb h c) [] # ss)
      | None \<Rightarrow>
          (case collapse_one cs of
             Some cs' \<Rightarrow> Some (Parsed h cs' # ss)
           | None \<Rightarrow> map_option (\<lambda>ss'. Parsed h cs # ss') (collapse_one ss)))"

text \<open>Adjacent mergeable leaves in one sibling list, by index, with their size; then in the whole tree, in walk order.\<close>

fun sibling_pairs :: "nat \<Rightarrow> parsed list \<Rightarrow> (nat \<times> nat) list" where
  "sibling_pairs i (Parsed a [] # Parsed b [] # ss) =
     (if \<not> is_table_leaf a \<and> \<not> is_table_leaf b then [(i, length (ps_content a) + length (ps_content b))] else [])
     @ sibling_pairs (i + 1) (Parsed b [] # ss)"
| "sibling_pairs i (x # y # ss) = sibling_pairs (i + 1) (y # ss)"
| "sibling_pairs i [x] = []"
| "sibling_pairs i [] = []"

type_synonym pair_at = "nat list \<times> nat \<times> nat"

definition below :: "nat \<Rightarrow> pair_at \<Rightarrow> pair_at" where
  "below j p = (j # fst p, snd p)"

fun child_pairs :: "nat \<Rightarrow> parsed list \<Rightarrow> pair_at list" where
  "child_pairs j [] = []"
| "child_pairs j (Parsed h cs # ss) =
     map (below j) (map (\<lambda>p. ([], p)) (sibling_pairs 0 cs) @ child_pairs 0 cs) @ child_pairs (j + 1) ss"

definition leaf_pairs :: "parsed list \<Rightarrow> pair_at list" where
  "leaf_pairs ss = map (\<lambda>p. ([], p)) (sibling_pairs 0 ss) @ child_pairs 0 ss"

definition smaller_pair :: "pair_at \<Rightarrow> pair_at option \<Rightarrow> pair_at option" where
  "smaller_pair p best =
     (case best of None \<Rightarrow> Some p | Some b \<Rightarrow> if snd (snd p) < snd (snd b) then Some p else Some b)"

definition smallest_pair :: "parsed list \<Rightarrow> pair_at option" where
  "smallest_pair ss = fold smaller_pair (leaf_pairs ss) None"

fun merge_at :: "nat list \<Rightarrow> nat \<Rightarrow> parsed list \<Rightarrow> parsed list" where
  "merge_at [] i ss = take i ss @ [Parsed (absorb (head_of (ss ! i)) (head_of (ss ! (i + 1)))) (children_of (ss ! i))] @ drop (i + 2) ss"
| "merge_at (j # path) i ss = ss[j := Parsed (head_of (ss ! j)) (merge_at path i (children_of (ss ! j)))]"

definition merge_one_smallest :: "parsed list \<Rightarrow> parsed list option" where
  "merge_one_smallest ss =
     (case smallest_pair ss of None \<Rightarrow> None | Some (path, i, sz) \<Rightarrow> Some (merge_at path i ss))"

fun cap_loop :: "nat \<Rightarrow> int \<Rightarrow> parsed list \<Rightarrow> parsed list" where
  "cap_loop 0 cap root = root"
| "cap_loop (Suc guard) cap root =
     (if int (count_leaf_sections root) > cap
      then (case merge_one_smallest root of
              Some root' \<Rightarrow> cap_loop guard cap root'
            | None \<Rightarrow> (case collapse_one root of
                         None \<Rightarrow> root
                       | Some root' \<Rightarrow> cap_loop guard cap root'))
      else root)"

definition cap_leaf_sections :: "parsed list \<Rightarrow> int \<Rightarrow> parsed list" where
  "cap_leaf_sections ss cap =
     (if cap \<le> 0 then ss
      else if int (count_leaf_sections ss) \<le> cap then ss
      else children_of (hd (cap_loop 1000000 cap [Parsed no_section (collapse_single_leaf_parents ss)])))"

definition resolved_max_sections :: "int \<Rightarrow> int" where
  "resolved_max_sections n = (if n = 0 then 400 else n)"

subsection \<open>The text of a tree\<close>

text \<open>
  What a reader sees of the text, whatever the spacing and the markers the passes put between the parts:
  every byte that is not an asterisk and not part of the encoding of a space.
\<close>

definition solid :: "string \<Rightarrow> string" where
  "solid s = filter (\<lambda>c. c \<notin> set (concat space_runes)) s"

definition ink :: "string \<Rightarrow> string" where
  "ink s = filter (\<lambda>c. c \<noteq> CHR ''*'') (solid s)"

lemma solid_append [simp]: "solid (s @ t) = solid s @ solid t"
  by (simp add: solid_def)

lemma solid_Nil [simp]: "solid [] = []"
  by (simp add: solid_def)

lemma solid_rev: "solid (rev s) = rev (solid s)"
  by (simp add: solid_def rev_filter)

lemma solid_rune: "set r \<subseteq> set (concat space_runes) \<Longrightarrow> solid r = []"
  by (auto simp: solid_def filter_empty_conv)

lemma solid_trim_left: "set (concat rs) \<subseteq> set (concat space_runes) \<Longrightarrow> solid (trim_left_runes rs s) = solid s"
proof (induction rs s rule: trim_left_runes.induct)
  case (1 rs s)
  show ?case
  proof (cases "find (\<lambda>r. r \<noteq> [] \<and> has_prefix s r) rs")
    case None
    then show ?thesis by (simp add: trim_left_runes.simps)
  next
    case (Some r)
    then have r: "r \<in> set rs" "has_prefix s r" by (auto simp: find_Some_iff)
    then have "set r \<subseteq> set (concat space_runes)" using 1(2) by auto
    then have "solid s = solid (drop (length r) s)"
      using r(2) solid_rune [of r] by (metis append_Nil append_take_drop_id has_prefix_def solid_append)
    with 1 Some show ?thesis by (simp add: trim_left_runes.simps [of rs s])
  qed
qed

lemma solid_trim_space [simp]: "solid (trim_space s) = solid s"
proof -
  have "solid (trim_left_space s) = solid s" for s by (simp add: trim_left_space_def solid_trim_left)
  moreover have "solid (trim_left_runes (map rev space_runes) s) = solid s" for s
    by (rule solid_trim_left) auto
  ultimately show ?thesis by (simp add: trim_space_def trim_right_space_def solid_rev)
qed

lemma solid_not_blank: "solid s \<noteq> [] \<Longrightarrow> trim_space s \<noteq> []"
  by (metis solid_Nil solid_trim_space)

lemma solid_markers [simp]: "solid (CHR ''*'' # s) = CHR ''*'' # solid s" "solid (CHR 0x0A # s) = solid s"
  by (simp_all add: solid_def space_runes_def)

lemma ink_append [simp]: "ink (s @ t) = ink s @ ink t"
  by (simp add: ink_def)

lemma ink_Nil [simp]: "ink [] = []"
  by (simp add: ink_def)

lemma ink_markers [simp]: "ink (CHR ''*'' # s) = ink s" "ink (CHR 0x0A # s) = ink s"
  by (simp_all add: ink_def)

lemma ink_trim_space [simp]: "ink (trim_space s) = ink s"
  by (simp add: ink_def)

lemma ink_blank: "trim_space s = [] \<Longrightarrow> ink s = []"
  by (metis ink_Nil ink_trim_space)

lemma ink_join_absorbed [simp]: "ink (join_absorbed a t b) = ink a @ ink t @ ink b"
  by (auto simp: join_absorbed_def Let_def ink_blank)

definition head_ink :: "section_head \<Rightarrow> string" where
  "head_ink h = ink (ps_title h) @ ink (ps_content h)"

definition section_ink :: "parsed list \<Rightarrow> string" where
  "section_ink ss = concat (map head_ink (preorder ss))"

lemma section_ink_simps [simp]:
  "section_ink [] = []" "section_ink (Parsed h cs # ss) = head_ink h @ section_ink cs @ section_ink ss"
  "section_ink (xs @ ys) = section_ink xs @ section_ink ys"
  by (simp_all add: section_ink_def)

lemma head_ink_absorb [simp]: "head_ink (absorb h c) = head_ink h @ head_ink c"
  by (simp add: head_ink_def absorb_def)

subsection \<open>Shrinking a tree\<close>

text \<open>
  What the cap may do, one step at a time: merge two adjacent leaves that are not tables, or let the
  parent of a lone leaf that is no table absorb it, anywhere in the tree.
\<close>

inductive shrink_step :: "parsed list \<Rightarrow> parsed list \<Rightarrow> bool" where
  merge: "\<not> is_table_leaf a \<Longrightarrow> \<not> is_table_leaf b
    \<Longrightarrow> shrink_step (xs @ Parsed a [] # Parsed b [] # ys) (xs @ Parsed (absorb a b) [] # ys)"
| collapse: "\<not> is_table_leaf c \<Longrightarrow> shrink_step (xs @ Parsed h [Parsed c []] # ys) (xs @ Parsed (absorb h c) [] # ys)"
| deeper: "shrink_step cs cs' \<Longrightarrow> shrink_step (xs @ Parsed h cs # ys) (xs @ Parsed h cs' # ys)"

fun table_leaves :: "parsed list \<Rightarrow> section_head list" where
  "table_leaves [] = []"
| "table_leaves (Parsed h cs # ss) =
     (if cs = [] then (if is_table_leaf h then [h] else []) else table_leaves cs) @ table_leaves ss"

lemma table_leaves_append [simp]: "table_leaves (xs @ ys) = table_leaves xs @ table_leaves ys"
  by (induction xs rule: table_leaves.induct) auto

lemma count_leaf_append [simp]: "count_leaf_sections (xs @ ys) = count_leaf_sections xs + count_leaf_sections ys"
  by (induction xs rule: count_leaf_sections.induct) auto

lemma is_table_absorb [simp]: "is_table_leaf (absorb h c) = is_table_leaf h"
  by (simp add: is_table_leaf_def absorb_def)

definition table_free :: "parsed list \<Rightarrow> bool" where
  "table_free ss = list_all (\<lambda>h. \<not> is_table_leaf h) (preorder ss)"

lemma table_free_simps [simp]:
  "table_free []" "table_free (Parsed h cs # ss) \<longleftrightarrow> \<not> is_table_leaf h \<and> table_free cs \<and> table_free ss"
  "table_free (xs @ ys) \<longleftrightarrow> table_free xs \<and> table_free ys"
  by (simp_all add: table_free_def)

lemma shrink_cons: "shrink_step ss ss' \<Longrightarrow> shrink_step (x # ss) (x # ss')"
proof (induction rule: shrink_step.induct)
  case (merge a b xs ys)
  then show ?case using shrink_step.merge [of a b "x # xs" ys] by simp
next
  case (collapse c xs h ys)
  then show ?case using shrink_step.collapse [of c "x # xs" h ys] by simp
next
  case (deeper cs cs' xs h ys)
  then show ?case using shrink_step.deeper [of cs cs' "x # xs" h ys] by simp
qed

lemma shrink_nonempty: "shrink_step ss ss' \<Longrightarrow> ss \<noteq> [] \<and> ss' \<noteq> []"
  by (induction rule: shrink_step.induct) auto

lemma shrink_text: "shrink_step ss ss' \<Longrightarrow> section_ink ss' = section_ink ss"
  by (induction rule: shrink_step.induct) auto

lemma shrink_smaller: "shrink_step ss ss' \<Longrightarrow> length (preorder ss) = Suc (length (preorder ss'))"
  by (induction rule: shrink_step.induct) auto

lemma shrink_table_free: "shrink_step ss ss' \<Longrightarrow> table_free ss \<Longrightarrow> table_free ss'"
  by (induction rule: shrink_step.induct) auto

lemma shrink_tables: "shrink_step ss ss' \<Longrightarrow> subseq (table_leaves ss) (table_leaves ss')"
proof (induction rule: shrink_step.induct)
  case (deeper cs cs' xs h ys)
  with shrink_nonempty show ?case by (auto intro!: list_emb_append_mono)
qed (auto intro!: list_emb_append_mono)

lemma shrinks_facts:
  "shrink_step\<^sup>*\<^sup>* ss ss' \<Longrightarrow> section_ink ss' = section_ink ss \<and> subseq (table_leaves ss) (table_leaves ss')
    \<and> (table_free ss \<longrightarrow> table_free ss') \<and> length (preorder ss') \<le> length (preorder ss)"
proof (induction rule: rtranclp_induct)
  case (step y z)
  then show ?case
    using shrink_text [OF step(2)] shrink_tables [OF step(2)] shrink_table_free [OF step(2)] shrink_smaller [OF step(2)]
    by (auto intro: subseq_order.trans)
qed simp

text \<open>The search for the smallest pair finds a step, and a smallest one.\<close>

definition pair_in :: "nat \<Rightarrow> parsed list \<Rightarrow> nat \<Rightarrow> nat \<Rightarrow> bool" where
  "pair_in k ss i n \<longleftrightarrow> (\<exists>xs a b ys. ss = xs @ Parsed a [] # Parsed b [] # ys \<and> i = k + length xs
     \<and> \<not> is_table_leaf a \<and> \<not> is_table_leaf b \<and> n = length (ps_content a) + length (ps_content b))"

lemma pair_in_cons: "pair_in (k + 1) ss i n \<Longrightarrow> pair_in k (x # ss) i n"
proof -
  assume "pair_in (k + 1) ss i n"
  then obtain xs a b ys where "ss = xs @ Parsed a [] # Parsed b [] # ys" "i = k + 1 + length xs"
    "\<not> is_table_leaf a" "\<not> is_table_leaf b" "n = length (ps_content a) + length (ps_content b)"
    unfolding pair_in_def by blast
  then show ?thesis unfolding pair_in_def
    by (intro exI [of _ "x # xs"] exI [of _ a] exI [of _ b] exI [of _ ys]) simp
qed

lemma sibling_pairs_at: "(i, n) \<in> set (sibling_pairs k ss) \<Longrightarrow> pair_in k ss i n"
proof (induction k ss rule: sibling_pairs.induct)
  case (1 k a b ss)
  show ?case
  proof (cases "(i, n) \<in> set (sibling_pairs (k + 1) (Parsed b [] # ss))")
    case True
    then show ?thesis using 1 pair_in_cons by blast
  next
    case False
    with "1.prems" have "i = k" "\<not> is_table_leaf a" "\<not> is_table_leaf b" "n = length (ps_content a) + length (ps_content b)"
      by (simp_all split: if_splits)
    then show ?thesis unfolding pair_in_def
      by (intro exI [of _ "[]"] exI [of _ a] exI [of _ b] exI [of _ ss]) simp
  qed
qed (simp_all add: pair_in_cons)

lemma child_pairs_at:
  "p \<in> set (child_pairs k ss) \<Longrightarrow>
   \<exists>xs h cs ys q. ss = xs @ Parsed h cs # ys \<and> p = below (k + length xs) q \<and> q \<in> set (leaf_pairs cs)"
proof (induction k ss rule: child_pairs.induct)
  case (2 k h cs ss)
  then consider q where "p = below k q" "q \<in> set (leaf_pairs cs)" | "p \<in> set (child_pairs (k + 1) ss)"
    by (auto simp: leaf_pairs_def)
  then show ?case
  proof cases
    case 1
    then show ?thesis by (intro exI [of _ "[]"] exI [of _ h] exI [of _ cs] exI [of _ ss] exI [of _ q]) simp
  next
    case 2
    from "2.IH"(2) [OF this] obtain xs h' cs' ys q where "ss = xs @ Parsed h' cs' # ys" "p = below (k + 1 + length xs) q" "q \<in> set (leaf_pairs cs')"
      by blast
    then show ?thesis
      by (intro exI [of _ "Parsed h cs # xs"] exI [of _ h'] exI [of _ cs'] exI [of _ ys] exI [of _ q]) simp
  qed
qed simp

lemma leaf_pair_shrinks: "(path, i, n) \<in> set (leaf_pairs ss) \<Longrightarrow> shrink_step ss (merge_at path i ss)"
proof (induction path arbitrary: ss)
  case Nil
  then have "(i, n) \<in> set (sibling_pairs 0 ss)"
    using child_pairs_at [of "([], i, n)" 0 ss] by (auto simp: leaf_pairs_def below_def)
  from sibling_pairs_at [OF this] obtain xs a b ys where
    "ss = xs @ Parsed a [] # Parsed b [] # ys" "i = length xs" "\<not> is_table_leaf a" "\<not> is_table_leaf b"
    by (auto simp: pair_in_def)
  then show ?case using shrink_step.merge [of a b xs ys] by (simp add: nth_append)
next
  case (Cons j path)
  then have "(j # path, i, n) \<in> set (child_pairs 0 ss)" by (auto simp: leaf_pairs_def)
  from child_pairs_at [OF this] obtain xs h cs ys where
    at: "ss = xs @ Parsed h cs # ys" "j = length xs" "(path, i, n) \<in> set (leaf_pairs cs)"
    by (auto simp: below_def)
  from shrink_step.deeper [OF Cons.IH [OF at(3)], of xs h ys] at(1,2) show ?case by (simp add: nth_append)
qed

lemma smallest_pair_fold:
  "fold smaller_pair ps best = Some q \<Longrightarrow> (q \<in> set ps \<or> best = Some q)
    \<and> (\<forall>p \<in> set ps. snd (snd q) \<le> snd (snd p)) \<and> (\<forall>b. best = Some b \<longrightarrow> snd (snd q) \<le> snd (snd b))"
proof (induction ps arbitrary: best)
  case (Cons p ps)
  note ih = Cons.IH [of "smaller_pair p best"]
  show ?case
  proof (cases best)
    case None
    with ih Cons.prems show ?thesis by (auto simp: smaller_pair_def)
  next
    case (Some b)
    define r where "r = (if snd (snd p) < snd (snd b) then p else b)"
    have r: "smaller_pair p best = Some r" "r = p \<or> r = b" "snd (snd r) \<le> snd (snd p)" "snd (snd r) \<le> snd (snd b)"
      by (auto simp: Some smaller_pair_def r_def)
    from Cons.prems have "fold smaller_pair ps (smaller_pair p best) = Some q" by simp
    from ih [OF this] have "q \<in> set ps \<or> q = r" "\<forall>p \<in> set ps. snd (snd q) \<le> snd (snd p)" "snd (snd q) \<le> snd (snd r)"
      by (auto simp: r(1))
    with r(2-4) Some show ?thesis by auto
  qed
qed simp

lemma smallest_pair_None: "fold smaller_pair ps best = None \<longleftrightarrow> ps = [] \<and> best = None"
  by (induction ps arbitrary: best) (auto simp: smaller_pair_def split: option.splits)

text \<open>A merge takes a pair no other pair of the tree is smaller than.\<close>

lemma merge_one_smallest_step:
  assumes "merge_one_smallest ss = Some ss'"
  shows "shrink_step ss ss' \<and> (\<exists>path i n. ss' = merge_at path i ss \<and> (path, i, n) \<in> set (leaf_pairs ss)
    \<and> (\<forall>p \<in> set (leaf_pairs ss). n \<le> snd (snd p)))"
proof -
  from assms obtain path i n where q: "fold smaller_pair (leaf_pairs ss) None = Some (path, i, n)" "ss' = merge_at path i ss"
    by (auto simp: merge_one_smallest_def smallest_pair_def split: option.splits)
  from smallest_pair_fold [OF q(1)] have "(path, i, n) \<in> set (leaf_pairs ss)" "\<forall>p \<in> set (leaf_pairs ss). n \<le> snd (snd p)"
    by auto
  with leaf_pair_shrinks q(2) show ?thesis by blast
qed

lemma lone_leaf_iff: "lone_leaf cs = Some c \<longleftrightarrow> cs = [Parsed c []] \<and> \<not> is_table_leaf c"
  by (cases cs rule: lone_leaf.cases) auto

lemma collapse_one_step: "collapse_one ss = Some ss' \<Longrightarrow> shrink_step ss ss'"
proof (induction ss arbitrary: ss' rule: collapse_one.induct)
  case (2 h cs ss)
  show ?case
  proof (cases "lone_leaf cs")
    case (Some c)
    then show ?thesis using 2 shrink_step.collapse [of c "[]" h ss] by (auto simp: lone_leaf_iff)
  next
    case None
    show ?thesis
    proof (cases "collapse_one cs")
      case (Some cs')
      with 2 None shrink_step.deeper [of cs cs' "[]" h ss] show ?thesis by auto
    next
      case none: None
      with "2.prems" None obtain r where r: "collapse_one ss = Some r" "ss' = Parsed h cs # r" by auto
      from "2.IH"(2) [OF None none r(1)] have "shrink_step ss r" .
      then show ?thesis unfolding r(2)
        using shrink_cons by blast
    qed
  qed
qed simp

text \<open>The bulk collapse is a run of steps.\<close>

lemma shrinks_cons: "shrink_step\<^sup>*\<^sup>* ss ss' \<Longrightarrow> shrink_step\<^sup>*\<^sup>* (x # ss) (x # ss')"
  by (induction rule: rtranclp_induct) (auto intro: rtranclp.rtrancl_into_rtrancl shrink_cons)

lemma shrinks_below: "shrink_step\<^sup>*\<^sup>* cs cs' \<Longrightarrow> shrink_step\<^sup>*\<^sup>* (Parsed h cs # ss) (Parsed h cs' # ss)"
proof (induction rule: rtranclp_induct)
  case (step y z)
  from shrink_step.deeper [OF step(2), of "[]" h ss] step(3) show ?case by simp
qed simp

lemma collapse_shrinks: "shrink_step\<^sup>*\<^sup>* ss (collapse_single_leaf_parents ss)"
proof (induction ss rule: collapse_single_leaf_parents.induct)
  case (2 h cs ss)
  let ?cs = "collapse_single_leaf_parents cs" and ?ss = "collapse_single_leaf_parents ss"
  have start: "shrink_step\<^sup>*\<^sup>* (Parsed h cs # ss) (Parsed h ?cs # ss)" using shrinks_below 2(1) .
  show ?case
  proof (cases "lone_leaf ?cs")
    case None
    then show ?thesis using rtranclp_trans [OF start shrinks_cons [OF 2(2)]] by simp
  next
    case (Some c)
    then have "shrink_step (Parsed h ?cs # ss) (Parsed (absorb h c) [] # ss)"
      using shrink_step.collapse [of c "[]" h ss] by (auto simp: lone_leaf_iff)
    from rtranclp_trans [OF rtranclp.rtrancl_into_rtrancl [OF start this] shrinks_cons [OF 2(2)]] Some
    show ?thesis by simp
  qed
qed simp

text \<open>A tree without tables in which nothing can be merged or collapsed has at most one leaf.\<close>

lemma sibling_pairs_shift: "sibling_pairs j ss = [] \<longleftrightarrow> sibling_pairs k ss = []"
proof (induction j ss arbitrary: k rule: sibling_pairs.induct)
  case (1 j a b ss)
  from "1.IH" [of "k + 1"] show ?case by simp
qed (metis sibling_pairs.simps(2), metis sibling_pairs.simps(3), simp_all)

lemma child_pairs_shift: "child_pairs j ss = [] \<longleftrightarrow> child_pairs k ss = []"
  by (induction ss arbitrary: j k rule: preorder.induct) auto

lemma sibling_pairs_tail: "sibling_pairs j (x # ss) = [] \<Longrightarrow> sibling_pairs j ss = []"
proof (cases ss)
  case (Cons y ys)
  moreover assume "sibling_pairs j (x # ss) = []"
  moreover obtain h cs h' cs' where "x = Parsed h cs" "y = Parsed h' cs'" by (cases x; cases y)
  ultimately have "sibling_pairs (j + 1) ss = []" by (cases cs; cases cs') (auto split: if_splits)
  then show ?thesis using sibling_pairs_shift by blast
qed simp

lemma stuck_is_leaf:
  "table_free ss \<Longrightarrow> leaf_pairs ss = [] \<Longrightarrow> collapse_one ss = None \<Longrightarrow> ss = [] \<or> (\<exists>h. ss = [Parsed h []])"
proof (induction ss rule: preorder.induct)
  case (2 h cs ss)
  have free: "table_free cs" "table_free ss" using "2.prems"(1) by simp_all
  have none: "lone_leaf cs = None" "collapse_one cs = None" "collapse_one ss = None"
    using "2.prems"(3) by (simp_all split: option.splits)
  have "leaf_pairs cs = []" using "2.prems"(2) by (simp add: leaf_pairs_def)
  from "2.IH"(1) [OF free(1) this none(2)] none(1) free(1) have cs: "cs = []"
    by (elim disjE exE) simp_all
  have pairs: "sibling_pairs 0 (Parsed h [] # ss) = []" and children: "child_pairs 0 ss = []"
    using "2.prems"(2) child_pairs_shift [of 1 ss 0] by (simp_all add: leaf_pairs_def cs)
  have "leaf_pairs ss = []" using sibling_pairs_tail [OF pairs] children by (simp add: leaf_pairs_def)
  from "2.IH"(2) [OF free(2) this none(3)] show ?case
  proof (elim disjE exE)
    fix b assume ss: "ss = [Parsed b []]"
    with pairs "2.prems"(1) cs show ?thesis by simp
  qed (simp add: cs)
qed simp

lemma cap_progress:
  assumes "table_free ss" "1 < count_leaf_sections ss"
  shows "merge_one_smallest ss \<noteq> None \<or> collapse_one ss \<noteq> None"
proof (rule ccontr)
  assume "\<not> ?thesis"
  then have "leaf_pairs ss = []" "collapse_one ss = None"
    by (auto simp: merge_one_smallest_def smallest_pair_def smallest_pair_None split: option.splits)
  with stuck_is_leaf assms show False by fastforce
qed

subsection \<open>The loop under its synthetic root\<close>

lemma shrink_root:
  assumes "shrink_step [Parsed e cs] r" "1 < count_leaf_sections [Parsed e cs]"
  obtains cs' where "r = [Parsed e cs']" "shrink_step cs cs'"
  using assms by (cases rule: shrink_step.cases) (auto simp: Cons_eq_append_conv)

lemma cap_loop_shrinks:
  "1 \<le> cap \<Longrightarrow> \<exists>cs'. cap_loop guard cap [Parsed e cs] = [Parsed e cs'] \<and> shrink_step\<^sup>*\<^sup>* cs cs'"
proof (induction guard arbitrary: cs)
  case (Suc guard)
  let ?root = "[Parsed e cs]"
  have step: "\<exists>cs'. cap_loop guard cap r = [Parsed e cs'] \<and> shrink_step\<^sup>*\<^sup>* cs cs'"
    if "shrink_step ?root r" "cap < int (count_leaf_sections ?root)" for r
  proof -
    from that Suc.prems have "1 < count_leaf_sections ?root" by linarith
    from shrink_root [OF that(1) this] obtain cs' where "r = [Parsed e cs']" "shrink_step cs cs'" .
    with Suc.IH [OF Suc.prems, of cs'] show ?thesis by (auto intro: converse_rtranclp_into_rtranclp)
  qed
  show ?case
    using step merge_one_smallest_step [of ?root] collapse_one_step [of ?root]
    by (auto simp del: count_leaf_sections.simps collapse_one.simps split: option.split)
qed simp

lemma count_le_nodes: "count_leaf_sections ss \<le> length (preorder ss)"
  by (induction ss rule: preorder.induct) auto

lemma cap_loop_capped:
  "1 \<le> cap \<Longrightarrow> table_free root \<Longrightarrow> length (preorder root) \<le> guard + 1 \<Longrightarrow> int (count_leaf_sections (cap_loop guard cap root)) \<le> cap"
proof (induction guard arbitrary: root)
  case 0
  then show ?case using count_le_nodes [of root] by simp
next
  case (Suc guard)
  have step: "int (count_leaf_sections (cap_loop guard cap r)) \<le> cap" if "shrink_step root r" for r
    using Suc.IH [of r] Suc.prems shrink_smaller [OF that] shrink_table_free [OF that] by simp
  show ?case
  proof (cases "cap < int (count_leaf_sections root)")
    case True
    with Suc.prems have "1 < count_leaf_sections root" by linarith
    with cap_progress [OF Suc.prems(2)] True step merge_one_smallest_step [of root] collapse_one_step [of root]
    show ?thesis by (auto split: option.split)
  qed simp
qed

text \<open>
  C36. The cap keeps its promise whenever the tree has no tables: with at most a million sections, the
  result has no more leaves than allowed, whatever the shape of the tree.
\<close>
lemma cap_leaf_sections_capped:
  assumes "0 < cap" "table_free ss" "length (preorder ss) \<le> 1000000"
  shows "int (count_leaf_sections (cap_leaf_sections ss cap)) \<le> cap"
proof (cases "int (count_leaf_sections ss) \<le> cap")
  case True
  with assms show ?thesis by (simp add: cap_leaf_sections_def)
next
  case False
  let ?cs = "collapse_single_leaf_parents ss"
  obtain cs' where loop: "cap_loop 1000000 cap [Parsed no_section ?cs] = [Parsed no_section cs']"
    using cap_loop_shrinks [of cap 1000000 no_section ?cs] assms(1) by auto
  note facts = shrinks_facts [OF collapse_shrinks [of ss]]
  have "int (count_leaf_sections (cap_loop 1000000 cap [Parsed no_section ?cs])) \<le> cap"
    using assms facts by (intro cap_loop_capped) (simp_all add: no_section_def is_table_leaf_def)
  with loop False assms(1) show ?thesis by (auto simp: cap_leaf_sections_def split: if_splits)
qed

lemma cap_leaf_sections_capped_witness:
  "int (count_leaf_sections (cap_leaf_sections [Parsed no_section [Parsed no_section []], Parsed no_section []] 1)) \<le> 1"
  using cap_leaf_sections_capped [of 1 "[Parsed no_section [Parsed no_section []], Parsed no_section []]"]
  by (simp add: no_section_def is_table_leaf_def)

text \<open>Absorbing keeps the ink.\<close>

lemma cap_leaf_ink:
  "section_ink (cap_leaf_sections ss cap) = section_ink ss \<and> subseq (table_leaves ss) (table_leaves (cap_leaf_sections ss cap))"
proof (cases "cap \<le> 0 \<or> int (count_leaf_sections ss) \<le> cap")
  case True
  then show ?thesis by (auto simp: cap_leaf_sections_def)
next
  case False
  then obtain cs' where loop: "cap_loop 1000000 cap [Parsed no_section (collapse_single_leaf_parents ss)] = [Parsed no_section cs']"
    "shrink_step\<^sup>*\<^sup>* (collapse_single_leaf_parents ss) cs'"
    using cap_loop_shrinks [of cap 1000000 no_section "collapse_single_leaf_parents ss"] by auto
  with shrinks_facts [OF rtranclp_trans [OF collapse_shrinks loop(2)]] False show ?thesis
    by (auto simp: cap_leaf_sections_def)
qed

text \<open>
  C37. Whatever the tree and the cap, no text is lost or moved: a reader of the capped outline, from top
  to bottom, titles and bodies, reads what was there before. And every table is still a section of its own.
\<close>
lemma cap_leaf_sections_keeps_text:
  "section_ink (cap_leaf_sections ss cap) = section_ink ss \<and> subseq (table_leaves ss) (table_leaves (cap_leaf_sections ss cap))"
  by (rule cap_leaf_ink)

subsection \<open>Folding\<close>

text \<open>
  An empty leaf is left only where none of its siblings could carry its title.
\<close>

definition uniform :: "parsed list \<Rightarrow> bool" where
  "uniform ss \<longleftrightarrow> list_all empty_leaf ss \<or> \<not> list_ex empty_leaf ss"

fun children_tidy :: "parsed list \<Rightarrow> bool" where
  "children_tidy [] = True"
| "children_tidy (Parsed h cs # ss) \<longleftrightarrow> uniform cs \<and> children_tidy cs \<and> children_tidy ss"

lemma children_tidy_append [simp]: "children_tidy (xs @ ys) \<longleftrightarrow> children_tidy xs \<and> children_tidy ys"
  by (induction xs rule: children_tidy.induct) auto

lemma ink_bold [simp]: "ink (bold_before ts) = ink (concat ts)" "ink (bold_after ts) = ink (concat ts)"
  by (induction ts) (simp_all add: bold_before_def bold_after_def)

lemma solid_bold: "ts \<noteq> [] \<Longrightarrow> solid (bold_before ts) \<noteq> [] \<and> solid (bold_after ts) \<noteq> []"
  by (cases ts) (simp_all add: bold_before_def bold_after_def)

lemma take_pending_ink: "mset (head_ink (take_pending ts ps pe h)) = mset (head_ink h) + mset (ink (concat ts))"
  by (simp add: take_pending_def head_ink_def)

lemma leave_pending_ink: "head_ink (leave_pending ts ps pe h) = head_ink h @ ink (concat ts)"
  by (simp add: leave_pending_def head_ink_def)

lemma take_pending_full: "\<not> empty_leaf (Parsed h cs) \<Longrightarrow> \<not> empty_leaf (Parsed (take_pending ts ps pe h) cs)"
  using solid_not_blank [of "trim_space (bold_before ts @ ps_content h)"] solid_bold [of ts]
  by (auto simp: empty_leaf_def take_pending_def)

lemma leave_pending_full: "ts \<noteq> [] \<Longrightarrow> \<not> empty_leaf (Parsed (leave_pending ts ps pe h) cs)"
  using solid_not_blank [of "trim_space (ps_content h @ bold_after ts)"] solid_bold [of ts]
  by (auto simp: empty_leaf_def leave_pending_def)

lemma fold_walk_facts:
  "fold_walk ss ts ps pe = (out, ts', r) \<Longrightarrow>
   mset (section_ink out) + mset (ink (concat ts')) = mset (section_ink ss) + mset (ink (concat ts))
   \<and> \<not> list_ex empty_leaf out \<and> (children_tidy ss \<longrightarrow> children_tidy out) \<and> (\<not> list_all empty_leaf ss \<longrightarrow> out \<noteq> [])"
proof (induction ss ts ps pe arbitrary: out ts' r rule: fold_walk.induct)
  case (2 h cs ss ts ps pe)
  show ?case
  proof (cases "empty_leaf (Parsed h cs)")
    case True
    then have empty: "cs = []" "ink (ps_content h) = []" by (simp_all add: empty_leaf_def ink_blank)
    show ?thesis
    proof (cases "trim_space (ps_title h) = []")
      case blank: True
      with True "2.prems" have "fold_walk ss ts ps pe = (out, ts', r)" by simp
      from "2.IH"(2) [OF True refl _ this] blank True empty show ?thesis
        by (simp add: head_ink_def ink_blank)
    next
      case False
      with True "2.prems" have run: "fold_walk ss (ts @ [trim_space (ps_title h)]) (min_non_zero ps (ps_start h))
          (if ps_end h > pe then ps_end h else pe) = (out, ts', r)" by simp
      from "2.IH"(1) [OF True refl False run] True empty show ?thesis by (simp add: head_ink_def)
    qed
  next
    case False
    obtain out1 where run: "(if ts = [] then fold_walk ss ts ps pe else fold_walk ss [] 0 0) = (out1, ts', r)"
      "out = Parsed (take_pending ts ps pe h) cs # out1"
      using "2.prems" False by (auto split: prod.splits)
    have "mset (section_ink out1) + mset (ink (concat ts')) = mset (section_ink ss)
      \<and> \<not> list_ex empty_leaf out1 \<and> (children_tidy ss \<longrightarrow> children_tidy out1)"
    proof (cases "ts = []")
      case True
      with run(1) have "fold_walk ss ts ps pe = (out1, ts', r)" by simp
      from "2.IH"(3) [OF False True this] True show ?thesis by simp
    next
      case ne: False
      with run(1) have "fold_walk ss [] 0 0 = (out1, ts', r)" by simp
      from "2.IH"(4) [OF False ne this] show ?thesis by simp
    qed
    with False run(2) take_pending_full [OF False] show ?thesis
      by (auto simp: take_pending_ink ac_simps)
  qed
qed simp

lemma fold_siblings_facts:
  "mset (section_ink (fold_siblings ss)) = mset (section_ink ss) \<and> uniform (fold_siblings ss)
   \<and> (children_tidy ss \<longrightarrow> children_tidy (fold_siblings ss))"
proof (cases "\<not> list_ex empty_leaf ss \<or> list_all empty_leaf ss")
  case True
  then show ?thesis by (auto simp: fold_siblings_def uniform_def)
next
  case False
  obtain out ts ps pe where run: "fold_walk ss [] 0 0 = (out, ts, ps, pe)" by (metis prod.exhaust)
  note facts = fold_walk_facts [OF run]
  have ne: "out \<noteq> []" using facts False by blast
  then obtain xs h cs where out: "out = xs @ [Parsed h cs]" by (metis append_butlast_last_id parsed.exhaust)
  show ?thesis
  proof (cases "ts = []")
    case True
    with False run facts show ?thesis by (simp add: fold_siblings_def uniform_def)
  next
    case ts: False
    with False run out have "fold_siblings ss = xs @ [Parsed (leave_pending ts ps pe h) cs]" by (simp add: fold_siblings_def)
    with facts leave_pending_full [OF ts] show ?thesis by (auto simp: out uniform_def leave_pending_ink ac_simps)
  qed
qed

lemma fold_children_facts: "mset (section_ink (fold_children ss)) = mset (section_ink ss) \<and> children_tidy (fold_children ss)"
  by (induction ss rule: fold_children.induct) (use fold_siblings_facts in simp_all)

text \<open>
  Folding loses no text: every byte of every title and body is still there. And it folds all that
  can be folded: an empty leaf is left only among siblings that are all empty leaves.
\<close>
lemma fold_empty_leaf_sections_lossless:
  "mset (section_ink (fold_empty_leaf_sections ss)) = mset (section_ink ss)
   \<and> uniform (fold_empty_leaf_sections ss) \<and> children_tidy (fold_empty_leaf_sections ss)"
  using fold_siblings_facts [of "fold_children ss"] fold_children_facts [of ss]
  by (simp add: fold_empty_leaf_sections_def)

subsection \<open>Page ranges cover what is below\<close>

fun map_heads :: "(section_head \<Rightarrow> section_head) \<Rightarrow> parsed list \<Rightarrow> parsed list" where
  "map_heads f [] = []"
| "map_heads f (Parsed h cs # ss) = Parsed (f h) (map_heads f cs) # map_heads f ss"

abbreviation without_pages :: "section_head \<Rightarrow> section_head" where
  "without_pages h \<equiv> h\<lparr>ps_start := 0, ps_end := 0\<rparr>"

definition covers :: "int \<Rightarrow> int \<Rightarrow> section_head \<Rightarrow> bool" where
  "covers mn mx d \<longleftrightarrow> (0 < ps_start d \<longrightarrow> 0 < mn \<and> mn \<le> ps_start d) \<and> (0 < ps_end d \<longrightarrow> ps_end d \<le> mx)"

fun pages_nested :: "parsed list \<Rightarrow> bool" where
  "pages_nested [] = True"
| "pages_nested (Parsed h cs # ss) \<longleftrightarrow>
     list_all (covers (ps_start h) (ps_end h)) (preorder cs) \<and> pages_nested cs \<and> pages_nested ss"

lemma covers_mono: "covers mn mx d \<Longrightarrow> (0 < mn \<Longrightarrow> 0 < mn' \<and> mn' \<le> mn) \<Longrightarrow> mx \<le> mx' \<Longrightarrow> covers mn' mx' d"
  by (auto simp: covers_def)

lemma join_start_le: "0 \<le> acc \<Longrightarrow> (0 < p \<longrightarrow> 0 < join_start p acc \<and> join_start p acc \<le> p)
    \<and> (0 < acc \<longrightarrow> 0 < join_start p acc \<and> join_start p acc \<le> acc) \<and> 0 \<le> join_start p acc"
  by (auto simp: join_start_def)

lemma join_end_ge: "p \<le> join_end p acc \<and> acc \<le> join_end p acc"
  by (auto simp: join_end_def)

lemma propagate_pages_facts:
  "propagate_pages ss mn mx = (ss', mn', mx') \<Longrightarrow> 0 \<le> mn \<Longrightarrow>
   map_heads without_pages ss' = map_heads without_pages ss \<and> pages_nested ss' \<and> list_all (covers mn' mx') (preorder ss')
   \<and> 0 \<le> mn' \<and> (0 < mn \<longrightarrow> 0 < mn' \<and> mn' \<le> mn) \<and> mx \<le> mx'"
proof (induction ss mn mx arbitrary: ss' mn' mx' rule: propagate_pages.induct)
  case (2 h cs ss mn mx)
  obtain cs' cmin0 cmax0 where below: "propagate_pages cs 0 0 = (cs', cmin0, cmax0)" by (metis prod.exhaust)
  define cmin where "cmin = join_start (ps_start h) cmin0"
  define cmax where "cmax = join_end (ps_end h) cmax0"
  define h' where "h' = h\<lparr>ps_start := (if cmin > 0 then cmin else ps_start h), ps_end := (if cmax > 0 then cmax else ps_end h)\<rparr>"
  obtain rest where onward: "propagate_pages ss (join_start (ps_start h') mn) (join_end (ps_end h') mx) = (rest, mn', mx')"
    and ss': "ss' = Parsed h' cs' # rest"
    using "2.prems"(1) below unfolding h'_def cmin_def cmax_def
    by (cases "propagate_pages ss (join_start (ps_start h') mn) (join_end (ps_end h') mx)")
      (simp add: Let_def h'_def cmin_def cmax_def cong: if_cong)
  have inner: "map_heads without_pages cs' = map_heads without_pages cs \<and> pages_nested cs'
    \<and> list_all (covers cmin0 cmax0) (preorder cs') \<and> 0 \<le> cmin0 \<and> 0 \<le> cmax0"
    using "2.IH"(1) [OF below] by simp
  have h': "cmin0 > 0 \<Longrightarrow> 0 < ps_start h' \<and> ps_start h' \<le> cmin0" "cmax0 \<le> ps_end h' \<or> cmax0 = 0"
    using inner join_start_le [of cmin0 "ps_start h"] join_end_ge [of "ps_end h" cmax0]
    by (auto simp: h'_def cmin_def cmax_def)
  have cover_h: "list_all (covers (ps_start h') (ps_end h')) (preorder cs')"
    unfolding list_all_iff
  proof
    fix d assume "d \<in> set (preorder cs')"
    with inner have "covers cmin0 cmax0 d" by (simp add: list_all_iff)
    with h' show "covers (ps_start h') (ps_end h') d" by (auto simp: covers_def)
  qed
  have mn: "0 \<le> join_start (ps_start h') mn" using join_start_le "2.prems"(2) by blast
  have outer: "map_heads without_pages rest = map_heads without_pages ss \<and> pages_nested rest \<and> list_all (covers mn' mx') (preorder rest)
    \<and> 0 \<le> mn' \<and> (0 < join_start (ps_start h') mn \<longrightarrow> 0 < mn' \<and> mn' \<le> join_start (ps_start h') mn) \<and> join_end (ps_end h') mx \<le> mx'"
    by (rule "2.IH"(2) [OF below [symmetric] refl cmin_def cmax_def h'_def onward mn])
  let ?mn = "join_start (ps_start h') mn" and ?mx = "join_end (ps_end h') mx"
  have "0 < ps_start h' \<Longrightarrow> 0 < mn' \<and> mn' \<le> ps_start h'" "0 < mn \<Longrightarrow> 0 < mn' \<and> mn' \<le> mn"
    using outer join_start_le [OF "2.prems"(2), of "ps_start h'"] by linarith+
  moreover have "ps_end h' \<le> mx'" "mx \<le> mx'" using outer join_end_ge [of "ps_end h'" mx] by linarith+
  ultimately have "covers mn' mx' h'" "list_all (covers mn' mx') (preorder cs')" "0 < mn \<longrightarrow> 0 < mn' \<and> mn' \<le> mn" "mx \<le> mx'"
    using cover_h by (auto simp: list_all_iff intro: covers_mono [of "ps_start h'" "ps_end h'"]) (simp add: covers_def)
  with inner outer cover_h show ?case by (simp add: ss') (simp add: h'_def)
qed simp

text \<open>What propagation does to the ranges and to nothing else.\<close>

lemma propagated_pages:
  "pages_nested (propagate_section_pages ss) \<and> map_heads without_pages (propagate_section_pages ss) = map_heads without_pages ss"
  using propagate_pages_facts [of ss 0 0] by (cases "propagate_pages ss 0 0") (simp add: propagate_section_pages_def)

text \<open>
  After page propagation the known pages of a section lie inside the range of every section above
  it; nothing but page ranges has changed.
\<close>
lemma propagate_section_pages_nested:
  "pages_nested (propagate_section_pages ss) \<and> map_heads without_pages (propagate_section_pages ss) = map_heads without_pages ss"
  by (rule propagated_pages)

lemma section_ink_without_pages: "section_ink (map_heads without_pages ss) = section_ink ss"
  by (induction ss rule: preorder.induct) (simp_all add: head_ink_def)

lemma propagate_text: "section_ink (propagate_section_pages ss) = section_ink ss"
  by (metis propagated_pages section_ink_without_pages)

end
