(* ===== verification/Section_Chunks.thy ===== *)
theory Section_Chunks
  imports Section_Shape
begin

text \<open>
  Cutting oversized leaves (\<open>chunkOversizedLeaves\<close>, \<open>splitContentByWords\<close>, \<open>deriveChunkTitle\<close> of
  \<open>pkg/parser/pdf.go\<close>), and the shaping passes in the order \<open>parseDoc\<close> composes them.
\<close>

subsection \<open>Splitting text\<close>

definition chunk_target :: "nat \<Rightarrow> nat" where
  "chunk_target target = (if target < 200 then 200 else target)"

text \<open>Where the next piece ends: the last space before the limit unless it comes too early.\<close>

definition word_cut :: "nat \<Rightarrow> string \<Rightarrow> nat" where
  "word_cut target s =
     (let upper = target + target div 4;
          upper = (if upper > length s then length s else upper)
      in case last_index_byte (take upper s) (CHR '' '') of
           None \<Rightarrow> upper
         | Some i \<Rightarrow> if i < target div 2 then upper else i)"

lemma word_cut_bounds:
  assumes "200 \<le> target" "target + target div 4 < length s"
  shows "100 \<le> word_cut target s \<and> word_cut target s \<le> target + target div 4"
proof -
  let ?upper = "target + target div 4"
  show ?thesis
  proof (cases "last_index_byte (take ?upper s) (CHR '' '')")
    case None
    with assms show ?thesis by (simp add: word_cut_def)
  next
    case (Some i)
    from last_index_byte_Some [OF Some] have "i < ?upper" by simp
    then have "\<not> i < target div 2 \<Longrightarrow> 100 \<le> i" using assms(1) by linarith
    with Some assms \<open>i < ?upper\<close> show ?thesis by (simp add: word_cut_def)
  qed
qed

lemma chunk_target_ge: "200 \<le> chunk_target target"
  by (simp add: chunk_target_def)

function split_pieces :: "nat \<Rightarrow> string \<Rightarrow> string list" where
  "split_pieces target s =
     (let t = chunk_target target
      in if s = [] then []
         else if length s \<le> t + t div 4 then [trim_space s]
         else let cut = word_cut t s
              in trim_space (take cut s) # split_pieces target (trim_space (drop cut s)))"
  by pat_completeness auto

termination
proof (relation "measure (\<lambda>(target, s). length s)", goal_cases)
  case (2 target s t cut)
  then have "100 \<le> cut" "t + t div 4 < length s" using word_cut_bounds [of t s] chunk_target_ge by auto
  then show ?case using length_trim_space_le [of "drop cut s"] by simp
qed simp

declare split_pieces.simps [simp del]

definition split_content_by_words :: "string \<Rightarrow> nat \<Rightarrow> string list" where
  "split_content_by_words s target =
     (let s = trim_space s; t = chunk_target target
      in if length s \<le> t + t div 4 then [s] else split_pieces target s)"

subsection \<open>Titles of chunks\<close>

definition trim_right_set :: "string \<Rightarrow> char list \<Rightarrow> string" where
  "trim_right_set s cutset = rev (dropWhile (\<lambda>c. c \<in> set cutset) (rev s))"

definition title_cutset :: string where
  "title_cutset = '' ,;.:''"

definition derive_chunk_title :: "string \<Rightarrow> string \<Rightarrow> string" where
  "derive_chunk_title chunk fallback =
     (let s = trim_space chunk;
          labelled = (case str_index s '':'' of
             Some i \<Rightarrow> if 0 < i \<and> i < 80 \<and> length (str_fields (trim_space (take i s))) \<ge> 2 then Some (trim_space (take i s)) else None
           | None \<Rightarrow> None)
      in if s = [] then fallback
         else case labelled of
           Some t \<Rightarrow> t
         | None \<Rightarrow>
             (if length s \<le> 60 then trim_right_set s title_cutset
              else let cut = (case last_index_byte (take 60 s) (CHR '' '') of None \<Rightarrow> 60 | Some i \<Rightarrow> if i < 30 then 60 else i);
                       t = trim_right_set (trim_space (take cut s)) title_cutset
                   in if t = [] then fallback else t))"

subsection \<open>Cutting leaves\<close>

definition part_dash :: string where
  "part_dash = [CHR '' '', CHR 0xE2, CHR 0x80, CHR 0x94, CHR '' '']"

definition chunk_head :: "section_head \<Rightarrow> nat \<Rightarrow> string \<Rightarrow> section_head" where
  "chunk_head h i piece =
     \<lparr>ps_level = ps_level h + 1, ps_title = derive_chunk_title piece (ps_title h @ part_dash @ ''part '' @ itoa (int i + 1)),
       ps_content = piece, ps_start = ps_start h, ps_end = ps_end h, ps_meta = Map.empty\<rparr>"

fun number_chunks :: "section_head \<Rightarrow> nat \<Rightarrow> string list \<Rightarrow> parsed list" where
  "number_chunks h i [] = []"
| "number_chunks h i (p # ps) = Parsed (chunk_head h i p) [] # number_chunks h (i + 1) ps"

definition chunk_leaf :: "section_head \<Rightarrow> parsed" where
  "chunk_leaf h =
     (if length (ps_content h) \<le> 2400 then Parsed h []
      else let pieces = split_content_by_words (ps_content h) 900
           in if length pieces \<le> 1 then Parsed h []
              else Parsed \<lparr>ps_level = ps_level h, ps_title = ps_title h, ps_content = [], ps_start = ps_start h,
                     ps_end = ps_end h, ps_meta = Map.empty\<rparr> (number_chunks h 0 pieces))"

fun chunk_oversized_leaves :: "parsed list \<Rightarrow> parsed list" where
  "chunk_oversized_leaves [] = []"
| "chunk_oversized_leaves (Parsed h cs # ss) =
     (if cs \<noteq> [] then Parsed h (chunk_oversized_leaves cs) else chunk_leaf h) # chunk_oversized_leaves ss"

subsection \<open>The passes together\<close>

text \<open>What \<open>parseDoc\<close> does to the tree it has read off the fonts, and \<open>parsePDFWithOutline\<close> to the one of the bookmarks.\<close>

definition shape_sections :: "int \<Rightarrow> parsed list \<Rightarrow> parsed list" where
  "shape_sections max_sections ss =
     cap_leaf_sections (chunk_oversized_leaves (propagate_section_pages (fold_empty_leaf_sections ss))) (resolved_max_sections max_sections)"

definition shape_outline :: "int \<Rightarrow> parsed list \<Rightarrow> parsed list" where
  "shape_outline max_sections ss =
     cap_leaf_sections (propagate_section_pages (fold_empty_leaf_sections ss)) (resolved_max_sections max_sections)"

subsection \<open>Pieces\<close>

lemma split_pieces_text: "solid (concat (split_pieces target s)) = solid s"
proof (induction target s rule: split_pieces.induct)
  case (1 target s)
  show ?case
  proof (cases "s = [] \<or> length s \<le> chunk_target target + chunk_target target div 4")
    case True
    then show ?thesis by (auto simp: split_pieces.simps [of target s] Let_def)
  next
    case False
    let ?cut = "word_cut (chunk_target target) s"
    have "solid s = solid (take ?cut s) @ solid (drop ?cut s)" by (metis append_take_drop_id solid_append)
    with 1 [OF refl _ _ refl] False show ?thesis by (simp add: split_pieces.simps [of target s] Let_def chunk_target_def)
  qed
qed

text \<open>Pieces of a trimmed text are not empty and not long, and a long text has more than one.\<close>

definition piece_limit :: "nat \<Rightarrow> nat" where
  "piece_limit target = chunk_target target + chunk_target target div 4"

lemma split_pieces_step:
  "s \<noteq> [] \<Longrightarrow> piece_limit target < length s \<Longrightarrow>
   split_pieces target s = trim_space (take (word_cut (chunk_target target) s) s)
     # split_pieces target (trim_space (drop (word_cut (chunk_target target) s) s))"
  by (simp add: split_pieces.simps [of target s] Let_def piece_limit_def)

lemma split_pieces_ne: "s \<noteq> [] \<Longrightarrow> split_pieces target s \<noteq> []"
  by (simp add: split_pieces.simps [of target s] Let_def)

lemma word_cut_inside:
  assumes "piece_limit target < length s"
  shows "0 < word_cut (chunk_target target) s" "word_cut (chunk_target target) s < length s"
    "word_cut (chunk_target target) s \<le> piece_limit target"
  using word_cut_bounds [OF chunk_target_ge, of target s] assms by (simp_all add: piece_limit_def)

lemma split_pieces_ok:
  "trimmed s \<Longrightarrow> list_all (\<lambda>p. p \<noteq> [] \<and> length p \<le> piece_limit target) (split_pieces target s)"
proof (induction target s rule: split_pieces.induct)
  case (1 target s)
  have whole: "s \<noteq> [] \<Longrightarrow> trim_space s \<noteq> []" using trimmed_part_not_blank [OF 1(2), of s] by auto
  show ?case
  proof (cases "s = [] \<or> length s \<le> piece_limit target")
    case True
    with whole length_trim_space_le [of s] show ?thesis
      by (auto simp: split_pieces.simps [of target s] Let_def piece_limit_def)
  next
    case False
    let ?cut = "word_cut (chunk_target target) s"
    have cut: "0 < ?cut" "?cut < length s" "?cut \<le> piece_limit target" using word_cut_inside False by auto
    have "trim_space (take ?cut s) \<noteq> []"
      by (rule trimmed_part_not_blank [OF 1(2)]) (use cut in \<open>auto intro: exI [of _ "drop ?cut s"]\<close>)
    moreover have "length (trim_space (take ?cut s)) \<le> piece_limit target"
      using length_trim_space_le [of "take ?cut s"] cut by simp
    moreover have "list_all (\<lambda>p. p \<noteq> [] \<and> length p \<le> piece_limit target) (split_pieces target (trim_space (drop ?cut s)))"
      using False by (intro 1(1) [OF refl _ _ refl trimmed_trim_space]) (auto simp: piece_limit_def)
    ultimately show ?thesis using False by (simp add: split_pieces_step)
  qed
qed

lemma split_pieces_many:
  assumes "trimmed s" "piece_limit target < length s"
  shows "2 \<le> length (split_pieces target s)"
proof -
  let ?cut = "word_cut (chunk_target target) s"
  have cut: "?cut < length s" using word_cut_inside [OF assms(2)] by simp
  have "trim_space (drop ?cut s) \<noteq> []"
    by (rule trimmed_part_not_blank [OF assms(1)]) (use cut in \<open>auto intro: exI [of _ "take ?cut s"]\<close>)
  then have "split_pieces target (trim_space (drop ?cut s)) \<noteq> []" by (rule split_pieces_ne)
  moreover have "s \<noteq> []" using assms(2) by auto
  ultimately show ?thesis using assms(2) by (cases "split_pieces target (trim_space (drop ?cut s))") (simp_all add: split_pieces_step)
qed

text \<open>
  Splitting keeps the text in order; no piece is longer than the target and a quarter; unless the
  text is blank no piece is empty, and a text longer than that is really split.
\<close>
lemma split_content_pieces:
  "solid (concat (split_content_by_words s target)) = solid s
   \<and> list_all (\<lambda>p. length p \<le> piece_limit target \<and> (p = [] \<longrightarrow> trim_space s = [])) (split_content_by_words s target)
   \<and> (length (split_content_by_words s target) \<le> 1) = (length (trim_space s) \<le> piece_limit target)"
proof (cases "length (trim_space s) \<le> piece_limit target")
  case True
  then show ?thesis by (auto simp: split_content_by_words_def piece_limit_def Let_def)
next
  case False
  then have pieces: "split_content_by_words s target = split_pieces target (trim_space s)"
    by (auto simp: split_content_by_words_def piece_limit_def Let_def)
  have "2 \<le> length (split_pieces target (trim_space s))" using split_pieces_many [OF trimmed_trim_space] False by simp
  with False split_pieces_ok [OF trimmed_trim_space, of target s] show ?thesis
    by (auto simp: pieces split_pieces_text list_all_iff)
qed

subsection \<open>Cut trees\<close>

fun leaf_heads :: "parsed list \<Rightarrow> section_head list" where
  "leaf_heads [] = []"
| "leaf_heads (Parsed h cs # ss) = (if cs = [] then [h] else leaf_heads cs) @ leaf_heads ss"

lemma leaf_heads_append [simp]: "leaf_heads (xs @ ys) = leaf_heads xs @ leaf_heads ys"
  by (induction xs rule: leaf_heads.induct) auto

definition body_text :: "parsed list \<Rightarrow> string" where
  "body_text ss = concat (map (\<lambda>h. solid (ps_content h)) (preorder ss))"

lemma body_text_simps [simp]:
  "body_text [] = []" "body_text (Parsed h cs # ss) = solid (ps_content h) @ body_text cs @ body_text ss"
  by (simp_all add: body_text_def)

lemma chunks_ne: "ss \<noteq> [] \<Longrightarrow> chunk_oversized_leaves ss \<noteq> []"
  by (cases ss rule: chunk_oversized_leaves.cases) simp_all

lemma number_chunks_facts:
  "body_text (number_chunks h i ps) = solid (concat ps)" "map ps_content (leaf_heads (number_chunks h i ps)) = ps"
  "number_chunks h i ps = [] \<longleftrightarrow> ps = []"
  by (induction h i ps rule: number_chunks.induct) (simp_all add: chunk_head_def)

lemma chunk_leaf_facts:
  "body_text [chunk_leaf h] = solid (ps_content h) \<and> list_all (\<lambda>d. length (trim_space (ps_content d)) \<le> 2400) (leaf_heads [chunk_leaf h])
   \<and> mset (head_ink h) \<subseteq># mset (section_ink [chunk_leaf h])"
proof (cases "length (ps_content h) \<le> 2400 \<or> length (split_content_by_words (ps_content h) 900) \<le> 1")
  case True
  have "length (trim_space (ps_content h)) \<le> 2400"
  proof (cases "length (ps_content h) \<le> 2400")
    case short: True
    then show ?thesis using length_trim_space_le [of "ps_content h"] by linarith
  next
    case False
    with True split_content_pieces [of "ps_content h" 900] show ?thesis by (simp add: piece_limit_def chunk_target_def)
  qed
  moreover have "chunk_leaf h = Parsed h []" using True by (auto simp: chunk_leaf_def Let_def)
  ultimately show ?thesis by simp
next
  case False
  let ?ps = "split_content_by_words (ps_content h) 900"
  have ne: "?ps \<noteq> []" using False by auto
  note pieces = split_content_pieces [of "ps_content h" 900]
  have "length (trim_space p) \<le> 2400" if "p \<in> set ?ps" for p
    using pieces that length_trim_space_le [of p] by (auto simp: list_all_iff piece_limit_def chunk_target_def)
  then have "list_all (\<lambda>d. length (trim_space (ps_content d)) \<le> 2400) (leaf_heads (number_chunks h 0 ?ps))"
    using number_chunks_facts(2) [of h 0 ?ps] by (simp add: list_all_iff) (metis image_eqI list.set_map)
  moreover have "mset (ink (ps_content h)) \<subseteq># mset (section_ink (number_chunks h 0 ?ps))"
  proof -
    have "mset (ink (concat ps)) \<subseteq># mset (section_ink (number_chunks h i ps))" for i ps
    proof (induction ps arbitrary: i)
      case (Cons p ps)
      from Cons [of "i + 1"] show ?case
        by (simp add: chunk_head_def head_ink_def) (meson mset_subset_eq_add_right subset_mset.add_mono subset_mset.order_refl subset_mset.order_trans)
    qed simp
    moreover have "ink (concat ?ps) = ink (ps_content h)" using pieces by (simp add: ink_def)
    ultimately show ?thesis by metis
  qed
  ultimately show ?thesis
    using False ne pieces number_chunks_facts(1,3) [of h 0 ?ps] by (simp add: chunk_leaf_def Let_def head_ink_def)
qed

text \<open>
  C38. After cutting, no leaf holds more than 2400 bytes of text, and the bodies read from top to bottom
  are what they were.
\<close>
lemma chunk_oversized_leaves_bounded:
  "list_all (\<lambda>d. length (trim_space (ps_content d)) \<le> 2400) (leaf_heads (chunk_oversized_leaves ss))
   \<and> body_text (chunk_oversized_leaves ss) = body_text ss"
proof (induction ss rule: chunk_oversized_leaves.induct)
  case (2 h cs ss)
  show ?case
  proof (cases "cs = []")
    case True
    obtain h' cs' where leaf: "chunk_leaf h = Parsed h' cs'" by (cases "chunk_leaf h")
    with 2 True chunk_leaf_facts [of h] show ?thesis by simp
  next
    case False
    with 2 chunks_ne [OF False] show ?thesis by simp
  qed
qed simp

lemma chunks_keep_ink: "mset (section_ink ss) \<subseteq># mset (section_ink (chunk_oversized_leaves ss))"
proof (induction ss rule: chunk_oversized_leaves.induct)
  case (2 h cs ss)
  show ?case
  proof (cases "cs = []")
    case True
    obtain h' cs' where leaf: "chunk_leaf h = Parsed h' cs'" by (cases "chunk_leaf h")
    with 2 True chunk_leaf_facts [of h] show ?thesis
      by (simp add: add.assoc [symmetric] subset_mset.add_mono)
  next
    case False
    with 2 show ?thesis by (simp add: subset_mset.add_mono)
  qed
qed simp

text \<open>
  No text is lost on the way from the sections as read to the outline that is stored: folding, page
  ranges, cutting and the cap together keep every byte of every title and body, for any cap.
\<close>
lemma shape_sections_lossless:
  "mset (section_ink ss) \<subseteq># mset (section_ink (shape_sections max_sections ss))
   \<and> mset (section_ink (shape_outline max_sections ss)) = mset (section_ink ss)"
proof -
  have folded: "mset (section_ink (propagate_section_pages (fold_empty_leaf_sections ss))) = mset (section_ink ss)"
    using fold_empty_leaf_sections_lossless [of ss] by (simp add: propagate_text)
  with chunks_keep_ink [of "propagate_section_pages (fold_empty_leaf_sections ss)"] show ?thesis
    by (simp add: shape_sections_def shape_outline_def cap_leaf_ink)
qed

subsection \<open>Limits\<close>

text \<open>Without a space among the first 1125 bytes the text is cut there, whatever word or character that falls in.\<close>

lemma hard_cut:
  assumes "CHR '' '' \<notin> set (take 1125 s)" "1125 < length s"
  shows "word_cut 900 s = 1125"
proof -
  have "last_index_byte (take 1125 s) (CHR '' '') = None"
    using assms by (auto simp: last_index_byte_def Let_def filter_empty_conv in_set_conv_nth)
  with assms(2) show ?thesis by (simp add: word_cut_def)
qed

lemma nth_pairs: "k < n \<Longrightarrow> concat (replicate n [a, b]) ! (2 * k) = a"
proof (induction n arbitrary: k)
  case (Suc n)
  then show ?case by (cases k) simp_all
qed simp

text \<open>Six hundred two-byte characters without a space: the first piece ends with half a character.\<close>

lemma cut_inside_character:
  fixes s :: string
  defines "s \<equiv> concat (replicate 600 [CHR 0xC3, CHR 0xA9])"
  shows "word_cut 900 s = 1125 \<and> s ! (word_cut 900 s - 1) = CHR 0xC3"
proof -
  have "set s \<subseteq> {CHR 0xC3, CHR 0xA9}" by (auto simp: s_def)
  then have "CHR '' '' \<notin> set (take 1125 s)" using set_take_subset [of 1125 s] by blast
  moreover have "length s = 1200" by (simp add: s_def length_concat sum_list_replicate)
  ultimately have "word_cut 900 s = 1125" by (intro hard_cut) simp_all
  with nth_pairs [of 562 600 "CHR 0xC3" "CHR 0xA9"] show ?thesis by (simp add: s_def)
qed

text \<open>A short piece of mere punctuation gets the empty title, not the fallback.\<close>

lemma punctuation_title: "derive_chunk_title ''...'' fallback = []"
proof -
  have "trim_space ''...'' = ''...''" by (rule trim_space_visible_ends) (simp_all add: visible_ascii_def less_char_def)
  then show ?thesis by (simp add: derive_chunk_title_def has_prefix_def trim_right_set_def title_cutset_def)
qed

text \<open>Tables between the leaves block the cap.\<close>

lemma tables_block_the_cap:
  assumes "\<not> is_table_leaf a" "is_table_leaf t" "\<not> is_table_leaf b"
  shows "cap_leaf_sections [Parsed a [], Parsed t [], Parsed b []] 1 = [Parsed a [], Parsed t [], Parsed b []]"
proof -
  let ?ss = "[Parsed a [], Parsed t [], Parsed b []]"
  have stuck: "merge_one_smallest [Parsed no_section ?ss] = None"
    using assms by (simp add: merge_one_smallest_def smallest_pair_def leaf_pairs_def)
  have "cap_loop (Suc 999999) 1 [Parsed no_section ?ss] = [Parsed no_section ?ss]" using stuck by (subst cap_loop.simps) simp
  then show ?thesis by (simp add: cap_leaf_sections_def)
qed

end
