(* ===== verification/Table_Text.thy ===== *)
theory Table_Text
  imports Parsed_Section
begin

text \<open>
  Tables as Markdown text: the PDF tables (\<open>normaliseTableRows\<close>, \<open>tableToMarkdown\<close>, \<open>escapeMarkdownCell\<close>,
  \<open>extractPDFTables\<close>, \<open>attachTableSections\<close> of \<open>pkg/parser/pdf.go\<close>) and those of the other formats
  (\<open>renderTableMarkdown\<close> of \<open>pkg/parser/docx.go\<close>).

  The table finder is a parameter: for each page, whether the document's time budget is spent before it,
  and the rows of its tables, or \<open>None\<close> for a page that cannot be read or whose search failed.
\<close>

abbreviation line_feed :: char where
  "line_feed \<equiv> CHR 0x0A"

definition is_all_blank :: "string list \<Rightarrow> bool" where
  "is_all_blank row = list_all (\<lambda>c. trim_space c = []) row"

definition max_cols :: "string list list \<Rightarrow> nat" where
  "max_cols rows = fold (\<lambda>r m. if length r > m then length r else m) rows 0"

definition pad_row :: "nat \<Rightarrow> string list \<Rightarrow> string list" where
  "pad_row cols r = map (\<lambda>i. if i < length r then trim_space (r ! i) else []) [0..<cols]"

definition normalise_table_rows :: "string list list \<Rightarrow> string list list" where
  "normalise_table_rows rows =
     (if max_cols rows = 0 then []
      else filter (\<lambda>row. \<not> is_all_blank row) (map (pad_row (max_cols rows)) rows))"

definition replace_double_space :: "string \<Rightarrow> string" where
  "replace_double_space s = replace_all [(''  '', '' '')] s"

lemma replace_double_Cons:
  "replace_double_space [] = []"
  "replace_double_space (c # s) =
     (if has_prefix (c # s) ''  '' then CHR '' '' # replace_double_space (drop 1 s) else c # replace_double_space s)"
  by (simp_all add: replace_double_space_def)

lemma replace_double_le: "length (replace_double_space s) \<le> length s"
  unfolding replace_double_space_def by (rule replace_all_le) simp

lemma replace_double_shrinks: "str_index s ''  '' \<noteq> None \<Longrightarrow> length (replace_double_space s) < length s"
proof (induction s)
  case (Cons c s)
  show ?case
  proof (cases "has_prefix (c # s) ''  ''")
    case True
    then have "1 \<le> length s" by (cases s) (auto simp: has_prefix_def)
    with True replace_double_le [of "drop 1 s"] show ?thesis by (simp add: replace_double_Cons)
  next
    case False
    with Cons show ?thesis by (simp add: replace_double_Cons)
  qed
qed simp

function squash_spaces :: "string \<Rightarrow> string" where
  "squash_spaces s = (if str_contains s ''  '' then squash_spaces (replace_double_space s) else s)"
  by pat_completeness auto
termination
  by (relation "measure length") (auto simp: str_contains_def intro: replace_double_shrinks)

declare squash_spaces.simps [simp del]

definition line_breaks :: "(string \<times> string) list" where
  "line_breaks = [([CHR 0x0D, CHR 0x0A], '' ''), ([CHR 0x0A], '' ''), ([CHR 0x0D], '' ''), ([CHR 0x09], '' '')]"

definition escape_markdown_cell :: "string \<Rightarrow> string" where
  "escape_markdown_cell s =
     (if s = [] then [] else trim_space (squash_spaces (replace_all line_breaks (replace_all [(''|'', ''&#124;'')] s))))"

definition emit_row :: "(string \<Rightarrow> string) \<Rightarrow> nat \<Rightarrow> string list \<Rightarrow> string" where
  "emit_row cell cols cells =
     ''|'' @ concat (map (\<lambda>i. '' '' @ (if i < length cells then cell (cells ! i) else []) @ '' |'') [0..<cols]) @ [line_feed]"

definition separator_row :: "nat \<Rightarrow> string" where
  "separator_row cols = ''|'' @ concat (replicate cols '' --- |'') @ [line_feed]"

definition trim_right_lf :: "string \<Rightarrow> string" where
  "trim_right_lf s = rev (dropWhile (\<lambda>c. c = line_feed) (rev s))"

definition table_to_markdown :: "string list list \<Rightarrow> string" where
  "table_to_markdown rows =
     (case rows of
        [] \<Rightarrow> []
      | header # rest \<Rightarrow>
          if header = [] then []
          else let cols = length header;
                   header = (if is_all_blank header then replicate cols [] else header)
               in trim_right_lf (emit_row escape_markdown_cell cols header @ separator_row cols
                    @ concat (map (emit_row escape_markdown_cell cols) rest)))"

text \<open>The renderer of the other formats escapes a pipe with a backslash and flattens line feeds only.\<close>

definition plain_cell :: "string \<Rightarrow> string" where
  "plain_cell s = replace_all [(''|'', [CHR 0x5C, CHR ''|''])] (trim_space (replace_all [([CHR 0x0A], '' '')] s))"

definition render_table_markdown :: "string list list \<Rightarrow> string" where
  "render_table_markdown rows =
     (let cols = max_cols rows
      in if rows = [] \<or> cols = 0 then []
         else trim_right_lf (emit_row plain_cell cols (hd rows) @ separator_row cols
                @ concat (map (emit_row plain_cell cols) (tl rows))))"

subsection \<open>Table sections\<close>

record table_opts =
  to_enabled :: bool
  to_min_rows :: int
  to_min_cols :: int

record table_page =
  tp_budget_spent :: bool
  tp_tables :: "string list list option list option"

definition table_section :: "table_opts \<Rightarrow> int \<Rightarrow> string list list \<Rightarrow> parsed option" where
  "table_section opts n raw =
     (let rows = normalise_table_rows raw;
          cols = (case rows of [] \<Rightarrow> 0 | r # _ \<Rightarrow> length r);
          md = table_to_markdown rows
      in if int (length rows) < to_min_rows opts then None
         else if int cols < to_min_cols opts then None
         else if trim_space md = [] then None
         else Some (Parsed \<lparr>ps_level = 1, ps_title = ''Table (page '' @ itoa n @ '')'', ps_content = md, ps_start = n, ps_end = n,
                ps_meta = [''table'' \<mapsto> ''true'', ''rows'' \<mapsto> itoa (int (length rows)), ''cols'' \<mapsto> itoa (int cols)]\<rparr> []))"

fun tables_from :: "table_opts \<Rightarrow> int \<Rightarrow> table_page list \<Rightarrow> parsed list" where
  "tables_from opts n [] = []"
| "tables_from opts n (p # ps) =
     (if tp_budget_spent p then []
      else (case tp_tables p of
              None \<Rightarrow> []
            | Some ts \<Rightarrow> List.map_filter (\<lambda>t. case t of None \<Rightarrow> None | Some raw \<Rightarrow> table_section opts n raw) ts)
           @ tables_from opts (n + 1) ps)"

definition extract_pdf_tables :: "table_opts option \<Rightarrow> table_page list \<Rightarrow> parsed list" where
  "extract_pdf_tables opts ps =
     (case opts of None \<Rightarrow> [] | Some knobs \<Rightarrow> if to_enabled knobs then tables_from knobs 1 ps else [])"

definition attach_table_sections :: "parsed_doc \<Rightarrow> parsed list \<Rightarrow> parsed_doc" where
  "attach_table_sections doc tables =
     (if tables = [] then doc
      else let (s, e) = fold (\<lambda>t (s, e). (if ps_start (head_of t) > 0 \<and> (s = 0 \<or> ps_start (head_of t) < s) then ps_start (head_of t) else s,
                                         if ps_end (head_of t) > e then ps_end (head_of t) else e)) tables (0, 0)
           in doc\<lparr>pd_sections := pd_sections doc
                @ [Parsed \<lparr>ps_level = 1, ps_title = ''Tables'', ps_content = [], ps_start = s, ps_end = e,
                     ps_meta = [''tables_container'' \<mapsto> ''true'']\<rparr> tables]\<rparr>)"

subsection \<open>Reading a table back\<close>

fun split_on :: "char \<Rightarrow> string \<Rightarrow> string list" where
  "split_on sep [] = [[]]"
| "split_on sep (c # s) =
     (if c = sep then [] # split_on sep s
      else case split_on sep s of [] \<Rightarrow> [[c]] | x # xs \<Rightarrow> (c # x) # xs)"

lemma split_on_none: "sep \<notin> set a \<Longrightarrow> split_on sep a = [a]"
  by (induction a) auto

lemma split_on_sep: "sep \<notin> set a \<Longrightarrow> split_on sep (a @ sep # b) = a # split_on sep b"
  by (induction a) auto

definition read_line :: "string \<Rightarrow> string list" where
  "read_line l = map trim_space (butlast (tl (split_on (CHR ''|'') l)))"

definition read_table :: "string \<Rightarrow> string list list" where
  "read_table md = (case map read_line (split_on line_feed md) of h # sep # rows \<Rightarrow> h # rows | _ \<Rightarrow> [])"

text \<open>A line of the grid, from the texts of its cells.\<close>

definition grid_line :: "string list \<Rightarrow> string" where
  "grid_line vs = ''|'' @ concat (map (\<lambda>v. '' '' @ v @ '' |'') vs)"

lemma emit_row_grid: "emit_row cell cols cells = grid_line (map (\<lambda>i. if i < length cells then cell (cells ! i) else []) [0..<cols]) @ [line_feed]"
  by (simp add: emit_row_def grid_line_def comp_def)

lemma separator_grid: "separator_row cols = grid_line (replicate cols ''---'') @ [line_feed]"
  by (simp add: separator_row_def grid_line_def)

lemma emit_row_full: "length cells = cols \<Longrightarrow> emit_row cell cols cells = grid_line (map cell cells) @ [line_feed]"
  by (auto simp: emit_row_grid map_nth intro!: arg_cong [where f = grid_line] nth_equalityI)

definition cell_ok :: "string \<Rightarrow> bool" where
  "cell_ok v \<longleftrightarrow> trimmed v \<and> CHR ''|'' \<notin> set v \<and> line_feed \<notin> set v"

lemma read_grid_line: "list_all cell_ok vs \<Longrightarrow> read_line (grid_line vs) = vs"
proof -
  assume ok: "list_all cell_ok vs"
  have "split_on (CHR ''|'') (concat (map (\<lambda>v. '' '' @ v @ '' |'') vs)) = map (\<lambda>v. '' '' @ v @ '' '') vs @ [[]]"
    using ok
  proof (induction vs)
    case (Cons v vs)
    then have "CHR ''|'' \<notin> set ('' '' @ v @ '' '')" by (simp add: cell_ok_def)
    from split_on_sep [OF this, of "concat (map (\<lambda>v. '' '' @ v @ '' |'') vs)"] Cons show ?case by simp
  qed simp
  then have "read_line (grid_line vs) = map trim_space (map (\<lambda>v. '' '' @ v @ '' '') vs)"
    by (simp add: read_line_def grid_line_def)
  also have "\<dots> = vs" using ok trim_space_padded by (auto simp: list_all_iff cell_ok_def intro!: map_idI)
  finally show ?thesis .
qed

lemma grid_line_ends: "grid_line vs \<noteq> [] \<and> last (grid_line vs) = CHR ''|''"
  by (induction vs rule: rev_induct) (simp_all add: grid_line_def)

lemma grid_line_no_lf: "list_all cell_ok vs \<Longrightarrow> line_feed \<notin> set (grid_line vs)"
  by (auto simp: grid_line_def cell_ok_def list_all_iff)

lemma trim_right_lf_lines:
  "ls \<noteq> [] \<Longrightarrow> last ls \<noteq> [] \<Longrightarrow> last (last ls) \<noteq> line_feed \<Longrightarrow>
   trim_right_lf (concat (map (\<lambda>l. l @ [line_feed]) ls)) = join ls [line_feed]"
proof -
  assume ne: "ls \<noteq> []" "last ls \<noteq> []" "last (last ls) \<noteq> line_feed"
  have joined: "concat (map (\<lambda>l. l @ [line_feed]) ls) = join ls [line_feed] @ [line_feed]" if "ls \<noteq> []" for ls
    using that
  proof (induction ls)
    case (Cons x xs)
    then show ?case by (cases xs) auto
  qed simp
  have end_ok: "join ls [line_feed] \<noteq> [] \<and> last (join ls [line_feed]) \<noteq> line_feed"
    using ne
  proof (induction ls)
    case (Cons x xs)
    then show ?case by (cases xs) auto
  qed simp
  then obtain u c where "join ls [line_feed] = u @ [c]" "c \<noteq> line_feed" by (metis append_butlast_last_id)
  with joined [OF ne(1)] show ?thesis by (simp add: trim_right_lf_def)
qed

lemma split_join: "ls \<noteq> [] \<Longrightarrow> list_all (\<lambda>l. line_feed \<notin> set l) ls \<Longrightarrow> split_on line_feed (join ls [line_feed]) = ls"
proof (induction ls)
  case (Cons x xs)
  then show ?case
    using split_on_sep [of line_feed x "join xs [line_feed]"] by (cases xs) (auto simp: split_on_none)
qed simp

text \<open>Escaped cells stay inside their cell.\<close>

lemma trim_space_subset: "set (trim_space s) \<subseteq> set s"
proof -
  obtain p q where "s = p @ trim_space s @ q" using trim_space_infix by blast
  then have "set s = set p \<union> set (trim_space s) \<union> set q" by (metis set_append sup_assoc)
  then show ?thesis by blast
qed

lemma squash_spaces_subset: "set (squash_spaces s) \<subseteq> insert (CHR '' '') (set s)"
proof (induction s rule: squash_spaces.induct)
  case (1 s)
  have "set (replace_double_space s) \<subseteq> insert (CHR '' '') (set s)"
    using set_replace_all [of _ "[(''  '', '' '')]" s] by (auto simp: replace_double_space_def)
  with 1 show ?case by (subst squash_spaces.simps) auto
qed

lemma escape_cell_ok: "cell_ok (escape_markdown_cell s)"
proof (cases "s = []")
  case True
  have "trimmed []" using trimmed_trim_space [of "[]"] by simp
  with True show ?thesis by (simp add: escape_markdown_cell_def cell_ok_def)
next
  case False
  let ?a = "replace_all [(''|'', ''&#124;'')] s"
  let ?b = "replace_all line_breaks ?a"
  have pipe: "CHR ''|'' \<notin> set ?a" using set_replace_all [of "CHR ''|''" "[(''|'', ''&#124;'')]" s] by auto
  have "CHR ''|'' \<notin> set ?b" using set_replace_all [of "CHR ''|''" line_breaks ?a] pipe by (auto simp: line_breaks_def)
  moreover have "line_feed \<notin> set ?b" using set_replace_all [of line_feed line_breaks ?a] by (auto simp: line_breaks_def)
  ultimately have "CHR ''|'' \<notin> set (squash_spaces ?b)" "line_feed \<notin> set (squash_spaces ?b)"
    using squash_spaces_subset [of ?b] by auto
  then have "CHR ''|'' \<notin> set (trim_space (squash_spaces ?b))" "line_feed \<notin> set (trim_space (squash_spaces ?b))"
    using trim_space_subset [of "squash_spaces ?b"] by auto
  with False trimmed_trim_space [of "squash_spaces ?b"] show ?thesis by (simp add: escape_markdown_cell_def cell_ok_def)
qed

lemma normalised_rows:
  assumes "row \<in> set (normalise_table_rows raw)"
  shows "length row = max_cols raw" "0 < max_cols raw" "\<not> is_all_blank row"
  using assms by (auto simp: normalise_table_rows_def pad_row_def split: if_splits)

lemma dashes_ok: "cell_ok ''---''"
  using trimmed_trim_space [of "''---''"] trim_space_visible_ends [of "''---''"]
  by (simp add: cell_ok_def visible_ascii_def less_char_def)

text \<open>
  C39. A table survives being written as Markdown: whatever the cells hold, pipes and line breaks
  included, reading the grid line by line and pipe by pipe gives its rows and columns back, each cell as escaped.
\<close>
lemma table_to_markdown_reads_back:
  "read_table (table_to_markdown (normalise_table_rows raw)) = map (map escape_markdown_cell) (normalise_table_rows raw)"
proof (cases "normalise_table_rows raw")
  case Nil
  then show ?thesis by (simp add: table_to_markdown_def read_table_def read_line_def)
next
  case (Cons header rows)
  let ?cols = "max_cols raw" and ?line = "\<lambda>r. grid_line (map escape_markdown_cell r)"
  let ?lines = "?line header # grid_line (replicate ?cols ''---'') # map ?line rows"
  have len: "length r = ?cols" "\<not> is_all_blank r" if "r \<in> set (header # rows)" for r
    using normalised_rows [of r raw] that Cons by auto
  have pos: "0 < ?cols" using normalised_rows(2) [of header raw] Cons by simp
  have ok: "list_all cell_ok (map escape_markdown_cell r)" for r using escape_cell_ok by (simp add: list_all_iff)
  have ok_dash: "list_all cell_ok (replicate ?cols ''---'')" using dashes_ok by (simp add: list_all_iff)
  have "concat (map (emit_row escape_markdown_cell ?cols) rows) = concat (map (\<lambda>l. l @ [line_feed]) (map ?line rows))"
    using len by (auto intro!: arg_cong [where f = concat] simp: emit_row_full comp_def)
  then have "table_to_markdown (header # rows) = trim_right_lf (concat (map (\<lambda>l. l @ [line_feed]) ?lines))"
    using len [of header] pos by (auto simp: table_to_markdown_def emit_row_full separator_grid Let_def)
  also have "\<dots> = join ?lines [line_feed]"
    using grid_line_ends by (intro trim_right_lf_lines) (auto simp: last_map)
  finally have "split_on line_feed (table_to_markdown (header # rows)) = ?lines"
    using grid_line_no_lf [OF ok] grid_line_no_lf [OF ok_dash] by (simp only:) (rule split_join, auto simp: list_all_iff)
  then show ?thesis
    using read_grid_line [OF ok] by (simp add: Cons read_table_def comp_def)
qed

end
