(* ===== verification/Pdf_Document.thy ===== *)
theory Pdf_Document
  imports Pdf_Rows Section_Chunks Table_Text Go_Prelude
begin

text \<open>
  From rows to a document (\<open>parseDoc\<close>, \<open>parsePDFWithOutline\<close>, \<open>pagesFromRows\<close>, \<open>buildHeadingLevelMap\<close> of
  \<open>pkg/parser/pdf.go\<close>): headings by font size and weight or by the bookmarks, the pages, the tables.
\<close>

subsection \<open>Pages\<close>

definition add_page_row :: "pdf_row \<Rightarrow> page_text list \<Rightarrow> page_text list" where
  "add_page_row r out =
     (let text = trim_space (pr_text r)
      in if text = [] \<or> pr_page r \<le> 0 then out
         else if out = [] \<or> pg_number (last out) \<noteq> pr_page r then out @ [\<lparr>pg_number = pr_page r, pg_text = text\<rparr>]
         else butlast out @ [(last out)\<lparr>pg_text := pg_text (last out) @ (if pg_text (last out) \<noteq> [] then newline else []) @ text\<rparr>])"

definition pages_from_rows :: "pdf_row list \<Rightarrow> page_text list" where
  "pages_from_rows rows = fold add_page_row rows []"

subsection \<open>Heading levels\<close>

definition round_size :: "f64 \<Rightarrow> int" where
  "round_size x = int64_of (f_add (f_mul x (Fin 2)) (Fin (1 / 2)))"

definition build_heading_level_map :: "pdf_row list \<Rightarrow> f64 \<Rightarrow> int \<Rightarrow> int option" where
  "build_heading_level_map rows least =
     (let bigs = rev (sort (remdups (map (\<lambda>r. round_size (pr_size r)) (filter (\<lambda>r. f_lt least (pr_size r)) rows))))
      in map_of (zip bigs (map (\<lambda>i. if int i + 1 > 6 then 6 else int i + 1) [0..<length bigs])))"

definition heading_levels :: "pdf_row list \<Rightarrow> f64 \<Rightarrow> int list" where
  "heading_levels rows least =
     map (\<lambda>r. the (build_heading_level_map rows least (round_size (pr_size r)))) (filter (\<lambda>r. f_lt least (pr_size r)) rows)"

definition bold_level :: "pdf_row list \<Rightarrow> f64 \<Rightarrow> int" where
  "bold_level rows least =
     (let b = fold (\<lambda>lv b. if lv + 1 > b then lv + 1 else b) (heading_levels rows least) 1 in if b > 6 then 6 else b)"

definition median_size :: "pdf_row list \<Rightarrow> f64" where
  "median_size rows =
     (let sizes = stable_sort f_lt (filter (\<lambda>x. f_lt (Fin 0) x) (map pr_size rows))
      in if sizes = [] then Fin 0 else sizes ! (length sizes div 2))"

definition heading_floor :: "f64 \<Rightarrow> f64" where
  "heading_floor median = f_mul median (rnd (6 / 5))"

subsection \<open>The walk over the rows\<close>

record pdf_flat =
  pf_level :: int
  pf_title :: string
  pf_body :: string
  pf_start :: int
  pf_end :: int

definition touch_page :: "int \<Rightarrow> pdf_flat \<Rightarrow> pdf_flat" where
  "touch_page page f =
     (if page \<le> 0 then f
      else f\<lparr>pf_start := (if pf_start f = 0 \<or> page < pf_start f then page else pf_start f),
             pf_end := (if page > pf_end f then page else pf_end f)\<rparr>)"

record heading_env =
  he_level :: "int \<Rightarrow> int option"
  he_bold :: int
  he_median :: f64

text \<open>The level of a row that is a heading, deepened by a sub-number.\<close>

definition row_heading :: "heading_env \<Rightarrow> pdf_row \<Rightarrow> string \<Rightarrow> int option" where
  "row_heading env row text =
     (let lvl = (case he_level env (round_size (pr_size row)) of
                   Some l \<Rightarrow> Some l
                 | None \<Rightarrow> if pr_bold row \<and> f_le (he_median env) (pr_size row) \<and> looks_like_heading text then Some (he_bold env) else None)
      in case lvl of
           None \<Rightarrow> None
         | Some l \<Rightarrow>
             if looks_like_heading text
             then Some (case numbered_heading_depth text of Some nd \<Rightarrow> if nd > 1 then l + (nd - 1) else l | None \<Rightarrow> l)
             else None)"

definition continues_heading :: "pdf_flat \<Rightarrow> int \<Rightarrow> pdf_row \<Rightarrow> bool" where
  "continues_heading cur lvl row =
     (pf_level cur > 0 \<and> lvl = pf_level cur \<and> pf_title cur \<noteq> [] \<and> trim_space (pf_body cur) = []
      \<and> (pf_end cur = 0 \<or> pr_page row = 0 \<or> pr_page row = pf_end cur))"

definition new_flat :: "int \<Rightarrow> string \<Rightarrow> pdf_flat" where
  "new_flat lvl title = \<lparr>pf_level = lvl, pf_title = title, pf_body = [], pf_start = 0, pf_end = 0\<rparr>"

text \<open>One row: the flats before the current one, and the current one.\<close>

definition add_row :: "heading_env \<Rightarrow> pdf_row \<Rightarrow> pdf_flat list \<times> pdf_flat \<Rightarrow> pdf_flat list \<times> pdf_flat" where
  "add_row env row st =
     (case st of (flats, cur) \<Rightarrow>
        let text = trim_space (pr_text row)
        in if text = [] then (flats, cur)
           else case row_heading env row text of
                  Some lvl \<Rightarrow>
                    if continues_heading cur lvl row
                    then (flats, touch_page (pr_page row) (cur\<lparr>pf_title := trim_space (pf_title cur @ '' '' @ text)\<rparr>))
                    else (flats @ [cur], touch_page (pr_page row) (new_flat lvl text))
                | None \<Rightarrow>
                    (flats, touch_page (pr_page row)
                       (cur\<lparr>pf_body := pf_body cur @ (if pf_body cur \<noteq> [] then '' '' else []) @ text\<rparr>)))"

definition read_flats :: "heading_env \<Rightarrow> pdf_row list \<Rightarrow> pdf_flat list" where
  "read_flats env rows = (case fold (add_row env) rows ([], new_flat 0 []) of (flats, cur) \<Rightarrow> flats @ [cur])"

definition drop_blank_front :: "pdf_flat list \<Rightarrow> pdf_flat list" where
  "drop_blank_front fs =
     (case fs of f # g # rest \<Rightarrow> if pf_level f = 0 \<and> trim_space (pf_body f) = [] then g # rest else fs | _ \<Rightarrow> fs)"

definition flats_title :: "pdf_flat list \<Rightarrow> string" where
  "flats_title fs =
     (let title = (case find (\<lambda>f. pf_level f = 1) fs of Some f \<Rightarrow> pf_title f | None \<Rightarrow> [])
      in if title = [] \<and> fs \<noteq> [] then pf_title (hd fs) else title)"

definition flat_section_head :: "pdf_flat \<Rightarrow> section_head option" where
  "flat_section_head f =
     (let content = trim_space (pf_body f)
      in if pf_level f = 0
         then if content = [] then None
              else Some \<lparr>ps_level = 1, ps_title = ''Introduction'', ps_content = content, ps_start = pf_start f, ps_end = pf_end f, ps_meta = Map.empty\<rparr>
         else Some \<lparr>ps_level = pf_level f, ps_title = pf_title f, ps_content = content, ps_start = pf_start f, ps_end = pf_end f, ps_meta = Map.empty\<rparr>)"

text \<open>No section recovered: one for the whole document.\<close>

definition whole_document :: "pdf_flat list \<Rightarrow> parsed" where
  "whole_document fs =
     (let bodies = filter (\<lambda>b. b \<noteq> []) (map (\<lambda>f. trim_space (pf_body f)) fs);
          (s, e) = fold (\<lambda>f (s, e). (if pf_start f > 0 \<and> (s = 0 \<or> pf_start f < s) then pf_start f else s, if pf_end f > e then pf_end f else e)) fs (0, 0)
      in Parsed \<lparr>ps_level = 1, ps_title = ''Document'', ps_content = join bodies '' '', ps_start = s, ps_end = e, ps_meta = Map.empty\<rparr> [])"

definition sections_of_flats :: "pdf_flat list \<Rightarrow> parsed list" where
  "sections_of_flats fs =
     (let ss = nest_heads (List.map_filter flat_section_head fs) in if ss = [] then [whole_document fs] else ss)"

definition heading_env_of :: "pdf_row list \<Rightarrow> heading_env" where
  "heading_env_of rows =
     (let median = median_size rows; least = heading_floor median
      in \<lparr>he_level = build_heading_level_map rows least, he_bold = bold_level rows least, he_median = median\<rparr>)"

definition document_from_rows :: "int \<Rightarrow> pdf_row list \<Rightarrow> parsed_doc" where
  "document_from_rows max_sections rows =
     (let flats = drop_blank_front (read_flats (heading_env_of rows) rows)
      in \<lparr>pd_title = flats_title flats, pd_sections = shape_sections max_sections (sections_of_flats flats), pd_pages = pages_from_rows rows\<rparr>)"

subsection \<open>Bookmarks\<close>

datatype bookmark = Bookmark string "bookmark list"

fun flatten_bookmarks :: "int \<Rightarrow> bookmark list \<Rightarrow> (int \<times> string) list" where
  "flatten_bookmarks depth [] = []"
| "flatten_bookmarks depth (Bookmark title children # rest) =
     (let lvl = (if depth + 1 > 6 then 6 else depth + 1); t = trim_space title
      in (if t \<noteq> [] then [(lvl, t)] else []))
     @ flatten_bookmarks (depth + 1) children @ flatten_bookmarks depth rest"

fun normalize_loop :: "string \<Rightarrow> bool \<Rightarrow> string \<Rightarrow> string" where
  "normalize_loop [] prev out = out"
| "normalize_loop (c # s) prev out =
     (if byte_in 97 122 c \<or> byte_in 48 57 c then normalize_loop s False (out @ [c])
      else if c = CHR '' '' \<or> c = CHR 0x09 \<or> c = CHR 0x0A
      then (if \<not> prev \<and> out \<noteq> [] then normalize_loop s True (out @ '' '') else normalize_loop s prev out)
      else normalize_loop s prev out)"

definition normalize_for_match :: "(string \<Rightarrow> string) \<Rightarrow> string \<Rightarrow> string" where
  "normalize_for_match lower s = trim_space (normalize_loop (lower s) False [])"

fun find_row :: "(string \<Rightarrow> string) \<Rightarrow> string \<Rightarrow> nat \<Rightarrow> pdf_row list \<Rightarrow> nat option" where
  "find_row lower want i [] = None"
| "find_row lower want i (r # rs) =
     (if has_prefix (normalize_for_match lower (pr_text r)) want then Some i else find_row lower want (i + 1) rs)"

text \<open>Level, title, and the index of the row where the heading starts.\<close>

fun match_bookmarks :: "(string \<Rightarrow> string) \<Rightarrow> pdf_row list \<Rightarrow> nat \<Rightarrow> (int \<times> string) list \<Rightarrow> (int \<times> string \<times> nat) list" where
  "match_bookmarks lower rows cursor [] = []"
| "match_bookmarks lower rows cursor ((lvl, title) # es) =
     (case find_row lower (normalize_for_match lower title) cursor (drop cursor rows) of
        None \<Rightarrow> match_bookmarks lower rows cursor es
      | Some i \<Rightarrow> (lvl, title, i) # match_bookmarks lower rows (i + 1) es)"

definition add_body_row :: "pdf_row \<Rightarrow> string \<times> int \<times> int \<Rightarrow> string \<times> int \<times> int" where
  "add_body_row row st =
     (case st of (body, s, e) \<Rightarrow>
        let text = trim_space (pr_text row)
        in if text = [] then st
           else (body @ (if body \<noteq> [] then '' '' else []) @ text,
                 if pr_page row > 0 \<and> (s = 0 \<or> pr_page row < s) then pr_page row else s,
                 if pr_page row > e then pr_page row else e))"

fun outline_heads :: "pdf_row list \<Rightarrow> (int \<times> string \<times> nat) list \<Rightarrow> section_head list" where
  "outline_heads rows [] = []"
| "outline_heads rows ((lvl, title, i) # ms) =
     (let stop = (case ms of [] \<Rightarrow> length rows | (l, t, j) # _ \<Rightarrow> j);
          page = pr_page (rows ! i);
          (body, s, e) = fold add_body_row (take (stop - (i + 1)) (drop (i + 1) rows)) ([], page, page)
      in \<lparr>ps_level = lvl, ps_title = title, ps_content = body, ps_start = s, ps_end = e, ps_meta = Map.empty\<rparr>)
     # outline_heads rows ms"

definition parse_with_outline :: "(string \<Rightarrow> string) \<Rightarrow> int \<Rightarrow> bookmark list \<Rightarrow> pdf_row list \<Rightarrow> parsed_doc option" where
  "parse_with_outline lower max_sections outline rows =
     (let flat = flatten_bookmarks 0 outline; chosen = match_bookmarks lower rows 0 flat
      in if flat = [] then None
         else if length chosen * 2 < length flat then None
         else let ss = nest_heads (outline_heads rows chosen)
              in Some \<lparr>pd_title = (case ss of [] \<Rightarrow> [] | s # _ \<Rightarrow> ps_title (head_of s)),
                       pd_sections = shape_outline max_sections ss, pd_pages = pages_from_rows rows\<rparr>)"

subsection \<open>Parsing\<close>

text \<open>
  An opened document: its words page by page, its bookmarks (\<open>None\<close> when they cannot be read), its tables.
  Opening and decrypting, which come before, are the PDF libraries' work.
\<close>

record pdf_source =
  pf_pages :: "pdf_word list option list"
  pf_outline :: "bookmark list option"
  pf_tables :: "table_page list"

datatype pdf_error = No_Text | No_Usable_Text

definition parse_doc :: "row_env \<Rightarrow> table_opts option \<Rightarrow> int \<Rightarrow> pdf_source \<Rightarrow> pdf_error + parsed_doc" where
  "parse_doc env opts max_sections src =
     (let rows = extract_pdf_rows env (pf_pages src)
      in if rows = [] then Inl No_Text
         else if \<not> rows_look_like_usable_text env rows then Inl No_Usable_Text
         else let tables = extract_pdf_tables opts (pf_tables src);
                  outlined = (case pf_outline src of
                     Some (b # bs) \<Rightarrow> parse_with_outline (re_lower env) max_sections (b # bs) rows
                   | _ \<Rightarrow> None)
              in Inr (attach_table_sections (case outlined of Some doc \<Rightarrow> doc | None \<Rightarrow> document_from_rows max_sections rows) tables))"

subsection \<open>Every row ends up in the document\<close>

definition flat_ink :: "pdf_flat \<Rightarrow> string" where
  "flat_ink f = ink (pf_title f) @ ink (pf_body f)"

definition walk_ink :: "pdf_flat list \<times> pdf_flat \<Rightarrow> string" where
  "walk_ink st = concat (map flat_ink (fst st @ [snd st]))"

lemma touch_page_facts [simp]:
  "pf_title (touch_page p f) = pf_title f" "pf_body (touch_page p f) = pf_body f" "pf_level (touch_page p f) = pf_level f"
  by (simp_all add: touch_page_def)

lemma ink_blank_char [simp]: "ink (CHR '' '' # s) = ink s"
  by (simp add: ink_def solid_def space_runes_def)

lemma add_row_ink: "walk_ink (add_row env row st) = walk_ink st @ ink (pr_text row)"
proof -
  obtain flats cur where st: "st = (flats, cur)" by force
  let ?text = "trim_space (pr_text row)"
  have row_ink: "ink (pr_text row) = ink ?text" by simp
  show ?thesis
  proof (cases "?text = []")
    case True
    then show ?thesis by (simp add: st add_row_def walk_ink_def ink_blank)
  next
    case False
    show ?thesis
    proof (cases "row_heading env row ?text")
      case None
      with False show ?thesis by (simp add: st add_row_def walk_ink_def flat_ink_def Let_def)
    next
      case (Some lvl)
      show ?thesis
      proof (cases "continues_heading cur lvl row")
        case True
        then have "ink (pf_body cur) = []" by (simp add: continues_heading_def ink_blank)
        with True Some False show ?thesis by (simp add: st add_row_def walk_ink_def flat_ink_def Let_def)
      next
        case fresh: False
        with Some False show ?thesis by (simp add: st add_row_def walk_ink_def flat_ink_def new_flat_def Let_def)
      qed
    qed
  qed
qed

lemma read_flats_ink: "concat (map flat_ink (read_flats env rows)) = concat (map (\<lambda>r. ink (pr_text r)) rows)"
proof -
  have "walk_ink (fold (add_row env) rows st) = walk_ink st @ concat (map (\<lambda>r. ink (pr_text r)) rows)" for st
    by (induction rows arbitrary: st) (simp_all add: add_row_ink)
  from this [of "([], new_flat 0 [])"] show ?thesis
    by (cases "fold (add_row env) rows ([], new_flat 0 [])") (simp add: read_flats_def walk_ink_def flat_ink_def new_flat_def)
qed

text \<open>Headings have a positive level; only the preamble, which has no title, is at level 0.\<close>

lemma heading_map_pos: "build_heading_level_map rows least k = Some l \<Longrightarrow> 1 \<le> l"
  by (auto simp: build_heading_level_map_def Let_def dest!: map_of_SomeD set_zip_rightD)

lemma bold_level_pos: "1 \<le> bold_level rows least"
proof -
  have "b \<le> fold (\<lambda>lv b. if lv + 1 > b then lv + 1 else b) lvs b" for lvs and b :: int
  proof (induction lvs arbitrary: b)
    case (Cons lv lvs)
    from Cons [of "if lv + 1 > b then lv + 1 else b"] show ?case by (simp split: if_splits)
  qed simp
  then show ?thesis by (simp add: bold_level_def Let_def)
qed

lemma heading_env_pos:
  "he_level (heading_env_of rows) k = Some l \<Longrightarrow> 1 \<le> l" "1 \<le> he_bold (heading_env_of rows)"
  using heading_map_pos bold_level_pos by (simp_all add: heading_env_of_def Let_def)

lemma row_heading_pos: "row_heading (heading_env_of rows) row text = Some lvl \<Longrightarrow> 1 \<le> lvl"
proof -
  assume run: "row_heading (heading_env_of rows) row text = Some lvl"
  obtain l where "1 \<le> l" and l: "lvl = (case numbered_heading_depth text of Some nd \<Rightarrow> if nd > 1 then l + (nd - 1) else l | None \<Rightarrow> l)"
  proof (cases "he_level (heading_env_of rows) (round_size (pr_size row))")
    case None
    with run that [of "he_bold (heading_env_of rows)"] heading_env_pos(2) show ?thesis
      by (simp add: row_heading_def Let_def split: if_splits)
  next
    case (Some l)
    with run that [of l] heading_env_pos(1) [OF Some] show ?thesis
      by (simp add: row_heading_def Let_def split: if_splits)
  qed
  then show ?thesis by (cases "numbered_heading_depth text") auto
qed

definition titles_ok :: "pdf_flat list \<times> pdf_flat \<Rightarrow> bool" where
  "titles_ok st \<longleftrightarrow> list_all (\<lambda>f. pf_level f = 0 \<longrightarrow> pf_title f = []) (fst st @ [snd st])"

lemma titles_ok_last: "titles_ok (flats, cur) \<longleftrightarrow> list_all (\<lambda>f. pf_level f = 0 \<longrightarrow> pf_title f = []) flats \<and> (pf_level cur = 0 \<longrightarrow> pf_title cur = [])"
  by (simp add: titles_ok_def)

lemma add_row_titles:
  assumes "titles_ok st"
  shows "titles_ok (add_row (heading_env_of rows) row st)"
proof -
  obtain flats cur where st: "st = (flats, cur)" by force
  let ?text = "trim_space (pr_text row)"
  show ?thesis
  proof (cases "row_heading (heading_env_of rows) row ?text")
    case None
    with assms show ?thesis by (simp add: st add_row_def titles_ok_last Let_def)
  next
    case (Some lvl)
    then have "lvl \<noteq> 0" using row_heading_pos by fastforce
    with assms Some show ?thesis
      by (cases "continues_heading cur lvl row") (simp_all add: st add_row_def titles_ok_last new_flat_def Let_def, simp add: continues_heading_def)
  qed
qed

lemma read_flats_titles: "list_all (\<lambda>f. pf_level f = 0 \<longrightarrow> pf_title f = []) (read_flats (heading_env_of rows) rows)"
proof -
  have "titles_ok st \<Longrightarrow> titles_ok (fold (add_row (heading_env_of rows)) rs st)" for rs st
    by (induction rs arbitrary: st) (simp_all add: add_row_titles)
  from this [of "([], new_flat 0 [])" rows] show ?thesis
    by (cases "fold (add_row (heading_env_of rows)) rows ([], new_flat 0 [])") (simp add: titles_ok_def new_flat_def read_flats_def)
qed

lemma flat_head_ink:
  assumes "pf_level f = 0 \<longrightarrow> pf_title f = []"
  shows "mset (flat_ink f) \<subseteq># (case flat_section_head f of None \<Rightarrow> {#} | Some h \<Rightarrow> mset (head_ink h))"
  using assms by (auto simp: flat_section_head_def flat_ink_def head_ink_def Let_def ink_blank)

lemma flat_heads_ink:
  "list_all (\<lambda>f. pf_level f = 0 \<longrightarrow> pf_title f = []) fs \<Longrightarrow>
   mset (concat (map flat_ink fs)) \<subseteq># mset (concat (map head_ink (List.map_filter flat_section_head fs)))"
proof (induction fs)
  case (Cons f fs)
  then have "mset (flat_ink f) \<subseteq># (case flat_section_head f of None \<Rightarrow> {#} | Some h \<Rightarrow> mset (head_ink h))"
    by (intro flat_head_ink) simp
  with Cons show ?case by (cases "flat_section_head f") (simp_all add: map_filter_simps subset_mset.add_mono)
qed (simp add: map_filter_simps)

lemma sections_of_flats_ink:
  assumes "list_all (\<lambda>f. pf_level f = 0 \<longrightarrow> pf_title f = []) fs"
  shows "mset (concat (map flat_ink fs)) \<subseteq># mset (section_ink (sections_of_flats fs))"
proof -
  have heads: "section_ink (nest_heads (List.map_filter flat_section_head fs)) = concat (map head_ink (List.map_filter flat_section_head fs))"
    by (simp add: section_ink_def nest_heads_ok)
  show ?thesis
  proof (cases "nest_heads (List.map_filter flat_section_head fs) = []")
    case True
    with heads have "mset (concat (map head_ink (List.map_filter flat_section_head fs))) = {#}" by (metis mset.simps(1) section_ink_simps(1))
    with flat_heads_ink [OF assms] have none: "mset (concat (map flat_ink fs)) = {#}" by (metis subset_mset.le_zero_eq)
    show ?thesis unfolding none by (rule subset_mset.zero_le)
  next
    case False
    with heads flat_heads_ink [OF assms] show ?thesis by (simp add: sections_of_flats_def Let_def)
  qed
qed

lemma drop_blank_front_ink:
  "list_all (\<lambda>f. pf_level f = 0 \<longrightarrow> pf_title f = []) fs \<Longrightarrow>
   concat (map flat_ink (drop_blank_front fs)) = concat (map flat_ink fs)
   \<and> list_all (\<lambda>f. pf_level f = 0 \<longrightarrow> pf_title f = []) (drop_blank_front fs)"
  by (auto simp: drop_blank_front_def flat_ink_def ink_blank split: list.split)


subsection \<open>The page view\<close>

definition page_part :: "int \<Rightarrow> page_text list \<Rightarrow> string" where
  "page_part n out = solid (concat (map pg_text (filter (\<lambda>p. pg_number p = n) out)))"

lemma page_part_append [simp]: "page_part n (xs @ ys) = page_part n xs @ page_part n ys"
  by (simp add: page_part_def)

definition rows_part :: "int \<Rightarrow> pdf_row list \<Rightarrow> string" where
  "rows_part n rows = solid (concat (map pr_text (filter (\<lambda>r. pr_page r = n) rows)))"

lemma solid_blank: "trim_space s = [] \<Longrightarrow> solid s = []"
  by (metis solid_Nil solid_trim_space)

lemma add_page_row_ok:
  assumes "sorted_wrt (<) (map pg_number out)" "\<forall>p \<in> set out. pg_number p \<le> pr_page r" "0 < pr_page r"
  shows "sorted_wrt (<) (map pg_number (add_page_row r out)) \<and> (\<forall>p \<in> set (add_page_row r out). pg_number p \<le> pr_page r)
    \<and> page_part n (add_page_row r out) = page_part n out @ rows_part n [r]"
proof (cases "trim_space (pr_text r) = []")
  case True
  with assms show ?thesis by (simp add: add_page_row_def rows_part_def solid_blank)
next
  case False
  show ?thesis
  proof (cases out rule: rev_cases)
    case Nil
    with False assms show ?thesis by (simp add: add_page_row_def page_part_def rows_part_def Let_def)
  next
    case (snoc ps p)
    show ?thesis
    proof (cases "pg_number p = pr_page r")
      case True
      with False assms snoc show ?thesis
        by (auto simp: add_page_row_def rows_part_def page_part_def sorted_wrt_append Let_def)
    next
      case new_page: False
      have "\<forall>q \<in> set out. pg_number q < pr_page r"
        using assms(1,2) new_page snoc by (fastforce simp: sorted_wrt_append)
      with False new_page assms snoc show ?thesis
        by (auto simp: add_page_row_def rows_part_def page_part_def sorted_wrt_append Let_def)
    qed
  qed
qed

lemma pages_fold_ok:
  "sorted_wrt (<) (map pg_number out) \<Longrightarrow> \<forall>p \<in> set out. \<forall>r \<in> set rows. pg_number p \<le> pr_page r \<Longrightarrow>
   sorted (map pr_page rows) \<Longrightarrow> list_all (\<lambda>r. 0 < pr_page r) rows \<Longrightarrow>
   sorted_wrt (<) (map pg_number (fold add_page_row rows out)) \<and> page_part n (fold add_page_row rows out) = page_part n out @ rows_part n rows"
proof (induction rows arbitrary: out)
  case (Cons r rows)
  note row = add_page_row_ok [of out r n]
  have row: "sorted_wrt (<) (map pg_number (add_page_row r out))" "\<forall>p \<in> set (add_page_row r out). pg_number p \<le> pr_page r"
    "page_part n (add_page_row r out) = page_part n out @ rows_part n [r]"
    using Cons.prems row by simp_all
  have "\<forall>p \<in> set (add_page_row r out). \<forall>r' \<in> set rows. pg_number p \<le> pr_page r'"
    using row(2) Cons.prems(3) by (auto intro: order_trans)
  from Cons.IH [OF row(1) this] Cons.prems row(3) show ?case by (simp add: rows_part_def)
qed (simp add: rows_part_def)

text \<open>
  The page view is exact: page numbers increase, and the text of each page is that of the rows read
  off that page, in their order.
\<close>
lemma pages_from_rows_exact:
  "sorted_wrt (<) (map pg_number (pages_from_rows (extract_pdf_rows env pages)))
   \<and> page_part n (pages_from_rows (extract_pdf_rows env pages)) = rows_part n (extract_pdf_rows env pages)"
  using pages_fold_ok [of "[]" "extract_pdf_rows env pages" n] extract_pdf_rows_pages [of env pages]
  by (simp add: pages_from_rows_def page_part_def)

subsection \<open>What bookmarks lose\<close>

text \<open>
  A bookmark whose title has no Latin letter and no digit is matched by any row: such an outline takes the
  first rows of the document, one each, whatever they say.
\<close>

lemma blank_titles_take_first_rows:
  "\<forall>(lvl, t) \<in> set es. normalize_for_match lower t = [] \<Longrightarrow> cursor + length es \<le> length rows \<Longrightarrow>
   map (\<lambda>(lvl, t, i). i) (match_bookmarks lower rows cursor es) = [cursor..<cursor + length es]"
proof (induction es arbitrary: cursor)
  case (Cons e es)
  obtain lvl t where e: "e = (lvl, t)" by force
  from Cons.prems(2) obtain r rs where "drop cursor rows = r # rs" by (cases "drop cursor rows") auto
  with Cons.prems e have "find_row lower (normalize_for_match lower t) cursor (drop cursor rows) = Some cursor"
    by (simp add: has_prefix_def)
  then have "map (\<lambda>(lvl, t, i). i) (match_bookmarks lower rows cursor (e # es))
      = cursor # map (\<lambda>(lvl, t, i). i) (match_bookmarks lower rows (cursor + 1) es)" by (simp add: e)
  also have "\<dots> = cursor # [cursor + 1..<cursor + 1 + length es]"
    using Cons.prems by (subst Cons.IH) auto
  also have "\<dots> = [cursor..<cursor + length (e # es)]" using upt_conv_Cons [of cursor "cursor + length (e # es)"] by simp
  finally show ?case .
qed simp

text \<open>The sections of an outline do not depend on the rows before its first match.\<close>

lemma outline_ignores_front:
  "drop i rows = drop i rows' \<Longrightarrow> length rows = length rows' \<Longrightarrow> i < length rows \<Longrightarrow>
   \<forall>(lvl, t, j) \<in> set ms. i \<le> j \<and> j < length rows \<Longrightarrow> outline_heads rows ms = outline_heads rows' ms"
proof (induction rows ms rule: outline_heads.induct)
  case (2 rows lvl t j ms)
  then have j: "i \<le> j" "j < length rows" by auto
  have at: "drop i xs ! (j - i) = xs ! j" if "i < length xs" for xs :: "pdf_row list" using that j(1) by simp
  have "rows ! j = rows' ! j" using at [of rows] at [of rows'] 2(2-4) by simp
  moreover have "drop (j + 1) rows = drop (j + 1 - i) (drop i rows)" "drop (j + 1) rows' = drop (j + 1 - i) (drop i rows')"
    using j by simp_all
  ultimately have "rows ! j = rows' ! j" "drop (j + 1) rows = drop (j + 1) rows'" using 2(2) by simp_all
  with 2 show ?case by (cases ms) (simp_all add: Let_def)
qed simp

end
