(* ===== verification/Rate_Limit.thy ===== *)
theory Rate_Limit
  imports Float64 Go_Strings
begin

text \<open>
  The token buckets of \<open>internal/middleware/ratelimit.go\<close> and \<open>ratelimit_principal.go\<close>: one bucket
  for the whole server, and one per principal in a store that a ticker sweeps. A time is a reading
  of the monotonic clock in nanoseconds. Both \<open>allow\<close> and the sweep run under the bucket's mutex, so
  each is one step; a request's \<open>store.get\<close> and its \<open>allow\<close> are taken as one step too.
  The refill is computed in \<open>float64\<close>, so the bounds come with the rounding error worked out.
\<close>

subsection \<open>The bucket\<close>

record token_bucket =
  capacity :: int
  tokens :: int
  rate :: f64
  last_refill :: go_time

text \<open>\<open>time.Time.Sub\<close> saturates; \<open>Duration.Seconds\<close> adds whole seconds and the rest, both truncated towards zero.\<close>

definition time_sub :: "go_time \<Rightarrow> go_time \<Rightarrow> go_duration" where
  "time_sub t u = max (- (2 ^ 63)) (min max_int64 (t - u))"

definition go_seconds :: "go_duration \<Rightarrow> f64" where
  "go_seconds d =
     (let sec = sgn d * (\<bar>d\<bar> div 10 ^ 9); nsec = sgn d * (\<bar>d\<bar> mod 10 ^ 9)
      in f_add (f_of_int sec) (f_div (f_of_int nsec) (Fin (10 ^ 9))))"

definition limiter_rate :: "int \<Rightarrow> f64" where
  "limiter_rate rpm = f_div (f_of_int rpm) (Fin 60)"

definition new_bucket :: "int \<Rightarrow> go_time \<Rightarrow> token_bucket" where
  "new_bucket rpm now = \<lparr>capacity = rpm, tokens = rpm, rate = limiter_rate rpm, last_refill = now\<rparr>"

definition refill :: "f64 \<Rightarrow> go_duration \<Rightarrow> int" where
  "refill r elapsed = int64_of (f_mul (go_seconds elapsed) r)"

definition allow :: "go_time \<Rightarrow> token_bucket \<Rightarrow> bool \<times> token_bucket" where
  "allow now b =
     (let sum = wrap64 (tokens b + refill (rate b) (time_sub now (last_refill b)));
          t = (if capacity b < sum then capacity b else sum);
          b' = b\<lparr>last_refill := now, tokens := t\<rparr>
      in if t \<le> 0 then (False, b') else (True, b'\<lparr>tokens := t - 1\<rparr>))"

text \<open>A sequence of requests at the given clock readings: which ones pass.\<close>

fun allow_all :: "go_time list \<Rightarrow> token_bucket \<Rightarrow> bool list \<times> token_bucket" where
  "allow_all [] b = ([], b)"
| "allow_all (t # ts) b =
     (let (ok, b') = allow t b; (oks, b'') = allow_all ts b' in (ok # oks, b''))"

subsection \<open>Buckets per principal\<close>

type_synonym bucket_store = "string \<Rightarrow> token_bucket option"

text \<open>\<open>PrincipalRateLimit\<close>'s key, and the store's get-or-create followed by \<open>allow\<close>.\<close>

definition principal_key :: "string \<Rightarrow> string" where
  "principal_key pid = (if pid = [] then ''anonymous'' else pid)"

definition store_get :: "int \<Rightarrow> string \<Rightarrow> go_time \<Rightarrow> bucket_store \<Rightarrow> token_bucket" where
  "store_get rpm k now s = (case s k of Some b \<Rightarrow> b | None \<Rightarrow> new_bucket rpm now)"

definition store_allow :: "int \<Rightarrow> string \<Rightarrow> go_time \<Rightarrow> bucket_store \<Rightarrow> bool \<times> bucket_store" where
  "store_allow rpm k now s = (let (ok, b) = allow now (store_get rpm k now s) in (ok, s(k \<mapsto> b)))"

definition reap_interval :: go_duration where
  "reap_interval = 10 * 60 * 10 ^ 9"

definition reap_buckets :: "go_time \<Rightarrow> bucket_store \<Rightarrow> bucket_store" where
  "reap_buckets now s = (\<lambda>k. case s k of
     Some b \<Rightarrow> if last_refill b < now - reap_interval then None else Some b
   | None \<Rightarrow> None)"

text \<open>What the store sees over time: requests of principals and ticks of the sweep.\<close>

datatype limiter_event = Request string go_time | Tick go_time

fun event_time :: "limiter_event \<Rightarrow> go_time" where
  "event_time (Request k t) = t"
| "event_time (Tick t) = t"

fun limiter_run :: "int \<Rightarrow> bool \<Rightarrow> limiter_event list \<Rightarrow> bucket_store \<Rightarrow> bool list" where
  "limiter_run rpm sweeps [] s = []"
| "limiter_run rpm sweeps (Request k t # es) s =
     (let (ok, s') = store_allow rpm k t s in ok # limiter_run rpm sweeps es s')"
| "limiter_run rpm sweeps (Tick t # es) s =
     limiter_run rpm sweeps es (if sweeps then reap_buckets t s else s)"

text \<open>The header value: a hand-written \<open>Itoa\<close>, right for the positive limits it is given.\<close>

function int_digits :: "int \<Rightarrow> string \<Rightarrow> string" where
  "int_digits n s = (if 0 < n then int_digits (n div 10) (byte (nat (48 + n mod 10)) # s) else s)"
  by auto
termination by (relation "measure (nat \<circ> fst)") auto

declare int_digits.simps [simp del]

definition int_to_str :: "int \<Rightarrow> string" where
  "int_to_str n = (if n < 10 then [byte (nat (48 + n))] else int_digits n [])"

lemma int_digits_eq: "0 < n \<Longrightarrow> int_digits n s = digits_of (nat n) @ s"
proof (induction n s rule: int_digits.induct)
  case (1 n s)
  have m: "byte (48 + nat n mod 10) = byte (nat (48 + n mod 10))"
    using 1(2) by (simp add: nat_add_distrib nat_mod_distrib)
  show ?case
  proof (cases "n < 10")
    case True
    with 1(2) m show ?thesis by (simp add: int_digits.simps [of n] int_digits.simps [of 0] digits_of.simps [of "nat n"])
  next
    case False
    with 1 have "int_digits (n div 10) (byte (nat (48 + n mod 10)) # s) = digits_of (nat (n div 10)) @ byte (nat (48 + n mod 10)) # s"
      by simp
    with False m show ?thesis
      by (simp add: int_digits.simps [of n] digits_of.simps [of "nat n"] nat_div_distrib)
  qed
qed

lemma int_to_str_positive: "0 < n \<Longrightarrow> int_to_str n = itoa n"
  by (auto simp: int_to_str_def itoa_def int_digits_eq digits_of.simps [of "nat n"] nat_add_distrib)

subsection \<open>Rounding error\<close>

lemma pow2_mono: "a \<le> b \<Longrightarrow> pow2 a \<le> pow2 b"
proof -
  assume ab: "a \<le> b"
  have p: "pow2 e = 2 powi e" for e by (simp add: pow2_def power_int_def inverse_eq_divide power_one_over)
  show ?thesis unfolding p using ab by (rule power_int_increasing) simp
qed

lemma pow2_add: "pow2 (a + b) = pow2 a * pow2 b"
proof -
  have p: "pow2 e = 2 powi e" for e by (simp add: pow2_def power_int_def inverse_eq_divide power_one_over)
  show ?thesis unfolding p by (simp add: power_int_add)
qed

lemma pow2_pos [simp]: "0 < pow2 e"
  by (simp add: pow2_def)

lemma pow2_ne [simp]: "pow2 e \<noteq> 0"
  by (metis less_irrefl pow2_pos)

lemma exponent_below: "0 < q \<Longrightarrow> pow2 (exponent_of q) \<le> q"
proof -
  assume q: "0 < q"
  obtain a b where ab: "quotient_of q = (a, b)" by force
  have b: "0 < b" using ab by (rule quotient_of_denom_pos)
  have eq: "q = of_int a / of_int b" using ab by (rule quotient_of_div)
  have a: "0 < a" using q b by (simp add: eq zero_less_divide_iff)
  let ?na = "nat (bitlen a)" and ?nb = "nat (bitlen b)"
  have bl: "0 < bitlen n" if "0 < n" for n :: int
    using bitlen_bounds [OF that] that by (cases "bitlen n \<le> 0") auto
  have bl: "0 < bitlen a" "0 < bitlen b" using a b by (simp_all add: bl)
  have lo: "2 ^ (?na - 1) \<le> a" using bitlen_bounds [OF a] bl by (simp add: nat_diff_distrib)
  have hi: "b < 2 ^ ?nb" using bitlen_bounds [OF b] by simp
  have "pow2 (bitlen a - 1) \<le> of_int a"
  proof -
    have "(of_int (2 ^ (?na - 1)) :: rat) \<le> of_int a" using lo by (simp only: of_int_le_iff)
    then show ?thesis using bl by (simp add: pow2_def nat_diff_distrib)
  qed
  moreover have "(of_int b :: rat) \<le> pow2 (bitlen b)"
  proof -
    have "(of_int b :: rat) \<le> of_int (2 ^ ?nb)" using hi by (simp only: of_int_le_iff)
    then show ?thesis using bl by (simp add: pow2_def)
  qed
  ultimately have "pow2 (bitlen a - 1 - bitlen b) * of_int b \<le> of_int a"
  proof -
    assume h: "pow2 (bitlen a - 1) \<le> of_int a" "(of_int b :: rat) \<le> pow2 (bitlen b)"
    have "pow2 (bitlen a - 1 - bitlen b) * of_int b \<le> pow2 (bitlen a - 1 - bitlen b) * pow2 (bitlen b)"
      using h(2) by (intro mult_left_mono) (simp_all add: less_imp_le)
    also have "\<dots> = pow2 (bitlen a - 1)" by (simp flip: pow2_add)
    finally show ?thesis using h(1) by simp
  qed
  then have "pow2 (bitlen a - bitlen b - 1) \<le> q"
    using b by (simp add: eq le_divide_eq algebra_simps)
  then show ?thesis by (simp add: exponent_of_def ab Let_def)
qed

lemma round_half_even_near: "\<bar>of_int (round_half_even x) - x\<bar> \<le> 1 / 2"
  unfolding round_half_even_def Let_def by (auto simp: abs_if) linarith+

text \<open>One operation's result, for the magnitudes that occur here, is within one part in \<open>2 ^ 52\<close>.\<close>

lemma rnd_close:
  assumes "1 / 2 ^ 100 \<le> q" "q \<le> 2 ^ 52"
  shows "\<exists>r. rnd q = Fin r \<and> q * (1 - 1 / 2 ^ 52) \<le> r \<and> r \<le> q * (1 + 1 / 2 ^ 52)"
proof -
  have q: "0 < q" using assms(1) by (rule less_le_trans [rotated]) simp
  let ?e = "max (exponent_of q) (- 1022)"
  let ?u = "pow2 (?e - 52)"
  let ?m = "of_int (round_half_even (q / ?u)) * ?u"
  have small: "pow2 (- 1022) \<le> q"
  proof -
    have "pow2 (- 1022) \<le> pow2 (- 100)" by (rule pow2_mono) simp
    also have "\<dots> = 1 / 2 ^ 100" by (simp add: pow2_def)
    finally show ?thesis using assms(1) by simp
  qed
  have e: "pow2 ?e \<le> q" using exponent_below [OF q] small by (simp add: max_def)
  have u: "?u = pow2 ?e / 2 ^ 52" using pow2_add [of ?e "- 52"] by (simp add: pow2_def)
  have u0: "0 < ?u" by simp
  have "?m - q = (of_int (round_half_even (q / ?u)) - q / ?u) * ?u"
    by (simp add: left_diff_distrib)
  then have "\<bar>?m - q\<bar> = \<bar>of_int (round_half_even (q / ?u)) - q / ?u\<bar> * ?u"
    using u0 by (simp only: abs_mult abs_of_pos)
  also have "\<dots> \<le> 1 / 2 * ?u" by (intro mult_right_mono round_half_even_near) (simp add: less_imp_le)
  also have "\<dots> \<le> q / 2 ^ 52" using e q by (simp add: u)
  finally have m: "\<bar>?m - q\<bar> \<le> q / 2 ^ 52" .
  have "?m \<le> q + q / 2 ^ 52" using m by linarith
  also have "\<dots> \<le> 2 ^ 52 + 2 ^ 52 / 2 ^ 52" using assms(2) by (intro add_mono divide_right_mono) simp_all
  also have "\<dots> \<le> 2 ^ 53" by simp
  finally have "\<not> max_finite < ?m" using max_finite_large by simp
  then have "rnd q = Fin ?m" using q by (simp add: rnd_def Let_def)
  moreover have "q * (1 - 1 / 2 ^ 52) = q - q / 2 ^ 52" "q * (1 + 1 / 2 ^ 52) = q + q / 2 ^ 52"
    by (simp_all add: algebra_simps)
  moreover have "q - q / 2 ^ 52 \<le> ?m \<and> ?m \<le> q + q / 2 ^ 52" using m by linarith
  ultimately show ?thesis by (intro exI [of _ ?m]) (simp only: simp_thms)
qed

text \<open>The refill, against the exact number of tokens \<open>rpm * elapsed / 60s\<close>.\<close>

definition exact_refill :: "int \<Rightarrow> go_duration \<Rightarrow> rat" where
  "exact_refill rpm e = of_int rpm * of_int e / (60 * 10 ^ 9)"

abbreviation below_one :: rat where "below_one \<equiv> 1 - 1 / 2 ^ 52"
abbreviation above_one :: rat where "above_one \<equiv> 1 + 1 / 2 ^ 52"

lemma tiny: "(1 :: rat) / 2 ^ 100 \<le> 1 / 10 ^ 30"
  by (simp add: divide_simps)

lemma go_seconds_close:
  assumes "0 < e" "e \<le> max_int64"
  shows "\<exists>r. go_seconds e = Fin r \<and> of_int e / 10 ^ 9 * below_one ^ 2 \<le> r \<and> r \<le> of_int e / 10 ^ 9 * above_one ^ 2"
proof -
  define s n where "s = e div 10 ^ 9" and "n = e mod 10 ^ 9"
  have read: "go_seconds e = f_add (f_of_int s) (f_div (f_of_int n) (Fin (10 ^ 9)))"
    using assms(1) by (simp add: go_seconds_def s_def n_def)
  have bound: "s \<le> 10 ^ 10"
    using zdiv_mono1 [OF assms(2), of "10 ^ 9"] by (simp add: max_int64_def s_def)
  have n: "0 \<le> n" "n < 10 ^ 9" by (simp_all add: n_def)
  have s: "0 \<le> s" using assms(1) by (simp add: s_def pos_imp_zdiv_nonneg_iff)
  have fs: "f_of_int s = Fin (of_int s)" "f_of_int n = Fin (of_int n)"
    using n s bound by (simp_all add: f_of_int_def rnd_of_int)
  have split: "of_int e / 10 ^ 9 = (of_int s + of_int n / 10 ^ 9 :: rat)"
  proof -
    have "(of_int e :: rat) = of_int (s * 10 ^ 9 + n)" by (simp add: s_def n_def)
    also have "\<dots> = of_int s * 10 ^ 9 + of_int n" by (simp only: of_int_add of_int_mult of_int_power of_int_numeral)
    finally show ?thesis by (simp add: add_divide_distrib)
  qed
  have b: "0 \<le> below_one" "below_one \<le> 1" "1 \<le> above_one" by simp_all
  have "\<exists>r1. f_div (f_of_int n) (Fin (10 ^ 9)) = Fin r1 \<and> of_int n / 10 ^ 9 * below_one \<le> r1 \<and> r1 \<le> of_int n / 10 ^ 9 * above_one"
  proof (cases "n = 0")
    case False
    have "(1 :: rat) / 2 ^ 100 \<le> of_int n / 10 ^ 9"
    proof -
      have "(1 :: rat) \<le> of_int n" using False n by simp
      then have "(1 :: rat) / 10 ^ 9 \<le> of_int n / 10 ^ 9" by (rule divide_right_mono) simp
      then show ?thesis using tiny by (simp add: divide_simps)
    qed
    moreover have "(of_int n / 10 ^ 9 :: rat) \<le> 2 ^ 52"
    proof -
      have "(of_int n :: rat) \<le> of_int (10 ^ 9)" using n by (simp only: of_int_le_iff less_imp_le)
      then show ?thesis by (simp add: divide_simps)
    qed
    ultimately show ?thesis using rnd_close [of "of_int n / 10 ^ 9"] by (simp add: fs)
  qed (simp add: fs f_of_int_def)
  then obtain r1 where r1: "f_div (f_of_int n) (Fin (10 ^ 9)) = Fin r1"
    and lo: "of_int n / 10 ^ 9 * below_one \<le> r1" and hi: "r1 \<le> of_int n / 10 ^ 9 * above_one" by blast
  define q where "q = of_int s + r1"
  have qlo: "of_int e / 10 ^ 9 * below_one \<le> q"
    unfolding split q_def distrib_right using lo s b(2) by (intro add_mono) (simp_all add: mult_left_le)
  have qhi: "q \<le> of_int e / 10 ^ 9 * above_one"
    unfolding split q_def distrib_right using hi s b(3) by (intro add_mono) (simp_all add: mult_le_cancel_left1)
  have e: "(1 :: rat) \<le> of_int e" "(of_int e :: rat) \<le> 10 ^ 19" using assms by (simp_all add: max_int64_def)
  have "1 / 10 ^ 9 * (1 / 2) \<le> of_int e / 10 ^ 9 * below_one" using e(1) by (intro mult_mono divide_right_mono) simp_all
  with qlo tiny have small: "1 / 2 ^ 100 \<le> q" by simp
  have "of_int e / 10 ^ 9 * above_one \<le> 10 ^ 19 / 10 ^ 9 * 2" using e by (intro mult_mono divide_right_mono) simp_all
  with qhi have large: "q \<le> 2 ^ 52" by simp
  obtain r where r: "rnd q = Fin r" "q * below_one \<le> r" "r \<le> q * above_one"
    using rnd_close [OF small large] by blast
  have "go_seconds e = Fin r"
    by (simp only: read r1 fs(1) f_add.simps q_def [symmetric] r(1))
  moreover have "of_int e / 10 ^ 9 * below_one ^ 2 \<le> r"
    using order_trans [OF mult_right_mono [OF qlo b(1)] r(2)] by (simp only: power2_eq_square mult.assoc)
  moreover have "r \<le> of_int e / 10 ^ 9 * above_one ^ 2"
  proof -
    have "0 \<le> above_one" by simp
    from order_trans [OF r(3) mult_right_mono [OF qhi this]] show ?thesis by (simp only: power2_eq_square mult.assoc)
  qed
  ultimately show ?thesis by blast
qed

lemma limiter_rate_close:
  assumes "0 < rpm" "rpm \<le> 10000"
  shows "\<exists>r. limiter_rate rpm = Fin r \<and> of_int rpm / 60 * below_one \<le> r \<and> r \<le> of_int rpm / 60 * above_one"
proof -
  have r: "(1 :: rat) \<le> of_int rpm" "(of_int rpm :: rat) \<le> 10000" using assms by simp_all
  have "(1 :: rat) / 60 \<le> of_int rpm / 60" using r(1) by (rule divide_right_mono) simp
  with tiny have "(1 :: rat) / 2 ^ 100 \<le> of_int rpm / 60" by simp
  moreover have "(of_int rpm / 60 :: rat) \<le> 2 ^ 52" using r(2) by (simp add: divide_simps)
  ultimately show ?thesis
    using rnd_close [of "of_int rpm / 60"] assms by (simp add: limiter_rate_def f_of_int_def rnd_of_int)
qed

lemma refill_close:
  assumes e: "0 < e" "e \<le> max_int64" and rpm: "0 < rpm" "rpm \<le> 10000"
  shows "\<exists>r. f_mul (go_seconds e) (limiter_rate rpm) = Fin r \<and>
    exact_refill rpm e * below_one ^ 4 \<le> r \<and> r \<le> exact_refill rpm e * above_one ^ 4"
proof -
  let ?x = "exact_refill rpm e"
  obtain a where a: "go_seconds e = Fin a" "of_int e / 10 ^ 9 * below_one ^ 2 \<le> a" "a \<le> of_int e / 10 ^ 9 * above_one ^ 2"
    using go_seconds_close [OF e] by blast
  obtain b where b: "limiter_rate rpm = Fin b" "of_int rpm / 60 * below_one \<le> b" "b \<le> of_int rpm / 60 * above_one"
    using limiter_rate_close [OF rpm] by blast
  have er: "(1 :: rat) \<le> of_int e" "(of_int e :: rat) \<le> 10 ^ 19" "(1 :: rat) \<le> of_int rpm" "(of_int rpm :: rat) \<le> 10000"
    using e rpm by (simp_all add: max_int64_def)
  have nonneg: "0 \<le> of_int e / 10 ^ 9 * below_one ^ 2" "0 \<le> of_int rpm / 60 * below_one" using er by simp_all
  have x: "?x * c ^ 3 = (of_int e / 10 ^ 9 * c ^ 2) * (of_int rpm / 60 * c)" for c
    by (simp add: exact_refill_def power2_eq_square power3_eq_cube)
  have lo: "?x * below_one ^ 3 \<le> a * b"
    unfolding x by (rule mult_mono [OF a(2) b(2)]) (use nonneg a(2) in linarith)+
  have hi: "a * b \<le> ?x * above_one ^ 3"
    unfolding x by (rule mult_mono [OF a(3) b(3)]) (use nonneg a(2,3) b(2) in linarith)+
  have xlo: "1 / (60 * 10 ^ 9) \<le> ?x"
    using mult_mono [OF er(1) er(3)] er by (simp add: exact_refill_def divide_right_mono mult.commute)
  have xhi: "?x \<le> 10 ^ 13"
    using mult_mono [OF er(4) er(2)] er by (simp add: exact_refill_def divide_simps)
  have "1 / (60 * 10 ^ 9) * (1 / 2) \<le> ?x * below_one ^ 3" by (rule mult_mono [OF xlo]) (use xlo in \<open>simp_all add: power3_eq_cube\<close>)
  with lo tiny have small: "1 / 2 ^ 100 \<le> a * b" by simp
  have "?x * above_one ^ 3 \<le> 10 ^ 13 * 2" by (rule mult_mono [OF xhi]) (use xlo in \<open>simp_all add: power3_eq_cube\<close>)
  with hi have large: "a * b \<le> 2 ^ 52" by simp
  obtain r where r: "rnd (a * b) = Fin r" "a * b * below_one \<le> r" "r \<le> a * b * above_one"
    using rnd_close [OF small large] by blast
  have x4: "?x * c ^ 4 = ?x * c ^ 3 * c" for c by (simp add: power3_eq_cube power4_eq_xxxx)
  have c: "0 \<le> below_one" "0 \<le> above_one" by simp_all
  have "?x * below_one ^ 4 \<le> r" unfolding x4 using mult_right_mono [OF lo c(1)] r(2) by (rule order_trans)
  moreover have "r \<le> ?x * above_one ^ 4" unfolding x4 using r(3) mult_right_mono [OF hi c(2)] by (rule order_trans)
  ultimately show ?thesis using a(1) b(1) r(1) by simp
qed

text \<open>Below a minute the refill never exceeds the exact value, in spite of the rounding; it always reaches half of it, up to one token.\<close>

lemma refill_zero: "0 < rpm \<Longrightarrow> rpm \<le> 10000 \<Longrightarrow> refill (limiter_rate rpm) 0 = 0"
  using limiter_rate_close [of rpm] by (auto simp: refill_def go_seconds_def f_of_int_def)

lemma exact_refill_bounds:
  assumes "0 \<le> e" "e \<le> max_int64" "0 < rpm" "rpm \<le> 10000"
  shows "0 \<le> exact_refill rpm e" "exact_refill rpm e \<le> 10 ^ 13"
proof -
  show "0 \<le> exact_refill rpm e" using assms by (simp add: exact_refill_def)
  have "(of_int rpm * of_int e :: rat) \<le> 10000 * 10 ^ 19"
    using assms by (intro mult_mono) (simp_all add: max_int64_def)
  then show "exact_refill rpm e \<le> 10 ^ 13" by (simp add: exact_refill_def divide_simps)
qed

lemma refill_floor:
  assumes e: "0 \<le> e" "e \<le> max_int64" and rpm: "0 < rpm" "rpm \<le> 10000"
  shows "\<exists>r. refill (limiter_rate rpm) e = \<lfloor>r\<rfloor> \<and>
    exact_refill rpm e / 2 \<le> r \<and> r \<le> exact_refill rpm e + exact_refill rpm e * 5 / 2 ^ 52"
proof (cases "e = 0")
  case True
  then show ?thesis using refill_zero [OF rpm] by (intro exI [of _ 0]) (simp add: exact_refill_def)
next
  case False
  let ?x = "exact_refill rpm e"
  obtain r where r: "f_mul (go_seconds e) (limiter_rate rpm) = Fin r" "?x * below_one ^ 4 \<le> r" "r \<le> ?x * above_one ^ 4"
    using refill_close [OF _ e(2) rpm] e(1) False by (metis order_le_less)
  note x = exact_refill_bounds(1) [OF e rpm]
  have "?x * (1 / 2) \<le> ?x * below_one ^ 4" using x by (rule mult_left_mono [rotated]) (simp add: power4_eq_xxxx)
  with r(2) have lo: "?x / 2 \<le> r" by simp
  have "?x * above_one ^ 4 \<le> ?x * (1 + 5 / 2 ^ 52)" using x by (rule mult_left_mono [rotated]) (simp add: power4_eq_xxxx)
  with r(3) have "r \<le> ?x + ?x * 5 / 2 ^ 52" by (simp only: distrib_left mult_1_right times_divide_eq_right)
  with lo x r(1) show ?thesis by (intro exI [of _ r]) (simp add: refill_def)
qed

lemma refill_bounds:
  assumes "0 \<le> e" "e \<le> max_int64" "0 < rpm" "rpm \<le> 10000"
  shows "0 \<le> refill (limiter_rate rpm) e" "refill (limiter_rate rpm) e \<le> 2 * 10 ^ 13"
    and "exact_refill rpm e / 2 - 1 \<le> of_int (refill (limiter_rate rpm) e)"
proof -
  obtain r where r: "refill (limiter_rate rpm) e = \<lfloor>r\<rfloor>" "exact_refill rpm e / 2 \<le> r"
      "r \<le> exact_refill rpm e + exact_refill rpm e * 5 / 2 ^ 52"
    using refill_floor [OF assms] by blast
  note x = exact_refill_bounds [OF assms]
  show "0 \<le> refill (limiter_rate rpm) e" using r x by simp
  have "r \<le> 2 * 10 ^ 13" using r(3) x by (simp add: divide_simps)
  then have "\<lfloor>r\<rfloor> \<le> \<lfloor>2 * 10 ^ 13 :: rat\<rfloor>" by (rule floor_mono)
  then show "refill (limiter_rate rpm) e \<le> 2 * 10 ^ 13" by (simp add: r(1))
  show "exact_refill rpm e / 2 - 1 \<le> of_int (refill (limiter_rate rpm) e)" unfolding r(1) using r(2) by linarith
qed

lemma refill_exact:
  assumes "0 \<le> e" "e < 60 * 10 ^ 9" "0 < rpm" "rpm \<le> 10000"
  shows "refill (limiter_rate rpm) e * (60 * 10 ^ 9) \<le> rpm * e"
proof -
  have e: "e \<le> max_int64" using assms by (simp add: max_int64_def)
  obtain r where r: "refill (limiter_rate rpm) e = \<lfloor>r\<rfloor>" "r \<le> exact_refill rpm e + exact_refill rpm e * 5 / 2 ^ 52"
    using refill_floor [OF assms(1) e assms(3,4)] by blast
  have pe: "(of_int rpm * of_int e :: rat) \<le> 10000 * (60 * 10 ^ 9)"
    using assms by (intro mult_mono) simp_all
  have slack: "x \<le> 10000 * (60 * 10 ^ 9) \<Longrightarrow> x + x * 5 / 2 ^ 52 < x + 1" for x :: rat by simp
  have "(of_int \<lfloor>r\<rfloor> :: rat) \<le> exact_refill rpm e + exact_refill rpm e * 5 / 2 ^ 52"
    using of_int_floor_le r(2) by (rule order_trans)
  then have "(of_int \<lfloor>r\<rfloor> :: rat) * (60 * 10 ^ 9) \<le> (exact_refill rpm e + exact_refill rpm e * 5 / 2 ^ 52) * (60 * 10 ^ 9)"
    by (rule mult_right_mono) simp
  also have "\<dots> = (of_int rpm * of_int e :: rat) + of_int rpm * of_int e * 5 / 2 ^ 52"
    by (simp add: exact_refill_def distrib_right)
  also have "\<dots> < of_int (rpm * e + 1)" using slack [OF pe] by simp
  finally have "(of_int (\<lfloor>r\<rfloor> * (60 * 10 ^ 9)) :: rat) < of_int (rpm * e + 1)" by simp
  then show ?thesis unfolding r(1) by (simp only: of_int_less_iff)
qed

subsection \<open>What one bucket admits\<close>

definition bucket_ok :: "int \<Rightarrow> token_bucket \<Rightarrow> bool" where
  "bucket_ok rpm b = (capacity b = rpm \<and> rate b = limiter_rate rpm \<and> 0 \<le> tokens b \<and> tokens b \<le> rpm)"

lemma new_bucket_ok: "0 < rpm \<Longrightarrow> bucket_ok rpm (new_bucket rpm now)"
  by (simp add: bucket_ok_def new_bucket_def)

lemma time_sub_range: "u \<le> t \<Longrightarrow> 0 \<le> time_sub t u \<and> time_sub t u \<le> max_int64"
  by (simp add: time_sub_def max_int64_def)

lemma allow_eq:
  assumes rpm: "0 < rpm" "rpm \<le> 10000" and b: "bucket_ok rpm b" and now: "last_refill b \<le> now"
  defines "n \<equiv> min rpm (tokens b + refill (limiter_rate rpm) (time_sub now (last_refill b)))"
  shows "allow now b = (if n = 0 then (False, b\<lparr>last_refill := now, tokens := 0\<rparr>)
    else (True, b\<lparr>last_refill := now, tokens := n - 1\<rparr>))" "0 \<le> n"
proof -
  note e = time_sub_range [OF now]
  note f = refill_bounds(1,2) [of "time_sub now (last_refill b)" rpm] 
  have w: "wrap64 (tokens b + refill (limiter_rate rpm) (time_sub now (last_refill b)))
      = tokens b + refill (limiter_rate rpm) (time_sub now (last_refill b))"
    using f e rpm b by (intro wrap64_id) (simp_all add: bucket_ok_def)
  show "0 \<le> n" using f e rpm b by (simp add: n_def bucket_ok_def)
  then show "allow now b = (if n = 0 then (False, b\<lparr>last_refill := now, tokens := 0\<rparr>)
    else (True, b\<lparr>last_refill := now, tokens := n - 1\<rparr>))"
    using b w by (auto simp: allow_def bucket_ok_def Let_def n_def min_def)
qed

lemma allow_step:
  assumes rpm: "0 < rpm" "rpm \<le> 10000" and b: "bucket_ok rpm b" and now: "last_refill b \<le> now"
    and step: "allow now b = (ok, b')"
  shows "bucket_ok rpm b'" "last_refill b' = now" "tokens b' + of_bool ok \<le> rpm"
    and "(tokens b' + of_bool ok) * (60 * 10 ^ 9) \<le> tokens b * (60 * 10 ^ 9) + rpm * (now - last_refill b)"
proof -
  let ?e = "now - last_refill b"
  define n where "n = min rpm (tokens b + refill (limiter_rate rpm) (time_sub now (last_refill b)))"
  note eq = allow_eq [OF rpm b now, folded n_def]
  have n: "n \<le> rpm" by (simp add: n_def)
  show "bucket_ok rpm b'" using step eq n b by (auto simp: bucket_ok_def split: if_splits)
  show "last_refill b' = now" using step eq by (auto split: if_splits)
  have got: "tokens b' + of_bool ok = n" using step eq by (auto split: if_splits)
  with n show "tokens b' + of_bool ok \<le> rpm" by simp
  have "n * (60 * 10 ^ 9) \<le> tokens b * (60 * 10 ^ 9) + rpm * ?e"
  proof (cases "?e < 60 * 10 ^ 9")
    case True
    then have "time_sub now (last_refill b) = ?e" using now by (simp add: time_sub_def max_int64_def)
    with True now refill_exact [OF _ True rpm] show ?thesis by (simp add: n_def min_def)
  next
    case False
    then have "rpm * (60 * 10 ^ 9) \<le> rpm * ?e" using rpm by (intro mult_left_mono) simp_all
    moreover have "n * (60 * 10 ^ 9) \<le> rpm * (60 * 10 ^ 9)" using n by simp
    moreover have "0 \<le> tokens b * (60 * 10 ^ 9)" using b by (simp add: bucket_ok_def)
    ultimately show ?thesis by linarith
  qed
  with got show "(tokens b' + of_bool ok) * (60 * 10 ^ 9) \<le> tokens b * (60 * 10 ^ 9) + rpm * ?e" by simp
qed

lemma allow_all_ok:
  assumes "0 < rpm" "rpm \<le> 10000" "bucket_ok rpm b" "sorted (last_refill b # ts)"
  shows "bucket_ok rpm (snd (allow_all ts b))" "last_refill (snd (allow_all ts b)) = last (last_refill b # ts)"
proof -
  have "bucket_ok rpm (snd (allow_all ts b)) \<and> last_refill (snd (allow_all ts b)) = last (last_refill b # ts)"
    using assms(3,4)
  proof (induction ts arbitrary: b)
    case (Cons t ts)
    obtain ok b' where st: "allow t b = (ok, b')" by force
    note step = allow_step [OF assms(1,2) Cons.prems(1) _ st]
    have "bucket_ok rpm b'" "last_refill b' = t" using step Cons.prems(2) by simp_all
    moreover obtain oks b'' where "allow_all ts b' = (oks, b'')" by force
    ultimately show ?case using Cons.IH [of b'] Cons.prems(2) st by simp
  qed simp
  then show "bucket_ok rpm (snd (allow_all ts b))" "last_refill (snd (allow_all ts b)) = last (last_refill b # ts)"
    by simp_all
qed

lemma allow_all_count:
  assumes "0 < rpm" "rpm \<le> 10000" "bucket_ok rpm b" "sorted (last_refill b # ts)"
  shows "int (count_list (fst (allow_all ts b)) True) * (60 * 10 ^ 9)
    \<le> tokens b * (60 * 10 ^ 9) + rpm * (last (last_refill b # ts) - last_refill b)"
  using assms(3,4)
proof (induction ts arbitrary: b)
  case Nil
  then show ?case by (simp add: bucket_ok_def)
next
  case (Cons t ts)
  obtain ok b' where st: "allow t b = (ok, b')" by force
  note step = allow_step [OF assms(1,2) Cons.prems(1) _ st]
  have b': "bucket_ok rpm b'" "last_refill b' = t" using step Cons.prems(2) by simp_all
  obtain oks b'' where run: "allow_all ts b' = (oks, b'')" by force
  have "int (count_list oks True) * (60 * 10 ^ 9)
      \<le> tokens b' * (60 * 10 ^ 9) + rpm * (last (t # ts) - t)"
    using Cons.IH [OF b'(1)] b'(2) Cons.prems(2) run by simp
  moreover have "rpm * (last (t # ts) - t) + rpm * (t - last_refill b) = rpm * (last (t # ts) - last_refill b)"
    by (simp add: algebra_simps)
  moreover have "(tokens b' + of_bool ok) * (60 * 10 ^ 9) \<le> tokens b * (60 * 10 ^ 9) + rpm * (t - last_refill b)"
    using step(4) Cons.prems(2) by simp
  moreover have "last (last_refill b # t # ts) = last (t # ts)" by simp
  moreover have "int (count_list (fst (allow_all (t # ts) b)) True) = of_bool ok + int (count_list oks True)"
    using st run by simp
  ultimately show ?case by (simp only: distrib_right)
qed

text \<open>
  C22. For rates of 1 to 10000 a minute the limit holds in every window: whatever happened before, the
  requests admitted from a reading \<open>w\<close> of the clock on number at most one burst of \<open>rpm\<close> plus \<open>rpm\<close> per minute of the time
  that passes. The \<open>float64\<close> refill never admits one more than the exact rate would.
\<close>

theorem rate_limit_any_window:
  assumes "0 < rpm" "rpm \<le> 10000" "sorted (t0 # us @ w # ts)"
  shows "int (count_list (fst (allow_all (w # ts) (snd (allow_all us (new_bucket rpm t0))))) True) * (60 * 10 ^ 9)
    \<le> rpm * (60 * 10 ^ 9 + (last (w # ts) - w))"
proof -
  define b where "b = snd (allow_all us (new_bucket rpm t0))"
  have start: "last_refill (new_bucket rpm t0) = t0" by (simp add: new_bucket_def)
  have us: "sorted (t0 # us)" "last (t0 # us) \<le> w" "sorted (w # ts)"
    using assms(3) by (auto simp: sorted_append)
  have b: "bucket_ok rpm b" "last_refill b \<le> w"
    using allow_all_ok [OF assms(1,2) new_bucket_ok [OF assms(1)], of t0 us, unfolded start, OF us(1)] us(2)
    by (simp_all only: b_def)
  obtain ok b' where st: "allow w b = (ok, b')" by force
  note step = allow_step [OF assms(1,2) b st]
  obtain oks b'' where run: "allow_all ts b' = (oks, b'')" by force
  have "int (count_list oks True) * (60 * 10 ^ 9) \<le> tokens b' * (60 * 10 ^ 9) + rpm * (last (w # ts) - w)"
    using allow_all_count [OF assms(1,2) step(1), of ts] us(3) unfolding step(2) run fst_conv .
  moreover have "(tokens b' + of_bool ok) * (60 * 10 ^ 9) \<le> rpm * (60 * 10 ^ 9)"
    using step(3) by (intro mult_right_mono) simp_all
  moreover have "int (count_list (fst (allow_all (w # ts) b)) True) = of_bool ok + int (count_list oks True)"
    using st run by simp
  ultimately show ?thesis unfolding b_def [symmetric] by (simp only: distrib_right distrib_left)
qed

lemma half_second_refill: "refill (limiter_rate 60) 500000000 = 0"
proof -
  have q: "quotient_of (1 / 2) = (1, 2)" by code_simp
  have "bitlen 1 = 1" "bitlen 2 = 2" by code_simp+
  then have "exponent_of (1 / 2) = - 1" by (simp add: exponent_of_def q pow2_def)
  moreover have "round_half_even ((2 :: rat) ^ 52) = 2 ^ 52" using round_half_even_of_int [of "2 ^ 52"] by simp
  ultimately have "rnd (1 / 2) = Fin (1 / 2)"
    using max_finite_large by (simp add: rnd_def pow2_def Let_def)
  moreover have "\<lfloor>1 / 2 :: rat\<rfloor> = 0" by (simp add: floor_eq_iff)
  ultimately show ?thesis
    by (simp add: refill_def go_seconds_def limiter_rate_def f_of_int_def rnd_numeral)
qed

lemma half_second_refused:
  assumes "capacity b = 60" "tokens b = 0" "rate b = limiter_rate 60"
  shows "allow (last_refill b + 500000000) b = (False, b\<lparr>last_refill := last_refill b + 500000000\<rparr>)"
  using assms by (simp add: allow_def time_sub_def max_int64_def half_second_refill wrap64_def Let_def)

text \<open>
  Time that passes in steps too short for a whole token is lost: with 60 requests per minute, a
  client that polls an empty bucket every half second is refused for ever, although a token is due
  every second, because \<open>allow\<close> moves \<open>last\<close> even when the truncated refill is zero.
\<close>

theorem short_polls_starve:
  assumes "capacity b = 60" "tokens b = 0" "rate b = limiter_rate 60"
  shows "fst (allow_all (map (\<lambda>i. last_refill b + 500000000 * (int i + 1)) [0..<n]) b) = replicate n False"
  using assms
proof (induction n arbitrary: b)
  case (Suc n)
  let ?b = "b\<lparr>last_refill := last_refill b + 500000000\<rparr>"
  have "map (\<lambda>i. last_refill b + 500000000 * (int i + 1)) [0..<Suc n]
      = (last_refill b + 500000000) # map (\<lambda>i. last_refill ?b + 500000000 * (int i + 1)) [0..<n]"
    unfolding upt_conv_Cons [OF zero_less_Suc] map_Suc_upt [symmetric] by (simp add: algebra_simps)
  moreover have "fst (allow_all (map (\<lambda>i. last_refill ?b + 500000000 * (int i + 1)) [0..<n]) ?b) = replicate n False"
    by (rule Suc.IH) (simp_all add: Suc.prems)
  ultimately show ?case using half_second_refused [OF Suc.prems]
    by (cases "allow_all (map (\<lambda>i. last_refill ?b + 500000000 * (int i + 1)) [0..<n]) ?b") simp
qed simp

subsection \<open>The sweep of idle buckets\<close>

lemma allow_full:
  assumes "0 < rpm" "rpm \<le> 10000" "bucket_ok rpm b" "last_refill b \<le> now"
    and "tokens b = rpm \<or> reap_interval < now - last_refill b"
  shows "allow now b = (True, \<lparr>capacity = rpm, tokens = rpm - 1, rate = limiter_rate rpm, last_refill = now\<rparr>)"
proof -
  let ?e = "time_sub now (last_refill b)"
  note e = time_sub_range [OF assms(4)]
  have "rpm \<le> tokens b + refill (limiter_rate rpm) ?e"
  proof (cases "tokens b = rpm")
    case True
    then show ?thesis using refill_bounds(1) e assms(1,2) by simp
  next
    case False
    with assms(5) have "600 * 10 ^ 9 \<le> ?e" by (simp add: time_sub_def max_int64_def reap_interval_def)
    then have "(of_int rpm * of_int (600 * 10 ^ 9) :: rat) \<le> of_int rpm * of_int ?e"
      using assms(1) by (intro mult_left_mono) (simp_all only: of_int_le_iff of_int_0_le_iff)
    then have "(of_int (10 * rpm) :: rat) \<le> exact_refill rpm ?e"
      by (simp add: exact_refill_def divide_simps)
    then have "(of_int (5 * rpm - 1) :: rat) \<le> of_int (refill (limiter_rate rpm) ?e)"
      using refill_bounds(3) [of ?e rpm] e assms(1,2) by simp
    then have "5 * rpm - 1 \<le> refill (limiter_rate rpm) ?e" by (simp only: of_int_le_iff)
    with assms(1,3) show ?thesis by (simp add: bucket_ok_def)
  qed
  then have "min rpm (tokens b + refill (limiter_rate rpm) ?e) = rpm" by simp
  with allow_eq(1) [OF assms(1-4)] assms(1,3) show ?thesis by (simp add: bucket_ok_def)
qed

definition sweep_sim :: "int \<Rightarrow> go_time \<Rightarrow> bucket_store \<Rightarrow> bucket_store \<Rightarrow> bool" where
  "sweep_sim rpm t s s' = (\<forall>k. case s' k of
     None \<Rightarrow> s k = None
   | Some b \<Rightarrow> bucket_ok rpm b \<and> last_refill b \<le> t \<and>
       (s k = Some b \<or> s k = None \<and> last_refill b < t - reap_interval))"

lemma sweep_sim_later: "sweep_sim rpm t s s' \<Longrightarrow> t \<le> u \<Longrightarrow> sweep_sim rpm u s s'"
  unfolding sweep_sim_def by (fastforce split: option.splits)

lemma sweep_sim_reap: "sweep_sim rpm t s s' \<Longrightarrow> sweep_sim rpm t (reap_buckets t s) s'"
  unfolding sweep_sim_def reap_buckets_def by (fastforce split: option.splits)

lemma sweep_sim_allow:
  assumes rpm: "0 < rpm" "rpm \<le> 10000" and sim: "sweep_sim rpm t s s'"
  shows "fst (store_allow rpm k t s) = fst (store_allow rpm k t s')"
    and "sweep_sim rpm t (snd (store_allow rpm k t s)) (snd (store_allow rpm k t s'))"
proof -
  have full: "allow t (new_bucket rpm t) = (True, \<lparr>capacity = rpm, tokens = rpm - 1, rate = limiter_rate rpm, last_refill = t\<rparr>)"
    by (rule allow_full [OF rpm new_bucket_ok [OF rpm(1)]]) (simp_all add: new_bucket_def)
  have same: "allow t (store_get rpm k t s) = allow t (store_get rpm k t s')"
  proof (cases "s' k")
    case (Some b)
    with sim have b: "bucket_ok rpm b" "last_refill b \<le> t" "s k = Some b \<or> s k = None \<and> last_refill b < t - reap_interval"
      by (auto simp: sweep_sim_def dest!: spec [of _ k])
    show ?thesis
    proof (cases "s k = Some b")
      case False
      with b(3) have idle: "s k = None" "reap_interval < t - last_refill b" by auto
      have "allow t b = allow t (new_bucket rpm t)"
        unfolding full by (rule allow_full [OF rpm b(1,2)]) (use idle in simp)
      with Some idle show ?thesis by (simp add: store_get_def)
    qed (simp add: store_get_def Some)
  qed (use sim in \<open>auto simp: sweep_sim_def store_get_def dest!: spec [of _ k]\<close>)
  have ok: "bucket_ok rpm (store_get rpm k t s')" "last_refill (store_get rpm k t s') \<le> t"
  proof -
    have "bucket_ok rpm (store_get rpm k t s') \<and> last_refill (store_get rpm k t s') \<le> t"
    proof (cases "s' k")
      case None
      then show ?thesis using new_bucket_ok [OF rpm(1), of t] by (simp add: store_get_def new_bucket_def)
    next
      case (Some b)
      with sim show ?thesis by (auto simp: sweep_sim_def store_get_def dest!: spec [of _ k])
    qed
    then show "bucket_ok rpm (store_get rpm k t s')" "last_refill (store_get rpm k t s') \<le> t" by simp_all
  qed
  obtain ok b where st: "allow t (store_get rpm k t s') = (ok, b)" by force
  note b = allow_step(1,2) [OF rpm ok st]
  show "fst (store_allow rpm k t s) = fst (store_allow rpm k t s')" by (simp add: store_allow_def same st)
  show "sweep_sim rpm t (snd (store_allow rpm k t s)) (snd (store_allow rpm k t s'))"
  proof -
    have "snd (store_allow rpm k t s) = s(k \<mapsto> b)" "snd (store_allow rpm k t s') = s'(k \<mapsto> b)"
      by (simp_all add: store_allow_def same st)
    note stores = this
    show ?thesis unfolding sweep_sim_def stores
    proof
      fix j
      from spec [OF sim [unfolded sweep_sim_def], of j] b
      show "case (s'(k \<mapsto> b)) j of None \<Rightarrow> (s(k \<mapsto> b)) j = None
        | Some c \<Rightarrow> bucket_ok rpm c \<and> last_refill c \<le> t \<and>
            ((s(k \<mapsto> b)) j = Some c \<or> (s(k \<mapsto> b)) j = None \<and> last_refill c < t - reap_interval)"
        by (cases "j = k"; cases "s' j") simp_all
    qed
  qed
qed

lemma limiter_run_sim:
  assumes "0 < rpm" "rpm \<le> 10000" "sweep_sim rpm t s s'" "sorted (t # map event_time es)"
  shows "limiter_run rpm True es s = limiter_run rpm False es s'"
  using assms(3,4)
proof (induction es arbitrary: t s s')
  case (Cons e es)
  have later: "sweep_sim rpm (event_time e) s s'" using Cons.prems by (intro sweep_sim_later [OF Cons.prems(1)]) simp
  have srt: "sorted (event_time e # map event_time es)" using Cons.prems(2) by simp
  show ?case
  proof (cases e)
    case (Request k u)
    note step = sweep_sim_allow [OF assms(1,2) later [unfolded Request event_time.simps], of k]
    have "limiter_run rpm True es (snd (store_allow rpm k u s)) = limiter_run rpm False es (snd (store_allow rpm k u s'))"
      using Cons.IH [OF step(2)] srt by (simp add: Request)
    with step(1) show ?thesis by (simp add: Request split_beta)
  next
    case (Tick u)
    have "sweep_sim rpm u (reap_buckets u s) s'" using later by (intro sweep_sim_reap) (simp add: Tick)
    with Cons.IH [of u] srt show ?thesis by (simp add: Tick)
  qed
qed simp


subsection \<open>Samples\<close>

theorem rate_limit_any_window_witness:
  "int (count_list (fst (allow_all [3, 5] (snd (allow_all [2] (new_bucket 1 0))))) True) * (60 * 10 ^ 9) \<le> 1 * (60 * 10 ^ 9 + (5 - 3))"
  using rate_limit_any_window [of 1 0 "[2]" 3 "[5]"] by simp

theorem short_polls_starve_witness:
  "fst (allow_all (map (\<lambda>i. 0 + 500000000 * (int i + 1)) [0..<7200])
     \<lparr>capacity = 60, tokens = 0, rate = limiter_rate 60, last_refill = 0\<rparr>) = replicate 7200 False"
  using short_polls_starve [of "\<lparr>capacity = 60, tokens = 0, rate = limiter_rate 60, last_refill = 0\<rparr>" 7200]
  by (simp only: token_bucket.simps simp_thms)


end
