(* ===== verification/Http_Chain.thy ===== *)
theory Http_Chain
  imports Rate_Limit
begin

text \<open>
  The middleware chain of the server (\<open>internal/middleware\<close>, in the order \<open>internal/handler/router.go\<close>
  installs it) as a labelled step relation: cross-origin headers and preflight, the request ID,
  authentication, the default organisation, the two rate limits, and the idempotency cache around
  the handler. A request takes one step from its arrival to the call of the handler (or to its
  answer) and one more when the handler returns; other requests step in between. The handler's
  output, the fresh request ID and the clock are free in every step. Logging, metrics, tracing, the
  client address (\<open>realip.go\<close>) and the body limit do not change what is modelled and are left out.
\<close>

subsection \<open>Requests and responses\<close>

type_synonym http_header = "string \<rightharpoonup> string"

record http_request =
  rq_method :: string
  rq_path :: string
  rq_header :: http_header

record http_response =
  rs_status :: int
  rs_header :: http_header
  rs_body :: string

definition header_get :: "http_header \<Rightarrow> string \<Rightarrow> string" where
  "header_get h name = (case h name of None \<Rightarrow> [] | Some v \<Rightarrow> v)"

text \<open>\<open>http.Error\<close> on top of the headers set so far.\<close>

definition http_error :: "http_header \<Rightarrow> string \<Rightarrow> int \<Rightarrow> http_response" where
  "http_error w msg code =
     \<lparr>rs_status = code,
      rs_header = w(''Content-Length'' := None, ''Content-Type'' \<mapsto> ''text/plain; charset=utf-8'',
                    ''X-Content-Type-Options'' \<mapsto> ''nosniff''),
      rs_body = msg @ [CHR 0x0A]\<rparr>"

definition rate_message :: string where
  "rate_message = [CHR 0x7B, CHR 0x22] @ ''error'' @ [CHR 0x22] @ '':'' @ [CHR 0x22] @ ''rate limit exceeded'' @ [CHR 0x22, CHR 0x7D]"

definition auth_message :: "string \<Rightarrow> string" where
  "auth_message msg = [CHR 0x7B, CHR 0x22] @ ''error'' @ [CHR 0x22] @ '':'' @ [CHR 0x22] @ msg @ [CHR 0x22, CHR 0x7D]"

subsection \<open>Cross-origin requests and request IDs\<close>

record cors_config =
  allowed_origins :: "string list"
  cors_max_age :: int

definition allow_origin :: "cors_config \<Rightarrow> string \<Rightarrow> string" where
  "allow_origin cfg origin =
     (if origin = [] then []
      else if allowed_origins cfg = [] \<or> ''*'' \<in> set (allowed_origins cfg) then ''*''
      else if origin \<in> set (allowed_origins cfg) then origin else [])"

definition cors_headers :: "cors_config \<Rightarrow> http_request \<Rightarrow> http_header \<Rightarrow> http_header" where
  "cors_headers cfg rq w =
     (let a = allow_origin cfg (header_get (rq_header rq) ''Origin'') in
      if a = [] then w
      else let w' = w(''Access-Control-Allow-Origin'' \<mapsto> a,
                      ''Access-Control-Allow-Methods'' \<mapsto> ''GET, POST, DELETE, OPTIONS'',
                      ''Access-Control-Allow-Headers'' \<mapsto> ''Content-Type, Authorization, X-Request-ID, Connect-Protocol-Version'',
                      ''Access-Control-Expose-Headers'' \<mapsto> ''X-Request-ID'',
                      ''Access-Control-Max-Age'' \<mapsto> itoa (cors_max_age cfg))
           in if a \<noteq> ''*'' then w'(''Vary'' \<mapsto> ''Origin'') else w')"

definition request_id :: "string \<Rightarrow> http_request \<Rightarrow> http_header \<Rightarrow> http_header" where
  "request_id fresh rq w =
     (let rid = header_get (rq_header rq) ''X-Request-ID''
      in w(''X-Request-ID'' \<mapsto> (if rid = [] then fresh else rid)))"

subsection \<open>Authentication\<close>

record principal =
  principal_id :: string
  authenticated :: bool

definition anonymous :: principal where
  "anonymous = \<lparr>principal_id = ''anonymous'', authenticated = False\<rparr>"

datatype authenticator = No_Auth | Static_API_Key string

definition new_authenticator :: "string \<Rightarrow> string \<Rightarrow> authenticator" where
  "new_authenticator mode key = (if mode = ''api_key'' then Static_API_Key key else No_Auth)"

fun authenticate :: "authenticator \<Rightarrow> http_request \<Rightarrow> string + principal" where
  "authenticate No_Auth rq = Inr anonymous"
| "authenticate (Static_API_Key key) rq =
     (let h = header_get (rq_header rq) ''Authorization''; token = trim_prefix h ''Bearer '' in
      if h = [] then Inl ''missing Authorization header''
      else if token = h then Inl ''Authorization header must use Bearer scheme''
      else if token \<noteq> key then Inl ''invalid API key''
      else Inr \<lparr>principal_id = ''api_key'', authenticated = True\<rparr>)"

definition is_internal_path :: "string \<Rightarrow> bool" where
  "is_internal_path p = has_prefix p ''/internal/''"

definition has_excluded_prefix :: "string \<Rightarrow> bool" where
  "has_excluded_prefix p = list_ex (has_prefix p) [''/internal/'']"

definition excluded_path :: "string \<Rightarrow> bool" where
  "excluded_path p = (p \<in> {''/v1/health'', ''/v1/version'', ''/metrics''} \<or> has_excluded_prefix p)"

definition auth_principal :: "authenticator \<Rightarrow> http_request \<Rightarrow> string + principal" where
  "auth_principal a rq = (if excluded_path (rq_path rq) then Inr anonymous else authenticate a rq)"

definition default_org :: "string \<Rightarrow> http_request \<Rightarrow> http_request" where
  "default_org org rq =
     (if trim_space org \<noteq> [] \<and> trim_space (header_get (rq_header rq) ''X-Vectorless-Org'') = []
      then rq\<lparr>rq_header := (rq_header rq)(''X-Vectorless-Org'' \<mapsto> trim_space org)\<rparr> else rq)"

text \<open>Deadlines: none for the queue's callbacks, the long one for retrieval and answers.\<close>

definition is_query_path :: "string \<Rightarrow> bool" where
  "is_query_path p = (str_contains p ''query'' \<or> str_contains p ''Query'' \<or> has_prefix p ''/v1/answer'')"

definition endpoint_timeout :: "go_duration \<Rightarrow> go_duration \<Rightarrow> string \<Rightarrow> go_duration option" where
  "endpoint_timeout normal query p =
     (if is_internal_path p then None else Some (if is_query_path p then query else normal))"

subsection \<open>The idempotency cache\<close>

record cached_response =
  cr_status :: int
  cr_body :: string
  cr_expires :: go_time

type_synonym idem_cache = "string \<rightharpoonup> cached_response"

definition idem_get :: "go_time \<Rightarrow> string \<Rightarrow> idem_cache \<Rightarrow> cached_response option \<times> idem_cache" where
  "idem_get now key c =
     (case c key of
        None \<Rightarrow> (None, c)
      | Some cr \<Rightarrow> if cr_expires cr < now then (None, c(key := None)) else (Some cr, c))"

definition idem_reap :: "go_time \<Rightarrow> idem_cache \<Rightarrow> idem_cache" where
  "idem_reap now c = (\<lambda>key. case c key of
     Some cr \<Rightarrow> if cr_expires cr < now then None else Some cr | None \<Rightarrow> None)"

definition idem_ttl :: go_duration where
  "idem_ttl = 24 * 60 * 60 * 10 ^ 9"

definition matches_any_prefix :: "string \<Rightarrow> string list \<Rightarrow> bool" where
  "matches_any_prefix p ps = list_ex (has_prefix p) ps"

definition raw_key :: "http_request \<Rightarrow> string" where
  "raw_key rq = header_get (rq_header rq) ''Idempotency-Key''"

definition org_of :: "http_request \<Rightarrow> string" where
  "org_of rq = header_get (rq_header rq) ''X-Vectorless-Org''"

definition idem_applies :: "http_request \<Rightarrow> bool" where
  "idem_applies rq = (rq_method rq = ''POST'' \<and> matches_any_prefix (rq_path rq) [''/v1/documents''] \<and> raw_key rq \<noteq> [])"

definition idem_key :: "http_request \<Rightarrow> string" where
  "idem_key rq = rq_method rq @ ''|'' @ rq_path rq @ ''|'' @ org_of rq @ ''|'' @ raw_key rq"

definition replay_response :: "http_header \<Rightarrow> cached_response \<Rightarrow> http_response" where
  "replay_response w cr =
     \<lparr>rs_status = cr_status cr, rs_header = w(''X-Idempotency-Replayed'' \<mapsto> ''true''), rs_body = cr_body cr\<rparr>"

subsection \<open>The server\<close>

record server_config =
  cors :: "cors_config option"
  auth_mode :: string
  auth_api_key :: string
  auth_default_org :: string
  limit_enabled :: bool
  requests_per_minute :: int
  per_principal_rpm :: int

text \<open>
  A request in flight is known by the number it started with; it carries the request as the handler
  sees it and the response headers set before it.
\<close>

record server =
  shared_bucket :: token_bucket
  principal_buckets :: bucket_store
  idem :: idem_cache
  running :: "nat \<rightharpoonup> http_request \<times> http_header"
  started :: nat
  clock :: go_time
  crashed :: bool

definition new_server :: "server_config \<Rightarrow> go_time \<Rightarrow> server" where
  "new_server cfg now =
     \<lparr>shared_bucket = new_bucket (requests_per_minute cfg) now, principal_buckets = (\<lambda>_. None),
      idem = (\<lambda>_. None), running = (\<lambda>_. None), started = 0, clock = now, crashed = False\<rparr>"

text \<open>The two limits; a limit of zero or less is a passthrough.\<close>

definition shared_limit :: "server_config \<Rightarrow> go_time \<Rightarrow> server \<Rightarrow> bool \<times> server" where
  "shared_limit cfg now srv =
     (if limit_enabled cfg \<and> 0 < requests_per_minute cfg
      then let (ok, b) = allow now (shared_bucket srv) in (ok, srv\<lparr>shared_bucket := b\<rparr>)
      else (True, srv))"

definition principal_limit :: "server_config \<Rightarrow> string \<Rightarrow> go_time \<Rightarrow> server \<Rightarrow> bool \<times> server" where
  "principal_limit cfg pid now srv =
     (if 0 < per_principal_rpm cfg
      then let (ok, s) = store_allow (per_principal_rpm cfg) (principal_key pid) now (principal_buckets srv)
           in (ok, srv\<lparr>principal_buckets := s\<rparr>)
      else (True, srv))"

text \<open>From the arrival of a request to the idempotency cache: an answer, or the request and the headers so far.\<close>

definition admit :: "server_config \<Rightarrow> string \<Rightarrow> go_time \<Rightarrow> http_request \<Rightarrow> server
    \<Rightarrow> (http_response + http_request \<times> http_header) \<times> server" where
  "admit cfg fresh now rq srv =
     (let w0 = (case cors cfg of None \<Rightarrow> (\<lambda>_. None) | Some c \<Rightarrow> cors_headers c rq (\<lambda>_. None)) in
      if cors cfg \<noteq> None \<and> rq_method rq = ''OPTIONS''
      then (Inl \<lparr>rs_status = 204, rs_header = w0, rs_body = []\<rparr>, srv)
      else let w = request_id fresh rq w0 in
      case auth_principal (new_authenticator (auth_mode cfg) (auth_api_key cfg)) rq of
        Inl msg \<Rightarrow> (Inl (http_error w (auth_message msg) 401), srv)
      | Inr p \<Rightarrow>
          let rq' = default_org (auth_default_org cfg) rq;
              (ok, srv1) = shared_limit cfg now srv in
          if \<not> ok then (Inl (http_error (w(''Retry-After'' \<mapsto> ''1'')) rate_message 429), srv1)
          else let (ok2, srv2) = principal_limit cfg (principal_id p) now srv1 in
          if \<not> ok2
          then (Inl (http_error (w(''Retry-After'' \<mapsto> ''1'',
                                   ''X-RateLimit-Limit'' \<mapsto> int_to_str (per_principal_rpm cfg),
                                   ''X-RateLimit-Remaining'' \<mapsto> ''0'')) rate_message 429), srv2)
          else (Inr (rq', w), srv2))"

definition idem_lookup :: "go_time \<Rightarrow> http_request \<Rightarrow> idem_cache \<Rightarrow> cached_response option \<times> idem_cache" where
  "idem_lookup now rq c = (if idem_applies rq then idem_get now (idem_key rq) c else (None, c))"

text \<open>What the handler does with the response writer, and what is recorded of it.\<close>

record handler_output =
  ho_status :: "int option"
  ho_header :: http_header
  ho_body :: string

definition handler_response :: "http_header \<Rightarrow> handler_output \<Rightarrow> http_response" where
  "handler_response w h =
     \<lparr>rs_status = (case ho_status h of None \<Rightarrow> 200 | Some c \<Rightarrow> c), rs_header = w ++ ho_header h, rs_body = ho_body h\<rparr>"

definition idem_record :: "go_time \<Rightarrow> http_request \<Rightarrow> http_response \<Rightarrow> idem_cache \<Rightarrow> idem_cache" where
  "idem_record now rq resp c =
     (if idem_applies rq
      then c(idem_key rq \<mapsto> \<lparr>cr_status = rs_status resp, cr_body = rs_body resp, cr_expires = now + idem_ttl\<rparr>)
      else c)"

definition recovered :: "http_header \<Rightarrow> http_response" where
  "recovered w = http_error w ([CHR 0x7B, CHR 0x22] @ ''error'' @ [CHR 0x22] @ '':'' @ [CHR 0x22] @ ''internal server error'' @ [CHR 0x22, CHR 0x7D]) 500"

text \<open>
  The steps. A panic is caught by the recovery middleware only on the handler's own goroutine; the
  deadline of every path outside \<open>/internal/\<close> runs the handler on a goroutine of its own, where a
  panic ends the process.
\<close>

datatype server_event =
    Answered http_request http_response
  | Replayed http_request http_response go_time
  | Started nat http_request
  | Finished nat http_request http_response go_time
  | Recovered nat http_response
  | Crashed nat
  | Swept

inductive server_step :: "server_config \<Rightarrow> server \<Rightarrow> server_event \<Rightarrow> server \<Rightarrow> bool" for cfg where
  answered: "\<lbrakk>\<not> crashed s; clock s \<le> now; admit cfg fresh now rq s = (Inl resp, s')\<rbrakk>
     \<Longrightarrow> server_step cfg s (Answered rq resp) (s'\<lparr>clock := now\<rparr>)"
| replayed: "\<lbrakk>\<not> crashed s; clock s \<le> now; admit cfg fresh now rq s = (Inr (rq', w), s');
      idem_lookup now rq' (idem s') = (Some cr, c)\<rbrakk>
     \<Longrightarrow> server_step cfg s (Replayed rq' (replay_response w cr) now) (s'\<lparr>idem := c, clock := now\<rparr>)"
| started: "\<lbrakk>\<not> crashed s; clock s \<le> now; admit cfg fresh now rq s = (Inr (rq', w), s');
      idem_lookup now rq' (idem s') = (None, c)\<rbrakk>
     \<Longrightarrow> server_step cfg s (Started (started s) rq')
           (s'\<lparr>idem := c, clock := now, running := (running s')(started s \<mapsto> (rq', w)), started := started s + 1\<rparr>)"
| finished: "\<lbrakk>\<not> crashed s; clock s \<le> now; running s i = Some (rq, w); resp = handler_response w h\<rbrakk>
     \<Longrightarrow> server_step cfg s (Finished i rq resp now)
           (s\<lparr>idem := idem_record now rq resp (idem s), clock := now, running := (running s)(i := None)\<rparr>)"
| recovered: "\<lbrakk>\<not> crashed s; running s i = Some (rq, w); is_internal_path (rq_path rq)\<rbrakk>
     \<Longrightarrow> server_step cfg s (Recovered i (recovered (w ++ h))) (s\<lparr>running := (running s)(i := None)\<rparr>)"
| crashed: "\<lbrakk>\<not> crashed s; running s i = Some (rq, w); \<not> is_internal_path (rq_path rq)\<rbrakk>
     \<Longrightarrow> server_step cfg s (Crashed i) (s\<lparr>crashed := True, running := (\<lambda>_. None)\<rparr>)"
| swept_cache: "\<lbrakk>\<not> crashed s; clock s \<le> now\<rbrakk>
     \<Longrightarrow> server_step cfg s Swept (s\<lparr>idem := idem_reap now (idem s), clock := now\<rparr>)"
| swept_buckets: "\<lbrakk>\<not> crashed s; clock s \<le> now\<rbrakk>
     \<Longrightarrow> server_step cfg s Swept (s\<lparr>principal_buckets := reap_buckets now (principal_buckets s), clock := now\<rparr>)"

inductive server_run :: "server_config \<Rightarrow> server \<Rightarrow> server_event list \<Rightarrow> server \<Rightarrow> bool" for cfg s where
  idle: "server_run cfg s [] s"
| more: "server_run cfg s es s' \<Longrightarrow> server_step cfg s' e s'' \<Longrightarrow> server_run cfg s (es @ [e]) s''"

inductive_cases stepE: "server_step cfg s e s'"
inductive_cases crashed_stepE [elim!]: "server_step cfg s (Crashed i) s'"

subsection \<open>What a request passes on its way to the handler\<close>

lemma limits_frame:
  assumes "shared_limit cfg now s = (ok, s')"
  shows "idem s' = idem s" "running s' = running s" "started s' = started s" "crashed s' = crashed s"
  using assms by (auto simp: shared_limit_def split: if_splits prod.splits)

lemma principal_limit_frame:
  assumes "principal_limit cfg pid now s = (ok, s')"
  shows "idem s' = idem s" "running s' = running s" "started s' = started s" "crashed s' = crashed s"
  using assms by (auto simp: principal_limit_def split: if_splits prod.splits)

lemma admit_frame:
  assumes "admit cfg fresh now rq s = (r, s')"
  shows "idem s' = idem s" "running s' = running s" "started s' = started s" "crashed s' = crashed s"
proof -
  obtain ok1 s1 where s1: "shared_limit cfg now s = (ok1, s1)" by force
  have "s' = s \<or> s' = s1 \<or> (\<exists>p ok2. principal_limit cfg p now s1 = (ok2, s'))"
    using assms s1 by (auto simp: admit_def Let_def split: if_splits sum.splits prod.splits)
  then show "idem s' = idem s" "running s' = running s" "started s' = started s" "crashed s' = crashed s"
    using limits_frame [OF s1] by (auto dest: principal_limit_frame)
qed

lemma admit_passed:
  assumes "admit cfg fresh now rq s = (Inr (rq', w), s')"
  shows "rq' = default_org (auth_default_org cfg) rq"
    and "\<exists>p. auth_principal (new_authenticator (auth_mode cfg) (auth_api_key cfg)) rq = Inr p"
  using assms by (auto simp: admit_def Let_def split: if_splits sum.splits prod.splits)

lemma default_org_frame [simp]:
  "rq_path (default_org org rq) = rq_path rq" "rq_method (default_org org rq) = rq_method rq"
  "header_get (rq_header (default_org org rq)) ''Authorization'' = header_get (rq_header rq) ''Authorization''"
  "raw_key (default_org org rq) = raw_key rq"
  by (simp_all add: default_org_def header_get_def raw_key_def)

lemma trim_prefix_changes: "trim_prefix h p = t \<Longrightarrow> t \<noteq> h \<Longrightarrow> h = p @ t"
  by (auto simp: trim_prefix_def has_prefix_iff split: if_splits)

definition credentials_ok :: "server_config \<Rightarrow> http_request \<Rightarrow> bool" where
  "credentials_ok cfg rq =
     (auth_mode cfg = ''api_key'' \<longrightarrow> excluded_path (rq_path rq) \<or>
        header_get (rq_header rq) ''Authorization'' = ''Bearer '' @ auth_api_key cfg)"

lemma auth_principal_credentials:
  "auth_principal (new_authenticator (auth_mode cfg) (auth_api_key cfg)) rq = Inr p \<Longrightarrow> credentials_ok cfg rq"
  by (auto simp: auth_principal_def new_authenticator_def credentials_ok_def Let_def dest: trim_prefix_changes split: if_splits)

lemma admit_credentials: "admit cfg fresh now rq s = (Inr (rq', w), s') \<Longrightarrow> credentials_ok cfg rq'"
  using admit_passed [of cfg fresh now rq s rq' w s'] auth_principal_credentials [of cfg rq]
  by (auto simp: credentials_ok_def)

lemma step_credentials:
  "server_step cfg s e s' \<Longrightarrow> e \<in> {Started i rq, Replayed rq resp t} \<Longrightarrow> credentials_ok cfg rq"
  by (induction rule: server_step.induct) (auto dest: admit_credentials)

text \<open>
  C24. With an API key configured, in every run of the server, however requests interleave: the
  handler is called, and a stored response is replayed, only for a request that carries the key as
  its bearer token or whose path is one of the public ones.
\<close>

theorem only_authenticated_requests_served:
  assumes "server_run cfg (new_server cfg t0) es s" "auth_mode cfg = ''api_key''"
    and "Started i rq \<in> set es \<or> Replayed rq resp t \<in> set es"
  shows "excluded_path (rq_path rq) \<or> header_get (rq_header rq) ''Authorization'' = ''Bearer '' @ auth_api_key cfg"
proof -
  have "credentials_ok cfg rq" using assms(1,3)
    by (induction rule: server_run.induct) (auto dest: step_credentials [where i = i and rq = rq and resp = resp and t = t])
  with assms(2) show ?thesis by (simp add: credentials_ok_def)
qed

subsection \<open>The cache holds what handlers answered\<close>

definition stored_by :: "server_event list \<Rightarrow> string \<Rightarrow> cached_response \<Rightarrow> bool" where
  "stored_by es key cr = (\<exists>i rq resp t. Finished i rq resp t \<in> set es \<and> idem_applies rq \<and> idem_key rq = key \<and>
     cr = \<lparr>cr_status = rs_status resp, cr_body = rs_body resp, cr_expires = t + idem_ttl\<rparr>)"

definition ends :: "nat \<Rightarrow> server_event \<Rightarrow> bool" where
  "ends i e = (case e of Finished j rq resp t \<Rightarrow> j = i | Recovered j resp \<Rightarrow> j = i | Crashed j \<Rightarrow> j = i | _ \<Rightarrow> False)"

definition run_inv :: "server_event list \<Rightarrow> server \<Rightarrow> bool" where
  "run_inv es s =
     ((\<forall>key cr. idem s key = Some cr \<longrightarrow> stored_by es key cr) \<and>
      (\<forall>i rq w. running s i = Some (rq, w) \<longrightarrow> Started i rq \<in> set es \<and> (\<forall>e \<in> set es. \<not> ends i e)) \<and>
      (\<forall>i rq. Started i rq \<in> set es \<longrightarrow> i < started s) \<and>
      (\<forall>i e. e \<in> set es \<longrightarrow> ends i e \<longrightarrow> i < started s))"

lemma stored_by_later: "stored_by es key cr \<Longrightarrow> stored_by (es @ [e]) key cr"
  unfolding stored_by_def by (elim exE) (intro exI, auto)

lemma idem_get_sub:
  "idem_get now k c = (r, c') \<Longrightarrow> c' key = Some cr \<Longrightarrow> c key = Some cr"
  by (auto simp: idem_get_def split: option.splits if_splits)

lemma idem_get_hit: "idem_get now k c = (Some cr, c') \<Longrightarrow> c k = Some cr \<and> now \<le> cr_expires cr"
  by (auto simp: idem_get_def split: option.splits if_splits)

lemma idem_lookup_sub: "idem_lookup now rq c = (r, c') \<Longrightarrow> c' key = Some cr \<Longrightarrow> c key = Some cr"
  by (auto simp: idem_lookup_def dest: idem_get_sub split: if_splits)

lemma idem_reap_sub: "idem_reap now c key = Some cr \<Longrightarrow> c key = Some cr"
  by (auto simp: idem_reap_def split: option.splits if_splits)

lemma run_invD:
  assumes "run_inv es s"
  shows "idem s key = Some cr \<Longrightarrow> stored_by es key cr"
    and "running s i = Some (rq, w) \<Longrightarrow> Started i rq \<in> set es"
    and "running s i = Some (rq, w) \<Longrightarrow> e \<in> set es \<Longrightarrow> \<not> ends i e"
    and "Started i rq \<in> set es \<Longrightarrow> i < started s"
    and "e \<in> set es \<Longrightarrow> ends i e \<Longrightarrow> i < started s"
  using assms by (auto simp: run_inv_def)

lemma ends_simps [simp]:
  "ends i (Answered rq resp) = False" "ends i (Replayed rq resp t) = False" "ends i (Started j rq) = False" "ends i Swept = False"
  "ends i (Finished j rq resp t) = (j = i)" "ends i (Recovered j resp) = (j = i)" "ends i (Crashed j) = (j = i)"
  by (simp_all add: ends_def)

text \<open>A step that starts no request and ends none, and stores nothing new.\<close>

lemma run_inv_quiet:
  assumes "run_inv es s" "\<And>key cr. idem s' key = Some cr \<Longrightarrow> idem s key = Some cr"
    and "running s' = running s" "started s' = started s" "\<And>i. \<not> ends i e" "\<And>i rq. e \<noteq> Started i rq"
  shows "run_inv (es @ [e]) s'"
  using assms(1,3-6) assms(2) [THEN run_invD(1) [OF assms(1)]]
  unfolding run_inv_def by (auto intro: stored_by_later)

text \<open>A step that ends request \<open>i\<close>.\<close>

lemma run_inv_ended:
  assumes "run_inv es s" "running s i = Some (rq, w)" "ends i e" "\<And>j. ends j e \<Longrightarrow> j = i" "\<And>j rq. e \<noteq> Started j rq"
    and "\<And>key cr. idem s' key = Some cr \<Longrightarrow> stored_by (es @ [e]) key cr"
    and "running s' = (running s)(i := None) \<or> running s' = (\<lambda>_. None)" "started s' = started s"
  shows "run_inv (es @ [e]) s'"
proof -
  have i: "i < started s" using run_invD(2,4) [OF assms(1)] assms(2) by blast
  have r: "j \<noteq> i \<and> running s j = Some (rq', w')" if "running s' j = Some (rq', w')" for j rq' w'
    using assms(7) that by (auto split: if_splits)
  show ?thesis unfolding run_inv_def
  proof (intro conjI allI impI)
    fix j rq' w' assume "running s' j = Some (rq', w')"
    note j = r [OF this]
    show "Started j rq' \<in> set (es @ [e])" using run_invD(2) [OF assms(1)] j by auto
    show "\<forall>e' \<in> set (es @ [e]). \<not> ends j e'" using run_invD(3) [OF assms(1)] j assms(4) by auto
  qed (use assms(4,5,6,8) i run_invD(4,5) [OF assms(1)] in auto)
qed

lemma run_inv_step:
  assumes "server_step cfg s e s'" "run_inv es s"
  shows "run_inv (es @ [e]) s'"
  using assms
proof (induction rule: server_step.induct)
  case (answered s now fresh rq resp s')
  then show ?case using admit_frame [OF answered(3)] by (intro run_inv_quiet [OF answered(4)]) simp_all
next
  case (replayed s now fresh rq rq' w s' cr c)
  then show ?case using admit_frame [OF replayed(3)] by (intro run_inv_quiet [OF replayed(5)]) (auto dest: idem_lookup_sub)
next
  case (started s now fresh rq rq' w s' c)
  note fr = admit_frame [OF started(3)] and inv = started(5)
  have idem: "stored_by es key cr" if "c key = Some cr" for key cr
    using idem_lookup_sub [OF started(4) that] run_invD(1) [OF inv] fr(1) by simp
  have fresh: "\<not> ends (started s) e" if "e \<in> set es" for e
    using run_invD(5) [OF inv that, of "started s"] by blast
  show ?case unfolding run_inv_def
  proof (intro conjI allI impI)
    fix j rq0 w0 assume "running (s'\<lparr>idem := c, clock := now, running := (running s')(started s \<mapsto> (rq', w)), started := started s + 1\<rparr>) j = Some (rq0, w0)"
    then have j: "j = started s \<and> rq0 = rq' \<or> running s j = Some (rq0, w0)" using fr by (auto split: if_splits)
    then show "Started j rq0 \<in> set (es @ [Started (started s) rq'])" using run_invD(2) [OF inv] by auto
    from j show "\<forall>e \<in> set (es @ [Started (started s) rq']). \<not> ends j e" using run_invD(3) [OF inv] fresh by auto
  qed (use idem fr run_invD(4,5) [OF inv] in \<open>auto intro: stored_by_later less_SucI\<close>)
next
  case (finished s now i rq w resp h)
  note inv = finished(5)
  have "stored_by (es @ [Finished i rq resp now]) key cr"
    if "idem_record now rq resp (idem s) key = Some cr" for key cr
  proof (cases "idem s key = Some cr")
    case True
    then show ?thesis using run_invD(1) [OF inv] by (blast intro: stored_by_later)
  next
    case False
    with that show ?thesis by (auto simp: idem_record_def stored_by_def split: if_splits)
  qed
  then show ?case by (intro run_inv_ended [OF inv finished(3)]) simp_all
next
  case (recovered s i rq w h)
  show ?case by (rule run_inv_ended [OF recovered(4,2)]) (use run_invD(1) [OF recovered(4)] in \<open>auto intro: stored_by_later\<close>)
next
  case (crashed s i rq w)
  show ?case by (rule run_inv_ended [OF crashed(4,2)]) (use run_invD(1) [OF crashed(4)] in \<open>auto intro: stored_by_later\<close>)
next
  case (swept_cache s now)
  then show ?case by (intro run_inv_quiet [OF swept_cache(3)]) (auto dest: idem_reap_sub)
next
  case (swept_buckets s now)
  then show ?case by (intro run_inv_quiet [OF swept_buckets(3)]) auto
qed

lemma run_inv_run: "server_run cfg (new_server cfg t0) es s \<Longrightarrow> run_inv es s"
proof (induction rule: server_run.induct)
  case idle
  show ?case by (simp add: run_inv_def new_server_def)
next
  case (more es s' e s'')
  from more(2,3) show ?case by (rule run_inv_step)
qed

lemma server_run_snoc: "server_run cfg s0 (es @ [e]) s \<Longrightarrow> \<exists>s1. server_run cfg s0 es s1 \<and> server_step cfg s1 e s"
  by (erule server_run.cases) auto

lemma run_split:
  "server_run cfg s0 (pre @ e # post) s \<Longrightarrow> \<exists>s1 s2. server_run cfg s0 pre s1 \<and> server_step cfg s1 e s2"
proof (induction post arbitrary: s rule: rev_induct)
  case Nil
  then show ?case using server_run_snoc by blast
next
  case (snoc x post)
  then obtain s' where "server_run cfg s0 (pre @ e # post) s'"
    using server_run_snoc [of cfg s0 "pre @ e # post" x s] by auto
  then show ?case by (rule snoc.IH)
qed

lemma ended_was_running: "server_step cfg s e s' \<Longrightarrow> ends i e \<Longrightarrow> \<exists>rq w. running s i = Some (rq, w)"
  by (induction rule: server_step.induct) auto

lemma finished_was_running: "server_step cfg s (Finished i rq resp t) s' \<Longrightarrow> \<exists>w. running s i = Some (rq, w)"
  by (auto elim: server_step.cases)

lemma finished_was_started:
  assumes run: "server_run cfg (new_server cfg t0) es s" and fin: "Finished i rq resp t \<in> set es"
  shows "Started i rq \<in> set es"
proof -
  obtain pre post where es: "es = pre @ Finished i rq resp t # post" using split_list [OF fin] by blast
  then obtain s1 s2 where "server_run cfg (new_server cfg t0) pre s1" "server_step cfg s1 (Finished i rq resp t) s2"
    using run run_split by blast
  then show ?thesis using run_invD(2) [OF run_inv_run] finished_was_running es by fastforce
qed

text \<open>
  However requests interleave, a request that was started ends at most once, and it is answered
  as the request that was started.
\<close>

theorem requests_end_once:
  assumes "server_run cfg (new_server cfg t0) es s"
  shows "length (filter (ends i) es) \<le> 1 \<and> (\<forall>rq resp t. Finished i rq resp t \<in> set es \<longrightarrow> Started i rq \<in> set es)"
proof (intro conjI allI impI)
  show "length (filter (ends i) es) \<le> 1" using assms
  proof (induction rule: server_run.induct)
    case (more es s' e s'')
    show ?case
    proof (cases "ends i e")
      case True
      then obtain rq w where "running s' i = Some (rq, w)" using ended_was_running [OF more(2)] by blast
      then have "filter (ends i) es = []"
        using run_invD(3) [OF run_inv_run [OF more(1)]] by (auto simp: filter_empty_conv)
      then show ?thesis by simp
    qed (use more in simp)
  qed simp
qed (erule finished_was_started [OF assms])

subsection \<open>Replays\<close>

lemma bar_split: "CHR ''|'' \<notin> set x \<Longrightarrow> CHR ''|'' \<notin> set x' \<Longrightarrow> x @ CHR ''|'' # y = x' @ CHR ''|'' # y' \<Longrightarrow> x = x' \<and> y = y'"
proof (induction x arbitrary: x')
  case Nil
  then show ?case by (cases x') auto
next
  case (Cons c x)
  then show ?case by (cases x') auto
qed

definition plain_key :: "http_request \<Rightarrow> bool" where
  "plain_key rq = (CHR ''|'' \<notin> set (rq_path rq) \<and> CHR ''|'' \<notin> set (org_of rq))"

lemma idem_key_inject:
  assumes "idem_key rq = idem_key rq'" "idem_applies rq" "idem_applies rq'" "plain_key rq" "plain_key rq'"
  shows "rq_path rq = rq_path rq'" "org_of rq = org_of rq'" "raw_key rq = raw_key rq'"
proof -
  have "rq_method rq = rq_method rq'" using assms(2,3) by (simp add: idem_applies_def)
  with assms(1) have eq: "rq_path rq @ CHR ''|'' # (org_of rq @ CHR ''|'' # raw_key rq)
      = rq_path rq' @ CHR ''|'' # (org_of rq' @ CHR ''|'' # raw_key rq')"
    by (simp add: idem_key_def)
  have p: "CHR ''|'' \<notin> set (rq_path rq)" "CHR ''|'' \<notin> set (rq_path rq')" "CHR ''|'' \<notin> set (org_of rq)" "CHR ''|'' \<notin> set (org_of rq')"
    using assms(4,5) by (simp_all add: plain_key_def)
  note path = bar_split [OF p(1,2) eq]
  then show "rq_path rq = rq_path rq'" by blast
  from path have "org_of rq @ CHR ''|'' # raw_key rq = org_of rq' @ CHR ''|'' # raw_key rq'" by blast
  from bar_split [OF p(3,4) this] show "org_of rq = org_of rq'" "raw_key rq = raw_key rq'" by blast+
qed

lemma idem_lookup_hit:
  "idem_lookup now rq c = (Some cr, c') \<Longrightarrow> idem_applies rq \<and> c (idem_key rq) = Some cr \<and> now \<le> cr_expires cr"
  by (auto simp: idem_lookup_def dest: idem_get_hit split: if_splits)

lemma replayed_from_cache:
  assumes "server_step cfg s (Replayed rq resp t) s'"
  shows "\<exists>cr. idem s (idem_key rq) = Some cr \<and> idem_applies rq \<and> t \<le> cr_expires cr \<and>
    rs_status resp = cr_status cr \<and> rs_body resp = cr_body cr"
  using assms
proof cases
  case (replayed fresh rq0 w s1 cr c)
  then show ?thesis using admit_frame(1) [OF replayed(5)] idem_lookup_hit [OF replayed(6)]
    by (intro exI [of _ cr]) (simp add: replay_response_def)
qed


subsection \<open>Samples, and what the chain does not do\<close>

definition sample_config :: server_config where
  "sample_config = \<lparr>cors = None, auth_mode = ''api_key'', auth_api_key = ''k'', auth_default_org = [],
     limit_enabled = False, requests_per_minute = 0, per_principal_rpm = 0\<rparr>"

definition sample_post :: "string \<Rightarrow> string \<Rightarrow> http_request" where
  "sample_post org key = \<lparr>rq_method = ''POST'', rq_path = ''/v1/documents'',
     rq_header = [''Authorization'' \<mapsto> ''Bearer k'', ''X-Vectorless-Org'' \<mapsto> org, ''Idempotency-Key'' \<mapsto> key]\<rparr>"

definition sample_output :: handler_output where
  "sample_output = \<lparr>ho_status = Some 202, ho_header = [''Content-Type'' \<mapsto> ''application/json''], ho_body = ''doc''\<rparr>"

abbreviation sample_headers :: http_header where
  "sample_headers \<equiv> [''X-Request-ID'' \<mapsto> ''id'']"

abbreviation sample_answer :: http_response where
  "sample_answer \<equiv> handler_response sample_headers sample_output"

abbreviation sample_replay :: http_response where
  "sample_replay \<equiv> \<lparr>rs_status = 202, rs_header = sample_headers(''X-Idempotency-Replayed'' \<mapsto> ''true''), rs_body = ''doc''\<rparr>"

lemma sample_admit:
  "admit sample_config ''id'' now (sample_post org key) s = (Inr (sample_post org key, sample_headers), s)"
  by (simp add: admit_def sample_config_def sample_post_def auth_principal_def excluded_path_def has_excluded_prefix_def
      new_authenticator_def has_prefix_def trim_prefix_def header_get_def default_org_def shared_limit_def principal_limit_def
      request_id_def Let_def)

lemma sample_applies: "key \<noteq> [] \<Longrightarrow> idem_applies (sample_post org key)"
  by (simp add: idem_applies_def sample_post_def matches_any_prefix_def has_prefix_def raw_key_def header_get_def)

lemma sample_start:
  assumes "server_run sample_config s0 es s" "\<not> crashed s" "clock s \<le> now" "idem s = (\<lambda>_. None)"
  shows "server_run sample_config s0 (es @ [Started (started s) (sample_post org key)])
    (s\<lparr>clock := now, running := (running s)(started s \<mapsto> (sample_post org key, sample_headers)), started := started s + 1\<rparr>)"
proof -
  have "idem_lookup now (sample_post org key) (idem s) = (None, idem s)"
    by (simp add: idem_lookup_def idem_get_def assms(4))
  from server_run.more [OF assms(1) server_step.started [OF assms(2,3) sample_admit this]] show ?thesis
    by simp
qed

lemma sample_run:
  "server_run sample_config (new_server sample_config 0)
     ([Started 0 (sample_post ''a'' ''1''), Finished 0 (sample_post ''a'' ''1'') sample_answer 5]
      @ [Replayed (sample_post ''a'' ''1'') sample_replay 7])
     (new_server sample_config 0\<lparr>idem := idem_record 5 (sample_post ''a'' ''1'') sample_answer (\<lambda>_. None), running := (\<lambda>_. None), clock := 7, started := 1\<rparr>)"
proof -
  let ?rq = "sample_post ''a'' ''1''" and ?s0 = "new_server sample_config 0"
  let ?c = "idem_record 5 ?rq sample_answer (\<lambda>_. None)"
  have s0: "\<not> crashed ?s0" "clock ?s0 \<le> 2" "idem ?s0 = (\<lambda>_. None)" "started ?s0 = 0" "running ?s0 = (\<lambda>_. None)"
    by (simp_all add: new_server_def)
  define s1 where "s1 = ?s0\<lparr>clock := 2, running := [0 \<mapsto> (?rq, sample_headers)], started := 1\<rparr>"
  have r1: "server_run sample_config ?s0 [Started 0 ?rq] s1"
    using sample_start [OF server_run.idle s0(1-3), of "''a''" "''1''"] by (simp add: s0 s1_def)
  have f: "\<not> crashed s1" "clock s1 \<le> 5" "running s1 0 = Some (?rq, sample_headers)" using s0 by (simp_all add: s1_def)
  define s2 where "s2 = ?s0\<lparr>idem := ?c, running := (\<lambda>_. None), clock := 5, started := 1\<rparr>"
  have r2: "server_run sample_config ?s0 [Started 0 ?rq, Finished 0 ?rq sample_answer 5] s2"
    using server_run.more [OF r1 server_step.finished [OF f refl [of sample_answer]]] by (simp add: s1_def s2_def new_server_def)
  have l: "\<not> crashed s2" "clock s2 \<le> 7"
    "idem_lookup 7 ?rq (idem s2) = (Some \<lparr>cr_status = 202, cr_body = ''doc'', cr_expires = 5 + idem_ttl\<rparr>, ?c)"
    using s0 by (simp_all add: s2_def idem_lookup_def idem_get_def idem_record_def sample_applies handler_response_def
        sample_output_def idem_ttl_def)
  show ?thesis
    using server_run.more [OF r2 server_step.replayed [OF l(1,2) sample_admit l(3)]]
    by (simp add: s2_def replay_response_def new_server_def)
qed

theorem only_authenticated_requests_served_witness:
  "excluded_path (rq_path (sample_post ''a'' ''1'')) \<or>
    header_get (rq_header (sample_post ''a'' ''1'')) ''Authorization'' = ''Bearer '' @ auth_api_key sample_config"
  by (rule only_authenticated_requests_served [OF sample_run, of 0 "sample_post ''a'' ''1''" sample_replay 7])
    (simp_all add: sample_config_def)

theorem requests_end_once_witness:
  "length (filter (ends 0) ([Started 0 (sample_post ''a'' ''1''), Finished 0 (sample_post ''a'' ''1'') sample_answer 5]
     @ [Replayed (sample_post ''a'' ''1'') sample_replay 7])) \<le> 1"
  using requests_end_once [OF sample_run, of 0] by blast


text \<open>Two requests with one key, the second arriving before the first is done, both reach the handler.\<close>

lemma same_key_runs_twice:
  "\<exists>s. server_run sample_config (new_server sample_config 0)
     [Started 0 (sample_post ''a'' ''1''), Started 1 (sample_post ''a'' ''1'')] s"
proof -
  let ?s0 = "new_server sample_config 0"
  have s0: "\<not> crashed ?s0" "clock ?s0 \<le> 2" "idem ?s0 = (\<lambda>_. None)" "started ?s0 = 0" by (simp_all add: new_server_def)
  note r1 = sample_start [OF server_run.idle s0(1-3), of "''a''" "''1''"]
  show ?thesis using sample_start [OF r1, of 3 "''a''" "''1''"] s0 by (simp add: exI)
qed

text \<open>A vertical bar in the organisation makes two requests of different organisations share a cache entry.\<close>

lemma bar_in_org_collides:
  "idem_key (sample_post ''a|b'' ''c'') = idem_key (sample_post ''a'' ''b|c'')"
  by (simp add: idem_key_def sample_post_def org_of_def raw_key_def header_get_def)

text \<open>The headers of the handler, such as its content type, are not replayed.\<close>

lemma replay_forgets_headers:
  "rs_header sample_answer ''Content-Type'' = Some ''application/json'' \<and> rs_header sample_replay ''Content-Type'' = None"
  by (simp add: handler_response_def sample_output_def)

text \<open>A panic of a handler outside \<open>/internal/\<close> is not recovered: the process ends, with every other request in flight.\<close>

lemma panic_ends_server:
  assumes "running s i = Some (rq, w)" "\<not> is_internal_path (rq_path rq)" "\<not> crashed s"
  shows "\<exists>s'. server_step cfg s (Crashed i) s'"
    and "server_step cfg s (Recovered i resp) s' \<Longrightarrow> False"
    and "server_step cfg s (Crashed i) s' \<Longrightarrow> running s' = (\<lambda>_. None) \<and> (\<forall>e s''. \<not> server_step cfg s' e s'')"
  using assms by (auto intro: server_step.crashed elim: server_step.cases)

end
