(* ===== verification/Toc_Judge.thy ===== *)
theory Toc_Judge
  imports Judge_Rank Toc_Builder Parsed_Section "HOL-Library.AList"
begin

text \<open>
  The contents builder's questions to a Judge (\<open>pkg/ingest/toc_judge.go\<close>, \<open>toc_judge_fanout.go\<close>,
  \<open>prefilter.go\<close>): which pages are a table of contents, and whether a section opens the page it
  claims. Pages and claims are sent in batches sized by tokens; answers come back by key and are
  applied by walking the tree again in the same order.

  The Judge is a parameter that sees the questions of a request by key and the state \<open>'w\<close> of the
  world; so are its token estimate and the four regular expressions of the pre-filter, which return
  the places they match. The wordings of the questions are constants, one per constructor.
\<close>

subsection \<open>The builder and its questions\<close>

datatype toc_question =
    Is_Contents string
  | Section_Starts string
  | Opens_Page string string
  | Begins_In string string
  | Opens_Subsection string string string
  | Is_Entry string string int

type_synonym toc_request = "(string \<times> toc_question) list"

record toc_usage =
  tu_usage :: usage
  tu_generative :: int
  tu_degraded :: "string list"

type_synonym 'w toc_state = "'w \<times> toc_usage"

record prefilter_env =
  pf_entries :: "string \<Rightarrow> nat list"
  pf_items :: "string \<Rightarrow> nat"
  pf_parts :: "string \<Rightarrow> nat"
  pf_keyword :: "string \<Rightarrow> bool"

record 'w toc_builder =
  tb_judge :: "(toc_request \<Rightarrow> 'w \<Rightarrow> (string + verdict) \<times> 'w) option"
  tb_threshold :: f64
  tb_tokens :: "string \<Rightarrow> int"
  tb_prefilter :: prefilter_env
  tb_minimal :: bool
  tb_detect_chars :: int
  tb_first_pass :: int
  tb_split_over :: int
  tb_split_generations :: int

definition judge_budget :: int where
  "judge_budget = 24000"

definition judge_threshold :: "'w toc_builder \<Rightarrow> f64" where
  "judge_threshold b = (if f_lt (Fin 0) (tb_threshold b) then tb_threshold b else Fin (1 / 2))"

definition truncate_text :: "string \<Rightarrow> int \<Rightarrow> string" where
  "truncate_text s limit =
     (if limit \<le> 0 \<or> int (length s) \<le> limit then s
      else take (nat limit) s @ [CHR 0xE2, CHR 0x80, CHR 0xA6])"

definition add_judge_usage :: "toc_usage \<Rightarrow> verdict \<Rightarrow> toc_usage" where
  "add_judge_usage u j = u\<lparr>tu_usage := add_usage (tu_usage u) (judge_usage j)\<rparr>"

text \<open>One request: the answer, and the usage it adds.\<close>

definition ask :: "(toc_request \<Rightarrow> 'w \<Rightarrow> (string + verdict) \<times> 'w) \<Rightarrow> toc_request \<Rightarrow> 'w toc_state \<Rightarrow> (string + verdict) \<times> 'w toc_state" where
  "ask judge rq st =
     (case judge rq (fst st) of
        (Inl err, w) \<Rightarrow> (Inl err, (w, snd st))
      | (Inr j, w) \<Rightarrow> (Inr j, (w, add_judge_usage (snd st) j)))"

subsection \<open>The pre-filter\<close>

record toc_signal =
  ts_entries :: nat
  ts_dense_run :: nat
  ts_items :: nat
  ts_parts :: nat
  ts_keyword :: bool
  ts_chars :: nat

definition dense_window :: nat where "dense_window = 500"
definition dense_min :: nat where "dense_min = 4"

text \<open>The most matches that start within a window of one another; the places are in order.\<close>

fun densest_run :: "nat list \<Rightarrow> nat \<Rightarrow> nat" where
  "densest_run [] window = 0"
| "densest_run (m # ms) window =
     max (length (takeWhile (\<lambda>x. int x - int m \<le> int window) (m # ms))) (densest_run ms window)"

definition prefilter_toc :: "prefilter_env \<Rightarrow> string \<Rightarrow> toc_signal" where
  "prefilter_toc env text =
     (let t = trim_space text in
      if t = [] then \<lparr>ts_entries = 0, ts_dense_run = 0, ts_items = 0, ts_parts = 0, ts_keyword = False, ts_chars = 0\<rparr>
      else let t = take 16000 t in
        \<lparr>ts_entries = length (pf_entries env t), ts_dense_run = densest_run (pf_entries env t) dense_window,
         ts_items = pf_items env t, ts_parts = pf_parts env t, ts_keyword = pf_keyword env t, ts_chars = length text\<rparr>)"

definition any_signal :: "toc_signal \<Rightarrow> bool" where
  "any_signal s = (dense_min \<le> ts_dense_run s \<or> 1 \<le> ts_items s \<or> 1 \<le> ts_parts s \<or> ts_keyword s)"

definition signal_score :: "toc_signal \<Rightarrow> nat" where
  "signal_score s = ts_entries s + 3 * ts_items s + 2 * ts_parts s + (if ts_keyword s then 10 else 0)"

subsection \<open>Batches\<close>

text \<open>\<open>batchByTokens\<close>: a page that fits no request is left out.\<close>

fun batch_pages :: "('p \<Rightarrow> int) \<Rightarrow> 'p list \<Rightarrow> 'p list \<Rightarrow> int \<Rightarrow> 'p list list" where
  "batch_pages cost [] cur used = (if cur = [] then [] else [cur])"
| "batch_pages cost (p # ps) cur used =
     (if cost p > judge_budget then batch_pages cost ps cur used
      else if cur \<noteq> [] \<and> used + cost p > judge_budget then cur # batch_pages cost ps [p] (cost p)
      else batch_pages cost ps (cur @ [p]) (used + cost p))"

definition page_ask_cost :: "'w toc_builder \<Rightarrow> int \<Rightarrow> page_text \<Rightarrow> int" where
  "page_ask_cost b max_chars p = tb_tokens b (truncate_text (pg_text p) max_chars) + 96"

definition batch_by_tokens :: "'w toc_builder \<Rightarrow> page_text list \<Rightarrow> int \<Rightarrow> page_text list list" where
  "batch_by_tokens b pages max_chars = batch_pages (page_ask_cost b max_chars) pages [] 0"

text \<open>The inner loop over claims: take what fits, from the front; \<open>skip\<close> passes over what fits no request.\<close>

fun fill_batch :: "bool \<Rightarrow> ('c \<Rightarrow> int) \<Rightarrow> 'c list \<Rightarrow> int \<Rightarrow> 'c list \<Rightarrow> 'c list \<times> 'c list" where
  "fill_batch skip cost [] used acc = (acc, [])"
| "fill_batch skip cost (c # cs) used acc =
     (if 0 < used \<and> used + cost c > judge_budget then (acc, c # cs)
      else if skip \<and> cost c > judge_budget then fill_batch skip cost cs used acc
      else fill_batch skip cost cs (used + cost c) (acc @ [c]))"

lemma fill_batch_rest: "length (snd (fill_batch skip cost cs used acc)) \<le> length cs"
  by (induction skip cost cs used acc rule: fill_batch.induct) auto

lemma fill_batch_first: "length (snd (fill_batch skip cost (c # cs) 0 acc)) \<le> length cs"
  by (simp add: fill_batch_rest)

lemma fill_batch_less: "fill_batch skip cost cs 0 acc = (b, rest) \<Longrightarrow> cs \<noteq> [] \<Longrightarrow> length rest < length cs"
proof (cases cs)
  case (Cons c cs')
  assume "fill_batch skip cost cs 0 acc = (b, rest)"
  then show ?thesis using fill_batch_first [of skip cost c cs' acc] Cons by simp
qed simp

function claim_batches :: "bool \<Rightarrow> ('c \<Rightarrow> int) \<Rightarrow> 'c list \<Rightarrow> 'c list list" where
  "claim_batches skip cost cs =
     (if cs = [] then [] else case fill_batch skip cost cs 0 [] of (b, rest) \<Rightarrow> b # claim_batches skip cost rest)"
  by auto
termination
  by (relation "measure (\<lambda>(_, _, cs). length cs)") (auto dest: fill_batch_less sym)

declare claim_batches.simps [simp del]

subsection \<open>Detection\<close>

definition pad3 :: "int \<Rightarrow> string" where
  "pad3 n =
     (if n < 0 then ''-'' @ replicate (2 - length (digits_of (nat (- n)))) CHR ''0'' @ digits_of (nat (- n))
      else replicate (3 - length (digits_of (nat n))) CHR ''0'' @ digits_of (nat n))"

definition page_key :: "int \<Rightarrow> string" where
  "page_key n = ''page_'' @ pad3 n"

definition put :: "string \<Rightarrow> toc_question \<Rightarrow> toc_request \<Rightarrow> toc_request" where
  "put k q rq = AList.update k q rq"

definition contents_request :: "int \<Rightarrow> page_text list \<Rightarrow> toc_request" where
  "contents_request max_chars batch =
     fold (\<lambda>p. put (page_key (pg_number p)) (Is_Contents (truncate_text (pg_text p) max_chars))) batch []"

definition contents_found :: "f64 \<Rightarrow> verdict \<Rightarrow> page_text list \<Rightarrow> int list" where
  "contents_found th j batch =
     List.map_filter (\<lambda>p. case jd_noul j (page_key (pg_number p)) of
       None \<Rightarrow> None | Some pr \<Rightarrow> if f_lt th pr then Some (pg_number p) else None) batch"

text \<open>Ask the batches one after the other; an error gives up all of them.\<close>

fun ask_batches :: "(toc_request \<Rightarrow> 'w \<Rightarrow> (string + verdict) \<times> 'w) \<Rightarrow> ('b \<Rightarrow> toc_request)
    \<Rightarrow> 'b list \<Rightarrow> 'w toc_state \<Rightarrow> (string + ('b \<times> verdict) list) \<times> 'w toc_state" where
  "ask_batches judge rq_of [] st = (Inr [], st)"
| "ask_batches judge rq_of (b # bs) st =
     (if rq_of b = [] then ask_batches judge rq_of bs st
      else case ask judge (rq_of b) st of
        (Inl err, st1) \<Rightarrow> (Inl err, st1)
      | (Inr j, st1) \<Rightarrow>
          (case ask_batches judge rq_of bs st1 of
             (Inl err, st2) \<Rightarrow> (Inl err, st2)
           | (Inr js, st2) \<Rightarrow> (Inr ((b, j) # js), st2)))"

definition judge_toc_batches :: "'w toc_builder \<Rightarrow> (toc_request \<Rightarrow> 'w \<Rightarrow> (string + verdict) \<times> 'w)
    \<Rightarrow> page_text list \<Rightarrow> int \<Rightarrow> 'w toc_state \<Rightarrow> (string + int list) \<times> 'w toc_state" where
  "judge_toc_batches b judge pages max_chars st =
     (case ask_batches judge (contents_request max_chars) (batch_by_tokens b pages max_chars) st of
        (Inl err, st1) \<Rightarrow> (Inl err, st1)
      | (Inr js, st1) \<Rightarrow>
          (Inr (sort (concat (map (\<lambda>(batch, j). contents_found (judge_threshold b) j batch) js))), st1))"

definition toc_detector_max_chars :: int where "toc_detector_max_chars = 12000"
definition detect_chars_minimal :: int where "detect_chars_minimal = 2000"
definition first_pass_default :: int where "first_pass_default = 6"

definition detect_candidates :: "page_text list \<Rightarrow> int \<Rightarrow> page_text list" where
  "detect_candidates pages limit = filter (\<lambda>p. trim_space (pg_text p) \<noteq> []) (take (nat limit) pages)"

text \<open>\<open>Inr None\<close> is "not handled" without an error.\<close>

definition detect_toc_pages_judge :: "'w toc_builder \<Rightarrow> page_text list \<Rightarrow> int \<Rightarrow> 'w toc_state
    \<Rightarrow> (string + int list option) \<times> 'w toc_state" where
  "detect_toc_pages_judge b pages limit st =
     (case tb_judge b of
        None \<Rightarrow> (Inr None, st)
      | Some judge \<Rightarrow>
          let cands = detect_candidates pages limit;
              got = (\<lambda>(r, st). (map_sum id Some r, st)) in
          if cands = [] then (Inr (Some []), st)
          else if \<not> tb_minimal b then got (judge_toc_batches b judge cands toc_detector_max_chars st)
          else let max_chars = (if tb_detect_chars b \<le> 0 then detect_chars_minimal else tb_detect_chars b);
                   first = (if tb_first_pass b \<le> 0 then first_pass_default else tb_first_pass b);
                   first = (if int (length cands) < first then length cands else nat first);
                   keep = filter (\<lambda>p. any_signal (prefilter_toc (tb_prefilter b) (pg_text p)));
                   stage1 = keep (take first cands);
                   stage2 = keep (drop first cands) in
          case (if stage1 = [] then (Inr [], st) else judge_toc_batches b judge stage1 max_chars st) of
            (Inl err, st1) \<Rightarrow> (Inl err, st1)
          | (Inr found, st1) \<Rightarrow>
              if found \<noteq> [] then (Inr (Some found), st1)
              else if stage2 = [] then (Inr (Some []), st1)
              else got (judge_toc_batches b judge stage2 max_chars st1))"

subsection \<open>Keys for the leaves\<close>

definition slug_add :: "string \<Rightarrow> string \<Rightarrow> string" where
  "slug_add r b =
     (let c = hd r in
      if length r = 1 \<and> (byte_in 97 122 c \<or> byte_in 48 57 c) then b @ [c]
      else if length r = 1 \<and> byte_in 65 90 c then b @ [byte (of_char c + 32)]
      else if b \<noteq> [] \<and> last b \<noteq> CHR ''_'' then b @ ''_'' else b)"

fun slug_runes :: "string list \<Rightarrow> string \<Rightarrow> string" where
  "slug_runes [] b = b"
| "slug_runes (r # rs) b =
     (let b' = slug_add r b in if 40 < length b' then b' else slug_runes rs b')"

definition slug_for_key :: "string \<Rightarrow> string" where
  "slug_for_key heading =
     (let s = slug_runes (runes heading) [];
          s = rev (dropWhile (\<lambda>c. c = CHR ''_'') (rev (dropWhile (\<lambda>c. c = CHR ''_'') s)))
      in if s = [] then ''untitled'' else s)"

text \<open>
  A key met before gets the number of times it was met appended; what is counted is the key that was
  used, so the number grows only for the first two leaves of a title.
\<close>

type_synonym key_counts = "string \<Rightarrow> nat"

definition next_key :: "string \<Rightarrow> key_counts \<Rightarrow> string \<times> key_counts" where
  "next_key base seen =
     (let key = (if 0 < seen base then base @ ''_'' @ digits_of (seen base) else base)
      in (key, seen(key := seen key + 1)))"

text \<open>The walks over the leaves of the tree, in order, with a state: \<open>visit\<close> gets a leaf's data and may change it.\<close>

fun walk_leaves :: "(toc_data \<Rightarrow> 's \<Rightarrow> toc_data \<times> 's) \<Rightarrow> toc_node list \<Rightarrow> 's \<Rightarrow> toc_node list \<times> 's" where
  "walk_leaves visit [] s = ([], s)"
| "walk_leaves visit (TOC d ns # rest) s =
     (let (n', s1) = (if ns = [] then (case visit d s of (d', s1) \<Rightarrow> (TOC d' [], s1))
                      else (case walk_leaves visit ns s of (ns', s1) \<Rightarrow> (TOC d ns', s1)));
          (rest', s2) = walk_leaves visit rest s1
      in (n' # rest', s2))"

fun leaves_in :: "toc_node list \<Rightarrow> toc_data list" where
  "leaves_in [] = []"
| "leaves_in (TOC d ns # rest) = (if ns = [] then [d] else leaves_in ns) @ leaves_in rest"

fun visit_all :: "(toc_data \<Rightarrow> 's \<Rightarrow> toc_data \<times> 's) \<Rightarrow> toc_data list \<Rightarrow> 's \<Rightarrow> toc_data list \<times> 's" where
  "visit_all visit [] s = ([], s)"
| "visit_all visit (d # ds) s =
     (let (d', s1) = visit d s; (ds', s2) = visit_all visit ds s1 in (d' # ds', s2))"

subsection \<open>Verification\<close>

record leaf_claim =
  lc_key :: string
  lc_title :: string
  lc_text :: string

definition verify_max_chars :: int where "verify_max_chars = 4000"

definition judge_verdict_key :: "string \<Rightarrow> int \<Rightarrow> string" where
  "judge_verdict_key heading page = ''s'' @ itoa page @ ''_'' @ slug_for_key heading"

text \<open>\<open>byPage\<close>: the text of the last page with the number.\<close>

definition by_page :: "page_text list \<Rightarrow> int \<Rightarrow> string option" where
  "by_page pages n = map_of (map (\<lambda>p. (pg_number p, pg_text p)) (rev pages)) n"

definition claims_page :: "toc_data \<Rightarrow> bool" where
  "claims_page d = (0 < start_page d \<and> trim_space (toc_title d) \<noteq> [])"

fun collect_claims :: "(int \<Rightarrow> string option) \<Rightarrow> toc_data list \<Rightarrow> key_counts \<Rightarrow> leaf_claim list" where
  "collect_claims pages [] seen = []"
| "collect_claims pages (d # ds) seen =
     (if \<not> claims_page d then collect_claims pages ds seen
      else case pages (start_page d) of
        None \<Rightarrow> collect_claims pages ds seen
      | Some text \<Rightarrow>
          if trim_space text = [] then collect_claims pages ds seen
          else let (key, seen') = next_key (judge_verdict_key (toc_title d) (start_page d)) seen
               in \<lparr>lc_key = key, lc_title = toc_title d, lc_text = text\<rparr> # collect_claims pages ds seen')"

definition collect_leaf_claims :: "toc_node list \<Rightarrow> (int \<Rightarrow> string option) \<Rightarrow> leaf_claim list" where
  "collect_leaf_claims ns pages = collect_claims pages (leaves_in ns) (\<lambda>_. 0)"

definition claim_cost :: "'w toc_builder \<Rightarrow> leaf_claim \<Rightarrow> int" where
  "claim_cost b c = tb_tokens b (truncate_text (lc_text c) verify_max_chars) + tb_tokens b (lc_title c) + 64"

definition verify_request :: "leaf_claim list \<Rightarrow> toc_request" where
  "verify_request cs = fold (\<lambda>c. put (lc_key c) (Opens_Page (lc_title c) (truncate_text (lc_text c) verify_max_chars))) cs []"

text \<open>The answers of one request by key; a key without an answer stays without a verdict.\<close>

definition record_verdicts :: "f64 \<Rightarrow> toc_request \<Rightarrow> verdict \<Rightarrow> (string \<rightharpoonup> bool) \<Rightarrow> (string \<rightharpoonup> bool)" where
  "record_verdicts th rq j vs =
     fold (\<lambda>k vs. case jd_noul j k of None \<Rightarrow> vs | Some p \<Rightarrow> vs(k \<mapsto> f_lt th p)) (map fst rq) vs"

definition verify_titles_judge :: "'w toc_builder \<Rightarrow> toc_node list \<Rightarrow> page_text list \<Rightarrow> 'w toc_state
    \<Rightarrow> (string + (string \<rightharpoonup> bool) option) \<times> 'w toc_state" where
  "verify_titles_judge b ns pages st =
     (case tb_judge b of
        None \<Rightarrow> (Inr None, st)
      | Some judge \<Rightarrow>
          let claims = collect_leaf_claims ns (by_page pages) in
          case ask_batches judge verify_request (claim_batches True (claim_cost b) claims) st of
            (Inl err, st1) \<Rightarrow> (Inl err, st1)
          | (Inr js, st1) \<Rightarrow>
              (Inr (Some (fold (\<lambda>(cs, j). record_verdicts (judge_threshold b) (verify_request cs) j) js (\<lambda>_. None))), st1))"

definition apply_verdict :: "(string \<rightharpoonup> bool) \<Rightarrow> toc_data \<Rightarrow> key_counts \<Rightarrow> toc_data \<times> key_counts" where
  "apply_verdict vs d seen =
     (if \<not> claims_page d then (d, seen)
      else let (key, seen') = next_key (judge_verdict_key (toc_title d) (start_page d)) seen
           in (if vs key = Some False then d\<lparr>start_page := 0\<rparr> else d, seen'))"

definition apply_judge_verdicts :: "toc_node list \<Rightarrow> (string \<rightharpoonup> bool) \<Rightarrow> toc_node list" where
  "apply_judge_verdicts ns vs =
     (if vs = (\<lambda>_. None) then ns else fst (walk_leaves (apply_verdict vs) ns (\<lambda>_. 0)))"

subsection \<open>The fan-out\<close>

record page_judgement =
  pj_is_toc :: f64
  pj_section_starts :: f64
  pj_asked :: bool

definition fanout_request :: "page_text list \<Rightarrow> toc_request" where
  "fanout_request batch =
     fold (\<lambda>p rq. let key = page_key (pg_number p); text = truncate_text (pg_text p) toc_detector_max_chars
       in put (''sec_'' @ key) (Section_Starts text) (put (''toc_'' @ key) (Is_Contents text) rq)) batch []"

definition page_judged :: "verdict \<Rightarrow> page_text \<Rightarrow> page_judgement" where
  "page_judged j p =
     (let prob = (\<lambda>k. case jd_noul j k of None \<Rightarrow> Fin 0 | Some v \<Rightarrow> v); key = page_key (pg_number p)
      in \<lparr>pj_is_toc = prob (''toc_'' @ key), pj_section_starts = prob (''sec_'' @ key), pj_asked = True\<rparr>)"

definition judge_pages_fanout :: "'w toc_builder \<Rightarrow> page_text list \<Rightarrow> int \<Rightarrow> 'w toc_state
    \<Rightarrow> (string + (int \<rightharpoonup> page_judgement) option) \<times> 'w toc_state" where
  "judge_pages_fanout b pages limit st =
     (case tb_judge b of
        None \<Rightarrow> (Inr None, st)
      | Some judge \<Rightarrow>
          let cands = detect_candidates pages limit in
          if cands = [] then (Inr (Some (\<lambda>_. None)), st)
          else case ask_batches judge fanout_request (batch_by_tokens b cands toc_detector_max_chars) st of
            (Inl err, st1) \<Rightarrow> (Inl err, st1)
          | (Inr js, st1) \<Rightarrow>
              (Inr (Some (fold (\<lambda>(batch, j) out. fold (\<lambda>p out. out(pg_number p \<mapsto> page_judged j p)) batch out) js (\<lambda>_. None))), st1))"

definition toc_pages_from :: "int list \<Rightarrow> (int \<rightharpoonup> page_judgement) \<Rightarrow> f64 \<Rightarrow> int list" where
  "toc_pages_from pages out th =
     sort (filter (\<lambda>n. case out n of None \<Rightarrow> False | Some pj \<Rightarrow> pj_asked pj \<and> f_lt th (pj_is_toc pj)) (remdups pages))"

subsection \<open>What a batch is\<close>

lemma batch_pages_concat:
  "concat (batch_pages cost ps cur used) = cur @ filter (\<lambda>p. cost p \<le> judge_budget) ps"
  by (induction cost ps cur used rule: batch_pages.induct) (auto simp: not_less)

definition batches_fit :: "('p \<Rightarrow> int) \<Rightarrow> 'p list list \<Rightarrow> bool" where
  "batches_fit cost bs = (\<forall>b \<in> set bs. b \<noteq> [] \<and> sum_list (map cost b) \<le> judge_budget)"

text \<open>Next to one another, no two batches could have been one.\<close>

fun batches_full :: "('p \<Rightarrow> int) \<Rightarrow> 'p list list \<Rightarrow> bool" where
  "batches_full cost (b # b' # bs) = (judge_budget < sum_list (map cost b) + cost (hd b') \<and> batches_full cost (b' # bs))"
| "batches_full cost _ = True"

lemma batches_full_Cons:
  "batches_full cost (b # bs) = ((bs \<noteq> [] \<longrightarrow> judge_budget < sum_list (map cost b) + cost (hd (hd bs))) \<and> batches_full cost bs)"
  by (cases bs) auto

lemma batch_pages_hd:
  "cur \<noteq> [] \<Longrightarrow> batch_pages cost ps cur used \<noteq> [] \<and> hd (hd (batch_pages cost ps cur used)) = hd cur"
  by (induction cost ps cur used rule: batch_pages.induct) auto

lemma batch_pages_ok:
  assumes "used = sum_list (map cost cur)" "used \<le> judge_budget"
  shows "batches_fit cost (batch_pages cost ps cur used) \<and> batches_full cost (batch_pages cost ps cur used)"
  using assms
proof (induction ps arbitrary: cur used)
  case Nil
  then show ?case by (simp add: batches_fit_def)
next
  case (Cons p ps)
  consider (skip) "cost p > judge_budget" | (close) "\<not> cost p > judge_budget" "cur \<noteq> [] \<and> used + cost p > judge_budget"
    | (add) "\<not> cost p > judge_budget" "\<not> (cur \<noteq> [] \<and> used + cost p > judge_budget)" by blast
  then show ?case
  proof cases
    case skip
    then show ?thesis using Cons.IH [OF Cons.prems] by simp
  next
    case close
    then have eq: "batch_pages cost (p # ps) cur used = cur # batch_pages cost ps [p] (cost p)" by simp
    have rest: "batches_fit cost (batch_pages cost ps [p] (cost p)) \<and> batches_full cost (batch_pages cost ps [p] (cost p))"
      using Cons.IH [of "cost p" "[p]"] close by simp
    have hd: "hd (hd (batch_pages cost ps [p] (cost p))) = p"
      using batch_pages_hd [of "[p]" cost ps "cost p"] by simp
    show ?thesis unfolding eq batches_full_Cons hd
      using rest close Cons.prems by (simp add: batches_fit_def)
  next
    case add
    then have eq: "batch_pages cost (p # ps) cur used = batch_pages cost ps (cur @ [p]) (used + cost p)" by auto
    have "used + cost p = sum_list (map cost (cur @ [p]))" using Cons.prems(1) by simp
    moreover have "used + cost p \<le> judge_budget" using add Cons.prems(1) by (cases "cur = []") simp_all
    ultimately show ?thesis unfolding eq by (rule Cons.IH)
  qed
qed

text \<open>
  C31. The batches sent to the Judge hold exactly the pages that fit a request at all, each once and in
  order; every batch is non-empty and within the token budget, and no batch had room for the page
  after it.
\<close>

theorem batch_by_tokens_exact:
  "concat (batch_by_tokens b pages max_chars) = filter (\<lambda>p. page_ask_cost b max_chars p \<le> judge_budget) pages
   \<and> batches_fit (page_ask_cost b max_chars) (batch_by_tokens b pages max_chars)
   \<and> batches_full (page_ask_cost b max_chars) (batch_by_tokens b pages max_chars)"
  using batch_pages_concat [of _ pages "[]" 0] batch_pages_ok [of 0 "page_ask_cost b max_chars" "[]" pages]
  by (simp add: batch_by_tokens_def judge_budget_def)

lemma fill_batch_parts:
  "fill_batch skip cost cs used acc = (b, rest) \<Longrightarrow>
    \<exists>taken. cs = taken @ rest \<and> b = acc @ filter (\<lambda>c. \<not> (skip \<and> cost c > judge_budget)) taken"
proof (induction skip cost cs used acc rule: fill_batch.induct)
  case (2 skip cost c cs used acc)
  show ?case
  proof (cases "0 < used \<and> used + cost c > judge_budget")
    case True
    with "2.prems" show ?thesis by auto
  next
    case go: False
    show ?thesis
    proof (cases "skip \<and> cost c > judge_budget")
      case True
      from "2.IH"(1) [OF go True] "2.prems" go True obtain taken
        where "cs = taken @ rest" "b = acc @ filter (\<lambda>c. \<not> (skip \<and> cost c > judge_budget)) taken" by auto
      with True show ?thesis by (intro exI [of _ "c # taken"]) auto
    next
      case False
      from "2.IH"(2) [OF go False] "2.prems" go False obtain taken
        where "cs = taken @ rest" "b = (acc @ [c]) @ filter (\<lambda>c. \<not> (skip \<and> cost c > judge_budget)) taken" by auto
      with False show ?thesis by (intro exI [of _ "c # taken"]) auto
    qed
  qed
qed simp

lemma claim_batches_concat:
  "concat (claim_batches skip cost cs) = filter (\<lambda>c. \<not> (skip \<and> cost c > judge_budget)) cs"
proof (induction skip cost cs rule: claim_batches.induct)
  case (1 skip cost cs)
  show ?case
  proof (cases "cs = []")
    case False
    obtain b rest where f: "fill_batch skip cost cs 0 [] = (b, rest)" by force
    from fill_batch_parts [OF f] obtain taken where t: "cs = taken @ rest" "b = filter (\<lambda>c. \<not> (skip \<and> cost c > judge_budget)) taken"
      by auto
    have "claim_batches skip cost cs = b # claim_batches skip cost rest"
      using False f by (subst claim_batches.simps) simp
    with 1 [OF False f [symmetric]] t show ?thesis by simp
  qed (simp add: claim_batches.simps)
qed

subsection \<open>Walks and keys\<close>

lemma visit_all_append:
  "visit_all v (xs @ ys) s =
     (let (xs', s1) = visit_all v xs s; (ys', s2) = visit_all v ys s1 in (xs' @ ys', s2))"
  by (induction xs arbitrary: s) (simp_all add: split_beta Let_def)

lemma leaves_in_nonempty: "ns \<noteq> [] \<Longrightarrow> leaves_in ns \<noteq> []"
  by (induction ns rule: leaves_in.induct) auto

lemma walk_leaves_nonempty: "fst (walk_leaves v ns s) = [] \<longleftrightarrow> ns = []"
proof (cases ns)
  case (Cons n rest)
  then show ?thesis by (cases n) (simp add: split_beta Let_def)
qed simp

lemma walk_leaves_visits:
  "leaves_in (fst (walk_leaves v ns s)) = fst (visit_all v (leaves_in ns) s) \<and>
   snd (walk_leaves v ns s) = snd (visit_all v (leaves_in ns) s)"
proof (induction ns arbitrary: s rule: leaves_in.induct)
  case (2 d ns rest)
  show ?case
  proof (cases "ns = []")
    case True
    obtain d' s1 where v: "v d s = (d', s1)" by force
    show ?thesis using 2(2) [of s1] v True by (simp add: split_beta Let_def)
  next
    case False
    obtain ns' s1 where w: "walk_leaves v ns s = (ns', s1)" by force
    with 2(1) [OF False, of s] have ns: "leaves_in ns' = fst (visit_all v (leaves_in ns) s)" "s1 = snd (visit_all v (leaves_in ns) s)" by auto
    have "ns' \<noteq> []" using walk_leaves_nonempty [of v ns s] w False by simp
    with 2(2) [of s1] w False ns show ?thesis by (simp add: visit_all_append split_beta Let_def)
  qed
qed simp

lemma length_visit_all [simp]: "length (fst (visit_all v ds s)) = length ds"
  by (induction ds arbitrary: s) (simp_all add: split_beta Let_def)

lemma digits_of_one: "digits_of (Suc 0) = ''1''"
  by code_simp

text \<open>A third leaf with the title of two others gets the key of the second.\<close>

lemma third_leaf_shares_key:
  "\<exists>seen1 seen2 seen3. next_key base (\<lambda>_. 0) = (base, seen1) \<and> next_key base seen1 = (base @ ''_1'', seen2) \<and>
     next_key base seen2 = (base @ ''_1'', seen3)"
  by (simp add: next_key_def Let_def digits_of_one)

text \<open>A leaf titled with a number can take the key another pair of leaves would get.\<close>

lemma numbered_title_shares_key:
  "\<exists>seen1 seen2 seen3. next_key (base @ ''_1'') (\<lambda>_. 0) = (base @ ''_1'', seen1) \<and>
     next_key base seen1 = (base, seen2) \<and> next_key base seen2 = (base @ ''_1'', seen3)"
  by (simp add: next_key_def Let_def digits_of_one)

end
