(* ===== verification/Toc_Resolve.thy ===== *)
theory Toc_Resolve
  imports Toc_Judge
begin

text \<open>
  Placing the leaves of a contents tree on their pages (\<open>pkg/ingest/toc_resolve.go\<close>): code finds the
  places where a leaf's title stands as a heading, the Judge is asked of each whether the section
  begins there, and the best answer above the threshold becomes the leaf's page.

  Lowering, the class of a rune, and the matches of the two title patterns are parameters (Go's
  Unicode tables and regular expressions); so is the order in which Go ranges over the questions of
  an answered request. The candidate lists hold one hit per page, so the order among equal pages does
  not matter.
\<close>

subsection \<open>Titles\<close>

record resolve_env =
  rv_lower :: "string \<Rightarrow> string"
  rv_upper :: "string \<Rightarrow> bool"
  rv_letter :: "string \<Rightarrow> bool"
  rv_find_title :: "string list \<Rightarrow> string \<Rightarrow> (nat \<times> nat) list"
  rv_find_label :: "string list \<Rightarrow> string \<Rightarrow> (nat \<times> nat) list"
  rv_order :: "string list \<Rightarrow> string list"

definition word_byte :: "char \<Rightarrow> bool" where
  "word_byte c = (byte_in 97 122 c \<or> byte_in 48 57 c)"

text \<open>\<open>reNonWord\<close>: every run of other bytes becomes one space.\<close>

fun non_word_spaces :: "string \<Rightarrow> bool \<Rightarrow> string" where
  "non_word_spaces [] run = []"
| "non_word_spaces (c # s) run =
     (if word_byte c then c # non_word_spaces s False
      else if run then non_word_spaces s True else CHR '' '' # non_word_spaces s True)"

definition normalise_heading :: "resolve_env \<Rightarrow> string \<Rightarrow> string" where
  "normalise_heading env s = trim_space (non_word_spaces (rv_lower env s) False)"

definition stopwords :: "string list" where
  "stopwords = [''and'', ''of'', ''the'', ''to'', ''for'', ''a'', ''an'', ''in'', ''on'', ''or'']"

definition content_words :: "resolve_env \<Rightarrow> string \<Rightarrow> string list" where
  "content_words env t = filter (\<lambda>w. w \<notin> set stopwords) (str_fields (normalise_heading env t))"

text \<open>The words a title is searched by; \<open>None\<close> when there is nothing to search for.\<close>

definition title_pattern :: "resolve_env \<Rightarrow> string \<Rightarrow> string list option" where
  "title_pattern env t = (let ws = content_words env t in if ws = [] then None else Some (take 6 ws))"

definition numbered_labels :: "string list" where
  "numbered_labels = [''item'', ''part'', ''note'', ''section'', ''chapter'', ''article'']"

definition label_pattern :: "resolve_env \<Rightarrow> string \<Rightarrow> string list option" where
  "label_pattern env t =
     (let ws = content_words env t in
      if length ws < 4 \<or> ws ! 0 \<notin> set numbered_labels then None
      else case atoi (rev (dropWhile (byte_in 97 122) (rev (ws ! 1)))) of
        None \<Rightarrow> None | Some n \<Rightarrow> Some (take 3 ws))"

subsection \<open>Headings on a page\<close>

record page_hit =
  ph_page :: int
  ph_offset :: nat

definition scan_chars :: nat where "scan_chars = 60000"
definition excerpt_before :: nat where "excerpt_before = 150"
definition excerpt_after :: nat where "excerpt_after = 450"
definition max_candidates_per_leaf :: nat where "max_candidates_per_leaf = 4"
definition max_heading_prefix_words :: nat where "max_heading_prefix_words = 5"

definition line_begin :: "string \<Rightarrow> nat \<Rightarrow> nat" where
  "line_begin text off = off - length (takeWhile (\<lambda>c. c \<noteq> CHR 0x0A) (rev (take off text)))"

definition trim_cutset :: "char list \<Rightarrow> string \<Rightarrow> string" where
  "trim_cutset cs s = rev (dropWhile (\<lambda>c. c \<in> set cs) (rev (dropWhile (\<lambda>c. c \<in> set cs) s)))"

definition is_stopword :: "string \<Rightarrow> bool" where
  "is_stopword w = (trim_cutset ''.,;:()'' w \<in> set stopwords)"

definition set_like_a_heading :: "resolve_env \<Rightarrow> string \<Rightarrow> nat \<Rightarrow> nat \<Rightarrow> bool" where
  "set_like_a_heading env text lo hi =
     (let prefix = str_fields (drop (line_begin text lo) (take lo text)) in
      length prefix \<le> max_heading_prefix_words
      \<and> list_all (\<lambda>w. \<not> (has_suffix w ''.'' \<or> has_suffix w '','' \<or> has_suffix w '';'')) prefix
      \<and> list_all (\<lambda>w. let r = hd (runes w) in
            \<not> (rv_letter env r \<and> \<not> rv_upper env r \<and> \<not> is_stopword (rv_lower env w)))
          (str_fields (drop lo (take hi text))))"

text \<open>\<open>rePartLabel\<close>: a part label and nothing else.\<close>

definition regexp_space :: "char \<Rightarrow> bool" where
  "regexp_space c = (c \<in> {CHR 0x09, CHR 0x0A, CHR 0x0C, CHR 0x0D, CHR '' ''})"

definition part_label :: "string \<Rightarrow> bool" where
  "part_label s =
     (let rest = drop 4 s;
          num = dropWhile regexp_space rest;
          tail = dropWhile regexp_space (dropWhile (\<lambda>c. c \<in> set ''ivxlcIVXLC0123456789'') num)
      in 4 \<le> length s \<and> s ! 0 \<in> set ''pP'' \<and> s ! 1 \<in> set ''aA'' \<and> s ! 2 \<in> set ''rR'' \<and> s ! 3 \<in> set ''tT''
         \<and> num \<noteq> rest \<and> num \<noteq> [] \<and> hd num \<in> set ''ivxlcIVXLC0123456789''
         \<and> tail \<in> set [[], ''.'', '':'', ''-'', [CHR 0xE2, CHR 0x80, CHR 0x94], [CHR 0xE2, CHR 0x80, CHR 0x93]])"

definition is_line_start :: "string \<Rightarrow> nat \<Rightarrow> bool" where
  "is_line_start text off =
     (let prefix = trim_space (trim_cutset (CHR '' '' # CHR 0x09 # ''*_#'') (drop (line_begin text off) (take off text)))
      in prefix = [] \<or> part_label prefix)"

text \<open>A page's first match that opens its line, and the first one before it that is set like a heading.\<close>

fun scan_matches :: "resolve_env \<Rightarrow> string \<Rightarrow> (nat \<times> nat) list \<Rightarrow> nat option \<Rightarrow> nat option \<times> nat option" where
  "scan_matches env text [] typo = (None, typo)"
| "scan_matches env text ((lo, hi) # ms) typo =
     (if is_line_start text lo then (Some lo, typo)
      else if typo = None \<and> set_like_a_heading env text lo hi then scan_matches env text ms (Some lo)
      else scan_matches env text ms typo)"

definition scan_pages :: "resolve_env \<Rightarrow> (string \<Rightarrow> (nat \<times> nat) list) \<Rightarrow> page_text list \<Rightarrow> page_hit list \<times> page_hit list" where
  "scan_pages env find_all pages =
     (let found = map (\<lambda>p. let text = take scan_chars (pg_text p)
                          in (pg_number p, scan_matches env text (find_all text) None))
                    (filter (\<lambda>p. 0 < pg_number p) pages);
          hits = (\<lambda>sel. List.map_filter (\<lambda>(n, r). map_option (\<lambda>o'. \<lparr>ph_page = n, ph_offset = o'\<rparr>) (sel r)) found)
      in (hits fst, hits snd))"

definition has_page :: "page_hit list \<Rightarrow> int \<Rightarrow> bool" where
  "has_page hs pg = list_ex (\<lambda>h. ph_page h = pg) hs"

definition union_hits :: "page_hit list \<Rightarrow> page_hit list \<Rightarrow> page_hit list" where
  "union_hits a b = fold (\<lambda>h out. if has_page out (ph_page h) then out else out @ [h]) b a"

definition find_candidate_pages :: "resolve_env \<Rightarrow> string \<Rightarrow> page_text list \<Rightarrow> page_hit list" where
  "find_candidate_pages env t pages =
     (if length (normalise_heading env t) < 8 then []
      else case title_pattern env t of
        None \<Rightarrow> []
      | Some ws \<Rightarrow>
          let (ls, ty) = scan_pages env (rv_find_title env ws) pages;
              (ls, ty) = (case label_pattern env t of
                None \<Rightarrow> (ls, ty)
              | Some lab \<Rightarrow> (let (ls2, ty2) = scan_pages env (rv_find_label env lab) pages
                            in (union_hits ls ls2, union_hits ty ty2)))
          in sort_key ph_page (if ls = [] then ty else ls))"

definition excerpt_around :: "string \<Rightarrow> nat \<Rightarrow> string" where
  "excerpt_around text off =
     (let lo = line_begin text off;
          lo = (if off - lo > excerpt_before then off - excerpt_before else lo);
          hi = min (off + excerpt_after) (length text)
      in drop lo (take hi text))"

subsection \<open>Candidates of the leaves\<close>

record resolved_leaf =
  rl_key :: string
  rl_title :: string
  rl_claimed :: int
  rl_candidates :: "page_hit list"

definition leaf_key_base :: "string \<Rightarrow> string" where
  "leaf_key_base t = ''r_'' @ slug_for_key t"

definition leaf_candidates :: "resolve_env \<Rightarrow> page_text list \<Rightarrow> int list \<Rightarrow> toc_data \<Rightarrow> page_hit list" where
  "leaf_candidates env pages exclude d =
     (let hits = find_candidate_pages env (toc_title d) pages;
          pg = start_page d;
          cands = filter (\<lambda>h. ph_page h \<notin> set exclude) hits;
          cands = (if cands = [] \<and> hits \<noteq> [] \<and> pg = 0 then hits else cands);
          cands = (if 0 < pg \<and> pg \<notin> set exclude \<and> \<not> has_page cands pg
                   then sort_key ph_page (cands @ [\<lparr>ph_page = pg, ph_offset = 0\<rparr>]) else cands)
      in if length cands > max_candidates_per_leaf
         then (if 0 < pg then [\<lparr>ph_page = pg, ph_offset = 0\<rparr>] else []) else cands)"

fun collect_resolve :: "resolve_env \<Rightarrow> page_text list \<Rightarrow> int list \<Rightarrow> toc_data list \<Rightarrow> key_counts \<Rightarrow> resolved_leaf list" where
  "collect_resolve env pages exclude [] seen = []"
| "collect_resolve env pages exclude (d # ds) seen =
     (if trim_space (toc_title d) = [] then collect_resolve env pages exclude ds seen
      else let (key, seen') = next_key (leaf_key_base (toc_title d)) seen
           in \<lparr>rl_key = key, rl_title = toc_title d, rl_claimed = start_page d,
                rl_candidates = leaf_candidates env pages exclude d\<rparr>
              # collect_resolve env pages exclude ds seen')"

definition collect_resolve_claims :: "resolve_env \<Rightarrow> toc_node list \<Rightarrow> page_text list \<Rightarrow> int list \<Rightarrow> resolved_leaf list" where
  "collect_resolve_claims env ns pages exclude = collect_resolve env pages exclude (leaves_in ns) (\<lambda>_. 0)"

subsection \<open>Asking\<close>

record probe =
  pb_key :: string
  pb_page :: int
  pb_offset :: nat

definition probes_of :: "resolved_leaf list \<Rightarrow> probe list" where
  "probes_of claims = concat (map (\<lambda>c. map (\<lambda>h. \<lparr>pb_key = rl_key c, pb_page = ph_page h, pb_offset = ph_offset h\<rparr>)
     (rl_candidates c)) claims)"

text \<open>\<open>titles\<close>: of leaves with the same key the last one counts.\<close>

definition titles_of :: "resolved_leaf list \<Rightarrow> string \<Rightarrow> string" where
  "titles_of claims k = (case map_of (map (\<lambda>c. (rl_key c, rl_title c)) (rev claims)) k of None \<Rightarrow> [] | Some t \<Rightarrow> t)"

definition page_or_empty :: "page_text list \<Rightarrow> int \<Rightarrow> string" where
  "page_or_empty pages n = (case by_page pages n of None \<Rightarrow> [] | Some t \<Rightarrow> t)"

definition probe_excerpt :: "page_text list \<Rightarrow> probe \<Rightarrow> string" where
  "probe_excerpt pages pr = excerpt_around (page_or_empty pages (pb_page pr)) (pb_offset pr)"

definition probe_cost :: "'w toc_builder \<Rightarrow> page_text list \<Rightarrow> probe \<Rightarrow> int" where
  "probe_cost b pages pr = tb_tokens b (probe_excerpt pages pr) + 80"

definition probe_key :: "probe \<Rightarrow> string" where
  "probe_key pr = pb_key pr @ ''_p'' @ itoa (pb_page pr)"

definition probe_request :: "(string \<Rightarrow> string) \<Rightarrow> page_text list \<Rightarrow> probe list \<Rightarrow> toc_request" where
  "probe_request titles pages prs =
     fold (\<lambda>pr. put (probe_key pr) (Begins_In (titles (pb_key pr)) (probe_excerpt pages pr))) prs []"

text \<open>\<open>splitProbeKey\<close>.\<close>

definition split_probe_key :: "string \<Rightarrow> string \<times> int" where
  "split_probe_key qk =
     (case find (\<lambda>i. has_prefix (drop i qk) ''_p'') (rev [0..<length qk]) of
        None \<Rightarrow> (qk, 0)
      | Some i \<Rightarrow> (take i qk, dec_val (takeWhile is_ascii_digit (drop (i + 2) qk))))"

type_synonym best_pages = "string \<rightharpoonup> int \<times> f64"

definition better_page :: "string \<times> f64 \<Rightarrow> best_pages \<Rightarrow> best_pages" where
  "better_page a best =
     (let (k, pg) = split_probe_key (fst a); p = snd a in
      case best k of
        None \<Rightarrow> best(k \<mapsto> (pg, p))
      | Some cur \<Rightarrow> if f_lt (snd cur) p then best(k \<mapsto> (pg, p)) else best)"

text \<open>The answers of one request in the order they are read.\<close>

definition probe_answers :: "resolve_env \<Rightarrow> toc_request \<Rightarrow> verdict \<Rightarrow> (string \<times> f64) list" where
  "probe_answers env rq j = List.map_filter (\<lambda>k. map_option (Pair k) (jd_noul j k)) (rv_order env (map fst rq))"

definition resolve_pages_judge :: "resolve_env \<Rightarrow> 'w toc_builder \<Rightarrow> toc_node list \<Rightarrow> page_text list \<Rightarrow> int list
    \<Rightarrow> 'w toc_state \<Rightarrow> (string + (string \<rightharpoonup> int) option) \<times> 'w toc_state" where
  "resolve_pages_judge env b ns pages exclude st =
     (case tb_judge b of
        None \<Rightarrow> (Inr None, st)
      | Some judge \<Rightarrow>
          let claims = collect_resolve_claims env ns pages exclude;
              rq = probe_request (titles_of claims) pages in
          case ask_batches judge rq (claim_batches False (probe_cost b pages) (probes_of claims)) st of
            (Inl err, st1) \<Rightarrow> (Inl err, st1)
          | (Inr js, st1) \<Rightarrow>
              let best = fold better_page (concat (map (\<lambda>(prs, j). probe_answers env (rq prs) j) js)) (\<lambda>_. None)
              in (Inr (Some (\<lambda>k. map_option (\<lambda>(pg, p). if f_lt (judge_threshold b) p then pg else 0) (best k))), st1))"

definition apply_page :: "(string \<rightharpoonup> int) \<Rightarrow> toc_data \<Rightarrow> key_counts \<Rightarrow> toc_data \<times> key_counts" where
  "apply_page resolved d seen =
     (if trim_space (toc_title d) = [] then (d, seen)
      else let (key, seen') = next_key (leaf_key_base (toc_title d)) seen
           in (case resolved key of None \<Rightarrow> d | Some pg \<Rightarrow> d\<lparr>start_page := pg\<rparr>, seen'))"

definition apply_resolved_pages :: "toc_node list \<Rightarrow> (string \<rightharpoonup> int) \<Rightarrow> toc_node list" where
  "apply_resolved_pages ns resolved =
     (if resolved = (\<lambda>_. None) then ns else fst (walk_leaves (apply_page resolved) ns (\<lambda>_. 0)))"

text \<open>\<open>resolvePagesOrKeep\<close>: two attempts, then the pages stay as they are and the usage says so.\<close>

definition resolver_attempts :: nat where "resolver_attempts = 2"

fun resolve_attempts :: "resolve_env \<Rightarrow> 'w toc_builder \<Rightarrow> ('w \<Rightarrow> bool) \<Rightarrow> page_text list \<Rightarrow> int list \<Rightarrow> nat \<Rightarrow> string
    \<Rightarrow> toc_node list \<Rightarrow> 'w toc_state \<Rightarrow> toc_node list \<times> 'w toc_state" where
  "resolve_attempts env b cancelled pages exclude 0 err ns (w, u) =
     (ns, (w, u\<lparr>tu_degraded := tu_degraded u @ [''page resolution: kept extraction's pages after ''
        @ digits_of resolver_attempts @ '' failed Judge attempts: '' @ err]\<rparr>))"
| "resolve_attempts env b cancelled pages exclude (Suc n) err ns st =
     (case resolve_pages_judge env b ns pages exclude st of
        (Inr None, st1) \<Rightarrow> (ns, st1)
      | (Inr (Some res), st1) \<Rightarrow> (apply_resolved_pages ns res, st1)
      | (Inl e, st1) \<Rightarrow>
          resolve_attempts env b cancelled pages exclude (if cancelled (fst st1) then 0 else n) e ns st1)"

definition resolve_pages_or_keep :: "resolve_env \<Rightarrow> 'w toc_builder \<Rightarrow> ('w \<Rightarrow> bool) \<Rightarrow> toc_node list \<Rightarrow> page_text list
    \<Rightarrow> int list \<Rightarrow> 'w toc_state \<Rightarrow> toc_node list \<times> 'w toc_state" where
  "resolve_pages_or_keep env b cancelled ns pages exclude st =
     resolve_attempts env b cancelled pages exclude resolver_attempts [] ns st"

subsection \<open>Probe keys\<close>

lemma find_in_append: "find P (xs @ ys) = (case find P xs of None \<Rightarrow> find P ys | Some x \<Rightarrow> Some x)"
  by (induction xs) auto

lemma find_last_index:
  assumes "i < n" "P i" "\<And>j. i < j \<Longrightarrow> j < n \<Longrightarrow> \<not> P j"
  shows "find P (rev [0..<n]) = Some i"
proof -
  have "[0..<n] = [0..<i] @ i # [Suc i..<n]"
    using assms(1) by (metis le_add1 less_imp_add_positive upt_add_eq_append upt_rec add_0 less_or_eq_imp_le upt_conv_Cons)
  then have "rev [0..<n] = rev [Suc i..<n] @ i # rev [0..<i]" by simp
  moreover have "find P (rev [Suc i..<n]) = None" using assms(3) by (auto simp: find_None_iff)
  ultimately show ?thesis using assms(2) by (simp add: find_in_append)
qed

lemma split_probe_key_own:
  assumes "0 \<le> n"
  shows "split_probe_key (k @ ''_p'' @ itoa n) = (k, n)"
proof -
  let ?d = "digits_of (nat n)" and ?qk = "k @ ''_p'' @ itoa n"
  have d: "itoa n = ?d" using assms by (simp add: itoa_def)
  have digit: "is_ascii_digit c" if "c \<in> set ?d" for c using digits_of_digits that by blast
  have no: "\<not> has_prefix (drop j ?qk) ''_p''" if j: "length k < j" "j < length ?qk" for j
  proof
    assume h: "has_prefix (drop j ?qk) ''_p''"
    have "drop j ?qk = drop (j - length k) (''_p'' @ ?d)" using j by (simp add: d)
    moreover obtain m where m: "j - length k = Suc m" using j by (metis Suc_diff_Suc)
    ultimately have eq: "drop j ?qk = drop m (CHR ''p'' # ?d)" by simp
    have "drop j ?qk \<noteq> []" using j by simp
    with h have hd: "hd (drop j ?qk) = CHR ''_''" by (auto simp: has_prefix_iff simp del: append_assoc drop_append)
    have "hd (drop j ?qk) \<in> set (CHR ''p'' # ?d)"
      unfolding eq using \<open>drop j ?qk \<noteq> []\<close> eq by (metis hd_in_set in_set_dropD)
    with hd digit [of "CHR ''_''"] show False by (auto simp: is_ascii_digit_def)
  qed
  have "find (\<lambda>i. has_prefix (drop i ?qk) ''_p'') (rev [0..<length ?qk]) = Some (length k)"
    by (rule find_last_index) (use no in \<open>simp_all add: has_prefix_def\<close>)
  then have "split_probe_key ?qk = (take (length k) ?qk, dec_val (takeWhile is_ascii_digit (drop (length k + 2) ?qk)))"
    by (simp only: split_probe_key_def option.case)
  moreover have "takeWhile is_ascii_digit ?d = ?d" using digit by (simp add: takeWhile_eq_all_conv)
  ultimately show ?thesis using assms by (simp add: d)
qed

subsection \<open>The best answer\<close>

lemma better_page_fold:
  assumes "\<And>k pg p. best k = Some (pg, p) \<Longrightarrow> \<exists>qk. (qk, p) \<in> A \<and> split_probe_key qk = (k, pg)"
    and "fold better_page as best k = Some (pg, p)"
  shows "\<exists>qk. (qk, p) \<in> A \<union> set as \<and> split_probe_key qk = (k, pg)"
  using assms
proof (induction as arbitrary: best A)
  case (Cons a as)
  have "\<exists>qk. (qk, p) \<in> insert a A \<and> split_probe_key qk = (k, pg)" if "better_page a best k = Some (pg, p)" for k pg p
  proof (cases "best k = Some (pg, p)")
    case True
    with Cons.prems(1) show ?thesis by blast
  next
    case False
    with that have "split_probe_key (fst a) = (k, pg)" "snd a = p"
      by (auto simp: better_page_def Let_def split: option.splits if_splits prod.splits)
    then show ?thesis by (intro exI [of _ "fst a"]) auto
  qed
  from Cons.IH [OF this] Cons.prems(2) show ?case by simp
qed simp

lemma f_lt_neg_trans: "\<not> f_lt p r \<Longrightarrow> f_lt p q \<Longrightarrow> \<not> f_lt q r"
  using f_lt_trans by blast

lemma better_page_max:
  assumes "\<And>k pg p. best k = Some (pg, p) \<Longrightarrow> \<forall>(qk, q) \<in> A. fst (split_probe_key qk) = k \<longrightarrow> \<not> f_lt p q"
    and "\<And>qk q. (qk, q) \<in> A \<Longrightarrow> best (fst (split_probe_key qk)) \<noteq> None"
    and "fold better_page as best k = Some (pg, p)"
  shows "\<forall>(qk, q) \<in> A \<union> set as. fst (split_probe_key qk) = k \<longrightarrow> \<not> f_lt p q"
  using assms
proof (induction as arbitrary: best A)
  case (Cons a as)
  obtain qa q where a: "a = (qa, q)" by force
  obtain ka pa where ka: "split_probe_key qa = (ka, pa)" by force
  have 1: "\<forall>(qk, r) \<in> insert a A. fst (split_probe_key qk) = k \<longrightarrow> \<not> f_lt p r" if b: "better_page a best k = Some (pg, p)" for k pg p
  proof (cases "k = ka")
    case False
    then have "best k = Some (pg, p)" using b by (auto simp: better_page_def a ka Let_def split: option.splits if_splits)
    with Cons.prems(1) False show ?thesis by (auto simp: a ka)
  next
    case True
    show ?thesis
    proof (cases "best ka")
      case None
      then have "\<forall>x \<in> A. fst (split_probe_key (fst x)) \<noteq> ka" using Cons.prems(2) None by (metis prod.collapse)
      moreover have "p = q" using b None True by (simp add: better_page_def a ka Let_def)
      ultimately show ?thesis using True by (fastforce simp: a)
    next
      case (Some cur)
      show ?thesis
      proof (cases "f_lt (snd cur) q")
        case lt: True
        then have "p = q" using b Some True by (simp add: better_page_def a ka Let_def)
        then show ?thesis using Cons.prems(1) [of ka "fst cur" "snd cur"] Some True f_lt_neg_trans [OF _ lt] by (auto simp: a)
      next
        case False
        then have "best k = Some (pg, p)" using b Some True by (simp add: better_page_def a ka Let_def)
        with Cons.prems(1) Some True False show ?thesis by (auto simp: a)
      qed
    qed
  qed
  have 2: "better_page a best (fst (split_probe_key qk)) \<noteq> None" if "(qk, r) \<in> insert a A" for qk r
    using that Cons.prems(2) [of qk r] by (auto simp: better_page_def a ka Let_def split: option.splits)
  have "fold better_page as (better_page a best) k = Some (pg, p)" using Cons.prems(3) by simp
  from Cons.IH [of "better_page a best" "insert a A", OF 1 2 this] show ?case by simp
qed simp

subsection \<open>What the requests hold\<close>

lemma put_map_of: "map_of (put k q rq) = (map_of rq)(k \<mapsto> q)"
  by (simp add: put_def update_conv')

lemma fold_put_map_of:
  "map_of (fold (\<lambda>x. put (f x) (g x)) xs rq) k =
     (case map_of (map (\<lambda>x. (f x, g x)) (rev xs)) k of None \<Rightarrow> map_of rq k | Some q \<Rightarrow> Some q)"
  by (induction xs arbitrary: rq) (auto simp: put_map_of map_add_Some_iff split: option.splits)

lemma fold_put_keys: "set (map fst (fold (\<lambda>x. put (f x) (g x)) xs rq)) = f ` set xs \<union> set (map fst rq)"
  by (induction xs arbitrary: rq) (auto simp: put_def dom_update)

lemma ask_batches_answered:
  "ask_batches judge rq_of bs st = (Inr js, st') \<Longrightarrow> (b, j) \<in> set js \<Longrightarrow>
    b \<in> set bs \<and> (\<exists>w w'. judge (rq_of b) w = (Inr j, w'))"
proof (induction judge rq_of bs st arbitrary: js st' rule: ask_batches.induct)
  case (2 judge rq_of b0 bs st)
  show ?case
  proof (cases "rq_of b0 = []")
    case True
    with 2 show ?thesis by auto
  next
    case False
    with "2.prems"(1) obtain j0 st1 js' where a: "ask judge (rq_of b0) st = (Inr j0, st1)"
      "ask_batches judge rq_of bs st1 = (Inr js', st')" "js = (b0, j0) # js'"
      by (auto split: prod.splits sum.splits)
    from a(1) have "\<exists>w'. judge (rq_of b0) (fst st) = (Inr j0, w')"
      by (auto simp: ask_def split: prod.splits sum.splits)
    with 2(2) [OF False a(1) [symmetric] refl a(2)] a(3) "2.prems"(2) show ?thesis by auto
  qed
qed simp

text \<open>The answer \<open>p\<close> to the question whether a titled section begins at a hit.\<close>

definition judged_at :: "(toc_request \<Rightarrow> 'w \<Rightarrow> (string + verdict) \<times> 'w) \<Rightarrow> string \<Rightarrow> string \<Rightarrow> string \<Rightarrow> f64 \<Rightarrow> bool" where
  "judged_at judge qk heading excerpt p = (\<exists>rq w j w'. judge rq w = (Inr j, w') \<and>
     map_of rq qk = Some (Begins_In heading excerpt) \<and> jd_noul j qk = Some p)"

lemma titles_of_own:
  "distinct (map rl_key claims) \<Longrightarrow> c \<in> set claims \<Longrightarrow> titles_of claims (rl_key c) = rl_title c"
proof -
  assume d: "distinct (map rl_key claims)" and c: "c \<in> set claims"
  have "map_of (map (\<lambda>c. (rl_key c, rl_title c)) (rev claims)) (rl_key c) = Some (rl_title c)"
    using d c by (intro map_of_is_SomeI) (simp_all add: comp_def rev_map [symmetric])
  then show ?thesis by (simp add: titles_of_def)
qed

lemma probes_of_set: "pr \<in> set (probes_of claims) \<Longrightarrow> \<exists>c \<in> set claims. \<exists>h \<in> set (rl_candidates c).
    pr = \<lparr>pb_key = rl_key c, pb_page = ph_page h, pb_offset = ph_offset h\<rparr>"
  by (auto simp: probes_of_def)

lemma probe_request_keys: "qk \<in> set (map fst (probe_request titles pages prs)) \<Longrightarrow> \<exists>pr \<in> set prs. qk = probe_key pr"
  unfolding probe_request_def fold_put_keys by auto

lemma probe_request_question:
  "map_of (probe_request titles pages prs) qk = Some q \<Longrightarrow>
    \<exists>pr \<in> set prs. qk = probe_key pr \<and> q = Begins_In (titles (pb_key pr)) (probe_excerpt pages pr)"
  unfolding probe_request_def fold_put_map_of by (auto split: option.splits dest!: map_of_SomeD)

lemma scan_pages_positive:
  "h \<in> set (fst (scan_pages env f pages)) \<union> set (snd (scan_pages env f pages)) \<Longrightarrow> 0 < ph_page h"
  by (auto simp: scan_pages_def Let_def List.map_filter_def split: option.splits)

lemma union_hits_sub: "set (union_hits a b) \<subseteq> set a \<union> set b"
proof -
  have "set (fold (\<lambda>h out. if has_page out (ph_page h) then out else out @ [h]) b a) \<subseteq> set a \<union> set b"
  proof (induction b arbitrary: a)
    case (Cons h b)
    from Cons [of "if has_page a (ph_page h) then a else a @ [h]"] show ?case by (auto split: if_splits)
  qed simp
  then show ?thesis by (simp add: union_hits_def)
qed

lemma find_candidates_scanned:
  assumes h: "h \<in> set (find_candidate_pages env t pages)"
  shows "\<exists>f. h \<in> set (fst (scan_pages env f pages)) \<union> set (snd (scan_pages env f pages))"
proof -
  from h obtain ws where ws: "title_pattern env t = Some ws"
    by (cases "title_pattern env t") (simp_all add: find_candidate_pages_def split: if_splits)
  obtain ls ty where a: "scan_pages env (rv_find_title env ws) pages = (ls, ty)" by force
  show ?thesis
  proof (cases "label_pattern env t")
    case None
    with h ws a have "h \<in> set ls \<union> set ty" by (auto simp: find_candidate_pages_def split: if_splits)
    then show ?thesis using a by (metis fst_conv snd_conv)
  next
    case (Some lab)
    obtain ls2 ty2 where b: "scan_pages env (rv_find_label env lab) pages = (ls2, ty2)" by force
    from h ws a b Some have "h \<in> set (union_hits ls ls2) \<union> set (union_hits ty ty2)"
      by (auto simp: find_candidate_pages_def split: if_splits)
    then have "h \<in> set ls \<union> set ty \<or> h \<in> set ls2 \<union> set ty2"
      using union_hits_sub [of ls ls2] union_hits_sub [of ty ty2] by auto
    then show ?thesis using a b by (metis fst_conv snd_conv)
  qed
qed

lemma find_candidates_positive: "h \<in> set (find_candidate_pages env t pages) \<Longrightarrow> 0 < ph_page h"
  using find_candidates_scanned scan_pages_positive by blast

lemma leaf_candidates_positive: "h \<in> set (leaf_candidates env pages exclude d) \<Longrightarrow> 0 < ph_page h"
  using find_candidates_positive by (auto simp: leaf_candidates_def Let_def split: if_splits)

lemma collect_resolve_positive:
  "c \<in> set (collect_resolve env pages exclude ds seen) \<Longrightarrow> h \<in> set (rl_candidates c) \<Longrightarrow> 0 < ph_page h"
  by (induction ds arbitrary: seen) (auto simp: Let_def split_beta dest: leaf_candidates_positive split: if_splits)

lemma leaf_candidates_few: "length (leaf_candidates env pages exclude d) \<le> max_candidates_per_leaf"
  by (auto simp: leaf_candidates_def Let_def max_candidates_per_leaf_def)

text \<open>A page that was answered for a key above the threshold is one of the hits of a claim with the key.\<close>

lemma resolved_answer:
  assumes judge: "tb_judge b = Some judge"
    and res: "resolve_pages_judge env b ns pages exclude st = (Inr (Some res), st')"
    and order: "\<And>ks. set (rv_order env ks) \<subseteq> set ks"
    and k: "res k = Some pg" "pg \<noteq> 0"
  defines "claims \<equiv> collect_resolve_claims env ns pages exclude"
  shows "\<exists>c \<in> set claims. rl_key c = k \<and> (\<exists>h \<in> set (rl_candidates c). ph_page h = pg) \<and>
    (\<exists>off p. f_lt (judge_threshold b) p \<and>
       judged_at judge (k @ ''_p'' @ itoa pg) (titles_of claims k) (excerpt_around (page_or_empty pages pg) off) p)"
proof -
  let ?rq = "probe_request (titles_of claims) pages" and ?bs = "claim_batches False (probe_cost b pages) (probes_of claims)"
  obtain js where js: "ask_batches judge ?rq ?bs st = (Inr js, st')"
    and r: "res = (\<lambda>k. map_option (\<lambda>(pg, p). if f_lt (judge_threshold b) p then pg else 0)
        (fold better_page (concat (map (\<lambda>(prs, j). probe_answers env (?rq prs) j) js)) (\<lambda>_. None) k))"
    using res judge by (auto simp: resolve_pages_judge_def claims_def Let_def split: prod.splits sum.splits)
  let ?as = "concat (map (\<lambda>(prs, j). probe_answers env (?rq prs) j) js)"
  obtain p where p: "fold better_page ?as (\<lambda>_. None) k = Some (pg, p)" "f_lt (judge_threshold b) p"
    using k by (auto simp: r split: if_splits)
  obtain qk where qk: "(qk, p) \<in> set ?as" "split_probe_key qk = (k, pg)"
    using better_page_fold [of "\<lambda>_. None" "{}", OF _ p(1)] by auto
  then obtain prs j where prs: "(prs, j) \<in> set js" "(qk, p) \<in> set (probe_answers env (?rq prs) j)" by auto
  then have a: "qk \<in> set (rv_order env (map fst (?rq prs)))" "jd_noul j qk = Some p"
    by (auto simp: probe_answers_def List.map_filter_def split: option.splits)
  note a = subsetD [OF order a(1)] a(2)
  obtain w w' where b: "prs \<in> set ?bs" "judge (?rq prs) w = (Inr j, w')"
    using ask_batches_answered [OF js prs(1)] by blast
  have in_probes: "pr \<in> set (probes_of claims)" if "pr \<in> set prs" for pr
  proof -
    have "pr \<in> set (concat ?bs)" using b(1) that by auto
    then show ?thesis unfolding claim_batches_concat by simp
  qed
  obtain q where q: "map_of (?rq prs) qk = Some q" using a(1) by (cases "map_of (?rq prs) qk") (simp_all add: map_of_eq_None_iff)
  obtain pr where pr: "pr \<in> set prs" "qk = probe_key pr" "q = Begins_In (titles_of claims (pb_key pr)) (probe_excerpt pages pr)"
    using probe_request_question [OF q] by blast
  obtain c h where ch: "c \<in> set claims" "h \<in> set (rl_candidates c)"
      "pr = \<lparr>pb_key = rl_key c, pb_page = ph_page h, pb_offset = ph_offset h\<rparr>"
    using probes_of_set [OF in_probes [OF pr(1)]] by blast
  have pos: "0 < ph_page h" using collect_resolve_positive ch(1,2) by (auto simp: claims_def collect_resolve_claims_def)
  have "(k, pg) = (rl_key c, ph_page h)"
    using split_probe_key_own [of "ph_page h" "rl_key c"] pos qk(2) by (simp add: pr(2) probe_key_def ch(3))
  then have own: "k = rl_key c" "pg = ph_page h" by simp_all
  have "judged_at judge (k @ ''_p'' @ itoa pg) (titles_of claims k) (excerpt_around (page_or_empty pages pg) (ph_offset h)) p"
    unfolding judged_at_def using b(2) q pr(2,3) a(2) own
    by (intro exI [of _ "?rq prs"] exI [of _ w] exI [of _ j] exI [of _ w']) (simp add: probe_key_def ch(3) probe_excerpt_def)
  with ch own p(2) show ?thesis by blast
qed

text \<open>The walk that applies the pages gives every leaf the key its claim was collected under.\<close>

lemma apply_pages_claims:
  assumes "i < length ds"
  shows "fst (visit_all (apply_page res) ds seen) ! i = ds ! i \<or>
    (\<exists>c \<in> set (collect_resolve env pages exclude ds seen). rl_title c = toc_title (ds ! i) \<and>
       rl_candidates c = leaf_candidates env pages exclude (ds ! i) \<and>
       (\<exists>pg. res (rl_key c) = Some pg \<and> fst (visit_all (apply_page res) ds seen) ! i = (ds ! i)\<lparr>start_page := pg\<rparr>))"
  using assms
proof (induction ds arbitrary: i seen)
  case (Cons d ds)
  obtain key seen' where nk: "next_key (leaf_key_base (toc_title d)) seen = (key, seen')" by force
  show ?case
  proof (cases i)
    case 0
    then show ?thesis using nk by (auto simp: apply_page_def split_beta Let_def split: option.splits)
  next
    case (Suc j)
    with Cons.prems have j: "j < length ds" by simp
    show ?thesis
    proof (cases "trim_space (toc_title d) = []")
      case True
      with Cons.IH [OF j, of seen] Suc show ?thesis by (simp add: apply_page_def split_beta Let_def)
    next
      case False
      with Cons.IH [OF j, of seen'] Suc nk show ?thesis by (auto simp: apply_page_def split_beta Let_def)
    qed
  qed
qed simp

definition page_placed :: "(toc_request \<Rightarrow> 'w \<Rightarrow> (string + verdict) \<times> 'w) \<Rightarrow> f64 \<Rightarrow> resolve_env \<Rightarrow> page_text list
    \<Rightarrow> int list \<Rightarrow> toc_data \<Rightarrow> toc_data \<Rightarrow> bool" where
  "page_placed judge th env pages exclude d d' =
     (\<exists>h \<in> set (leaf_candidates env pages exclude d). d' = d\<lparr>start_page := ph_page h\<rparr> \<and>
        (\<exists>key off p. f_lt th p \<and>
           judged_at judge (key @ ''_p'' @ itoa (ph_page h)) (toc_title d)
             (excerpt_around (page_or_empty pages (ph_page h)) off) p))"


subsection \<open>A Judge that answers\<close>

lemma ask_batches_total:
  assumes "\<And>rq w. \<exists>j w'. judge rq w = (Inr j, w')"
  shows "\<exists>js st'. ask_batches judge rq_of bs st = (Inr js, st')"
proof (induction bs arbitrary: st)
  case (Cons b0 bs)
  obtain j w' where j: "judge (rq_of b0) (fst st) = (Inr j, w')" using assms by blast
  obtain js st' where r: "ask_batches judge rq_of bs st = (Inr js, st')" using Cons by blast
  obtain js2 st2 where r2: "ask_batches judge rq_of bs (w', add_judge_usage (snd st) j) = (Inr js2, st2)" using Cons by blast
  show ?case using r r2 j by (cases "rq_of b0 = []") (simp_all add: ask_def)
qed simp

lemma resolve_answers:
  assumes "tb_judge b = Some judge" "\<And>rq w. \<exists>j w'. judge rq w = (Inr j, w')"
  shows "\<exists>res st'. resolve_pages_judge env b ns pages exclude st = (Inr (Some res), st')"
proof -
  obtain js st' where "ask_batches judge (probe_request (titles_of (collect_resolve_claims env ns pages exclude)) pages)
      (claim_batches False (probe_cost b pages) (probes_of (collect_resolve_claims env ns pages exclude))) st = (Inr js, st')"
    using ask_batches_total [of judge, OF assms(2)] by blast
  then show ?thesis using assms(1) by (simp add: resolve_pages_judge_def Let_def)
qed

definition sample_judge :: "toc_request \<Rightarrow> unit \<Rightarrow> (string + verdict) \<times> unit" where
  "sample_judge rq w = (Inr \<lparr>jd_noul = (\<lambda>k. Some (Fin 1)), jd_input = 1, jd_output = 1, jd_total = 2, jd_cost = Fin 0\<rparr>, w)"

definition sample_builder :: "unit toc_builder" where
  "sample_builder = \<lparr>tb_judge = Some sample_judge, tb_threshold = Fin 0, tb_tokens = (\<lambda>s. int (length s)),
     tb_prefilter = \<lparr>pf_entries = (\<lambda>_. []), pf_items = (\<lambda>_. 0), pf_parts = (\<lambda>_. 0), pf_keyword = (\<lambda>_. False)\<rparr>,
     tb_minimal = False, tb_detect_chars = 0, tb_first_pass = 0, tb_split_over = 0, tb_split_generations = 0\<rparr>"

definition sample_resolve :: resolve_env where
  "sample_resolve = \<lparr>rv_lower = (\<lambda>s. s), rv_upper = (\<lambda>_. True), rv_letter = (\<lambda>_. True),
     rv_find_title = (\<lambda>_ _. [(0, 4)]), rv_find_label = (\<lambda>_ _. []), rv_order = (\<lambda>ks. ks)\<rparr>"

definition sample_leaf :: toc_data where
  "sample_leaf = \<lparr>node_id = [], toc_structure = ''1'', toc_title = ''risk factors'', start_page = 0, end_page = 0, toc_summary = []\<rparr>"

definition sample_pages :: "page_text list" where
  "sample_pages = [\<lparr>pg_number = 1, pg_text = ''risk factors''\<rparr>]"


end
