(* ===== verification/Toc_Extract.thy ===== *)
theory Toc_Extract
  imports Toc_Resolve
begin

text \<open>
  Reading the contents pages without a generative model (\<open>pkg/ingest/toc_extract_judge.go\<close>): the text
  is parsed into candidate entries, the Judge confirms each, the outline comes from the entries'
  numbering, and the printed page numbers place what resolution could not. The regular expressions
  are anchored or bounded by disjoint classes and are written out; case folding of their letters
  includes the long s and the Kelvin sign, as Go's does. Digits and letters of other scripts are
  classified by parameters.
\<close>

subsection \<open>Entries and their patterns\<close>

record contents_entry =
  ce_title :: string
  ce_printed :: int
  ce_depth :: int
  ce_container :: bool

record extract_env =
  ex_resolve :: resolve_env
  ex_digit :: "string \<Rightarrow> bool"

definition lower_byte :: "char \<Rightarrow> char" where
  "lower_byte c = (if byte_in 65 90 c then byte (of_char c + 32) else c)"

definition upper_byte :: "char \<Rightarrow> char" where
  "upper_byte c = (if byte_in 97 122 c then byte (of_char c - 32) else c)"

text \<open>The text a case-insensitive pattern of ASCII letters sees.\<close>

definition fold_case :: "string \<Rightarrow> string" where
  "fold_case s = map lower_byte (replace_all [([CHR 0xC5, CHR 0xBF], ''s''), ([CHR 0xE2, CHR 0x84, CHR 0xAA], ''k'')] s)"

definition skip_space :: "string \<Rightarrow> string" where
  "skip_space s = dropWhile regexp_space s"

definition entry_label :: "string \<Rightarrow> bool" where
  "entry_label t = (fold_case t \<in> set [''item'', ''note'', ''section'', ''chapter'', ''article'', ''appendix'', ''schedule'', ''exhibit''])"

definition roman_byte :: "char \<Rightarrow> bool" where
  "roman_byte c = (lower_byte c \<in> set ''ivxlc'')"

definition drop_dot :: "string \<Rightarrow> string" where
  "drop_dot t = (if t \<noteq> [] \<and> last t = CHR ''.'' then butlast t else t)"

definition roman_number :: "string \<Rightarrow> bool" where
  "roman_number t = (let u = drop_dot t in u \<noteq> [] \<and> (list_all roman_byte u \<or> list_all is_ascii_digit u))"

definition part_token :: "string \<Rightarrow> bool" where
  "part_token t = (map lower_byte t = ''part'')"

definition label_number :: "string \<Rightarrow> bool" where
  "label_number t =
     (let u = drop_dot t; ds = takeWhile is_ascii_digit u; rest = map lower_byte (dropWhile is_ascii_digit u)
      in ds \<noteq> [] \<and> rest \<in> set [[], ''a'', ''b'', ''c''])"

definition page_number :: "string \<Rightarrow> bool" where
  "page_number t = (list_all is_ascii_digit t \<and> 1 \<le> length t \<and> length t \<le> 3)"

text \<open>\<open>reDotted\<close>: numbers joined by dots, and perhaps one dot more.\<close>

fun split_dots :: "string \<Rightarrow> string \<Rightarrow> string list" where
  "split_dots cur [] = [cur]"
| "split_dots cur (c # s) = (if c = CHR ''.'' then cur # split_dots [] s else split_dots (cur @ [c]) s)"

definition dotted_number :: "string \<Rightarrow> bool" where
  "dotted_number t = list_all (\<lambda>p. p \<noteq> [] \<and> list_all is_ascii_digit p) (split_dots [] (drop_dot t))"

text \<open>\<open>reNoise\<close>, \<open>reLeaders\<close> (dots, blanks, the middle dot, the ellipsis, underscores and hyphens at the end).\<close>

definition contents_noise :: "string \<Rightarrow> bool" where
  "contents_noise t =
     (let s = fold_case t;
          after_page = skip_space (drop 4 s);
          a = drop 5 s; b = skip_space a; c = drop 2 b; d = skip_space c
      in (has_prefix s ''page'' \<and> (drop 4 s = [] \<or> after_page = ''no'' \<or> after_page = ''no.''))
         \<or> (has_prefix s ''table'' \<and> b \<noteq> a \<and> has_prefix b ''of'' \<and> d \<noteq> c \<and> d = ''contents'')
         \<or> s = ''contents'' \<or> s = ''index'')"

definition leader_runes :: "string list" where
  "leader_runes = [''.'', [CHR 0x09], [CHR 0x0A], [CHR 0x0C], [CHR 0x0D], '' '', ''_'', ''-'', [CHR 0xC2, CHR 0xB7], [CHR 0xE2, CHR 0x80, CHR 0xA6]]"

definition drop_leaders :: "string \<Rightarrow> string" where
  "drop_leaders s = concat (rev (dropWhile (\<lambda>r. r \<in> set leader_runes) (rev (runes s))))"

definition clean_contents_title :: "string \<Rightarrow> string" where
  "clean_contents_title s = join (str_fields (drop_leaders (trim_space s))) '' ''"

text \<open>\<open>rePartHeader\<close>: the label, when a part label ends the line.\<close>

definition part_header_at :: "string \<Rightarrow> string option" where
  "part_header_at s =
     (let after = drop 4 s; num = skip_space after;
          ds = (if num \<noteq> [] \<and> is_ascii_digit (hd num) then takeWhile is_ascii_digit num else takeWhile roman_byte num);
          tail = skip_space (drop (length ds) num);
          rest = (if tail \<noteq> [] \<and> hd tail \<in> set ''.:-'' then drop 1 tail
                  else if has_prefix tail [CHR 0xE2, CHR 0x80, CHR 0x94] \<or> has_prefix tail [CHR 0xE2, CHR 0x80, CHR 0x93] then drop 3 tail
                  else tail)
      in if map lower_byte (take 4 s) = ''part'' \<and> num \<noteq> after \<and> ds \<noteq> [] \<and> skip_space rest = []
         then Some (take (4 + (length after - length num) + length ds) s) else None)"

definition part_header :: "string \<Rightarrow> string option" where
  "part_header line =
     (case find (\<lambda>i. (i = 0 \<or> regexp_space (line ! (i - 1))) \<and> part_header_at (drop i line) \<noteq> None) [0..<length line] of
        None \<Rightarrow> None | Some i \<Rightarrow> part_header_at (drop i line))"

text \<open>\<open>reGluedLabel\<close>: a label, its number and a capitalised word run together get spaces between them.\<close>

definition regexp_word :: "char \<Rightarrow> bool" where
  "regexp_word c = (word_byte (lower_byte c) \<or> c = CHR ''_'')"

definition title_start :: "string \<Rightarrow> bool" where
  "title_start s = (2 \<le> length s \<and> byte_in 65 90 (s ! 0) \<and> byte_in 97 122 (s ! 1))"

definition glued_at :: "string \<Rightarrow> (string \<times> string \<times> string \<times> string) option" where
  "glued_at s =
     (if map lower_byte (take 4 s) \<notin> set [''item'', ''note'', ''part''] then None
      else let num = skip_space (drop 4 s); ds = takeWhile is_ascii_digit num; rest = dropWhile is_ascii_digit num in
        if ds = [] then None
        else if rest \<noteq> [] \<and> byte_in 65 67 (hd rest) \<and> title_start (tl rest)
        then Some (take 4 s, ds @ [hd rest], take 2 (tl rest), drop 2 (tl rest))
        else if title_start rest then Some (take 4 s, ds, take 2 rest, drop 2 rest) else None)"

lemma glued_at_shorter: "glued_at s = Some (a, b, c, r) \<Longrightarrow> length r < length s"
proof -
  assume g: "glued_at s = Some (a, b, c, r)"
  have "length (skip_space (drop 4 s)) \<le> length s"
    unfolding skip_space_def using length_dropWhile_le [of regexp_space "drop 4 s"] by simp
  moreover have "length (dropWhile is_ascii_digit (skip_space (drop 4 s))) \<le> length (skip_space (drop 4 s))"
    by (rule length_dropWhile_le)
  moreover have "s \<noteq> []" using g by (auto simp: glued_at_def)
  ultimately show ?thesis
    using g by (auto simp: glued_at_def Let_def title_start_def split: if_splits)
qed

function unglue :: "bool \<Rightarrow> string \<Rightarrow> string" where
  "unglue inside [] = []"
| "unglue inside (ch # s) =
     (case (if inside then None else glued_at (ch # s)) of
        None \<Rightarrow> ch # unglue (regexp_word ch) s
      | Some (a, b, c, r) \<Rightarrow> a @ '' '' @ b @ '' '' @ c @ unglue True r)"
  by pat_completeness auto
termination
  by (relation "measure (\<lambda>(_, s). length s)") (auto dest: glued_at_shorter split: if_splits)

subsection \<open>Parsing the contents\<close>

definition part_entry :: "string \<Rightarrow> contents_entry" where
  "part_entry label =
     \<lparr>ce_title = map upper_byte (rev (dropWhile (\<lambda>c. c \<in> set ''.:'') (rev (join (str_fields label) '' '')))),
      ce_printed = 0, ce_depth = 1, ce_container = True\<rparr>"

definition first_label_at :: "string list \<Rightarrow> nat option" where
  "first_label_at toks = find (\<lambda>i. entry_label (toks ! i) \<and> label_number (toks ! (i + 1))) [0..<length toks - 1]"

definition last_real_entry :: "contents_entry list \<Rightarrow> nat option" where
  "last_real_entry es = find (\<lambda>j. \<not> ce_container (es ! j)) (rev [0..<length es])"

definition opens_entry :: "extract_env \<Rightarrow> string \<Rightarrow> bool" where
  "opens_entry env tok =
     (entry_label tok \<or> dotted_number tok \<or> rv_upper (ex_resolve env) (hd (runes tok)) \<or> ex_digit env (hd (runes tok)))"

definition entry_depth :: "string \<Rightarrow> bool \<Rightarrow> int" where
  "entry_depth t in_part =
     (let base = (if in_part then 2 else 1); f = str_fields t in
      if f = [] \<or> entry_label (hd f) then base
      else if dotted_number (hd f) then base + int (length (filter (\<lambda>c. c = CHR ''.'') (drop_dot (hd f))))
      else base)"

definition has_letter :: "extract_env \<Rightarrow> string \<Rightarrow> bool" where
  "has_letter env s = list_ex (rv_letter (ex_resolve env)) (runes s)"

record parse_state =
  ps_out :: "contents_entry list"
  ps_cur :: "string list"
  ps_in_part :: bool

definition append_tail :: "string \<Rightarrow> contents_entry list \<Rightarrow> contents_entry list" where
  "append_tail tail out =
     (case last_real_entry out of
        None \<Rightarrow> out
      | Some j \<Rightarrow> if tail \<noteq> [] \<and> \<not> contents_noise tail
                  then out[j := (out ! j)\<lparr>ce_title := ce_title (out ! j) @ '' '' @ tail\<rparr>] else out)"

definition flush_entry :: "extract_env \<Rightarrow> int \<Rightarrow> parse_state \<Rightarrow> parse_state" where
  "flush_entry env page st =
     (if ps_cur st = [] then st
      else let (out, cur) = (case first_label_at (ps_cur st) of
                 Some (Suc k) \<Rightarrow> (append_tail (clean_contents_title (join (take (Suc k) (ps_cur st)) '' '')) (ps_out st),
                                  drop (Suc k) (ps_cur st))
               | _ \<Rightarrow> (ps_out st, ps_cur st));
               t = clean_contents_title (join cur '' '') in
        if t = [] \<or> contents_noise t \<or> \<not> has_letter env t \<or> length t < 3
        then st\<lparr>ps_out := out, ps_cur := []\<rparr>
        else st\<lparr>ps_out := out @ [\<lparr>ce_title = t, ce_printed = page, ce_depth = entry_depth t (ps_in_part st), ce_container = False\<rparr>],
                ps_cur := []\<rparr>)"

fun parse_tokens :: "extract_env \<Rightarrow> string list \<Rightarrow> parse_state \<Rightarrow> parse_state" where
  "parse_tokens env [] st =
     (if ps_cur st \<noteq> [] \<and> first_label_at (ps_cur st) = Some 0 then flush_entry env 0 st else st)"
| "parse_tokens env (t # ts) st =
     (if ps_cur st = [] \<and> contents_noise (trim_cutset ''.:'' t) then parse_tokens env ts st
      else if part_token t \<and> ts \<noteq> [] \<and> roman_number (hd ts) then
        let st1 = (if ps_cur st \<noteq> [] \<and> first_label_at (ps_cur st) = Some 0 then flush_entry env 0 st else st)
        in parse_tokens env (tl ts)
             (st1\<lparr>ps_cur := [], ps_out := ps_out st1 @ [part_entry (t @ '' '' @ hd ts)], ps_in_part := True\<rparr>)
      else if page_number t \<and> ps_cur st \<noteq> [] \<and> \<not> entry_label (last (ps_cur st)) \<and> (ts = [] \<or> opens_entry env (hd ts))
      then parse_tokens env ts (flush_entry env (dec_val t) st)
      else parse_tokens env ts (st\<lparr>ps_cur := ps_cur st @ [t]\<rparr>))"

definition parse_line :: "extract_env \<Rightarrow> string \<Rightarrow> parse_state \<Rightarrow> parse_state" where
  "parse_line env raw st =
     (let line = trim_space (replace_all [(''**'', '' '')] raw) in
      if line = [] then st
      else case part_header line of
        Some m \<Rightarrow> st\<lparr>ps_out := ps_out st @ [part_entry m], ps_in_part := True\<rparr>
      | None \<Rightarrow> parse_tokens env (str_fields line) (st\<lparr>ps_cur := []\<rparr>))"

fun split_lines :: "string \<Rightarrow> string \<Rightarrow> string list" where
  "split_lines cur [] = [cur]"
| "split_lines cur (c # s) = (if c = CHR 0x0A then cur # split_lines [] s else split_lines (cur @ [c]) s)"

subsection \<open>Repeats and fragments\<close>

definition entry_mark :: "extract_env \<Rightarrow> contents_entry \<Rightarrow> string" where
  "entry_mark env e = normalise_heading (ex_resolve env) (ce_title e) @ ''|'' @ itoa (ce_printed e)"

fun drop_repeats :: "extract_env \<Rightarrow> string list \<Rightarrow> contents_entry list \<Rightarrow> contents_entry list" where
  "drop_repeats env seen [] = []"
| "drop_repeats env seen (e # es) =
     (if ce_container e then e # drop_repeats env seen es
      else if entry_mark env e \<in> set seen then drop_repeats env seen es
      else e # drop_repeats env (entry_mark env e # seen) es)"

definition fuller :: "extract_env \<Rightarrow> contents_entry \<Rightarrow> contents_entry \<Rightarrow> bool" where
  "fuller env e o' =
     (let n = normalise_heading (ex_resolve env) (ce_title e); m = normalise_heading (ex_resolve env) (ce_title o')
      in \<not> ce_container o' \<and> length m > length n \<and> has_prefix m n)"

definition fragment_in :: "extract_env \<Rightarrow> contents_entry list \<Rightarrow> nat \<Rightarrow> bool" where
  "fragment_in env arr i =
     (\<not> ce_container (arr ! i) \<and> ce_printed (arr ! i) = 0
      \<and> list_ex (\<lambda>j. j \<noteq> i \<and> fuller env (arr ! i) (arr ! j)) [0..<length arr])"

text \<open>The second pass writes the entries it keeps over the array it reads (\<open>kept := out[:0]\<close>).\<close>

function drop_fragments :: "extract_env \<Rightarrow> contents_entry list \<Rightarrow> nat \<Rightarrow> nat \<Rightarrow> contents_entry list" where
  "drop_fragments env arr i m =
     (if length arr \<le> i then take m arr
      else if fragment_in env arr i then drop_fragments env arr (Suc i) m
      else drop_fragments env (arr[m := arr ! i]) (Suc i) (Suc m))"
  by auto
termination by (relation "measure (\<lambda>(_, arr, i, _). length arr - i)") auto

declare drop_fragments.simps [simp del]

definition dedup_entries :: "extract_env \<Rightarrow> contents_entry list \<Rightarrow> contents_entry list" where
  "dedup_entries env es = drop_fragments env (drop_repeats env [] es) 0 0"

definition parse_contents_entries :: "extract_env \<Rightarrow> string \<Rightarrow> contents_entry list" where
  "parse_contents_entries env text =
     dedup_entries env (ps_out (fold (parse_line env) (split_lines [] (unglue False text))
       \<lparr>ps_out = [], ps_cur = [], ps_in_part = False\<rparr>))"

definition count_real_entries :: "contents_entry list \<Rightarrow> nat" where
  "count_real_entries es = length (filter (\<lambda>e. \<not> ce_container e) es)"

fun drop_empty_containers :: "contents_entry list \<Rightarrow> contents_entry list" where
  "drop_empty_containers [] = []"
| "drop_empty_containers (e # es) =
     (if ce_container e \<and> (es = [] \<or> ce_container (hd es)) then drop_empty_containers es
      else e # drop_empty_containers es)"

subsection \<open>Confirming the entries\<close>

definition contents_state_max_chars :: nat where "contents_state_max_chars = 12000"
definition min_contents_entries :: nat where "min_contents_entries = 3"

function chunks_of :: "nat \<Rightarrow> 'a list \<Rightarrow> 'a list list" where
  "chunks_of n xs = (if xs = [] then [] else take (max 1 n) xs # chunks_of n (drop (max 1 n) xs))"
  by auto
termination by (relation "measure (\<lambda>(_, xs). length xs)") auto

declare chunks_of.simps [simp del]

definition entries_per_batch :: "'w toc_builder \<Rightarrow> string \<Rightarrow> nat" where
  "entries_per_batch b contents = (let n = (judge_budget - tb_tokens b contents - 200) div 40 in if n < 20 then 20 else nat n)"

definition entry_request :: "(nat \<times> contents_entry) list \<Rightarrow> toc_request" where
  "entry_request batch =
     fold (\<lambda>(i, e) rq. if ce_container e then rq else put (item_key ''e_'' i) (Is_Entry [] (ce_title e) (ce_printed e)) rq) batch []"

text \<open>The contents every question refers to are part of the request's state.\<close>

definition with_contents :: "string \<Rightarrow> toc_request \<Rightarrow> toc_request" where
  "with_contents contents rq = map (\<lambda>(k, q). (k, case q of Is_Entry _ t n \<Rightarrow> Is_Entry contents t n | _ \<Rightarrow> q)) rq"

definition confirm_entries_judge :: "'w toc_builder \<Rightarrow> (toc_request \<Rightarrow> 'w \<Rightarrow> (string + verdict) \<times> 'w)
    \<Rightarrow> contents_entry list \<Rightarrow> string \<Rightarrow> 'w toc_state \<Rightarrow> (string + bool list) \<times> 'w toc_state" where
  "confirm_entries_judge b judge entries contents st =
     (let contents = take contents_state_max_chars contents;
          rq = (\<lambda>batch. with_contents contents (entry_request batch)) in
      case ask_batches judge rq (chunks_of (entries_per_batch b contents) (zip [0..<length entries] entries)) st of
        (Inl err, st1) \<Rightarrow> (Inl err, st1)
      | (Inr js, st1) \<Rightarrow>
          let keep = fold (\<lambda>(batch, j) keep. fold (\<lambda>k keep. case jd_noul j k of None \<Rightarrow> keep
                | Some p \<Rightarrow> keep[key_index ''e_'' k := f_lt (judge_threshold b) p]) (map fst (rq batch)) keep) js
              (map ce_container entries)
          in (Inr keep, st1))"

subsection \<open>From the entries to the tree\<close>

definition bump :: "nat \<Rightarrow> (nat \<Rightarrow> nat) \<Rightarrow> nat \<Rightarrow> nat" where
  "bump d counters =
     (let c = (\<lambda>k. if k > d then 0 else if k = d then counters k + 1 else counters k)
      in (\<lambda>k. if 1 \<le> k \<and> k \<le> d \<and> c k = 0 then 1 else c k))"

definition entry_level :: "contents_entry \<Rightarrow> nat" where
  "entry_level e = nat (if ce_depth e < 1 then 1 else ce_depth e)"

fun number_entries :: "(nat \<Rightarrow> nat) \<Rightarrow> contents_entry list \<Rightarrow> toc_payload list" where
  "number_entries counters [] = []"
| "number_entries counters (e # es) =
     (let d = entry_level e; c = bump d counters
      in \<lparr>pl_structure = join (map (\<lambda>i. digits_of (c i)) [1..<Suc d]) ''.'', pl_title = ce_title e, pl_physical_index = None\<rparr>
         # number_entries c es)"

fun printed_pages :: "contents_entry list \<Rightarrow> key_counts \<Rightarrow> (string \<rightharpoonup> int) \<Rightarrow> (string \<rightharpoonup> int)" where
  "printed_pages [] seen pr = pr"
| "printed_pages (e # es) seen pr =
     (if \<not> ce_container e \<and> 0 < ce_printed e
      then let (key, seen') = next_key (leaf_key_base (ce_title e)) seen
           in printed_pages es seen' (pr(key \<mapsto> ce_printed e))
      else printed_pages es seen pr)"

definition join_toc_pages_text :: "page_text list \<Rightarrow> int list \<Rightarrow> string" where
  "join_toc_pages_text pages ns =
     join (filter (\<lambda>t. t \<noteq> []) (List.map_filter (by_page pages) ns)) [CHR 0x0A, CHR 0x0A]"

text \<open>\<open>Inr None\<close>: the contents did not read as enough entries to trust.\<close>

definition extract_from_toc_pages_judge :: "extract_env \<Rightarrow> 'w toc_builder \<Rightarrow> page_text list \<Rightarrow> int list \<Rightarrow> 'w toc_state
    \<Rightarrow> (string + (toc_node list \<times> (string \<rightharpoonup> int)) option) \<times> 'w toc_state" where
  "extract_from_toc_pages_judge env b pages toc_pages st =
     (case tb_judge b of
        None \<Rightarrow> (Inr None, st)
      | Some judge \<Rightarrow>
          if toc_pages = [] then (Inr None, st)
          else let contents = join_toc_pages_text pages toc_pages; entries = parse_contents_entries env contents in
            if count_real_entries entries < min_contents_entries then (Inr None, st)
            else case confirm_entries_judge b judge entries contents st of
              (Inl err, st1) \<Rightarrow> (Inl err, st1)
            | (Inr keep, st1) \<Rightarrow>
                let kept = map fst (filter snd (zip entries keep)) in
                if count_real_entries kept < min_contents_entries then (Inr None, st1)
                else let kept = drop_empty_containers kept
                     in (Inr (Some (assemble_hierarchy (number_entries (\<lambda>_. 0) kept),
                                    printed_pages kept (\<lambda>_. 0) (\<lambda>_. None))), st1))"

subsection \<open>Calibration\<close>

text \<open>The first walk: the offsets of the placed leaves, and how many leaves wait for a page.\<close>

fun calibration_offsets :: "(string \<rightharpoonup> int) \<Rightarrow> toc_data list \<Rightarrow> key_counts \<Rightarrow> int list \<times> nat" where
  "calibration_offsets printed [] seen = ([], 0)"
| "calibration_offsets printed (d # ds) seen =
     (let (key, seen') = next_key (leaf_key_base (toc_title d)) seen;
          (os, n) = calibration_offsets printed ds seen' in
      case printed key of
        None \<Rightarrow> (os, n)
      | Some pp \<Rightarrow> if pp \<le> 0 then (os, n)
                   else if 0 < start_page d then ((start_page d - pp) # os, n) else (os, Suc n))"

definition calibrate_leaf :: "(string \<rightharpoonup> int) \<Rightarrow> int \<Rightarrow> int \<Rightarrow> toc_data \<Rightarrow> key_counts \<Rightarrow> toc_data \<times> key_counts" where
  "calibrate_leaf printed k last_pg d seen =
     (let (key, seen') = next_key (leaf_key_base (toc_title d)) seen in
      if start_page d \<noteq> 0 then (d, seen')
      else case printed key of
        None \<Rightarrow> (d, seen')
      | Some pp \<Rightarrow> if pp \<le> 0 then (d, seen')
                   else let p = pp + k in
                     (if 1 \<le> p \<and> (last_pg = 0 \<or> p \<le> last_pg) then d\<lparr>start_page := p\<rparr> else d, seen'))"

definition calibrate_from_printed :: "toc_node list \<Rightarrow> (string \<rightharpoonup> int) \<Rightarrow> int \<Rightarrow> toc_node list" where
  "calibrate_from_printed ns printed last_pg =
     (let (os, n) = calibration_offsets printed (leaves_in ns) (\<lambda>_. 0) in
      if printed = (\<lambda>_. None) \<or> length os < 2 \<or> n = 0 then ns
      else fst (walk_leaves (calibrate_leaf printed (sort os ! (length os div 2)) last_pg) ns (\<lambda>_. 0)))"

subsection \<open>Filtering in place\<close>

abbreviation norm_title :: "extract_env \<Rightarrow> contents_entry \<Rightarrow> string" where
  "norm_title env e \<equiv> normalise_heading (ex_resolve env) (ce_title e)"

lemma fuller_irrefl: "\<not> fuller env e e"
  by (simp add: fuller_def Let_def)

lemma fuller_trans: "fuller env a b \<Longrightarrow> fuller env b c \<Longrightarrow> fuller env a c"
  by (auto simp: fuller_def Let_def has_prefix_iff)

definition is_fragment :: "extract_env \<Rightarrow> contents_entry list \<Rightarrow> contents_entry \<Rightarrow> bool" where
  "is_fragment env es e = (\<not> ce_container e \<and> ce_printed e = 0 \<and> (\<exists>o' \<in> set es. fuller env e o'))"

lemma fragment_in_eq: "i < length arr \<Longrightarrow> fragment_in env arr i = is_fragment env arr (arr ! i)"
  using fuller_irrefl by (fastforce simp: fragment_in_def is_fragment_def list_ex_iff in_set_conv_nth)

lemma fullest_exists:
  assumes "o' \<in> set es" "fuller env e o'"
  shows "\<exists>x \<in> set es. fuller env e x \<and> \<not> is_fragment env es x"
proof -
  define S where "S = {x \<in> set es. fuller env e x}"
  have S: "finite S" "S \<noteq> {}" using assms by (auto simp: S_def)
  then have "Max ((\<lambda>x. length (norm_title env x)) ` S) \<in> (\<lambda>x. length (norm_title env x)) ` S" by simp
  then obtain x where x: "x \<in> S" "length (norm_title env x) = Max ((\<lambda>x. length (norm_title env x)) ` S)" by auto
  have "\<not> is_fragment env es x"
  proof
    assume "is_fragment env es x"
    then obtain y where y: "y \<in> set es" "fuller env x y" by (auto simp: is_fragment_def)
    with x(1) have "y \<in> S" using fuller_trans by (auto simp: S_def)
    then have "length (norm_title env y) \<le> length (norm_title env x)" using S(1) x(2) by simp
    with y(2) show False by (simp add: fuller_def Let_def)
  qed
  with x(1) show ?thesis by (auto simp: S_def)
qed

definition shifted :: "extract_env \<Rightarrow> contents_entry list \<Rightarrow> contents_entry list \<Rightarrow> nat \<Rightarrow> nat \<Rightarrow> bool" where
  "shifted env es arr i m =
     (length arr = length es \<and> m \<le> i \<and> i \<le> length es \<and> set arr \<subseteq> set es \<and> drop i arr = drop i es \<and>
      take m arr = filter (\<lambda>e. \<not> is_fragment env es e) (take i es))"

lemma shifted_fragment:
  assumes "shifted env es arr i m" "i < length es"
  shows "arr ! i = es ! i" "fragment_in env arr i = is_fragment env es (es ! i)"
proof -
  have len: "i < length arr" using assms by (simp add: shifted_def)
  have "drop i arr = drop i es" using assms(1) by (simp add: shifted_def)
  then show ai: "arr ! i = es ! i" using len assms(2) by (metis hd_drop_conv_nth)
  have "(\<exists>o' \<in> set arr. fuller env (es ! i) o') = (\<exists>o' \<in> set es. fuller env (es ! i) o')"
  proof
    assume "\<exists>o' \<in> set es. fuller env (es ! i) o'"
    then obtain x where x: "x \<in> set es" "fuller env (es ! i) x" "\<not> is_fragment env es x" using fullest_exists by blast
    have "x \<in> set (take i es) \<or> x \<in> set (drop i es)" using x(1) by (metis Un_iff append_take_drop_id set_append)
    then have "x \<in> set (take m arr) \<or> x \<in> set (drop i arr)" using assms(1) x(3) by (auto simp: shifted_def)
    then have "x \<in> set arr" using in_set_takeD in_set_dropD by fast
    with x(2) show "\<exists>o' \<in> set arr. fuller env (es ! i) o'" by blast
  qed (use assms(1) in \<open>auto simp: shifted_def\<close>)
  then show "fragment_in env arr i = is_fragment env es (es ! i)"
    using len by (simp add: fragment_in_eq ai is_fragment_def)
qed

lemma drop_fragments_shifted:
  "shifted env es arr i m \<Longrightarrow> drop_fragments env arr i m = filter (\<lambda>e. \<not> is_fragment env es e) es"
proof (induction env arr i m rule: drop_fragments.induct)
  case (1 env arr i m)
  show ?case
  proof (cases "length arr \<le> i")
    case True
    with 1(3) have "i = length es" "length arr = i" by (auto simp: shifted_def)
    with 1(3) show ?thesis by (simp add: drop_fragments.simps [of env arr] shifted_def)
  next
    case False
    then have i: "i < length es" using 1(3) by (simp add: shifted_def)
    note at = shifted_fragment [OF 1(3) i]
    have sh: "length arr = length es" "m \<le> i" "set arr \<subseteq> set es" "drop i arr = drop i es"
      "take m arr = filter (\<lambda>e. \<not> is_fragment env es e) (take i es)" using 1(3) by (simp_all add: shifted_def)
    have take: "take (Suc i) es = take i es @ [es ! i]" using i by (rule take_Suc_conv_app_nth)
    have drop: "drop (Suc i) arr = drop (Suc i) es" using sh(4) by (metis drop_Suc tl_drop)
    show ?thesis
    proof (cases "fragment_in env arr i")
      case True
      then have "shifted env es arr (Suc i) m" using sh i drop take at by (simp add: shifted_def)
      with 1(1) [OF False True] show ?thesis using False True by (simp add: drop_fragments.simps [of env arr])
    next
      case keep: False
      have "shifted env es (arr[m := arr ! i]) (Suc i) (Suc m)"
        unfolding shifted_def
      proof (intro conjI)
        have m: "m < length arr" using sh(1,2) i by simp
        show "set (arr[m := arr ! i]) \<subseteq> set es"
          using set_update_subset_insert [of arr m "arr ! i"] sh(3) at(1) i by auto
        show "take (Suc m) (arr[m := arr ! i]) = filter (\<lambda>e. \<not> is_fragment env es e) (take (Suc i) es)"
          using keep at m sh(5) by (simp add: take take_Suc_conv_app_nth)
        show "drop (Suc i) (arr[m := arr ! i]) = drop (Suc i) es" using sh(2) drop by simp
      qed (use sh i in simp_all)
      with 1(2) [OF False keep] show ?thesis using False keep by (simp add: drop_fragments.simps [of env arr])
    qed
  qed
qed

text \<open>
  C33. Dropping the fragments in place, over the array that is still being read, keeps exactly the
  entries the pure reading keeps: those that carry a page, are part labels, or are no prefix of a
  longer entry.
\<close>

theorem drop_fragments_in_place:
  "drop_fragments env es 0 0 = filter (\<lambda>e. \<not> is_fragment env es e) es"
  by (rule drop_fragments_shifted) (simp add: shifted_def)

subsection \<open>What the parser gives\<close>

definition entry_ok :: "contents_entry \<Rightarrow> bool" where
  "entry_ok e =
     (if ce_container e then ce_depth e = 1 \<and> ce_printed e = 0
      else 3 \<le> length (ce_title e) \<and> 0 \<le> ce_printed e \<and> ce_printed e \<le> 999 \<and> 1 \<le> ce_depth e)"

lemma dec_val_bound: "list_all is_ascii_digit t \<Longrightarrow> dec_val t < 10 ^ length t"
proof (induction t rule: rev_induct)
  case (snoc c t)
  have "dec_val t + 1 \<le> 10 ^ length t" using snoc by simp
  moreover have "digit_val c \<le> 9" using snoc.prems digit_val_range by simp
  ultimately show ?case by simp
qed (simp add: dec_val_def)

lemma page_number_range: "page_number t \<Longrightarrow> 0 \<le> dec_val t \<and> dec_val t \<le> 999"
proof -
  assume t: "page_number t"
  then have "dec_val t < 10 ^ length t" using dec_val_bound by (simp add: page_number_def)
  also have "(10 :: int) ^ length t \<le> 10 ^ 3" using t by (intro power_increasing) (simp_all add: page_number_def)
  finally show ?thesis using t dec_val_nonneg by (simp add: page_number_def list_all_iff)
qed

lemma entry_depth_pos: "1 \<le> entry_depth t in_part"
  by (simp add: entry_depth_def Let_def)

lemma part_entry_ok: "entry_ok (part_entry label)"
  by (simp add: entry_ok_def part_entry_def)

lemma last_real_entry_Some:
  assumes "last_real_entry es = Some j"
  shows "j < length es \<and> \<not> ce_container (es ! j)"
proof -
  from assms obtain i where "i < length (rev [0..<length es])" "j = rev [0..<length es] ! i" "\<not> ce_container (es ! j)"
    unfolding last_real_entry_def find_Some_iff by blast
  then show ?thesis using nth_mem [of i "rev [0..<length es]"] by simp
qed

lemma append_tail_ok: "list_all entry_ok out \<Longrightarrow> list_all entry_ok (append_tail tail out)"
proof (cases "last_real_entry out")
  case (Some j)
  assume ok: "list_all entry_ok out"
  from last_real_entry_Some [OF Some] have j: "j < length out" "\<not> ce_container (out ! j)" by simp_all
  have "entry_ok (out ! j)" using ok j(1) by (simp add: list_all_length)
  then have "entry_ok ((out ! j)\<lparr>ce_title := ce_title (out ! j) @ '' '' @ tail\<rparr>)" using j(2) by (simp add: entry_ok_def)
  then have "list_all entry_ok (out[j := (out ! j)\<lparr>ce_title := ce_title (out ! j) @ '' '' @ tail\<rparr>])"
    using ok set_update_subset_insert [of out j] unfolding list_all_iff by blast
  then show ?thesis using ok Some by (simp add: append_tail_def)
qed (simp add: append_tail_def)

lemma flush_entry_ok:
  assumes "list_all entry_ok (ps_out st)" "0 \<le> page" "page \<le> 999"
  shows "list_all entry_ok (ps_out (flush_entry env page st))"
proof -
  obtain out cur where split: "(case first_label_at (ps_cur st) of
        Some (Suc k) \<Rightarrow> (append_tail (clean_contents_title (join (take (Suc k) (ps_cur st)) '' '')) (ps_out st), drop (Suc k) (ps_cur st))
      | _ \<Rightarrow> (ps_out st, ps_cur st)) = (out, cur)" by force
  have out: "list_all entry_ok out"
    using split assms(1) append_tail_ok by (auto split: option.splits nat.splits)
  show ?thesis
    using assms out entry_depth_pos by (auto simp: flush_entry_def split entry_ok_def Let_def)
qed

lemma parse_tokens_ok: "list_all entry_ok (ps_out st) \<Longrightarrow> list_all entry_ok (ps_out (parse_tokens env ts st))"
proof (induction env ts st rule: parse_tokens.induct)
  case (1 env st)
  then show ?case by (simp add: flush_entry_ok)
next
  case (2 env t ts st)
  let ?st1 = "if ps_cur st \<noteq> [] \<and> first_label_at (ps_cur st) = Some 0 then flush_entry env 0 st else st"
  consider (noise) "ps_cur st = [] \<and> contents_noise (trim_cutset ''.:'' t)"
    | (part) "\<not> (ps_cur st = [] \<and> contents_noise (trim_cutset ''.:'' t))" "part_token t \<and> ts \<noteq> [] \<and> roman_number (hd ts)"
    | (page) "\<not> (ps_cur st = [] \<and> contents_noise (trim_cutset ''.:'' t))" "\<not> (part_token t \<and> ts \<noteq> [] \<and> roman_number (hd ts))"
        "page_number t \<and> ps_cur st \<noteq> [] \<and> \<not> entry_label (last (ps_cur st)) \<and> (ts = [] \<or> opens_entry env (hd ts))"
    | (word) "\<not> (ps_cur st = [] \<and> contents_noise (trim_cutset ''.:'' t))" "\<not> (part_token t \<and> ts \<noteq> [] \<and> roman_number (hd ts))"
        "\<not> (page_number t \<and> ps_cur st \<noteq> [] \<and> \<not> entry_label (last (ps_cur st)) \<and> (ts = [] \<or> opens_entry env (hd ts)))"
    by blast
  then show ?case
  proof cases
    case noise
    then show ?thesis using 2(1) 2(5) by simp
  next
    case part
    have "list_all entry_ok (ps_out ?st1)" using 2(5) by (simp add: flush_entry_ok)
    then have "list_all entry_ok (ps_out (parse_tokens env (tl ts)
        (?st1\<lparr>ps_cur := [], ps_out := ps_out ?st1 @ [part_entry (t @ '' '' @ hd ts)], ps_in_part := True\<rparr>)))"
      using 2(2) [OF part refl] by (simp add: part_entry_ok)
    then show ?thesis using part by (simp only: parse_tokens.simps Let_def if_False if_True simp_thms)
  next
    case page
    have "list_all entry_ok (ps_out (flush_entry env (dec_val t) st))"
      using 2(5) page_number_range page(3) by (intro flush_entry_ok) auto
    from 2(3) [OF page(1,2,3) this] page show ?thesis by (simp only: parse_tokens.simps if_False if_True simp_thms)
  next
    case word
    from 2(4) [OF word] 2(5) have "list_all entry_ok (ps_out (parse_tokens env ts (st\<lparr>ps_cur := ps_cur st @ [t]\<rparr>)))" by simp
    then show ?thesis using word by (simp only: parse_tokens.simps if_False simp_thms)
  qed
qed

lemma parse_lines_ok: "list_all entry_ok (ps_out st) \<Longrightarrow> list_all entry_ok (ps_out (fold (parse_line env) ls st))"
proof (induction ls arbitrary: st)
  case (Cons l ls)
  have "list_all entry_ok (ps_out (parse_line env l st))"
    using Cons.prems by (auto simp: parse_line_def Let_def part_entry_ok parse_tokens_ok split: option.splits)
  then show ?case using Cons.IH by simp
qed simp

lemma drop_repeats_sub: "set (drop_repeats env seen es) \<subseteq> set es"
  by (induction es arbitrary: seen) auto

lemma drop_repeats_new:
  "e \<in> set (drop_repeats env seen es) \<Longrightarrow> \<not> ce_container e \<Longrightarrow> entry_mark env e \<notin> set seen"
proof (induction es arbitrary: seen)
  case (Cons x es)
  then show ?case
    by (cases "ce_container x"; cases "entry_mark env x \<in> set seen") (auto dest: Cons.IH)
qed simp

lemma drop_repeats_distinct: "distinct (map (entry_mark env) (filter (\<lambda>e. \<not> ce_container e) (drop_repeats env seen es)))"
proof (induction es arbitrary: seen)
  case (Cons x es)
  have "entry_mark env x \<noteq> entry_mark env e" if "e \<in> set (drop_repeats env (entry_mark env x # seen) es)" "\<not> ce_container e" for e
    using drop_repeats_new [OF that] by auto
  then show ?case using Cons by (cases "ce_container x"; cases "entry_mark env x \<in> set seen") auto
qed simp


subsection \<open>Calibrated pages\<close>

lemma calibrate_leaf_cases:
  "fst (calibrate_leaf printed k last_pg d seen) = d \<or>
   (start_page d = 0 \<and> (\<exists>p. fst (calibrate_leaf printed k last_pg d seen) = d\<lparr>start_page := p\<rparr> \<and> 1 \<le> p \<and> (last_pg = 0 \<or> p \<le> last_pg)))"
  by (auto simp: calibrate_leaf_def Let_def split_beta split: option.splits)

lemma visit_all_pointwise:
  assumes "\<And>d seen. P d (fst (v d seen))" "i < length ds"
  shows "P (ds ! i) (fst (visit_all v ds seen) ! i)"
  using assms(2)
proof (induction ds arbitrary: i seen)
  case (Cons d ds)
  then show ?case using assms(1) [of d seen] by (cases i) (simp_all add: split_beta Let_def)
qed simp

lemma calibrated_leaves:
  assumes "i < length (leaves_in ns)" "ns' = calibrate_from_printed ns printed last_pg"
  shows "leaves_in ns' ! i = leaves_in ns ! i \<or>
    (start_page (leaves_in ns ! i) = 0 \<and>
      (\<exists>p. leaves_in ns' ! i = (leaves_in ns ! i)\<lparr>start_page := p\<rparr> \<and> 1 \<le> p \<and> (last_pg = 0 \<or> p \<le> last_pg)))"
proof -
  obtain os n where o': "calibration_offsets printed (leaves_in ns) (\<lambda>_. 0) = (os, n)" by force
  let ?v = "calibrate_leaf printed (sort os ! (length os div 2)) last_pg"
  have "leaves_in (fst (walk_leaves ?v ns (\<lambda>_. 0))) = fst (visit_all ?v (leaves_in ns) (\<lambda>_. 0))"
    using walk_leaves_visits [of ?v ns "\<lambda>_. 0"] by simp
  moreover have "ns' = ns \<or> ns' = fst (walk_leaves ?v ns (\<lambda>_. 0))" by (simp add: assms(2) calibrate_from_printed_def o')
  ultimately show ?thesis
    using visit_all_pointwise [of "\<lambda>d d'. d' = d \<or> (start_page d = 0 \<and> (\<exists>p. d' = d\<lparr>start_page := p\<rparr> \<and> 1 \<le> p \<and> (last_pg = 0 \<or> p \<le> last_pg)))" ?v,
        OF calibrate_leaf_cases assms(1), of "\<lambda>_. 0"] by auto
qed

text \<open>
  The printed pages are keyed over the entries that have one, the leaves over all of them: of two
  entries with one title, the first without a page, the first leaf gets the page of the second.
\<close>

lemma printed_page_of_other_entry:
  assumes "\<not> ce_container e" "ce_printed e = 0" "ce_title e' = ce_title e" "\<not> ce_container e'" "0 < ce_printed e'"
  shows "printed_pages [e, e'] (\<lambda>_. 0) (\<lambda>_. None) (fst (next_key (leaf_key_base (ce_title e)) (\<lambda>_. 0))) = Some (ce_printed e')"
  using assms by (simp add: next_key_def Let_def)

end
