(* ===== verification/Toc_Split.thy ===== *)
theory Toc_Split
  imports Toc_Extract
begin

text \<open>
  Splitting the leaves that span too many pages (\<open>pkg/ingest/toc_split.go\<close>) at their own headings: a
  nested contents page when the leaf has one, else the lines that look like headings, each confirmed
  by the Judge. The two regular expressions of the line filter and
  the quoting of a title in a message are parameters. A later answer to the
  same question key never differs in page, so the order of a request's answers does not matter here.
\<close>

subsection \<open>Heading-shaped lines\<close>

record split_env =
  sp_extract :: extract_env
  sp_noise :: "string \<Rightarrow> bool"
  sp_numbered :: "string \<Rightarrow> bool"
  sp_quote :: "string \<Rightarrow> string"

abbreviation sp_resolve :: "split_env \<Rightarrow> resolve_env" where
  "sp_resolve env \<equiv> ex_resolve (sp_extract env)"

definition split_min_entries :: nat where "split_min_entries = 2"
definition split_heading_max_words :: nat where "split_heading_max_words = 9"
definition split_running_header_repeats :: nat where "split_running_header_repeats = 3"
definition split_excerpt_chars :: nat where "split_excerpt_chars = 320"
definition split_max_depth :: nat where "split_max_depth = 6"
definition default_split_generations :: int where "default_split_generations = 1"
definition default_split_leaves_over :: int where "default_split_leaves_over = 20"

definition split_leaves_over :: "'w toc_builder \<Rightarrow> int" where
  "split_leaves_over b =
     (if tb_split_over b < 0 \<or> tb_judge b = None then 0
      else if tb_split_over b = 0 then default_split_leaves_over else tb_split_over b)"

definition split_generations :: "'w toc_builder \<Rightarrow> int" where
  "split_generations b = (if 0 < tb_split_generations b then tb_split_generations b else default_split_generations)"

definition looks_like_sub_heading :: "split_env \<Rightarrow> string \<Rightarrow> bool" where
  "looks_like_sub_heading env line =
     (let ws = str_fields line;
          upper = (\<lambda>w. rv_upper (sp_resolve env) (hd (runes w)));
          letter = (\<lambda>w. rv_letter (sp_resolve env) (hd (runes w)));
          content = filter (\<lambda>w. \<not> is_stopword (rv_lower (sp_resolve env) w)) ws in
      if line = [] \<or> length line > 90 then False
      else if sp_noise env line then False
      else if sp_numbered env line then True
      else if ws = [] \<or> length ws > split_heading_max_words then False
      else if has_suffix line ''.'' \<or> has_suffix line '','' \<or> has_suffix line '';'' \<or> has_suffix line '':'' then False
      else if \<not> upper (hd ws) then False
      else list_ex upper content \<and> list_all (\<lambda>w. upper w \<or> \<not> letter w) content)"

record heading_candidate =
  hc_text :: string
  hc_page :: int
  hc_excerpt :: string

definition page_headings :: "split_env \<Rightarrow> page_text \<Rightarrow> heading_candidate list" where
  "page_headings env p =
     (let ls = split_lines [] (pg_text p) in
      List.map_filter (\<lambda>i.
        let line = trim_space (trim_cutset (CHR 0x09 # ''* '') (ls ! i)); rest = join (drop (i + 1) ls) [CHR 0x0A] in
        if looks_like_sub_heading env line
        then Some \<lparr>hc_text = line, hc_page = pg_number p, hc_excerpt = line @ [CHR 0x0A] @ take split_excerpt_chars rest\<rparr>
        else None) [0..<length ls])"

definition heading_candidates :: "split_env \<Rightarrow> page_text list \<Rightarrow> heading_candidate list" where
  "heading_candidates env pages =
     (let all = concat (map (page_headings env) pages);
          norm = (\<lambda>c. normalise_heading (sp_resolve env) (hc_text c));
          on_pages = (\<lambda>c. remdups (map hc_page (filter (\<lambda>x. norm x = norm c) all)))
      in filter (\<lambda>c. length (on_pages c) < split_running_header_repeats) all)"

subsection \<open>Sub-leaves from headings\<close>

definition new_leaf :: "string \<Rightarrow> int \<Rightarrow> toc_data" where
  "new_leaf t pg = \<lparr>node_id = [], toc_structure = [], toc_title = t, start_page = pg, end_page = 0, toc_summary = []\<rparr>"

definition sub_leaf_cap :: "toc_data \<Rightarrow> nat" where
  "sub_leaf_cap leaf =
     (let n = int64_of (f_mul (f_of_int (end_page leaf - start_page leaf + 1)) (Fin (1 / 2)))
      in if n < int split_min_entries then split_min_entries else nat n)"

definition per_heading_batch :: nat where "per_heading_batch = 80"

definition heading_request :: "toc_data \<Rightarrow> (nat \<times> heading_candidate) list \<Rightarrow> toc_request" where
  "heading_request leaf batch =
     fold (\<lambda>(i, c). put (item_key ''h_'' i) (Opens_Subsection (toc_title leaf) (hc_text c) (hc_excerpt c))) batch []"

definition heading_probs :: "toc_data \<Rightarrow> (nat \<times> heading_candidate) list \<times> verdict \<Rightarrow> f64 list \<Rightarrow> f64 list" where
  "heading_probs leaf bj probs = fold (record_noul ''h_'' (snd bj)) (map fst (heading_request leaf (fst bj))) probs"

text \<open>\<open>sort.SliceStable\<close> by falling probability, and one sub-leaf per page and per title up to the cap.\<close>

type_synonym scored_leaf = "toc_data \<times> f64"

fun pick_headings :: "split_env \<Rightarrow> nat \<Rightarrow> int list \<Rightarrow> string list \<Rightarrow> toc_data list \<Rightarrow> scored_leaf list \<Rightarrow> toc_data list" where
  "pick_headings env cap pages names subs [] = subs"
| "pick_headings env cap pages names subs ((n, p) # ss) =
     (let name = normalise_heading (sp_resolve env) (toc_title n) in
      if start_page n \<in> set pages \<or> name \<in> set names then pick_headings env cap pages names subs ss
      else if cap \<le> length subs + 1 then subs @ [n]
      else pick_headings env cap (start_page n # pages) (name # names) (subs @ [n]) ss)"

text \<open>\<open>sortByStart\<close> is an insertion sort that moves an element back over strictly larger ones: a stable sort.\<close>

definition sort_by_start :: "toc_data list \<Rightarrow> toc_data list" where
  "sort_by_start ns = sort_key start_page ns"

definition sub_leaves_from_headings :: "split_env \<Rightarrow> 'w toc_builder \<Rightarrow> (toc_request \<Rightarrow> 'w \<Rightarrow> (string + verdict) \<times> 'w)
    \<Rightarrow> toc_data \<Rightarrow> heading_candidate list \<Rightarrow> 'w toc_state \<Rightarrow> (string + toc_data list) \<times> 'w toc_state" where
  "sub_leaves_from_headings env b judge leaf cands st =
     (case ask_batches judge (heading_request leaf) (chunks_of per_heading_batch (zip [0..<length cands] cands)) st of
        (Inl err, st1) \<Rightarrow> (Inl err, st1)
      | (Inr js, st1) \<Rightarrow>
          let probs = fold (heading_probs leaf) js (replicate (length cands) (Fin 0));
              norm = normalise_heading (sp_resolve env);
              ss = List.map_filter (\<lambda>(c, p). if f_lt (judge_threshold b) p \<and> norm (hc_text c) \<noteq> norm (toc_title leaf)
                     then Some (new_leaf (hc_text c) (hc_page c), p) else None) (zip cands probs)
          in (Inr (sort_by_start (pick_headings env (sub_leaf_cap leaf) [] [] []
                (stable_sort (\<lambda>x y. f_lt (snd y) (snd x)) ss))), st1))"

subsection \<open>Sub-leaves from a nested contents page\<close>

definition nested_contents :: "split_env \<Rightarrow> 'w toc_builder \<Rightarrow> page_text list \<Rightarrow> (int \<times> contents_entry list) option" where
  "nested_contents env b pages =
     map_option (\<lambda>p. (pg_number p, parse_contents_entries (sp_extract env) (pg_text p)))
       (find (\<lambda>p. any_signal (prefilter_toc (tb_prefilter b) (pg_text p))
          \<and> 3 \<le> count_real_entries (parse_contents_entries (sp_extract env) (pg_text p))) pages)"

fun drop_same_page :: "int \<Rightarrow> toc_data list \<Rightarrow> toc_data list" where
  "drop_same_page last_pg [] = []"
| "drop_same_page last_pg (n # ns) =
     (if start_page n = last_pg then drop_same_page last_pg ns else n # drop_same_page (start_page n) ns)"

definition cap_sub_leaves :: "toc_data list \<Rightarrow> toc_data \<Rightarrow> toc_data list" where
  "cap_sub_leaves subs leaf =
     (if length subs \<le> sub_leaf_cap leaf then subs else take (sub_leaf_cap leaf) (drop_same_page (- 1) subs))"

definition sub_leaves_from_contents :: "split_env \<Rightarrow> 'w toc_builder \<Rightarrow> (toc_request \<Rightarrow> 'w \<Rightarrow> (string + verdict) \<times> 'w)
    \<Rightarrow> toc_data \<Rightarrow> contents_entry list \<Rightarrow> string \<Rightarrow> page_text list \<Rightarrow> int \<Rightarrow> 'w toc_state
    \<Rightarrow> (string + toc_data list) \<times> 'w toc_state" where
  "sub_leaves_from_contents env b judge leaf entries contents leaf_pages index_page st =
     (case confirm_entries_judge b judge entries contents st of
        (Inl err, st1) \<Rightarrow> (Inl err, st1)
      | (Inr keep, st1) \<Rightarrow>
          let norm = normalise_heading (sp_resolve env);
              subs = map (\<lambda>(e, k). TOC (new_leaf (ce_title e) 0) [])
                (filter (\<lambda>(e, k). k \<and> \<not> ce_container e \<and> norm (ce_title e) \<noteq> norm (toc_title leaf)) (zip entries keep)) in
          if length subs < split_min_entries then (Inr [], st1)
          else case resolve_pages_judge (sp_resolve env) b subs leaf_pages [index_page] st1 of
            (Inl err, st2) \<Rightarrow> (Inl err, st2)
          | (Inr res, st2) \<Rightarrow>
              let subs = (case res of None \<Rightarrow> subs | Some r \<Rightarrow> apply_resolved_pages subs r);
                  placed = filter (\<lambda>d. start_page leaf \<le> start_page d \<and> start_page d \<le> end_page leaf) (map toc subs)
              in (Inr (cap_sub_leaves (sort_by_start placed) leaf), st2))"

subsection \<open>Splitting the tree\<close>

definition split_leaf :: "split_env \<Rightarrow> 'w toc_builder \<Rightarrow> (toc_request \<Rightarrow> 'w \<Rightarrow> (string + verdict) \<times> 'w)
    \<Rightarrow> page_text list \<Rightarrow> toc_data \<Rightarrow> 'w toc_state \<Rightarrow> (string + toc_data list) \<times> 'w toc_state" where
  "split_leaf env b judge pages leaf st =
     (let leaf_pages = filter (\<lambda>p. start_page leaf \<le> pg_number p \<and> pg_number p \<le> end_page leaf) pages;
          from_headings = (\<lambda>st. let cands = heading_candidates env leaf_pages in
            if length cands < split_min_entries then (Inr [], st)
            else sub_leaves_from_headings env b judge leaf cands st) in
      if length leaf_pages < 2 then (Inr [], st)
      else case nested_contents env b leaf_pages of
        Some (idx, entries) \<Rightarrow>
          if 0 < idx then
            (case sub_leaves_from_contents env b judge leaf entries (page_or_empty pages idx) leaf_pages idx st of
               (Inl err, st1) \<Rightarrow> (Inl err, st1)
             | (Inr subs, st1) \<Rightarrow> if split_min_entries \<le> length subs then (Inr subs, st1) else from_headings st1)
          else from_headings st
      | None \<Rightarrow> from_headings st)"

text \<open>The opening pages become a leaf of their own; the parts are numbered and get their end pages.\<close>

definition split_parts :: "toc_data \<Rightarrow> toc_data list \<Rightarrow> toc_node list" where
  "split_parts leaf subs =
     (let subs = (if start_page (hd subs) > start_page leaf then new_leaf (toc_title leaf) (start_page leaf) # subs else subs)
      in derive_end_pages_in (end_page leaf)
           (map (\<lambda>j. TOC ((subs ! j)\<lparr>toc_structure := toc_structure leaf @ ''.'' @ digits_of (j + 1)\<rparr>) []) [0..<length subs]))"

function split_walk :: "split_env \<Rightarrow> 'w toc_builder \<Rightarrow> (toc_request \<Rightarrow> 'w \<Rightarrow> (string + verdict) \<times> 'w) \<Rightarrow> page_text list \<Rightarrow> int
    \<Rightarrow> nat \<Rightarrow> nat \<Rightarrow> toc_node list \<Rightarrow> 'w toc_state \<Rightarrow> toc_node list \<times> int \<times> 'w toc_state" where
  "split_walk env b judge pages over depth gens [] st = ([], 0, st)"
| "split_walk env b judge pages over depth gens (TOC d cs # rest) st =
     (let (n, added, st1) =
        (if cs \<noteq> [] then
           (let (cs', a, st1) = split_walk env b judge pages over (depth + 1) gens cs st in (TOC d cs', a, st1))
         else if split_max_depth \<le> depth \<or> gens = 0 then (TOC d cs, 0, st)
         else if start_page d \<le> 0 \<or> end_page d < start_page d \<or> end_page d - start_page d + 1 \<le> over then (TOC d cs, 0, st)
         else (case split_leaf env b judge pages d st of
             (Inl err, (w, u)) \<Rightarrow> (TOC d cs, 0, (w, u\<lparr>tu_degraded := tu_degraded u @ [''leaf split: '' @ sp_quote env (toc_title d) @ '' kept whole: '' @ err]\<rparr>))
           | (Inr subs, st1) \<Rightarrow>
               if length subs < split_min_entries then (TOC d cs, 0, st1)
               else let parts = split_parts d subs;
                        (cs', a, st2) = split_walk env b judge pages over (depth + 1) (gens - 1) parts st1
                    in (TOC d cs', int (length parts) + a, st2)));
          (rest', added', st2) = split_walk env b judge pages over depth gens rest st1
      in (n # rest', added + added', st2))"
  by pat_completeness auto

termination
  by (relation "measures [\<lambda>(_, _, _, _, _, _, gens, _, _). gens, \<lambda>(_, _, _, _, _, _, _, ns, _). size_list size ns]") auto

declare split_walk.simps [simp del]

definition split_large_leaves :: "split_env \<Rightarrow> 'w toc_builder \<Rightarrow> toc_node list \<Rightarrow> page_text list \<Rightarrow> int \<Rightarrow> 'w toc_state
    \<Rightarrow> toc_node list \<times> int \<times> 'w toc_state" where
  "split_large_leaves env b ns pages over st =
     (case tb_judge b of
        None \<Rightarrow> (ns, 0, st)
      | Some judge \<Rightarrow>
          if over \<le> 0 then (ns, 0, st)
          else split_walk env b judge pages over 1 (nat (split_generations b)) ns st)"

subsection \<open>The parts of a leaf\<close>

definition page_covered :: "toc_node list \<Rightarrow> int \<Rightarrow> bool" where
  "page_covered ns p = (\<exists>d \<in> set (leaves_in ns). 0 < start_page d \<and> start_page d \<le> p \<and> p \<le> end_page d)"

lemma page_covered_simps [simp]:
  "page_covered [] p = False"
  "page_covered (TOC d cs # rest) p =
     ((if cs = [] then 0 < start_page d \<and> start_page d \<le> p \<and> p \<le> end_page d else page_covered cs p) \<or> page_covered rest p)"
  by (auto simp: page_covered_def)

definition parts_ok :: "toc_data \<Rightarrow> toc_data list \<Rightarrow> bool" where
  "parts_ok leaf subs =
     (sorted (map start_page subs) \<and> (\<forall>d \<in> set subs. start_page leaf \<le> start_page d \<and> start_page d \<le> end_page leaf))"

lemma derive_sorted_covers:
  assumes "sorted (map start_page ds)" "ds \<noteq> []" "\<forall>d \<in> set ds. 0 < start_page d \<and> start_page d \<le> last_pg"
  shows "page_covered (derive_end_pages_in last_pg (map (\<lambda>d. TOC d []) ds)) p
    = (start_page (hd ds) \<le> p \<and> p \<le> last_pg)"
  using assms
proof (induction ds)
  case (Cons d ds)
  show ?case
  proof (cases ds)
    case Nil
    then show ?thesis using Cons.prems(3) by (auto simp: Let_def extend_over_def)
  next
    case (Cons d2 ds2)
    have le: "start_page d \<le> start_page d2" using Cons.prems(1) Cons by simp
    have pos: "0 < start_page d" "0 < start_page d2" "start_page d2 \<le> last_pg" using Cons.prems(3) Cons by simp_all
    have rest: "page_covered (derive_end_pages_in last_pg (map (\<lambda>d. TOC d []) ds)) p = (start_page d2 \<le> p \<and> p \<le> last_pg)"
      using Cons.IH Cons.prems Cons by simp
    have "derive_end_pages_in last_pg (map (\<lambda>d. TOC d []) (d # ds))
        = TOC (d\<lparr>end_page := (if start_page d2 = start_page d then start_page d else start_page d2 - 1)\<rparr>) []
          # derive_end_pages_in last_pg (map (\<lambda>d. TOC d []) ds)"
      using le pos by (simp add: Cons Let_def extend_over_def)
    then show ?thesis using rest le pos by (auto split: if_splits)
  qed
qed simp

lemma split_parts_covers:
  assumes "parts_ok leaf subs" "subs \<noteq> []" "0 < start_page leaf"
  shows "page_covered (split_parts leaf subs) p = (start_page leaf \<le> p \<and> p \<le> end_page leaf)"
proof -
  define ds where "ds = (if start_page (hd subs) > start_page leaf then new_leaf (toc_title leaf) (start_page leaf) # subs else subs)"
  have ok: "sorted (map start_page subs)" "\<And>d. d \<in> set subs \<Longrightarrow> start_page leaf \<le> start_page d \<and> start_page d \<le> end_page leaf"
    using assms(1) by (simp_all add: parts_ok_def)
  have hd: "start_page leaf \<le> start_page (hd subs)" "start_page (hd subs) \<le> end_page leaf" using ok(2) assms(2) by simp_all
  define es where "es = map (\<lambda>j. (ds ! j)\<lparr>toc_structure := toc_structure leaf @ ''.'' @ digits_of (j + 1)\<rparr>) [0..<length ds]"
  have starts: "map start_page es = map start_page ds"
    by (rule nth_equalityI) (simp_all add: es_def)
  have ds: "sorted (map start_page ds) \<and> ds \<noteq> [] \<and> (\<forall>d \<in> set ds. 0 < start_page d \<and> start_page d \<le> end_page leaf)
      \<and> start_page (hd ds) = start_page leaf"
  proof (cases "start_page (hd subs) > start_page leaf")
    case True
    have ds_def': "ds = new_leaf (toc_title leaf) (start_page leaf) # subs" using True by (simp add: ds_def)
    have "start_page leaf \<le> end_page leaf" using hd by linarith
    then show ?thesis using ok assms(3) by (fastforce simp: ds_def' new_leaf_def)
  next
    case False
    then have ds_def': "ds = subs" "start_page (hd subs) = start_page leaf" using hd by (simp_all add: ds_def)
    show ?thesis using ok assms(2,3) by (auto simp: ds_def' intro: less_le_trans)
  qed
  then have ds: "sorted (map start_page ds)" "ds \<noteq> []" "\<forall>d \<in> set ds. 0 < start_page d \<and> start_page d \<le> end_page leaf"
    "start_page (hd ds) = start_page leaf" by simp_all
  have ne: "es \<noteq> []" using ds(2) starts by auto
  have es: "sorted (map start_page es)" "\<forall>d \<in> set es. 0 < start_page d \<and> start_page d \<le> end_page leaf" "start_page (hd es) = start_page leaf"
  proof -
    show "sorted (map start_page es)" using ds(1) starts by simp
    have "set (map start_page es) = set (map start_page ds)" using starts by simp
    then show "\<forall>d \<in> set es. 0 < start_page d \<and> start_page d \<le> end_page leaf" using ds(3) by (force simp: image_iff)
    show "start_page (hd es) = start_page leaf" using ds(2,4) ne starts by (metis hd_map)
  qed
  have "split_parts leaf subs = derive_end_pages_in (end_page leaf) (map (\<lambda>d. TOC d []) es)"
    by (simp add: split_parts_def ds_def [symmetric] es_def comp_def)
  then show ?thesis using derive_sorted_covers [OF es(1) ne es(2)] es(3) by simp
qed

subsection \<open>Where sub-leaves lie\<close>

lemma sort_by_start_simps [simp]:
  "set (sort_by_start ns) = set ns" "sorted (map start_page (sort_by_start ns))" "length (sort_by_start ns) = length ns"
  by (simp_all add: sort_by_start_def)

lemma heading_candidates_pages: "c \<in> set (heading_candidates env pages) \<Longrightarrow> hc_page c \<in> pg_number ` set pages"
  by (force simp: heading_candidates_def page_headings_def Let_def map_filter_def split: if_splits)

lemma pick_headings_from: "set (pick_headings env cap pages names subs ss) \<subseteq> set subs \<union> fst ` set ss"
proof (induction ss arbitrary: pages names subs)
  case (Cons s ss)
  obtain n p where s: "s = (n, p)" by (cases s)
  show ?case
    using Cons.IH [of pages names subs]
      Cons.IH [of "start_page n # pages" "normalise_heading (sp_resolve env) (toc_title n) # names" "subs @ [n]"]
    by (auto simp: s Let_def)
qed simp

lemma pick_headings_length: "0 < cap \<Longrightarrow> length subs < cap \<Longrightarrow> length (pick_headings env cap pages names subs ss) \<le> cap"
proof (induction ss arbitrary: pages names subs)
  case (Cons s ss)
  obtain n p where s: "s = (n, p)" by (cases s)
  show ?case
    using Cons.prems Cons.IH [of subs pages names]
      Cons.IH [of "subs @ [n]" "start_page n # pages" "normalise_heading (sp_resolve env) (toc_title n) # names"]
    by (simp add: s Let_def)
qed simp

lemma pick_headings_distinct:
  assumes "set (map start_page subs) = set pages" "distinct (map start_page subs)"
  shows "distinct (map start_page (pick_headings env cap pages names subs ss))"
  using assms
proof (induction ss arbitrary: pages names subs)
  case (Cons s ss)
  obtain n p where s: "s = (n, p)" by (cases s)
  let ?nm = "normalise_heading (sp_resolve env) (toc_title n)"
  have "distinct (map start_page (subs @ [n]))" if "start_page n \<notin> set pages" using Cons.prems that by auto
  moreover have "set (map start_page (subs @ [n])) = set (start_page n # pages)" using Cons.prems by auto
  ultimately show ?case
    using Cons.prems Cons.IH [of subs pages names] Cons.IH [of "subs @ [n]" "start_page n # pages" "?nm # names"]
    by (auto simp: s Let_def)
qed simp

lemma drop_same_page_set: "set (drop_same_page k ns) \<subseteq> set ns"
  by (induction ns arbitrary: k) auto

lemma drop_same_page_sorted: "sorted (map start_page ns) \<Longrightarrow> sorted (map start_page (drop_same_page k ns))"
proof (induction ns arbitrary: k)
  case (Cons n ns)
  then show ?case using drop_same_page_set [of "start_page n" ns] by auto
qed simp

lemma sub_leaf_cap_pos: "split_min_entries \<le> sub_leaf_cap leaf"
  unfolding sub_leaf_cap_def Let_def split_min_entries_def by (split if_split) linarith

lemma cap_sub_leaves_ok:
  assumes "sorted (map start_page subs)"
  shows "sorted (map start_page (cap_sub_leaves subs leaf))" "set (cap_sub_leaves subs leaf) \<subseteq> set subs"
    "length (cap_sub_leaves subs leaf) \<le> sub_leaf_cap leaf"
proof -
  show "sorted (map start_page (cap_sub_leaves subs leaf))"
    using assms drop_same_page_sorted by (simp add: cap_sub_leaves_def sorted_wrt_take flip: take_map)
  show "set (cap_sub_leaves subs leaf) \<subseteq> set subs"
    using order_trans [OF set_take_subset drop_same_page_set] by (simp add: cap_sub_leaves_def)
  show "length (cap_sub_leaves subs leaf) \<le> sub_leaf_cap leaf" by (simp add: cap_sub_leaves_def)
qed

lemma sub_leaves_from_headings_picked:
  assumes "sub_leaves_from_headings env b judge leaf cands st = (Inr subs, st1)"
  shows "\<exists>ss. subs = sort_by_start (pick_headings env (sub_leaf_cap leaf) [] [] [] ss)
    \<and> (\<forall>d \<in> fst ` set ss. \<exists>c \<in> set cands. d = new_leaf (hc_text c) (hc_page c))"
proof -
  obtain js where js: "ask_batches judge (heading_request leaf) (chunks_of per_heading_batch (zip [0..<length cands] cands)) st = (Inr js, st1)"
    using assms(1) by (auto simp: sub_leaves_from_headings_def Let_def split: prod.splits sum.splits)
  define probs where "probs = fold (heading_probs leaf) js (replicate (length cands) (Fin 0))"
  define pickable where "pickable = (\<lambda>(c :: heading_candidate, p). if f_lt (judge_threshold b) p
      \<and> normalise_heading (sp_resolve env) (hc_text c) \<noteq> normalise_heading (sp_resolve env) (toc_title leaf)
      then Some (new_leaf (hc_text c) (hc_page c), p) else None)"
  define ss where "ss = stable_sort (\<lambda>x y. f_lt (snd y) (snd x)) (List.map_filter pickable (zip cands probs))"
  have subs: "subs = sort_by_start (pick_headings env (sub_leaf_cap leaf) [] [] [] ss)"
    using assms(1) by (simp add: sub_leaves_from_headings_def js Let_def probs_def [symmetric] pickable_def [symmetric] ss_def)
  have "\<exists>c \<in> set cands. d = new_leaf (hc_text c) (hc_page c)" if "d \<in> fst ` set ss" for d
    using that by (auto simp: ss_def map_filter_def pickable_def split: if_splits dest!: set_zip_leftD)
  then show ?thesis using subs by blast
qed

lemma sub_leaves_from_headings_new:
  assumes "sub_leaves_from_headings env b judge leaf cands st = (Inr subs, st1)" "d \<in> set subs"
  shows "\<exists>c \<in> set cands. d = new_leaf (hc_text c) (hc_page c)"
proof -
  obtain ss where "subs = sort_by_start (pick_headings env (sub_leaf_cap leaf) [] [] [] ss)"
    "\<forall>d \<in> fst ` set ss. \<exists>c \<in> set cands. d = new_leaf (hc_text c) (hc_page c)"
    using sub_leaves_from_headings_picked [OF assms(1)] by blast
  then show ?thesis using assms(2) pick_headings_from [of env "sub_leaf_cap leaf" "[]" "[]" "[]" ss] by auto
qed

lemma sub_leaves_from_headings_ok:
  assumes "sub_leaves_from_headings env b judge leaf cands st = (Inr subs, st1)"
    and "\<forall>c \<in> set cands. start_page leaf \<le> hc_page c \<and> hc_page c \<le> end_page leaf"
  shows "parts_ok leaf subs" "length subs \<le> sub_leaf_cap leaf" "distinct (map start_page subs)"
proof -
  obtain ss where subs: "subs = sort_by_start (pick_headings env (sub_leaf_cap leaf) [] [] [] ss)"
    "\<forall>d \<in> fst ` set ss. \<exists>c \<in> set cands. d = new_leaf (hc_text c) (hc_page c)"
    using sub_leaves_from_headings_picked [OF assms(1)] by blast
  have "start_page leaf \<le> start_page d \<and> start_page d \<le> end_page leaf" if "d \<in> set subs" for d
    using sub_leaves_from_headings_new [OF assms(1) that] assms(2) by (auto simp: new_leaf_def)
  then show "parts_ok leaf subs" by (simp add: parts_ok_def subs(1))
  show "length subs \<le> sub_leaf_cap leaf"
    using pick_headings_length [of "sub_leaf_cap leaf" "[]"] sub_leaf_cap_pos [of leaf]
    by (simp add: subs(1) split_min_entries_def)
  have "distinct (map start_page (pick_headings env (sub_leaf_cap leaf) [] [] [] ss))"
    by (rule pick_headings_distinct) simp_all
  then show "distinct (map start_page subs)"
    unfolding subs(1) sort_by_start_def by (metis distinct_map mset_map mset_sort mset_eq_imp_distinct_iff)
qed

lemma sub_leaves_from_contents_ok:
  assumes "sub_leaves_from_contents env b judge leaf entries contents leaf_pages index_page st = (Inr subs, st1)"
  shows "parts_ok leaf subs" "length subs \<le> sub_leaf_cap leaf"
proof -
  have "subs = [] \<or> (\<exists>ds. subs = cap_sub_leaves (sort_by_start (filter (\<lambda>d. start_page leaf \<le> start_page d \<and> start_page d \<le> end_page leaf) ds)) leaf)"
    using assms by (auto simp: sub_leaves_from_contents_def Let_def split: prod.splits sum.splits if_splits)
  then show "parts_ok leaf subs" "length subs \<le> sub_leaf_cap leaf"
    using cap_sub_leaves_ok [OF sort_by_start_simps(2)] by (fastforce simp: parts_ok_def)+
qed

lemma split_leaf_ok:
  assumes "split_leaf env b judge pages leaf st = (Inr subs, st1)"
  shows "parts_ok leaf subs" "length subs \<le> sub_leaf_cap leaf"
proof -
  define leaf_pages where "leaf_pages = filter (\<lambda>p. start_page leaf \<le> pg_number p \<and> pg_number p \<le> end_page leaf) pages"
  have cands: "\<forall>c \<in> set (heading_candidates env leaf_pages). start_page leaf \<le> hc_page c \<and> hc_page c \<le> end_page leaf"
    using heading_candidates_pages by (fastforce simp: leaf_pages_def)
  consider "subs = []"
    | (headings) st' where "sub_leaves_from_headings env b judge leaf (heading_candidates env leaf_pages) st' = (Inr subs, st1)"
    | (contents) idx entries where
        "sub_leaves_from_contents env b judge leaf entries (page_or_empty pages idx) leaf_pages idx st = (Inr subs, st1)"
    using assms
    by (auto simp: split_leaf_def Let_def leaf_pages_def [symmetric] split: if_splits option.splits prod.splits sum.splits)
  then have "parts_ok leaf subs \<and> length subs \<le> sub_leaf_cap leaf"
  proof cases
    case headings
    then show ?thesis using sub_leaves_from_headings_ok [OF headings cands] by simp
  next
    case contents
    then show ?thesis using sub_leaves_from_contents_ok [OF contents] by simp
  qed (simp add: parts_ok_def)
  then show "parts_ok leaf subs" "length subs \<le> sub_leaf_cap leaf" by simp_all
qed

subsection \<open>Coverage\<close>

definition split_outcome :: "split_env \<Rightarrow> 'w toc_builder \<Rightarrow> (toc_request \<Rightarrow> 'w \<Rightarrow> (string + verdict) \<times> 'w) \<Rightarrow> page_text list \<Rightarrow> int
    \<Rightarrow> nat \<Rightarrow> nat \<Rightarrow> toc_data \<Rightarrow> toc_node list \<Rightarrow> 'w toc_state \<Rightarrow> toc_node list \<Rightarrow> bool" where
  "split_outcome env b judge pages over depth gens d cs st cs' =
     (if cs \<noteq> [] then cs' = fst (split_walk env b judge pages over (depth + 1) gens cs st)
      else cs' = [] \<or> 0 < gens \<and> depth < split_max_depth \<and> 0 < start_page d \<and> over < end_page d - start_page d + 1
        \<and> (\<exists>subs st1. split_leaf env b judge pages d st = (Inr subs, st1) \<and> split_min_entries \<le> length subs
            \<and> cs' = fst (split_walk env b judge pages over (depth + 1) (gens - 1) (split_parts d subs) st1)))"

lemma split_walk_Cons:
  obtains cs' st1 where
    "fst (split_walk env b judge pages over depth gens (TOC d cs # rest) st)
      = TOC d cs' # fst (split_walk env b judge pages over depth gens rest st1)"
    "split_outcome env b judge pages over depth gens d cs st cs'"
proof -
  let ?walk = "split_walk env b judge pages over"
  let ?r = "?walk depth gens (TOC d cs # rest) st"
  have keep: "\<exists>cs' st1. fst ?r = TOC d cs' # fst (?walk depth gens rest st1) \<and> split_outcome env b judge pages over depth gens d cs st cs'"
  proof (cases "cs \<noteq> []")
    case True
    obtain cs' a st1 where "?walk (depth + 1) gens cs st = (cs', a, st1)" by (cases "?walk (depth + 1) gens cs st")
    then have "fst ?r = TOC d cs' # fst (?walk depth gens rest st1) \<and> cs' = fst (?walk (depth + 1) gens cs st)"
      using True by (simp add: split_walk.simps Let_def split: prod.splits)
    then show ?thesis using True by (intro exI [of _ cs'] exI [of _ st1]) (simp add: split_outcome_def)
  next
    case leaf: False
    show ?thesis
    proof (cases "split_max_depth \<le> depth \<or> gens = 0 \<or> start_page d \<le> 0 \<or> end_page d < start_page d \<or> end_page d - start_page d + 1 \<le> over")
      case True
      then have "fst ?r = TOC d [] # fst (?walk depth gens rest st)" using leaf by (auto simp: split_walk.simps split: prod.splits)
      then show ?thesis using leaf by (intro exI [of _ "[]"] exI [of _ st]) (simp add: split_outcome_def)
    next
      case guards: False
      obtain res w u where res: "split_leaf env b judge pages d st = (res, (w, u))" by (cases "split_leaf env b judge pages d st") auto
      show ?thesis
      proof (cases "\<exists>subs. res = Inr subs \<and> split_min_entries \<le> length subs")
        case True
        then obtain subs where subs: "res = Inr subs" "split_min_entries \<le> length subs" by blast
        obtain cs' a st2 where "?walk (depth + 1) (gens - 1) (split_parts d subs) (w, u) = (cs', a, st2)"
          by (cases "?walk (depth + 1) (gens - 1) (split_parts d subs) (w, u)")
        then have "fst ?r = TOC d cs' # fst (?walk depth gens rest st2)
            \<and> cs' = fst (?walk (depth + 1) (gens - 1) (split_parts d subs) (w, u))"
          using leaf guards res subs by (simp add: split_walk.simps Let_def split: prod.splits)
        then show ?thesis using leaf guards res subs by (intro exI [of _ cs'] exI [of _ st2]) (auto simp: split_outcome_def not_le)
      next
        case False
        then obtain st1 where "fst ?r = TOC d [] # fst (?walk depth gens rest st1)"
          using leaf guards res by (cases res) (rule that, simp add: split_walk.simps Let_def not_le case_prod_beta)+
        then show ?thesis using leaf by (intro exI [of _ "[]"] exI [of _ st1]) (simp add: split_outcome_def)
      qed
    qed
  qed
  then show thesis using that by blast
qed

lemma length_split_walk: "length (fst (split_walk env b judge pages over depth gens ns st)) = length ns"
proof (induction ns arbitrary: st)
  case (Cons n ns)
  obtain d cs where n: "n = TOC d cs" by (cases n)
  show ?case
    unfolding n by (rule split_walk_Cons [of env b judge pages over depth gens d cs ns st]) (simp add: Cons.IH)
qed (simp add: split_walk.simps)

lemma split_walk_covers:
  "page_covered (fst (split_walk env b judge pages over depth gens ns st)) p = page_covered ns p"
proof (induction gens arbitrary: ns depth st rule: less_induct)
  case fewer: (less gens)
  show ?case
  proof (induction ns arbitrary: depth st rule: measure_induct_rule [of "size_list size"])
    case (less ns)
    show ?case
    proof (cases ns)
      case (Cons n rest)
      obtain d cs where n: "n = TOC d cs" by (cases n)
      obtain cs' st1 where w: "fst (split_walk env b judge pages over depth gens (TOC d cs # rest) st)
          = TOC d cs' # fst (split_walk env b judge pages over depth gens rest st1)"
        and out: "split_outcome env b judge pages over depth gens d cs st cs'" by (rule split_walk_Cons)
      have rest: "page_covered (fst (split_walk env b judge pages over depth gens rest st1)) p = page_covered rest p"
        by (rule less.IH) (simp add: Cons n)
      have "page_covered [TOC d cs'] p = page_covered [TOC d cs] p"
      proof (cases "cs \<noteq> []")
        case True
        then have cs': "cs' = fst (split_walk env b judge pages over (depth + 1) gens cs st)" using out by (simp add: split_outcome_def)
        have "cs' \<noteq> []" using True length_split_walk [of env b judge pages over "depth + 1" gens cs st] by (auto simp: cs')
        moreover have "page_covered cs' p = page_covered cs p" unfolding cs' by (rule less.IH) (simp add: Cons n)
        ultimately show ?thesis using True by simp
      next
        case leaf: False
        show ?thesis
        proof (cases "cs' = []")
          case False
          then obtain subs st2 where subs: "split_leaf env b judge pages d st = (Inr subs, st2)" "split_min_entries \<le> length subs"
              "cs' = fst (split_walk env b judge pages over (depth + 1) (gens - 1) (split_parts d subs) st2)"
              and g: "0 < gens" "0 < start_page d"
            using out leaf by (auto simp: split_outcome_def)
          have ne: "subs \<noteq> []" using subs(2) by (auto simp: split_min_entries_def)
          have "page_covered cs' p = page_covered (split_parts d subs) p"
            unfolding subs(3) by (rule fewer) (use g in simp)
          then have "page_covered cs' p = (start_page d \<le> p \<and> p \<le> end_page d)"
            using split_parts_covers [OF split_leaf_ok(1) [OF subs(1)] ne g(2)] by simp
          then show ?thesis using leaf False g by auto
        qed (use leaf in simp)
      qed
      then show ?thesis using rest w by (simp add: Cons n)
    qed (simp add: split_walk.simps)
  qed
qed

text \<open>
  C10. Splitting the large leaves loses and gains no page: whatever headings a nested contents page or the
  lines of the pages offer, and whatever the Judge answers or fails to answer, a page lies in some
  leaf of the tree afterwards exactly when it lay in one before (the opening pages of a split leaf included).
\<close>

theorem split_keeps_coverage:
  "page_covered (fst (split_large_leaves env b ns pages over st)) = page_covered ns"
  by (auto simp: split_large_leaves_def split_walk_covers fun_eq_iff split: option.splits)

end
