(* ===== verification/Toc_Generate.thy ===== *)
theory Toc_Generate
  imports Toc_Split Selection
begin

text \<open>
  The generative path of the contents builder (\<open>pkg/ingest/toc_builder.go\<close>): the language model is
  asked page by page whether it reads a table of contents, asked for the nodes of the tree, and asked
  whether each section opens the page it claims.

  The model is a parameter; a question is a constructor of \<open>toc_ask\<close> (its wording is constant), the
  flag says whether the retry suffix is on. Decoding a JSON object into a payload is a parameter too,
  what is done to the text before it is not. The context's cancellation is a test on the world; a
  cancelled verification leaves the pages it did not ask about, as a failed call does.
\<close>

subsection \<open>The call\<close>

datatype toc_ask =
    Detect_Contents string
  | Nodes_From_Contents string string
  | Nodes_From_Body string
  | Starts_Page string string

datatype complete_error = Not_Implemented | Call_Failed string

type_synonym 'w toc_llm = "toc_ask \<times> bool \<Rightarrow> 'w \<Rightarrow> (complete_error + llm_reply) \<times> 'w"

type_synonym verify_job = "nat \<times> string \<times> string"

record 'w generate_env =
  ge_llm :: "'w toc_llm"
  ge_cancelled :: "'w \<Rightarrow> bool"
  ge_detected :: "string \<Rightarrow> string option"
  ge_start_begin :: "string \<Rightarrow> string option"
  ge_nodes :: "string \<Rightarrow> toc_payload list option"
  ge_schedule :: "verify_job list \<Rightarrow> verify_job list"

definition default_toc_retries :: nat where "default_toc_retries = 2"
definition toc_extractor_max_chars :: int where "toc_extractor_max_chars = 16000"
definition toc_extractor_max_body :: int where "toc_extractor_max_body = 60000"
definition no_toc_max_body :: int where "no_toc_max_body = 80000"

definition fence :: string where "fence = ''```''"

definition looks_like_json :: "string \<Rightarrow> bool" where
  "looks_like_json s =
     (let s = trim_space s;
          s = (if has_prefix s fence then trim_space (trim_prefix (trim_prefix s (fence @ ''json'')) fence) else s)
      in s \<noteq> [] \<and> (has_prefix s ''{'' \<or> has_prefix s ''[''))"

definition lenient :: "string \<Rightarrow> string" where
  "lenient raw = isolate_object (strip_fences (trim_space raw))"

definition add_reply :: "toc_usage \<Rightarrow> llm_reply \<Rightarrow> toc_usage" where
  "add_reply u r = u\<lparr>tu_usage := add_usage (tu_usage u) (one_call r), tu_generative := wrap64 (tu_generative u + 1)\<rparr>"

text \<open>\<open>runTOCJSONWithRetry\<close>: the last reply when none looks like JSON, nothing from a stub, else the error.\<close>

fun json_attempts :: "'w toc_llm \<Rightarrow> toc_ask \<Rightarrow> nat \<Rightarrow> bool \<Rightarrow> string \<Rightarrow> 'w toc_state \<Rightarrow> (string + string) \<times> 'w toc_state" where
  "json_attempts llm q 0 strict last_raw st = (Inr last_raw, st)"
| "json_attempts llm q (Suc n) strict last_raw (w, u) =
     (case llm (q, strict) w of
        (Inl Not_Implemented, w1) \<Rightarrow> (Inr [], (w1, u))
      | (Inl (Call_Failed e), w1) \<Rightarrow> (Inl e, (w1, u))
      | (Inr r, w1) \<Rightarrow>
          if looks_like_json (rep_content r) then (Inr (rep_content r), (w1, add_reply u r))
          else json_attempts llm q n True (rep_content r) (w1, add_reply u r))"

definition run_toc_json :: "'w generate_env \<Rightarrow> toc_ask \<Rightarrow> 'w toc_state \<Rightarrow> (string + string) \<times> 'w toc_state" where
  "run_toc_json env q st = json_attempts (ge_llm env) q (default_toc_retries + 1) False [] st"

text \<open>\<open>strings.EqualFold(s, "yes")\<close>; the long s folds to s.\<close>

definition says_yes :: "string \<Rightarrow> bool" where
  "says_yes s =
     (case runes (trim_space s) of
        [y, e, x] \<Rightarrow> y \<in> {''y'', ''Y''} \<and> e \<in> {''e'', ''E''} \<and> x \<in> {''s'', ''S'', [CHR 0xC5, CHR 0xBF]}
      | _ \<Rightarrow> False)"

subsection \<open>Detection\<close>

definition run_toc_detector :: "'w generate_env \<Rightarrow> string \<Rightarrow> 'w toc_state \<Rightarrow> (string + bool) \<times> 'w toc_state" where
  "run_toc_detector env page st =
     (case run_toc_json env (Detect_Contents (truncate_text page toc_detector_max_chars)) st of
        (Inl e, st1) \<Rightarrow> (Inl e, st1)
      | (Inr raw, st1) \<Rightarrow>
          (Inr (raw \<noteq> [] \<and> (case ge_detected env (lenient raw) of None \<Rightarrow> False | Some a \<Rightarrow> says_yes a)), st1))"

fun detect_pages :: "'w generate_env \<Rightarrow> page_text list \<Rightarrow> 'w toc_state \<Rightarrow> int list \<times> 'w toc_state" where
  "detect_pages env [] st = ([], st)"
| "detect_pages env (p # ps) st =
     (let t = trim_space (pg_text p) in
      if ge_cancelled env (fst st) then ([], st)
      else if t = [] then detect_pages env ps st
      else case run_toc_detector env t st of
        (Inl e, st1) \<Rightarrow> ([], st1)
      | (Inr is_toc, st1) \<Rightarrow>
          (case detect_pages env ps st1 of
             (found, st2) \<Rightarrow> ((if is_toc then pg_number p # found else found), st2)))"

definition detect_toc_pages :: "'w generate_env \<Rightarrow> page_text list \<Rightarrow> int \<Rightarrow> 'w toc_state \<Rightarrow> int list \<times> 'w toc_state" where
  "detect_toc_pages env pages toc_check st = detect_pages env (take (nat toc_check) pages) st"

subsection \<open>Extraction\<close>

definition physical_marker :: "int \<Rightarrow> string" where
  "physical_marker n = ''<physical_index_'' @ itoa n @ ''>''"

fun indexed_text :: "int \<Rightarrow> string \<Rightarrow> page_text list \<Rightarrow> string" where
  "indexed_text budget buf [] = buf"
| "indexed_text budget buf (p # ps) =
     (let seg = physical_marker (pg_number p) @ eol @ pg_text p @ eol @ physical_marker (pg_number p) @ eol @ eol in
      if 0 < budget \<and> budget < int (length buf + length seg) then buf else indexed_text budget (buf @ seg) ps)"

definition build_physical_indexed_text :: "page_text list \<Rightarrow> int \<Rightarrow> string" where
  "build_physical_indexed_text pages budget = indexed_text budget [] pages"

definition parse_toc_nodes_payload :: "'w generate_env \<Rightarrow> string \<Rightarrow> toc_payload list" where
  "parse_toc_nodes_payload env raw =
     (if raw = [] then [] else case ge_nodes env (lenient raw) of None \<Rightarrow> [] | Some ns \<Rightarrow> ns)"

definition nodes_from :: "'w generate_env \<Rightarrow> toc_ask \<Rightarrow> 'w toc_state \<Rightarrow> (string + toc_node list) \<times> 'w toc_state" where
  "nodes_from env q st =
     (case run_toc_json env q st of
        (Inl e, st1) \<Rightarrow> (Inl e, st1)
      | (Inr raw, st1) \<Rightarrow> (Inr (assemble_hierarchy (parse_toc_nodes_payload env raw)), st1))"

definition extract_from_toc_pages :: "'w generate_env \<Rightarrow> page_text list \<Rightarrow> int list \<Rightarrow> 'w toc_state
    \<Rightarrow> (string + toc_node list) \<times> 'w toc_state" where
  "extract_from_toc_pages env pages toc_pages st =
     nodes_from env (Nodes_From_Contents (truncate_text (join_toc_pages_text pages toc_pages) toc_extractor_max_chars)
       (truncate_text (build_physical_indexed_text pages (toc_detector_max_chars * 4)) toc_extractor_max_body)) st"

definition generate_no_toc :: "'w generate_env \<Rightarrow> page_text list \<Rightarrow> 'w toc_state \<Rightarrow> (string + toc_node list) \<times> 'w toc_state" where
  "generate_no_toc env pages st = nodes_from env (Nodes_From_Body (build_physical_indexed_text pages no_toc_max_body)) st"

subsection \<open>Verification\<close>

text \<open>A reply that cannot be decoded keeps the page; an empty one does not.\<close>

definition run_verify_title :: "'w generate_env \<Rightarrow> string \<Rightarrow> string \<Rightarrow> 'w toc_state \<Rightarrow> (string + bool) \<times> 'w toc_state" where
  "run_verify_title env t page st =
     (case run_toc_json env (Starts_Page t (truncate_text page verify_max_chars)) st of
        (Inl e, st1) \<Rightarrow> (Inl e, st1)
      | (Inr raw, st1) \<Rightarrow>
          (Inr (raw \<noteq> [] \<and> (case ge_start_begin env (lenient raw) of None \<Rightarrow> True | Some a \<Rightarrow> says_yes a)), st1))"

text \<open>
  Every node in depth-first order, by its place; one job for each whose page is there. The jobs run at
  once; \<open>ge_schedule\<close> is the order their calls come in. Each counts its usage apart, and the sums go
  to the builder's usage, all but the count of generative calls.
\<close>

definition verify_jobs :: "toc_node list \<Rightarrow> page_text list \<Rightarrow> verify_job list" where
  "verify_jobs ns pages =
     List.map_filter (\<lambda>(i, n). if start_of n \<le> 0 then None
         else map_option (\<lambda>t. (i, toc_title (toc n), t)) (by_page pages (start_of n)))
       (zip [0..<length (flatten_for_verify ns)] (flatten_for_verify ns))"

definition fresh_usage :: toc_usage where
  "fresh_usage = \<lparr>tu_usage = no_usage, tu_generative = 0, tu_degraded = []\<rparr>"

fun run_jobs :: "'w generate_env \<Rightarrow> verify_job list \<Rightarrow> 'w \<Rightarrow> usage \<Rightarrow> (nat \<rightharpoonup> bool) \<times> 'w \<times> usage" where
  "run_jobs env [] w acc = ((\<lambda>_. None), w, acc)"
| "run_jobs env ((i, t, page) # js) w acc =
     (let (r, (w1, u)) = run_verify_title env t page (w, fresh_usage);
          (rs, w2, acc') = run_jobs env js w1 (add_usage acc (tu_usage u))
      in (rs(i \<mapsto> (case r of Inl e \<Rightarrow> True | Inr ok \<Rightarrow> ok)), w2, acc'))"

fun clear_marked :: "(nat \<Rightarrow> bool) \<Rightarrow> toc_node list \<Rightarrow> nat \<Rightarrow> toc_node list \<times> nat" where
  "clear_marked bad [] i = ([], i)"
| "clear_marked bad (TOC d cs # rest) i =
     (let (cs', i1) = clear_marked bad cs (Suc i);
          (rest', i2) = clear_marked bad rest i1
      in (TOC (if bad i then d\<lparr>start_page := 0\<rparr> else d) cs' # rest', i2))"

definition verify_titles_concurrent :: "'w generate_env \<Rightarrow> toc_node list \<Rightarrow> page_text list \<Rightarrow> 'w toc_state
    \<Rightarrow> toc_node list \<times> 'w toc_state" where
  "verify_titles_concurrent env ns pages st =
     (let flat = flatten_for_verify ns in
      if flat = [] then (ns, st)
      else let (results, w, spent) = run_jobs env (ge_schedule env (verify_jobs ns pages)) (fst st) no_usage;
               bad = (\<lambda>i. i < length flat \<and> 0 < start_of (flat ! i)
                 \<and> (by_page pages (start_of (flat ! i)) = None \<or> results i = Some False))
           in (fst (clear_marked bad ns 0), (w, (snd st)\<lparr>tu_usage := add_usage (tu_usage (snd st)) spent\<rparr>)))"

end
