(* ===== verification/Toc_Pages.thy ===== *)
theory Toc_Pages
  imports Toc_Generate
begin

text \<open>
  What each pass of the contents builder does to the data of every node of the tree, children
  included: which pages may appear, and that none points past the document.
\<close>

subsection \<open>A predicate on every node\<close>

definition all_data :: "(toc_data \<Rightarrow> bool) \<Rightarrow> toc_node list \<Rightarrow> bool" where
  "all_data P ns = (\<forall>d \<in> set (flat_data ns). P d)"

lemma all_data_simps [simp]:
  "all_data P []"
  "all_data P (TOC d cs # rest) \<longleftrightarrow> P d \<and> all_data P cs \<and> all_data P rest"
  using flat_data_Cons [of "TOC d cs" rest] by (auto simp: all_data_def flat_data_TOC)

lemma all_data_Cons: "all_data P (n # ns) \<longleftrightarrow> P (toc n) \<and> all_data P (nodes n) \<and> all_data P ns"
  by (cases n) simp

lemma all_data_iff: "all_data P ns \<longleftrightarrow> (\<forall>n \<in> set ns. P (toc n) \<and> all_data P (nodes n))"
  by (induction ns) (auto simp: all_data_Cons)

lemma all_data_mono: "all_data P ns \<Longrightarrow> (\<And>d. P d \<Longrightarrow> Q d) \<Longrightarrow> all_data Q ns"
  by (simp add: all_data_def)

lemma all_data_conj: "all_data (\<lambda>d. P d \<and> Q d) ns \<longleftrightarrow> all_data P ns \<and> all_data Q ns"
  by (auto simp: all_data_def)

lemma leaves_in_data: "d \<in> set (leaves_in ns) \<Longrightarrow> all_data P ns \<Longrightarrow> P d"
  by (induction ns rule: leaves_in.induct) (auto split: if_splits)

subsection \<open>The passes\<close>

lemma walk_leaves_data:
  assumes "\<And>d s. P d \<Longrightarrow> P (fst (v d s))"
  shows "all_data P ns \<Longrightarrow> all_data P (fst (walk_leaves v ns s))"
proof (induction ns arbitrary: s rule: leaves_in.induct)
  case (2 d ns rest)
  then show ?case using assms by (auto simp: split_beta Let_def)
qed simp

lemma repair_walk_data:
  assumes "\<And>d. P d \<Longrightarrow> P (d\<lparr>start_page := 0, end_page := 0\<rparr>)"
  shows "all_data P ns \<Longrightarrow> all_data P (fst (repair_walk T f ns))"
proof (induction T f ns rule: repair_walk.induct)
  case (1 T f ns)
  have "P (toc m) \<and> all_data P (nodes m)" if "m \<in> set (fst (repair_walk T f ns))" for m
  proof -
    from that obtain i where i: "i < length ns" "m = fst (repair_walk T f ns) ! i" by (auto simp: in_set_conv_nth)
    define p where "p = cleared_starts T f ns ! i"
    have m: "m = TOC (set_start (toc (ns ! i)) p) (fst (repair_walk T (if 0 < p then p else f) (nodes (ns ! i))))"
      using i by (simp add: repair_walk_nth p_def)
    have n: "P (toc (ns ! i))" "all_data P (nodes (ns ! i))" using "1.prems" i by (auto simp: all_data_iff [of P ns])
    have "(ns ! i, p) \<in> set (zip ns (cleared_starts T f ns))" using i by (auto simp: p_def set_zip)
    then have "all_data P (fst (repair_walk T (if 0 < p then p else f) (nodes (ns ! i))))"
      using "1.IH" [OF refl refl refl, of "(ns ! i, p)" "ns ! i" p] n by simp
    then show ?thesis using n assms by (simp add: m set_start_def)
  qed
  then show ?case by (simp add: all_data_iff [of P "fst (repair_walk T f ns)"])
qed

lemma repair_starts_data:
  "(\<And>d. P d \<Longrightarrow> P (d\<lparr>start_page := 0, end_page := 0\<rparr>)) \<Longrightarrow> all_data P ns \<Longrightarrow> all_data P (fst (repair_starts ns T))"
  by (simp add: repair_starts_def repair_walk_data)

lemma inherit_parent_start_data:
  assumes "\<And>d c. P d \<Longrightarrow> P c \<Longrightarrow> P (d\<lparr>start_page := start_page c\<rparr>)"
  shows "all_data P [n] \<Longrightarrow> all_data P [inherit_parent_start n]"
proof (induction n rule: inherit_parent_start.induct)
  case (1 d ns)
  have cs: "all_data P (map inherit_parent_start ns)"
  proof (cases "ns = []")
    case False
    have "all_data P [inherit_parent_start c]" if "c \<in> set ns" for c
      by (rule "1.IH" [OF False that]) (use "1.prems" that in \<open>auto simp: all_data_iff [of P ns] all_data_Cons\<close>)
    then show ?thesis by (auto simp: all_data_iff [of P "map _ _"] all_data_Cons)
  qed simp
  have "P (d\<lparr>start_page := least_start (start_page d) (map inherit_parent_start ns)\<rparr>)"
    using least_start_cases [of "start_page d" "map inherit_parent_start ns"]
  proof
    assume "\<exists>c \<in> set (map inherit_parent_start ns). least_start (start_page d) (map inherit_parent_start ns) = start_of c"
    then show ?thesis using cs assms [of d] "1.prems" by (auto simp: all_data_iff [of P "map _ _"])
  next
    assume "least_start (start_page d) (map inherit_parent_start ns) = start_page d"
    then show ?thesis using assms [of d d] "1.prems" by simp
  qed
  then show ?case using cs "1.prems" by (simp add: Let_def)
qed

lemma inherit_parent_starts_data:
  "(\<And>d c. P d \<Longrightarrow> P c \<Longrightarrow> P (d\<lparr>start_page := start_page c\<rparr>)) \<Longrightarrow> all_data P ns \<Longrightarrow> all_data P (inherit_parent_starts ns)"
  using inherit_parent_start_data [of P]
  by (auto simp: inherit_parent_starts_def all_data_iff [of P ns] all_data_iff [of P "map _ _"] all_data_Cons)

lemma stamp_from_data:
  assumes "\<And>d i. P d \<Longrightarrow> P (d\<lparr>node_id := i\<rparr>)"
  shows "all_data P ns \<Longrightarrow> all_data P (stamp_from i pfx ns)"
  using assms by (induction i pfx ns rule: stamp_from.induct) (simp_all add: Let_def)

lemma clear_marked_data:
  assumes "\<And>j. j < length (flatten_for_verify ns) \<Longrightarrow>
      P (if bad (i + j) then (toc (flatten_for_verify ns ! j))\<lparr>start_page := 0\<rparr> else toc (flatten_for_verify ns ! j))"
  shows "all_data P (fst (clear_marked bad ns i)) \<and> snd (clear_marked bad ns i) = i + length (flatten_for_verify ns)"
  using assms
proof (induction bad ns i rule: clear_marked.induct)
  case (2 bad d cs rest i)
  let ?all = "flatten_for_verify (TOC d cs # rest)"
  have all: "?all = TOC d cs # flatten_for_verify cs @ flatten_for_verify rest" by (simp add: flatten_Cons toc_preorder_TOC del: toc_preorder.simps)
  have own: "P (if bad i then d\<lparr>start_page := 0\<rparr> else d)" using "2.prems" [of 0] unfolding all by (cases "bad i") simp_all
  obtain cs' i1 where cs: "clear_marked bad cs (Suc i) = (cs', i1)" by force
  have "all_data P cs' \<and> i1 = Suc i + length (flatten_for_verify cs)"
  proof -
    have "P (if bad (Suc i + j) then (toc (flatten_for_verify cs ! j))\<lparr>start_page := 0\<rparr> else toc (flatten_for_verify cs ! j))"
      if "j < length (flatten_for_verify cs)" for j
      using "2.prems" [of "Suc j"] that unfolding all by (cases "bad (Suc (i + j))") (simp_all add: nth_append)
    then show ?thesis using "2.IH"(1) cs by simp
  qed
  moreover obtain rest' i2 where rest: "clear_marked bad rest i1 = (rest', i2)" by force
  moreover have "all_data P rest' \<and> i2 = i1 + length (flatten_for_verify rest)" if "i1 = Suc i + length (flatten_for_verify cs)"
  proof -
    have "P (if bad (i1 + j) then (toc (flatten_for_verify rest ! j))\<lparr>start_page := 0\<rparr> else toc (flatten_for_verify rest ! j))"
      if "j < length (flatten_for_verify rest)" for j
      using "2.prems" [of "Suc (length (flatten_for_verify cs) + j)"] that \<open>i1 = _\<close> unfolding all
      by (cases "bad (i1 + j)") (simp_all add: nth_append add.assoc)
    then show ?thesis using "2.IH"(2) [OF cs [symmetric] refl] rest by simp
  qed
  ultimately show ?case using own cs by (simp add: all)
qed simp

subsection \<open>Pages inside the document\<close>

text \<open>Before the end pages are derived a node has none, and a known start is at most the last page.\<close>

definition starts_in :: "int \<Rightarrow> toc_data \<Rightarrow> bool" where
  "starts_in L d \<longleftrightarrow> start_page d \<le> L \<and> end_page d = 0"

definition ends_in :: "int \<Rightarrow> toc_data \<Rightarrow> bool" where
  "ends_in L d \<longleftrightarrow> start_page d \<le> L \<and> end_page d \<le> L"

definition range_within :: "int \<Rightarrow> toc_data \<Rightarrow> bool" where
  "range_within L d \<longleftrightarrow> (0 < start_page d \<longrightarrow> start_page d \<le> end_page d) \<and> start_page d \<le> L \<and> end_page d \<le> L"

lemma ends_in_end: "start_page d \<le> L \<Longrightarrow> e \<le> L \<Longrightarrow> ends_in L (d\<lparr>end_page := e\<rparr>)"
  by (simp add: ends_in_def)

lemma sibling_end_le: "\<forall>s' \<in> set ss. s' \<le> L \<Longrightarrow> s \<le> L \<Longrightarrow> 0 \<le> L \<Longrightarrow> sibling_end s ss \<le> L"
  by (induction ss) auto

lemma extend_over_le: "e \<le> L \<Longrightarrow> \<forall>c \<in> set cs. end_of c \<le> L \<Longrightarrow> extend_over e cs \<le> L"
  unfolding extend_over_def by (induction cs arbitrary: e) auto

lemma derive_in_ends:
  assumes "all_data (starts_in L) ns" "cap \<le> L" "0 \<le> L"
  shows "all_data (ends_in L) (derive_end_pages_in cap ns)"
  using assms
proof (induction cap ns rule: derive_end_pages_in.induct)
  case (2 cap d cs rest)
  let ?s = "start_page d"
  let ?e0 = "sibling_end ?s (map start_of rest)"
  let ?e1 = "if ?e0 \<le> 0 then cap else ?e0"
  let ?e2 = "if 0 < ?s then (if ?e1 < ?s then ?s else ?e1) else end_page d"
  let ?cs = "derive_end_pages_in (if ?e2 = 0 then cap else ?e2) cs"
  have in_d: "starts_in L d" and rest_in: "all_data (starts_in L) rest" and cs_in: "all_data (starts_in L) cs"
    using "2.prems"(1) by simp_all
  from in_d have in_d: "?s \<le> L" "end_page d = 0" by (simp_all add: starts_in_def)
  have "\<forall>s' \<in> set (map start_of rest). s' \<le> L" using rest_in by (auto simp: all_data_iff [of _ rest] starts_in_def)
  then have e0: "?e0 \<le> L" by (rule sibling_end_le) (use in_d "2.prems" in simp_all)
  have e1: "?e1 \<le> L" by (cases "?e0 \<le> 0") (use e0 "2.prems"(2) in simp_all)
  have e2: "?e2 \<le> L" using e1 in_d "2.prems"(3) by (cases "0 < ?s"; cases "?e1 < ?s") simp_all
  have c: "(if ?e2 = 0 then cap else ?e2) \<le> L" by (cases "?e2 = 0") (use e2 "2.prems"(2) in simp_all)
  have cs: "all_data (ends_in L) ?cs" by (rule "2.IH"(1) [OF refl refl refl refl cs_in c "2.prems"(3)])
  have "\<forall>c \<in> set ?cs. end_of c \<le> L" using cs by (auto simp: all_data_iff [of _ ?cs] ends_in_def)
  then have "extend_over ?e2 ?cs \<le> L" using e2 by (rule extend_over_le [rotated])
  with in_d(1) have own: "ends_in L (d\<lparr>end_page := extend_over ?e2 ?cs\<rparr>)" by (rule ends_in_end)
  have "all_data (ends_in L) (derive_end_pages_in cap rest)"
    by (rule "2.IH"(2) [OF refl refl refl refl refl rest_in "2.prems"(2,3)])
  with own cs show ?case by (simp only: derive_end_pages_in.simps Let_def all_data_simps simp_thms)
qed simp

lemma ends_ok_data: "ends_ok n \<Longrightarrow> all_data (\<lambda>d. 0 < start_page d \<longrightarrow> start_page d \<le> end_page d) [n]"
proof (induction n)
  case (TOC d cs)
  then show ?case by (auto simp: all_data_iff [of _ cs] all_data_Cons)
qed

lemma derive_in_range:
  assumes "all_data (starts_in L) ns" "cap \<le> L" "0 \<le> L"
  shows "all_data (range_within L) (derive_end_pages_in cap ns)"
proof -
  let ?r = "derive_end_pages_in cap ns"
  have "all_data (\<lambda>d. 0 < start_page d \<longrightarrow> start_page d \<le> end_page d) ?r"
    using derive_in_ok [of cap ns] ends_ok_data by (fastforce simp: all_data_iff [of _ ?r] all_data_Cons)
  moreover have "all_data (ends_in L) ?r" by (rule derive_in_ends [OF assms])
  ultimately show ?thesis by (auto simp: all_data_def range_within_def ends_in_def)
qed

lemma split_parts_range:
  assumes "parts_ok leaf subs" "subs \<noteq> []" "0 < start_page leaf" "end_page leaf \<le> L"
    and ends: "\<forall>d \<in> set subs. end_page d = 0"
  shows "all_data (range_within L) (split_parts leaf subs)"
proof -
  define ds where "ds = (if start_page (hd subs) > start_page leaf then new_leaf (toc_title leaf) (start_page leaf) # subs else subs)"
  have sub: "start_page leaf \<le> start_page d \<and> start_page d \<le> end_page leaf" if "d \<in> set subs" for d
    using assms(1) that by (simp add: parts_ok_def)
  have le: "start_page leaf \<le> end_page leaf" using sub [of "hd subs"] assms(2) by force
  have ds: "start_page d \<le> L \<and> end_page d = 0" if "d \<in> set ds" for d
    using that sub [of d] ends le assms(4) by (auto simp: ds_def new_leaf_def split: if_splits)
  have "all_data (starts_in L) (map (\<lambda>j. TOC ((ds ! j)\<lparr>toc_structure := toc_structure leaf @ ''.'' @ digits_of (j + 1)\<rparr>) []) [0..<length ds])"
    using ds by (auto simp: all_data_iff [of _ "map _ _"] starts_in_def)
  moreover have "0 \<le> L" using le assms(3,4) by simp
  ultimately show ?thesis
    using derive_in_range [OF _ assms(4)] by (simp add: split_parts_def ds_def [symmetric])
qed

text \<open>The splitter keeps what holds of every node, if it holds of the parts made from a leaf.\<close>

lemma split_walk_data:
  assumes parts: "\<And>d subs st st1. P d \<Longrightarrow> split_leaf env b judge pages d st = (Inr subs, st1) \<Longrightarrow> subs \<noteq> [] \<Longrightarrow>
      0 < start_page d \<Longrightarrow> all_data P (split_parts d subs)"
  shows "all_data P ns \<Longrightarrow> all_data P (fst (split_walk env b judge pages over depth gens ns st))"
proof (induction gens arbitrary: ns depth st rule: less_induct)
  case fewer: (less gens)
  show ?case using fewer.prems
  proof (induction ns arbitrary: depth st rule: measure_induct_rule [of "size_list size"])
    case (less ns)
    show ?case
    proof (cases ns)
      case (Cons n rest)
      obtain d cs where n: "n = TOC d cs" by (cases n)
      obtain cs' st1 where w: "fst (split_walk env b judge pages over depth gens (TOC d cs # rest) st)
          = TOC d cs' # fst (split_walk env b judge pages over depth gens rest st1)"
        and out: "split_outcome env b judge pages over depth gens d cs st cs'" by (rule split_walk_Cons)
      have P: "P d" "all_data P cs" "all_data P rest" using less.prems by (simp_all add: Cons n)
      have rest: "all_data P (fst (split_walk env b judge pages over depth gens rest st1))"
        by (rule less.IH) (simp_all add: Cons n P)
      have "all_data P cs'"
      proof (cases "cs \<noteq> []")
        case True
        then have "cs' = fst (split_walk env b judge pages over (depth + 1) gens cs st)" using out by (simp add: split_outcome_def)
        then show ?thesis using less.IH [of cs "depth + 1" st] P by (simp add: Cons n)
      next
        case leaf: False
        show ?thesis
        proof (cases "cs' = []")
          case False
          then obtain subs st2 where subs: "split_leaf env b judge pages d st = (Inr subs, st2)" "split_min_entries \<le> length subs"
              "cs' = fst (split_walk env b judge pages over (depth + 1) (gens - 1) (split_parts d subs) st2)"
              and g: "0 < gens" "0 < start_page d"
            using out leaf by (auto simp: split_outcome_def)
          have "subs \<noteq> []" using subs(2) by (auto simp: split_min_entries_def)
          then show ?thesis unfolding subs(3) by (intro fewer.IH parts) (use P subs(1) g in auto)
        qed simp
      qed
      then show ?thesis using rest w P by (simp add: Cons n)
    qed (simp add: split_walk.simps)
  qed
qed

lemma apply_resolved_data:
  assumes "\<And>d k pg. P d \<Longrightarrow> res k = Some pg \<Longrightarrow> P (d\<lparr>start_page := pg\<rparr>)" "all_data P ns"
  shows "all_data P (apply_resolved_pages ns res)"
proof (cases "res = (\<lambda>_. None)")
  case False
  have "P (fst (apply_page res d s))" if "P d" for d s
    using that assms(1) by (auto simp: apply_page_def Let_def split_beta split: option.splits)
  then have "all_data P (fst (walk_leaves (apply_page res) ns (\<lambda>_. 0)))" using assms(2) by (rule walk_leaves_data)
  then show ?thesis using False by (simp add: apply_resolved_pages_def)
qed (use assms(2) in \<open>simp add: apply_resolved_pages_def\<close>)

lemma all_data_leaves: "(\<And>x. x \<in> set xs \<Longrightarrow> P x) \<Longrightarrow> all_data P (map (\<lambda>x. TOC x []) xs)"
  by (simp add: all_data_iff [of _ "map _ _"])

lemma toc_of_data: "all_data P ns \<Longrightarrow> d \<in> set (map toc ns) \<Longrightarrow> P d"
  by (auto simp: all_data_iff [of P ns])

lemma sub_leaves_from_contents_fresh:
  assumes "sub_leaves_from_contents env b judge leaf entries contents leaf_pages index_page st = (Inr subs, st1)" "d \<in> set subs"
  shows "end_page d = 0"
proof -
  define subs0 where "subs0 = (\<lambda>keep. map (\<lambda>(e, k). TOC (new_leaf (ce_title e) 0) []) (filter (\<lambda>(e, k). k \<and> \<not> ce_container e
      \<and> normalise_heading (sp_resolve env) (ce_title e) \<noteq> normalise_heading (sp_resolve env) (toc_title leaf)) (zip entries keep)))"
  define placed where "placed = (\<lambda>res ns. filter (\<lambda>d. start_page leaf \<le> start_page d \<and> start_page d \<le> end_page leaf)
      (map toc (case res of None \<Rightarrow> ns | Some r \<Rightarrow> apply_resolved_pages ns r)))"
  have "subs = [] \<or> (\<exists>keep res. subs = cap_sub_leaves (sort_by_start (placed res (subs0 keep))) leaf)"
    using assms(1) unfolding placed_def subs0_def
    by (fastforce simp: sub_leaves_from_contents_def Let_def split: prod.splits sum.splits if_splits)
  then obtain keep res where subs: "subs = cap_sub_leaves (sort_by_start (placed res (subs0 keep))) leaf"
    using assms(2) by auto
  have fresh: "all_data (\<lambda>d. end_page d = 0) (subs0 keep)"
    by (auto simp: subs0_def all_data_iff [of _ "map _ _"] new_leaf_def)
  have "all_data (\<lambda>d. end_page d = 0) (case res of None \<Rightarrow> subs0 keep | Some r \<Rightarrow> apply_resolved_pages (subs0 keep) r)"
    by (cases res) (use fresh in \<open>auto intro: apply_resolved_data\<close>)
  moreover have "d \<in> set (placed res (subs0 keep))"
    using assms(2) cap_sub_leaves_ok(2) [OF sort_by_start_simps(2), of "placed res (subs0 keep)" leaf] by (auto simp: subs)
  then have "d \<in> set (map toc (case res of None \<Rightarrow> subs0 keep | Some r \<Rightarrow> apply_resolved_pages (subs0 keep) r))"
    by (simp add: placed_def)
  ultimately show ?thesis by (rule toc_of_data)
qed

lemma split_leaf_fresh:
  assumes "split_leaf env b judge pages leaf st = (Inr subs, st1)" "d \<in> set subs"
  shows "end_page d = 0"
proof -
  consider (none) "subs = []"
    | (headings) cands st' where "sub_leaves_from_headings env b judge leaf cands st' = (Inr subs, st1)"
    | (contents) entries contents ps idx where "sub_leaves_from_contents env b judge leaf entries contents ps idx st = (Inr subs, st1)"
    using assms(1) by (auto simp: split_leaf_def Let_def split: if_splits option.splits prod.splits sum.splits)
  then show ?thesis
  proof cases
    case headings
    then show ?thesis using sub_leaves_from_headings_new [OF headings assms(2)] by (auto simp: new_leaf_def)
  next
    case contents
    then show ?thesis by (rule sub_leaves_from_contents_fresh) (rule assms(2))
  qed (use assms(2) in simp)
qed

lemma split_large_leaves_range:
  assumes "all_data (range_within L) ns"
  shows "all_data (range_within L) (fst (split_large_leaves env b ns pages over st))"
proof (cases "tb_judge b")
  case (Some judge)
  have parts: "all_data (range_within L) (split_parts d subs)"
    if "range_within L d" "split_leaf env b judge pages d st = (Inr subs, st1)" "subs \<noteq> []" "0 < start_page d" for d subs st st1
    using split_parts_range [OF split_leaf_ok(1) [OF that(2)] that(3,4)] that(1) split_leaf_fresh [OF that(2)] by (simp add: range_within_def)
  have "all_data (range_within L) (fst (split_walk env b judge pages over 1 (nat (split_generations b)) ns st))"
    by (rule split_walk_data [OF _ assms]) (erule (3) parts)
  then show ?thesis using assms Some by (simp add: split_large_leaves_def)
qed (use assms in \<open>simp add: split_large_leaves_def\<close>)

end
