(* ===== verification/Toc_Build.thy ===== *)
theory Toc_Build
  imports Toc_Pages
begin

text \<open>
  \<open>TOCBuilder.Build\<close> (\<open>pkg/ingest/toc_builder.go\<close>): detection, extraction, page resolution, repair and
  calibration, end pages, splitting and stamping, composed as the code composes them, with the usage
  it reports, the calls of each phase and what the \<open>OnPhase\<close> hook hears. Durations are not modelled.
\<close>

subsection \<open>The pipeline\<close>

datatype phase_event = Phase_Begin string | Phase_End string string

record 'w build_env =
  be_split :: split_env
  be_generate :: "'w generate_env"
  be_toc_check :: int

abbreviation be_extract :: "'w build_env \<Rightarrow> extract_env" where
  "be_extract env \<equiv> sp_extract (be_split env)"

abbreviation be_resolve :: "'w build_env \<Rightarrow> resolve_env" where
  "be_resolve env \<equiv> sp_resolve (be_split env)"

definition degrade :: "string \<Rightarrow> string \<Rightarrow> 'w toc_state \<Rightarrow> 'w toc_state" where
  "degrade step what st = (fst st, (snd st)\<lparr>tu_degraded := tu_degraded (snd st) @ [step @ '': '' @ what]\<rparr>)"

definition calls_so_far :: "'w toc_state \<Rightarrow> int" where
  "calls_so_far st = llm_calls (tu_usage (snd st))"

fun last_page_number :: "page_text list \<Rightarrow> int" where
  "last_page_number [] = 0"
| "last_page_number (p # ps) = fold (\<lambda>p l. if l < pg_number p then pg_number p else l) ps (pg_number p)"

definition toc_check_pages :: "'w build_env \<Rightarrow> int" where
  "toc_check_pages env = (if be_toc_check env \<le> 0 then 20 else be_toc_check env)"

definition detect_contents :: "'w build_env \<Rightarrow> 'w toc_builder \<Rightarrow> page_text list \<Rightarrow> 'w toc_state \<Rightarrow> int list \<times> 'w toc_state" where
  "detect_contents env b pages st =
     (case detect_toc_pages_judge b pages (toc_check_pages env) st of
        (Inr (Some found), st1) \<Rightarrow> (found, st1)
      | (_, st1) \<Rightarrow> detect_toc_pages (be_generate env) pages (toc_check_pages env) st1)"

text \<open>The nodes, and the printed page of each leaf key when the Judge confirmed the entries.\<close>

definition extract_generative :: "'w build_env \<Rightarrow> page_text list \<Rightarrow> int list \<Rightarrow> 'w toc_state
    \<Rightarrow> (string + toc_node list \<times> (string \<rightharpoonup> int)) \<times> 'w toc_state" where
  "extract_generative env pages toc_pages st =
     (case (if toc_pages \<noteq> [] then extract_from_toc_pages (be_generate env) pages toc_pages st
            else generate_no_toc (be_generate env) pages st) of
        (Inl e, st1) \<Rightarrow> (Inl e, st1)
      | (Inr ns, st1) \<Rightarrow> (Inr (ns, \<lambda>_. None), st1))"

definition extract_entries :: "'w build_env \<Rightarrow> 'w toc_builder \<Rightarrow> page_text list \<Rightarrow> int list \<Rightarrow> 'w toc_state
    \<Rightarrow> (string + toc_node list \<times> (string \<rightharpoonup> int)) \<times> 'w toc_state" where
  "extract_entries env b pages toc_pages st =
     (if toc_pages \<noteq> [] \<and> tb_judge b \<noteq> None
      then (case extract_from_toc_pages_judge (be_extract env) b pages toc_pages st of
              (Inl e, st1) \<Rightarrow> extract_generative env pages toc_pages
                (degrade ''extraction'' (''generative extractor after a failed Judge request: '' @ e) st1)
            | (Inr None, st1) \<Rightarrow> extract_generative env pages toc_pages st1
            | (Inr (Some r), st1) \<Rightarrow> (Inr r, st1))
      else extract_generative env pages toc_pages st)"

definition place_pages :: "'w build_env \<Rightarrow> 'w toc_builder \<Rightarrow> toc_node list \<Rightarrow> page_text list \<Rightarrow> int list \<Rightarrow> 'w toc_state
    \<Rightarrow> toc_node list \<times> 'w toc_state" where
  "place_pages env b ns pages toc_pages st =
     (if tb_judge b \<noteq> None
      then resolve_pages_or_keep (be_resolve env) b (ge_cancelled (be_generate env)) ns pages toc_pages st
      else verify_titles_concurrent (be_generate env) ns pages st)"

text \<open>Repair, calibration, repair again, and the end pages.\<close>

definition page_ranges :: "toc_node list \<Rightarrow> (string \<rightharpoonup> int) \<Rightarrow> page_text list \<Rightarrow> int list \<Rightarrow> toc_node list" where
  "page_ranges ns printed pages toc_pages =
     (let ns = fst (repair_starts ns toc_pages);
          ns = calibrate_from_printed ns printed (last_page_number pages);
          ns = fst (repair_starts ns toc_pages)
      in derive_end_pages ns (last_page_number pages))"

definition split_step :: "'w build_env \<Rightarrow> 'w toc_builder \<Rightarrow> toc_node list \<Rightarrow> page_text list \<Rightarrow> 'w toc_state
    \<Rightarrow> toc_node list \<times> string \<times> 'w toc_state" where
  "split_step env b ns pages st =
     (let over = split_leaves_over b in
      if 0 < over
      then (case split_large_leaves (be_split env) b ns pages over st of
              (ns', n, st1) \<Rightarrow> (ns', if 0 < n then itoa n @ '' sub-sections'' else ''none over the limit'', st1))
      else (ns, ''off'', st))"

definition detect_detail :: "int list \<Rightarrow> string" where
  "detect_detail toc_pages =
     (case toc_pages of [] \<Rightarrow> ''no contents page; reading headings'' | p # _ \<Rightarrow> ''contents on page '' @ itoa p)"

record toc_built =
  bt_nodes :: "toc_node list"
  bt_events :: "phase_event list"
  bt_calls :: "(string \<times> int) list"

definition no_toc_built :: toc_built where
  "no_toc_built = \<lparr>bt_nodes = [], bt_events = [], bt_calls = []\<rparr>"

text \<open>An error comes with what was reported before it; the usage is in the state.\<close>

definition build :: "'w build_env \<Rightarrow> 'w toc_builder \<Rightarrow> page_text list \<Rightarrow> 'w \<Rightarrow> string option \<times> toc_built \<times> 'w toc_state" where
  "build env b pages w =
     (let st0 = (w, fresh_usage) in
      if pages = [] then (None, no_toc_built, st0)
      else
        let (toc_pages, st1) = detect_contents env b pages st0;
            ev1 = [Phase_Begin ''detect'', Phase_End ''detect'' (detect_detail toc_pages), Phase_Begin ''extract''];
            calls1 = [(''detect'', calls_so_far st1)] in
        case extract_entries env b pages toc_pages st1 of
          (Inl e, st2) \<Rightarrow> (Some e, \<lparr>bt_nodes = [], bt_events = ev1, bt_calls = calls1\<rparr>, st2)
        | (Inr (ns, printed), st2) \<Rightarrow>
            let ev2 = ev1 @ [Phase_End ''extract'' (itoa (int (length (flatten_for_verify ns))) @ '' entries'')];
                calls2 = calls1 @ [(''extract'', calls_so_far st2 - calls_so_far st1)] in
            if ns = []
            then (None, \<lparr>bt_nodes = [],
                    bt_events = ev2 @ [Phase_End ''resolve'' ''nothing to place'', Phase_End ''split'' ''nothing to split''],
                    bt_calls = calls2\<rparr>, st2)
            else let (ns1, st3) = place_pages env b ns pages toc_pages st2;
                     (ns2, detail, st4) = split_step env b (page_ranges ns1 printed pages toc_pages) pages st3
                 in (None, \<lparr>bt_nodes = stamp_node_ids ns2 [],
                      bt_events = ev2 @ [Phase_Begin ''resolve'', Phase_End ''resolve'' [], Phase_Begin ''split'', Phase_End ''split'' detail],
                      bt_calls = calls2 @ [(''resolve'', calls_so_far st3 - calls_so_far st2), (''split'', calls_so_far st4 - calls_so_far st3)]\<rparr>, st4))"

subsection \<open>Which pages the passes may write\<close>

lemma last_page_number_ge: "p \<in> set pages \<Longrightarrow> pg_number p \<le> last_page_number pages"
proof (cases pages)
  case (Cons q qs)
  let ?f = "\<lambda>(p :: page_text) l. if l < pg_number p then pg_number p else l"
  have step: "l \<le> fold ?f ps l \<and> (\<forall>p \<in> set ps. pg_number p \<le> fold ?f ps l)" for ps l
  proof (induction ps arbitrary: l)
    case (Cons p ps)
    have "fold ?f (p # ps) l = fold ?f ps (?f p l)" by simp
    moreover have "l \<le> ?f p l" "pg_number p \<le> ?f p l" by simp_all
    ultimately show ?case using Cons [of "?f p l"] by (auto intro: order_trans)
  qed simp
  show "p \<in> set pages \<Longrightarrow> pg_number p \<le> last_page_number pages" using step [of "pg_number q" qs] Cons by auto
qed simp

lemma by_page_le: "by_page pages n = Some t \<Longrightarrow> n \<le> last_page_number pages"
  using last_page_number_ge [of _ pages] by (auto simp: by_page_def dest!: map_of_SomeD)

lemma scan_pages_page: "h \<in> set (fst (scan_pages env f pages)) \<union> set (snd (scan_pages env f pages)) \<Longrightarrow> ph_page h \<le> last_page_number pages"
  by (auto simp: scan_pages_def Let_def map_filter_def dest!: last_page_number_ge split: option.splits)

lemma find_candidates_page: "h \<in> set (find_candidate_pages env t pages) \<Longrightarrow> ph_page h \<le> last_page_number pages"
  using find_candidates_scanned scan_pages_page by blast

lemma leaf_candidates_page:
  "h \<in> set (leaf_candidates env pages exclude d) \<Longrightarrow> start_page d \<le> last_page_number pages \<Longrightarrow> ph_page h \<le> last_page_number pages"
  using find_candidates_page by (fastforce simp: leaf_candidates_def Let_def split: if_splits)

lemma collect_resolve_page:
  "c \<in> set (collect_resolve env pages exclude ds seen) \<Longrightarrow> h \<in> set (rl_candidates c) \<Longrightarrow>
     \<forall>d \<in> set ds. start_page d \<le> last_page_number pages \<Longrightarrow> ph_page h \<le> last_page_number pages"
  by (induction ds arbitrary: seen) (auto simp: Let_def split_beta dest: leaf_candidates_page split: if_splits)

lemma resolve_pages_written:
  assumes res: "resolve_pages_judge env b ns pages exclude st = (Inr (Some res), st')" "res k = Some pg"
    and order: "\<And>ks. set (rv_order env ks) \<subseteq> set ks"
    and starts: "all_data (starts_in (last_page_number pages)) ns" "0 \<le> last_page_number pages"
  shows "pg \<le> last_page_number pages"
proof (cases "pg = 0")
  case False
  obtain judge where judge: "tb_judge b = Some judge" using res(1) by (cases "tb_judge b") (simp_all add: resolve_pages_judge_def)
  obtain c h where c: "c \<in> set (collect_resolve_claims env ns pages exclude)" "h \<in> set (rl_candidates c)" "ph_page h = pg"
    using resolved_answer [OF judge res(1) order res(2) False] by blast
  have "\<forall>d \<in> set (leaves_in ns). start_page d \<le> last_page_number pages"
    using leaves_in_data [OF _ starts(1)] by (auto simp: starts_in_def)
  then have "ph_page h \<le> last_page_number pages" by (rule collect_resolve_page [OF c(1) [unfolded collect_resolve_claims_def] c(2)])
  then show ?thesis by (simp add: c(3))
qed (use starts in simp)

lemma resolve_attempts_data:
  assumes order: "\<And>ks. set (rv_order env ks) \<subseteq> set ks"
    and starts: "all_data (starts_in (last_page_number pages)) ns" "0 \<le> last_page_number pages"
  shows "all_data (starts_in (last_page_number pages)) (fst (resolve_attempts env b cancelled pages exclude n err ns st))"
proof (induction n arbitrary: err st rule: less_induct)
  case (less n)
  show ?case
  proof (cases n)
    case 0
    then show ?thesis using starts by (cases st) simp
  next
    case (Suc m)
    obtain r st1 where r: "resolve_pages_judge env b ns pages exclude st = (r, st1)" by (rule prod.exhaust)
    have "all_data (starts_in (last_page_number pages)) (apply_resolved_pages ns res)" if "r = Inr (Some res)" for res
      by (rule apply_resolved_data [OF _ starts(1)])
        (use resolve_pages_written [OF r [unfolded that] _ order starts] in \<open>auto simp: starts_in_def\<close>)
    then show ?thesis
      using less [of 0] less [of m] starts by (auto simp: Suc r split: sum.splits option.splits)
  qed
qed

lemma calibrate_data:
  assumes "all_data (starts_in (last_page_number pages)) ns" "0 < last_page_number pages"
  shows "all_data (starts_in (last_page_number pages)) (calibrate_from_printed ns printed (last_page_number pages))"
proof -
  obtain os n where os: "calibration_offsets printed (leaves_in ns) (\<lambda>_. 0) = (os, n)" by force
  have "starts_in (last_page_number pages) (fst (calibrate_leaf printed k (last_page_number pages) d s))"
    if "starts_in (last_page_number pages) d" for k d s
    using calibrate_leaf_cases [of printed k "last_page_number pages" d s] that assms(2) by (auto simp: starts_in_def)
  then have "all_data (starts_in (last_page_number pages)) (fst (walk_leaves (calibrate_leaf printed k (last_page_number pages)) ns (\<lambda>_. 0)))" for k
    by (rule walk_leaves_data [OF _ assms(1)])
  then show ?thesis using assms(1) by (simp add: calibrate_from_printed_def os)
qed

lemma page_ranges_data:
  assumes "all_data (starts_in (last_page_number pages)) ns" "0 < last_page_number pages"
  shows "all_data (range_within (last_page_number pages)) (page_ranges ns printed pages toc_pages)"
proof -
  let ?P = "starts_in (last_page_number pages)"
  have cleared: "?P (d\<lparr>start_page := 0, end_page := 0\<rparr>)" for d using assms(2) by (simp add: starts_in_def)
  have "all_data ?P (fst (repair_starts ns toc_pages))" by (rule repair_starts_data [OF cleared assms(1)])
  then have "all_data ?P (calibrate_from_printed (fst (repair_starts ns toc_pages)) printed (last_page_number pages))"
    by (rule calibrate_data) (rule assms(2))
  then have "all_data ?P (inherit_parent_starts (fst (repair_starts
      (calibrate_from_printed (fst (repair_starts ns toc_pages)) printed (last_page_number pages)) toc_pages)))"
    by (intro inherit_parent_starts_data repair_starts_data cleared) (simp_all add: starts_in_def)
  then show ?thesis using assms(2) by (simp add: page_ranges_def Let_def derive_end_pages_def derive_in_range)
qed

lemma verify_data:
  assumes "all_data (\<lambda>d. end_page d = 0) ns" "0 \<le> last_page_number pages"
  shows "all_data (starts_in (last_page_number pages)) (fst (verify_titles_concurrent env ns pages st))"
proof (cases "flatten_for_verify ns = []")
  case True
  then show ?thesis by (simp add: verify_titles_concurrent_def all_data_def flat_data_def)
next
  case False
  let ?flat = "flatten_for_verify ns"
  obtain results w spent where run: "run_jobs env (ge_schedule env (verify_jobs ns pages)) (fst st) no_usage = (results, w, spent)"
    by (metis prod_cases3)
  define bad where "bad = (\<lambda>i. i < length ?flat \<and> 0 < start_of (?flat ! i)
      \<and> (by_page pages (start_of (?flat ! i)) = None \<or> results i = Some False))"
  have "starts_in (last_page_number pages) (if bad (0 + j) then (toc (?flat ! j))\<lparr>start_page := 0\<rparr> else toc (?flat ! j))"
    if j: "j < length ?flat" for j
  proof -
    have "end_of (?flat ! j) = 0" using assms(1) j by (auto simp: all_data_def flat_data_def)
    moreover have "start_of (?flat ! j) \<le> last_page_number pages" if "\<not> bad j"
      using that j assms(2) by_page_le [of pages "start_of (?flat ! j)"] by (fastforce simp: bad_def)
    ultimately show ?thesis using assms(2) by (simp add: starts_in_def)
  qed
  then have "all_data (starts_in (last_page_number pages)) (fst (clear_marked bad ns 0))"
    using clear_marked_data [of ns "starts_in (last_page_number pages)" bad 0] by blast
  then show ?thesis using False by (simp add: verify_titles_concurrent_def run Let_def bad_def)
qed

subsection \<open>The whole build\<close>

lemma assembled_data: "(\<And>d. d \<in> set (materialise flat) \<Longrightarrow> P d) \<Longrightarrow> all_data P (assemble_hierarchy flat)"
  by (simp add: all_data_def assemble_hierarchy_keeps_rows)

lemma materialised: "d \<in> set (materialise flat) \<Longrightarrow> end_page d = 0
    \<and> (\<exists>n \<in> set flat. start_page d = (case pl_physical_index n of None \<Rightarrow> 0 | Some p \<Rightarrow> parse_physical_index p))"
  by (auto simp: materialise_def map_filter_def Let_def split: if_splits)

lemma number_entries_unplaced: "n \<in> set (number_entries counters es) \<Longrightarrow> pl_physical_index n = None"
  by (induction es arbitrary: counters) (auto simp: Let_def)

text \<open>The Judge confirmed the entries of a contents page, so the tree is made from them.\<close>

definition judge_extracted :: "'w build_env \<Rightarrow> 'w toc_builder \<Rightarrow> page_text list \<Rightarrow> 'w \<Rightarrow> bool" where
  "judge_extracted env b pages w =
     (case detect_contents env b pages (w, fresh_usage) of
        (toc_pages, st) \<Rightarrow> (case extract_from_toc_pages_judge (be_extract env) b pages toc_pages st of
           (Inr (Some r), st1) \<Rightarrow> True | _ \<Rightarrow> False))"

lemma judge_entries_unplaced:
  assumes "extract_from_toc_pages_judge ex b pages toc_pages st = (Inr (Some (ns, printed)), st1)"
  shows "all_data (\<lambda>d. start_page d = 0 \<and> end_page d = 0) ns"
proof -
  obtain flat where "ns = assemble_hierarchy flat" "\<forall>n \<in> set flat. pl_physical_index n = None"
    using assms number_entries_unplaced
    by (fastforce simp: extract_from_toc_pages_judge_def Let_def split: option.splits prod.splits sum.splits if_splits)
  then show ?thesis using materialised [of _ flat] by (intro assembled_data [of flat, folded \<open>ns = _\<close>]) fastforce
qed

lemma generative_ends:
  assumes "extract_generative env pages toc_pages st = (Inr (ns, printed), st1)"
  shows "all_data (\<lambda>d. end_page d = 0) ns"
proof -
  obtain q where "nodes_from (be_generate env) q st = (Inr ns, st1)"
    using assms by (auto simp: extract_generative_def extract_from_toc_pages_def generate_no_toc_def
      split: prod.splits sum.splits if_splits)
  then show ?thesis using materialised by (auto simp: nodes_from_def intro!: assembled_data split: prod.splits sum.splits)
qed

lemma extracted_ends:
  assumes "extract_entries env b pages toc_pages st = (Inr (ns, printed), st1)"
  shows "all_data (\<lambda>d. end_page d = 0) ns"
proof -
  have "(\<exists>st'. extract_generative env pages toc_pages st' = (Inr (ns, printed), st1))
      \<or> extract_from_toc_pages_judge (be_extract env) b pages toc_pages st = (Inr (Some (ns, printed)), st1)"
    using assms by (auto simp: extract_entries_def simp del: split_paired_Ex split: prod.splits sum.splits option.splits if_splits)
  then show ?thesis
  proof
    assume "extract_from_toc_pages_judge (be_extract env) b pages toc_pages st = (Inr (Some (ns, printed)), st1)"
    from judge_entries_unplaced [OF this] show ?thesis by (rule all_data_mono) simp
  qed (use generative_ends in blast)
qed

lemma placed_data:
  assumes order: "\<And>ks. set (rv_order (be_resolve env) ks) \<subseteq> set ks"
    and ns: "all_data (\<lambda>d. end_page d = 0) ns" "tb_judge b = None \<or> all_data (\<lambda>d. start_page d = 0 \<and> end_page d = 0) ns"
    and L: "0 \<le> last_page_number pages"
  shows "all_data (starts_in (last_page_number pages)) (fst (place_pages env b ns pages toc_pages st))"
proof (cases "tb_judge b = None")
  case True
  then show ?thesis using verify_data [OF ns(1) L] by (simp add: place_pages_def)
next
  case False
  then have "all_data (starts_in (last_page_number pages)) ns"
    using ns(2) L by (auto simp: starts_in_def intro: all_data_mono [of "\<lambda>d. start_page d = 0 \<and> end_page d = 0"])
  from resolve_attempts_data [OF order this L] False show ?thesis
    by (simp add: place_pages_def resolve_pages_or_keep_def)
qed

lemma stamped_data: "all_data (range_within L) ns \<Longrightarrow> all_data (range_within L) (stamp_node_ids ns pfx)"
  unfolding stamp_node_ids_def by (rule stamp_from_data) (simp_all add: range_within_def)

lemma split_step_data:
  "all_data (range_within L) ns \<Longrightarrow> all_data (range_within L) (fst (split_step env b ns pages st))"
  using split_large_leaves_range [of L ns "be_split env" b pages "split_leaves_over b" st]
  by (simp add: split_step_def Let_def split_beta)

text \<open>What \<open>build\<close> returns once the entries are there.\<close>

lemma build_extracted:
  assumes "pages \<noteq> []" "detect_contents env b pages (w, fresh_usage) = (toc_pages, st1)"
    "extract_entries env b pages toc_pages st1 = (Inr (ns, printed), st2)"
  shows "bt_nodes (fst (snd (build env b pages w))) =
    (if ns = [] then []
     else stamp_node_ids (fst (split_step env b (page_ranges (fst (place_pages env b ns pages toc_pages st2)) printed pages toc_pages)
            pages (snd (place_pages env b ns pages toc_pages st2)))) [])"
  using assms by (simp add: build_def Let_def split_beta)

text \<open>
  C9. Every page range of a built tree lies in the document: a section with a known start page ends no
  earlier than it starts and no later than the document's last page, in every node down to the
  sub-leaves of the splitter, whatever the language model and the Judge answer or fail to answer, if there is
  no Judge or the Judge confirmed the entries of a contents page. (With a Judge but a tree from the
  language model, a claimed page is kept when the resolver gives up, and nothing bounds it.) Pages are
  numbered from 1, and the answers of a request are read in some order.
\<close>

theorem build_pages_in_document:
  assumes pages: "\<forall>p \<in> set pages. 0 < pg_number p"
    and order: "\<forall>ks. set (rv_order (be_resolve env) ks) \<subseteq> set ks"
    and extracted: "tb_judge b = None \<or> judge_extracted env b pages w"
  shows "all_data (range_within (last_page_number pages)) (bt_nodes (fst (snd (build env b pages w))))"
proof (cases "pages = []")
  case False
  obtain toc_pages st1 where det: "detect_contents env b pages (w, fresh_usage) = (toc_pages, st1)" by (rule prod.exhaust)
  obtain r st2 where ext: "extract_entries env b pages toc_pages st1 = (r, st2)" by (rule prod.exhaust)
  show ?thesis
  proof (cases r)
    case (Inl e)
    then show ?thesis using False det ext by (simp add: build_def Let_def)
  next
    case (Inr np)
    obtain ns printed where np: "np = (ns, printed)" by (rule prod.exhaust)
    have L: "0 < last_page_number pages" using pages last_page_number_ge [OF hd_in_set [OF False]] hd_in_set [OF False] by force
    have "tb_judge b = None \<or> all_data (\<lambda>d. start_page d = 0 \<and> end_page d = 0) ns"
    proof (cases "tb_judge b = None")
      case judge: False
      then obtain q st where q: "extract_from_toc_pages_judge (be_extract env) b pages toc_pages st1 = (Inr (Some q), st)"
        using extracted by (auto simp: judge_extracted_def det split: prod.splits sum.splits option.splits)
      moreover have "toc_pages \<noteq> []" using q judge by (auto simp: extract_from_toc_pages_judge_def)
      ultimately have "q = (ns, printed)" using ext judge Inr np by (simp add: extract_entries_def)
      then show ?thesis using judge_entries_unplaced q by blast
    qed simp
    then have "all_data (starts_in (last_page_number pages)) (fst (place_pages env b ns pages toc_pages st2))"
      by (rule placed_data [OF order [rule_format] extracted_ends [OF ext [unfolded Inr np]]]) (use L in simp)
    then show ?thesis
      using L by (simp add: build_extracted [OF False det ext [unfolded Inr np]] stamped_data split_step_data page_ranges_data)
  qed
qed (simp add: build_def no_toc_built_def)

text \<open>
  C34. A build that finds its contents by the Judge makes no generative call: where the Judge answered the
  detection and confirmed the entries, the result, the events, the usage and the degradations are
  the same whatever the language model would have said.
\<close>

theorem judge_build_ignores_model:
  assumes "detect_toc_pages_judge b pages (toc_check_pages env) (w, fresh_usage) = (Inr (Some toc_pages), st)"
    and "judge_extracted env b pages w"
  shows "build (env\<lparr>be_generate := (be_generate env)\<lparr>ge_llm := llm\<rparr>\<rparr>) b pages w = build env b pages w"
proof -
  let ?env = "env\<lparr>be_generate := (be_generate env)\<lparr>ge_llm := llm\<rparr>\<rparr>"
  have check: "toc_check_pages ?env = toc_check_pages env" by (simp add: toc_check_pages_def)
  have det: "detect_contents ?env b pages (w, fresh_usage) = (toc_pages, st)" "detect_contents env b pages (w, fresh_usage) = (toc_pages, st)"
    using assms(1) by (simp_all add: detect_contents_def check)
  obtain q st1 where q: "extract_from_toc_pages_judge (be_extract env) b pages toc_pages st = (Inr (Some q), st1)"
    using assms(2) by (auto simp: judge_extracted_def det split: prod.splits sum.splits option.splits)
  have judge: "tb_judge b \<noteq> None" "toc_pages \<noteq> []"
    using q by (cases "tb_judge b"; cases toc_pages; simp add: extract_from_toc_pages_judge_def)+
  have ext: "extract_entries ?env b pages toc_pages st = (Inr q, st1)" "extract_entries env b pages toc_pages st = (Inr q, st1)"
    using q judge by (simp_all add: extract_entries_def)
  have place: "place_pages ?env b ns pages toc_pages st' = place_pages env b ns pages toc_pages st'" for ns st'
    using judge by (simp add: place_pages_def)
  have split: "split_step ?env b ns pages st' = split_step env b ns pages st'" for ns st'
    by (simp add: split_step_def Let_def)
  show ?thesis unfolding build_def Let_def det ext place split prod.case by (cases q) (simp add: split_beta)
qed

subsection \<open>Witnesses\<close>

text \<open>A model that finds two sections; no Judge.\<close>

definition sample_llm :: "unit toc_llm" where
  "sample_llm q w = (Inr \<lparr>rep_content = ''{}'', rep_usage = no_usage\<rparr>, w)"

definition sample_split :: split_env where
  "sample_split = \<lparr>sp_extract = \<lparr>ex_resolve = sample_resolve, ex_digit = (\<lambda>_. False)\<rparr>, sp_noise = (\<lambda>_. False), sp_numbered = (\<lambda>_. False), sp_quote = (\<lambda>s. s)\<rparr>"

definition sample_build :: "unit build_env" where
  "sample_build = \<lparr>be_split = sample_split,
     be_generate = \<lparr>ge_llm = sample_llm, ge_cancelled = (\<lambda>_. False), ge_detected = (\<lambda>_. Some ''no''), ge_start_begin = (\<lambda>_. Some ''yes''),
       ge_nodes = (\<lambda>_. Some [\<lparr>pl_structure = ''1'', pl_title = ''risk factors'', pl_physical_index = Some ''<physical_index_1>''\<rparr>]), ge_schedule = (\<lambda>js. js)\<rparr>,
     be_toc_check = 0\<rparr>"

theorem build_pages_in_document_witness:
  "all_data (range_within (last_page_number sample_pages))
     (bt_nodes (fst (snd (build sample_build (sample_builder\<lparr>tb_judge := None\<rparr>) sample_pages ()))))"
  by (rule build_pages_in_document) (simp_all add: sample_pages_def sample_build_def sample_split_def sample_resolve_def)

definition sample_contents :: "page_text list" where
  "sample_contents = [\<lparr>pg_number = 1, pg_text = ''AAA 1'' @ [CHR 0x0A] @ ''BBB 2'' @ [CHR 0x0A] @ ''CCC 3''\<rparr>]"

abbreviation sample_start :: "unit toc_state" where
  "sample_start \<equiv> ((), fresh_usage)"

lemma sample_batches: "batch_by_tokens sample_builder sample_contents toc_detector_max_chars = [sample_contents]"
  by code_simp

lemma sample_request: "contents_request toc_detector_max_chars sample_contents = [(''page_001'', Is_Contents (pg_text (hd sample_contents)))]"
  by code_simp

lemma sample_candidates: "detect_candidates sample_contents 20 = sample_contents"
  by code_simp

lemma sample_entries:
  "parse_contents_entries (be_extract sample_build) (join_toc_pages_text sample_contents [1]) =
     [\<lparr>ce_title = ''AAA'', ce_printed = 1, ce_depth = 1, ce_container = False\<rparr>,
      \<lparr>ce_title = ''BBB'', ce_printed = 2, ce_depth = 1, ce_container = False\<rparr>,
      \<lparr>ce_title = ''CCC'', ce_printed = 3, ce_depth = 1, ce_container = False\<rparr>]"
  by code_simp

lemma sample_threshold: "f_lt (judge_threshold sample_builder) (Fin 1)"
  by code_simp

lemma sample_found: "contents_found (judge_threshold sample_builder)
    \<lparr>jd_noul = (\<lambda>k. Some (Fin 1)), jd_input = 1, jd_output = 1, jd_total = 2, jd_cost = Fin 0\<rparr> sample_contents = [1]"
  by (simp add: contents_found_def sample_contents_def map_filter_def sample_threshold)

lemma sample_fields [simp]:
  "tb_judge sample_builder = Some sample_judge" "tb_minimal sample_builder = False"
  by (simp_all add: sample_builder_def)

lemma sample_detected:
  "\<exists>st. detect_toc_pages_judge sample_builder sample_contents (toc_check_pages sample_build) sample_start = (Inr (Some [1]), st)"
proof -
  have "toc_check_pages sample_build = 20" "sample_contents \<noteq> []"
    by (simp_all add: toc_check_pages_def sample_build_def sample_contents_def)
  then show ?thesis
    by (simp add: detect_toc_pages_judge_def sample_candidates judge_toc_batches_def sample_batches sample_request
      ask_def sample_judge_def sample_found)
qed

lemma sample_confirmed:
  "fst (confirm_entries_judge sample_builder sample_judge
     [\<lparr>ce_title = ''AAA'', ce_printed = 1, ce_depth = 1, ce_container = False\<rparr>,
      \<lparr>ce_title = ''BBB'', ce_printed = 2, ce_depth = 1, ce_container = False\<rparr>,
      \<lparr>ce_title = ''CCC'', ce_printed = 3, ce_depth = 1, ce_container = False\<rparr>] (join_toc_pages_text sample_contents [1]) ((), u))
    = Inr [True, True, True]"
  by code_simp

lemma sample_judge_extracted: "judge_extracted sample_build sample_builder sample_contents ()"
proof -
  obtain u where det: "detect_toc_pages_judge sample_builder sample_contents (toc_check_pages sample_build) sample_start = (Inr (Some [1]), ((), u))"
    using sample_detected by auto
  have "\<exists>r st. extract_from_toc_pages_judge (be_extract sample_build) sample_builder sample_contents [1] ((), u) = (Inr (Some r), st)"
    using sample_confirmed [of u]
    by (auto simp: extract_from_toc_pages_judge_def Let_def sample_entries count_real_entries_def min_contents_entries_def split: prod.splits sum.splits)
  then show ?thesis by (auto simp: judge_extracted_def detect_contents_def det)
qed

theorem judge_build_ignores_model_witness:
  "build (sample_build\<lparr>be_generate := (be_generate sample_build)\<lparr>ge_llm := \<lambda>q w. (Inl Not_Implemented, w)\<rparr>\<rparr>) sample_builder sample_contents ()
    = build sample_build sample_builder sample_contents ()"
proof -
  obtain st where "detect_toc_pages_judge sample_builder sample_contents (toc_check_pages sample_build) sample_start = (Inr (Some [1]), st)"
    using sample_detected by blast
  then show ?thesis by (rule judge_build_ignores_model) (rule sample_judge_extracted)
qed

subsection \<open>What the builder does not report\<close>

text \<open>
  \<open>Degraded\<close> is said to list every Judge step that could not complete. A failed detection is not in
  it: the pages are asked of the language model and nothing is recorded.
\<close>

lemma json_attempts_degraded: "tu_degraded (snd (snd (json_attempts llm q n strict raw st))) = tu_degraded (snd st)"
proof (induction n arbitrary: strict raw st)
  case (Suc n)
  obtain w u where st: "st = (w, u)" by (rule prod.exhaust)
  show ?case
  proof (cases "llm (q, strict) w")
    case (Pair r w1)
    then show ?thesis using Suc.IH by (cases r) (auto simp: st add_reply_def split: complete_error.splits)
  qed
qed simp

lemma detect_pages_degraded: "tu_degraded (snd (snd (detect_pages env ps st))) = tu_degraded (snd st)"
proof (induction ps arbitrary: st)
  case (Cons p ps)
  obtain r st1 where d: "run_toc_detector env (trim_space (pg_text p)) st = (r, st1)" by (rule prod.exhaust)
  have "tu_degraded (snd st1) = tu_degraded (snd st)"
    using json_attempts_degraded [of "ge_llm env" _ "default_toc_retries + 1" False "[]" st] d
    by (auto simp: run_toc_detector_def run_toc_json_def split: prod.splits sum.splits) (metis snd_conv)+
  then show ?case using Cons.IH by (cases r) (simp_all add: Let_def d split_beta)
qed simp

lemma failed_detection_not_degraded:
  assumes "detect_toc_pages_judge b pages (toc_check_pages env) st = (Inl e, st1)"
  shows "tu_degraded (snd (snd (detect_contents env b pages st))) = tu_degraded (snd st1)"
  using assms detect_pages_degraded by (simp add: detect_contents_def detect_toc_pages_def)

text \<open>
  \<open>GenerativeCalls\<close> is said to count the chat completions among the calls; those of the
  verification are not in it.
\<close>

lemma verification_calls_not_generative:
  "tu_generative (snd (snd (verify_titles_concurrent env ns pages st))) = tu_generative (snd st)"
  by (simp add: verify_titles_concurrent_def Let_def split_beta)

text \<open>
  A stub model is said not to clear a page, since it never weighed in; its empty reply reads as no.
\<close>

lemma stub_answers_no:
  assumes "\<And>q w. ge_llm env q w = (Inl Not_Implemented, w)"
  shows "fst (run_verify_title env t page st) = Inr False"
  using assms by (cases st) (simp add: run_verify_title_def run_toc_json_def default_toc_retries_def numeral_3_eq_3)

text \<open>The phases a listener hears need not match: an empty tree ends two phases that never began.\<close>

lemma empty_tree_ends_unbegun:
  assumes "pages \<noteq> []" "detect_contents env b pages (w, fresh_usage) = (toc_pages, st1)"
    "extract_entries env b pages toc_pages st1 = (Inr ([], printed), st2)"
  shows "Phase_Begin ''split'' \<notin> set (bt_events (fst (snd (build env b pages w))))
    \<and> Phase_End ''split'' ''nothing to split'' \<in> set (bt_events (fst (snd (build env b pages w))))"
  using assms by (simp add: build_def Let_def)

text \<open>
  Siblings are repaired before containers inherit the start of their first child, so an inherited
  start can still go backwards; the sibling before it then runs to the end of the document.
\<close>

definition backward_parts :: "toc_node list" where
  "backward_parts = [TOC (new_leaf ''A'' 10) [], TOC (new_leaf ''B'' 0) [TOC (new_leaf ''C'' 5) []]]"

lemma inherited_start_goes_back:
  "repair_starts backward_parts [] = (backward_parts, 0)
    \<and> map start_of (inherit_parent_starts (fst (repair_starts backward_parts []))) = [10, 5]"
proof -
  have "forest_ok [] 0 backward_parts"
    by (simp add: backward_parts_def new_leaf_def forest_ok_def level_ok_def placed_pages_def)
  then have "repair_starts backward_parts [] = (backward_parts, 0)" by (simp add: repair_starts_def repair_walk_id)
  moreover have "map start_of (inherit_parent_starts backward_parts) = [10, 5]" by code_simp
  ultimately show ?thesis by simp
qed

end
