(* ===== verification/Spec2Isabelle.thy ===== *)
theory Spec2Isabelle
  imports Cache_LRU Tree_Model Toc_Builder Heading_Path Llms_Txt Tree_Walk Chunked_Tree Re_Rank Calc_Roundtrip Judge_Samples Strategy_Cache Pdf_Document Http_Chain Toc_Build
begin

text \<open>
  The vectorless engine answers questions about documents without embeddings: a parser turns a file
  into a tree of sections, ingestion builds a table of contents over its pages, and a retrieval strategy
  asks language models and a Judge (a service that gives probabilities) which sections and pages hold
  the answer. This development models that core and states what makes each part correct. Paths below
  are relative to \<open>src/\<close>.

  \<^bold>\<open>How the parts interact.\<close> A PDF parser reads rows of text, makes an outline of them and shapes it
  (\<open>pkg/parser\<close>). The contents builder (\<open>pkg/ingest\<close>) finds or generates a contents tree, places its
  leaves on pages, repairs the placements, derives page ranges and splits long leaves. A strategy
  (\<open>pkg/retrieval\<close>) is given the section tree (\<open>pkg/tree\<close>) and a question and returns section IDs: in one
  call, in a call per slice, by paging through the document, or by ranking contents leaves and pages
  with the Judge. Strategies are composed (fallback, routing, decomposition), cached (\<open>pkg/cache\<close>), and
  their responses can be replayed. Sums in an answer are computed by \<open>pkg/calc\<close>. The server puts a chain
  of middleware (\<open>internal/middleware\<close>) before its handlers.

  \<^bold>\<open>Theories.\<close>
  \<^item> Prelude: \<open>Go_Prelude\<close> (list loops, stable sorting, schedules of concurrent calls), \<open>Go_Strings\<close> (byte
    strings, \<open>strings\<close> and \<open>strconv\<close>), \<open>Float64\<close> (\<open>float64\<close> as rounded rationals with infinities and NaN).
  \<^item> Trees: \<open>Tree_Model\<close> (\<open>pkg/tree/tree.go\<close>, \<open>compact.go\<close>), \<open>Toc_Tree\<close>, \<open>Heading_Path\<close> (\<open>heading_path.go\<close>),
    \<open>Llms_Txt\<close> (\<open>llmstxt.go\<close>).
  \<^item> Strategies: \<open>Strategy_Core\<close> (\<open>strategy.go\<close>, \<open>trace.go\<close>), \<open>Selection\<close> (\<open>single_pass.go\<close>), \<open>Splitter\<close> and
    \<open>Chunked_Tree\<close> (\<open>splitter.go\<close>, \<open>chunked_tree.go\<close>), \<open>Re_Rank\<close> (\<open>rerank.go\<close>), \<open>Page_Ranges\<close> and \<open>Tree_Walk\<close>
    (\<open>treewalk_strategy.go\<close>), \<open>Agentic\<close> (\<open>agentic.go\<close>), \<open>Judge_Rank\<close>, \<open>Judge_Navigate\<close>, \<open>Judge_Strategy\<close>,
    \<open>Judge_Samples\<close> (\<open>judgewalk.go\<close>), \<open>Strategy_Compose\<close> (\<open>fallback.go\<close>, \<open>auto.go\<close>, \<open>decompose.go\<close>,
    \<open>public_name.go\<close>, the choice in \<open>cmd/server/main.go\<close>), \<open>Strategy_Cache\<close> (\<open>cached.go\<close>, \<open>plan.go\<close>,
    \<open>replay.go\<close> and its endpoint in \<open>internal/api/server.go\<close>), over \<open>Cache_LRU\<close> (\<open>pkg/cache/cache.go\<close>).
  \<^item> Contents building: \<open>Toc_Builder\<close> (the passes of \<open>toc_builder.go\<close>), \<open>Toc_Judge\<close> (\<open>toc_judge.go\<close>,
    \<open>toc_judge_fanout.go\<close>, \<open>prefilter.go\<close>), \<open>Toc_Resolve\<close> (\<open>toc_resolve.go\<close>), \<open>Toc_Extract\<close>
    (\<open>toc_extract_judge.go\<close>), \<open>Toc_Split\<close> (\<open>toc_split.go\<close>), \<open>Toc_Generate\<close>, \<open>Toc_Pages\<close> and \<open>Toc_Build\<close> (the
    generative path and \<open>Build\<close> of \<open>toc_builder.go\<close>).
  \<^item> Parsing: \<open>Parsed_Section\<close> (\<open>parser.go\<close>, its builder in \<open>hierarchy.go\<close>), \<open>Pdf_Rows\<close>, \<open>Section_Shape\<close>,
    \<open>Section_Chunks\<close>, \<open>Table_Text\<close>, \<open>Pdf_Document\<close> (\<open>pdf.go\<close>, tables of \<open>docx.go\<close>).
  \<^item> Arithmetic: \<open>Calc_Eval\<close>, \<open>Calc_Resolve\<close>, \<open>Calc_Roundtrip\<close> (\<open>pkg/calc/calc.go\<close>).
  \<^item> Server: \<open>Rate_Limit\<close> (\<open>ratelimit.go\<close>, \<open>ratelimit_principal.go\<close>), \<open>Http_Chain\<close> (the rest of
    \<open>internal/middleware\<close> in the order of \<open>internal/handler/router.go\<close>).

  \<^bold>\<open>How code becomes definitions.\<close> A struct is a \<open>record\<close>, an enumeration a \<open>datatype\<close>, a string its list
  of bytes, \<open>int\<close> an \<open>int\<close> with \<open>wrap64\<close> where Go's wrap-around can matter (token counts, numbers read from
  text), \<open>float64\<close> a rational rounded after every operation, a Go map that is read by key a HOL map, an
  error the left part of a sum. A model, a Judge, a page loader, a store is a function that is given a
  world and returns an answer and the next world, so its answers may depend on everything asked before;
  properties that need an answer by the request alone, or an answer at all, say so. Code that is not
  under \<open>src/\<close> (JSON decoding, SHA-256, tokenizers, \<open>math.Pow\<close>, regular expressions over Unicode classes,
  the PDF library, the clock) is a parameter. Concurrent calls run in an explicit order, a parameter too.
  The server is a step relation over interleaved requests.

  \<^bold>\<open>What the lemmas show.\<close>
  \<^item> Interfaces: \<open>strategy\<close> (selected sections exist, each once, with confidences only for them) is interpreted
    on every strategy, passed through \<open>strategy_pair\<close> to fallback and routing; \<open>ttl_cache\<close> on the LRU.
  \<^item> Strategies: hop, page and citation limits; the best cited ranges; slices that cover the tree; the outcome
    of retried calls; independence of the order of concurrent calls; limits and termination of navigation;
    units of a body that lose nothing but white space.
  \<^item> Caches: the LRU refines a list in order of recency; a cached answer and a replay were really given.
  \<^item> Contents: repair reads forward and is idempotent, clearing is least destructive, derived ranges are
    exact and nested, resolved pages were confirmed, splitting keeps coverage, no range leaves the document.
  \<^item> Parsing: the outline is the one its headings mean; capping, cutting and shaping lose no text; tables
    read back.
  \<^item> Arithmetic: the evaluator is its grammar, the resolver its recursive reading, numbers read back.
  \<^item> Server: the exact rate in any window, invisible sweeps, authentication before the handler and the
    replay cache, replays inside an organisation.
  Lemmas beside them show where the code departs from its comments, among them
  \<open>tree_walk_exceeds_max_hops\<close>, \<open>lone_page_over_budget\<close>, \<open>chunk_body_cuts_a_character\<close>,
  \<open>negative_result_under_power\<close>, \<open>short_polls_starve\<close>, \<open>bar_in_org_collides\<close>, \<open>inherited_start_goes_back\<close>.

  \<^bold>\<open>Bounds and fuel.\<close> Most loops are structural or have a measure. Fuel remains in the tokenizer and parser
  of the arithmetic (enough for every text: \<open>Calc_Eval\<close>), in the cutting of a body (its length: \<open>Judge_Strategy\<close>),
  and in the eviction loop (\<open>Cache_LRU\<close>), each with a theorem that it suffices. The cap on leaf sections has a
  guard of 1,000,000 rounds in the code itself, which its theorem takes as the bound on the tree. Rates
  are bounded by 10,000 a minute where the rounding of the refill is bounded.

  \<^bold>\<open>Where the model abstracts.\<close>
  \<^item> The rows of a contents tree are appended by position where the code holds pointers into slices, so a
    stale pointer cannot be expressed.
  \<^item> The retries of one slice run together in the order of calls, the two rankings of \<open>SkimAll\<close> one after
    the other, the steps of one request of the server between those of others.
  \<^item> Letters are folded as ASCII where references and operands are matched; other matchers on Unicode
    classes are parameters.
  \<^item> A slice past the end of a list is an error value in the choice of pages to read (\<open>prefix_slice\<close>), also
    where Go would read on into spare capacity.
  \<^item> Prompt texts and question wordings are constructors; contexts, deadlines and logs are left out
    except where the code branches on them.

  \<^bold>\<open>Not modelled\<close>: the readers of other formats (Markdown, HTML, spreadsheets, word processing), the
  ingestion job around the contents builder, corpus and multi-document navigation, citation boxes,
  streaming variants, HTTP handlers, observing middleware, the model registry, queues, storage, the
  database, configuration, commands and generated code. They are input and output around the modelled
  parts, or wait for a later extension (the format readers, ingestion, corpus navigation, citation boxes).
\<close>

end
